(* ===== verification/Prelude.thy ===== *)
theory Prelude imports Main "HOL-Library.Word" begin

text \<open>
  Shared vocabulary of the development: the faults a C++ operation can end in, the
  result type that carries them, sequencing, counted loops over a result, and the
  collections of facts the component theories feed to the simplifier.
\<close>

section \<open>Faults and results\<close>

text \<open>
  The operations of the simulator stop abnormally in a few ways: a failed
  \<open>assert\<close>, a lookup of a missing key (\<open>unordered_map::at\<close> throws), an access
  outside the allocation a pointer belongs to, a call of gem5's \<open>fatal\<close> or
  \<open>panic\<close>, and a conversion or division that has no defined value.  \<open>OutOfFuel\<close> is no
  fault of the program: a loop that may run forever has not ended within the given number of
  passes.
\<close>

datatype fault = AssertFail | MissingKey | OutOfBounds | FatalError | PanicError | Undefined | OutOfFuel

type_synonym 'a res = "fault + 'a"

type_synonym byte = "8 word"
type_synonym tick = "64 word"

definition bindR :: "'a res \<Rightarrow> ('a \<Rightarrow> 'b res) \<Rightarrow> 'b res" where
  "bindR m f = (case m of Inl e \<Rightarrow> Inl e | Inr x \<Rightarrow> f x)"

definition guardR :: "bool \<Rightarrow> fault \<Rightarrow> unit res" where
  "guardR b e = (if b then Inr () else Inl e)"

definition okR :: "'a res \<Rightarrow> bool" where
  "okR m = (case m of Inl _ \<Rightarrow> False | Inr _ \<Rightarrow> True)"

named_theorems res_simps "equations of the result type"

lemma bindR_Inl [simp, res_simps]: "bindR (Inl e) f = Inl e"
  by (simp add: bindR_def)

lemma bindR_Inr [simp, res_simps]: "bindR (Inr x) f = f x"
  by (simp add: bindR_def)

lemma guardR_True [simp, res_simps]: "guardR True e = Inr ()"
  by (simp add: guardR_def)

lemma guardR_False [simp, res_simps]: "guardR False e = Inl e"
  by (simp add: guardR_def)

lemma guardR_eq_Inr [simp, res_simps]: "guardR b e = Inr u \<longleftrightarrow> b"
  by (simp add: guardR_def)

lemma okR_simps [simp, res_simps]: "okR (Inr x)" "\<not> okR (Inl e)"
  by (simp_all add: okR_def)

lemma okR_iff: "okR m \<longleftrightarrow> (\<exists>x. m = Inr x)"
  by (cases m) simp_all

lemma okR_guardR [simp, res_simps]: "okR (guardR b e) \<longleftrightarrow> b"
  by (simp add: guardR_def)

lemma bindR_eq_Inr: "bindR m f = Inr y \<longleftrightarrow> (\<exists>x. m = Inr x \<and> f x = Inr y)"
  by (cases m) simp_all

lemma bindR_eq_Inl: "bindR m f = Inl e \<longleftrightarrow> m = Inl e \<or> (\<exists>x. m = Inr x \<and> f x = Inl e)"
  by (cases m) simp_all

lemma okR_bindR: "okR (bindR m f) \<longleftrightarrow> (\<exists>x. m = Inr x \<and> okR (f x))"
  by (cases m) simp_all

lemma bindR_assoc: "bindR (bindR m f) g = bindR m (\<lambda>x. bindR (f x) g)"
  by (cases m) simp_all

lemma bindR_cong [fundef_cong]:
  "m = n \<Longrightarrow> (\<And>x. n = Inr x \<Longrightarrow> f x = g x) \<Longrightarrow> bindR m f = bindR n g"
  by (cases n) simp_all

text \<open>Multiplication of C++ \<open>int\<close>s: overflow has no defined value.\<close>

definition int_mul :: "int \<Rightarrow> int \<Rightarrow> int res" where
  "int_mul a b = (if - (2 ^ 31) \<le> a * b \<and> a * b < 2 ^ 31 then Inr (a * b) else Inl Undefined)"

section \<open>Counted loops\<close>

text \<open>
  \<open>for (i = lo; i < hi; i += st) body\<close> visits the indices of \<open>idx lo hi st\<close> in
  order; \<open>forR\<close> threads the loop's state through the body and stops at the first fault.
\<close>

fun forR :: "('i \<Rightarrow> 's \<Rightarrow> 's res) \<Rightarrow> 'i list \<Rightarrow> 's \<Rightarrow> 's res" where
  "forR body [] s = Inr s"
| "forR body (i # is) s = bindR (body i s) (forR body is)"

function idx :: "int \<Rightarrow> int \<Rightarrow> int \<Rightarrow> int list" where
  "idx lo hi st = (if lo < hi \<and> 0 < st then lo # idx (lo + st) hi st else [])"
  by pat_completeness auto
termination
  by (relation "measure (\<lambda>(lo, hi, st). nat (hi - lo))") auto

declare idx.simps [simp del]

lemma idx_set: "i \<in> set (idx lo hi st) \<Longrightarrow> lo \<le> i \<and> i < hi \<and> st dvd (i - lo)"
proof (induction lo hi st rule: idx.induct)
  case (1 lo hi st)
  show ?case
  proof (cases "lo < hi \<and> 0 < st")
    case True
    then have "i = lo \<or> i \<in> set (idx (lo + st) hi st)"
      using "1.prems" by (subst (asm) idx.simps) simp
    then show ?thesis
    proof
      assume "i = lo" with True show ?thesis by simp
    next
      assume "i \<in> set (idx (lo + st) hi st)"
      from "1.IH" [OF True this] have "lo + st \<le> i" "i < hi" "st dvd (i - (lo + st))" by auto
      moreover from this(3) have "st dvd (i - (lo + st)) + st" by (rule dvd_add) simp
      ultimately show ?thesis using True by simp
    qed
  next
    case False
    then show ?thesis using "1.prems" by (subst (asm) idx.simps) auto
  qed
qed

lemma idx_mem: "lo \<le> i \<Longrightarrow> i < hi \<Longrightarrow> 0 < st \<Longrightarrow> st dvd (i - lo) \<Longrightarrow> i \<in> set (idx lo hi st)"
proof (induction lo hi st rule: idx.induct)
  case (1 lo hi st)
  then have g: "lo < hi \<and> 0 < st" by simp
  show ?case
  proof (cases "i = lo")
    case True
    with g show ?thesis by (subst idx.simps) simp
  next
    case False
    with "1.prems" have "st \<le> i - lo" by (intro zdvd_imp_le) auto
    moreover have "st dvd (i - lo) - st" by (rule dvd_diff [OF "1.prems"(4)]) simp
    ultimately have "i \<in> set (idx (lo + st) hi st)"
      using "1.prems" g by (intro "1.IH") (auto simp: algebra_simps)
    with g show ?thesis by (subst idx.simps) simp
  qed
qed

lemma set_idx_1: "set (idx lo hi 1) = {lo..<hi}"
  by (auto dest: idx_set intro: idx_mem)

lemma idx_empty [simp]: "hi \<le> lo \<Longrightarrow> idx lo hi st = []"
  by (subst idx.simps) simp

lemma idx_sorted: "sorted (idx lo hi st)"
proof (induction lo hi st rule: idx.induct)
  case (1 lo hi st)
  show ?case
  proof (cases "lo < hi \<and> 0 < st")
    case True
    have "\<forall>i\<in>set (idx (lo + st) hi st). lo \<le> i"
      using True by (auto dest!: idx_set)
    with True "1.IH" show ?thesis by (subst idx.simps) simp
  next
    case False
    then show ?thesis by (subst idx.simps) auto
  qed
qed

lemma distinct_idx: "distinct (idx lo hi st)"
proof (induction lo hi st rule: idx.induct)
  case (1 lo hi st)
  show ?case
  proof (cases "lo < hi \<and> 0 < st")
    case True
    have "lo \<notin> set (idx (lo + st) hi st)"
      using True by (auto dest!: idx_set)
    with True "1.IH" show ?thesis by (subst idx.simps) simp
  next
    case False
    then show ?thesis by (subst idx.simps) auto
  qed
qed

lemma length_idx_1: "length (idx lo hi 1) = nat (hi - lo)"
  using distinct_card [OF distinct_idx [of lo hi 1]] by (simp add: set_idx_1)

subsection \<open>Rules for loops\<close>

text \<open>
  The invariant rule: when every visited index keeps \<open>I\<close> and does not fault from
  states of \<open>I\<close>, the loop returns in a state of \<open>I\<close>. The relational rule compares
  two loops over the same indices step by step, faults included.
\<close>

lemma forR_invariant:
  assumes "\<And>i s. i \<in> set is \<Longrightarrow> I s \<Longrightarrow> \<exists>s'. body i s = Inr s' \<and> I s'"
    and "I s"
  shows "\<exists>s'. forR body is s = Inr s' \<and> I s'"
  using assms
proof (induction "is" arbitrary: s)
  case Nil
  then show ?case by simp
next
  case (Cons i "is")
  from Cons.prems obtain t where t: "body i s = Inr t" "I t" by fastforce
  have "\<exists>s'. forR body is t = Inr s' \<and> I s'"
    by (rule Cons.IH) (use Cons.prems(1) t(2) in auto)
  with t show ?case by simp
qed

lemma forR_keeps:
  assumes "\<And>i s s'. i \<in> set is \<Longrightarrow> I s \<Longrightarrow> body i s = Inr s' \<Longrightarrow> I s'"
    and "I s" and "forR body is s = Inr s'"
  shows "I s'"
  using assms
  by (induction "is" arbitrary: s) (auto simp: bindR_eq_Inr)

definition res_rel :: "('a \<Rightarrow> 'b \<Rightarrow> bool) \<Rightarrow> 'a res \<Rightarrow> 'b res \<Rightarrow> bool" where
  "res_rel R m n = (case (m, n) of (Inl e, Inl e') \<Rightarrow> e = e' | (Inr x, Inr y) \<Rightarrow> R x y | _ \<Rightarrow> False)"

lemma res_rel_simps [simp, res_simps]:
  "res_rel R (Inl e) (Inl e') \<longleftrightarrow> e = e'" "res_rel R (Inr x) (Inr y) \<longleftrightarrow> R x y"
  "\<not> res_rel R (Inl e) (Inr y)" "\<not> res_rel R (Inr x) (Inl e')"
  by (simp_all add: res_rel_def)

lemma res_rel_refl: "(\<And>x. R x x) \<Longrightarrow> res_rel R m m"
  by (cases m) simp_all

lemma res_rel_mono: "res_rel R m n \<Longrightarrow> (\<And>x y. R x y \<Longrightarrow> S x y) \<Longrightarrow> res_rel S m n"
  by (cases m; cases n) simp_all

lemma bindR_rel:
  assumes "res_rel R m n" and "\<And>x y. R x y \<Longrightarrow> m = Inr x \<Longrightarrow> n = Inr y \<Longrightarrow> res_rel S (f x) (g y)"
  shows "res_rel S (bindR m f) (bindR n g)"
  using assms by (cases m; cases n) simp_all

lemma bindR_rel_same:
  assumes "\<And>x. m = Inr x \<Longrightarrow> res_rel S (f x) (g x)"
  shows "res_rel S (bindR m f) (bindR m g)"
  using assms by (cases m) simp_all

lemma forR_rel:
  assumes "\<And>i s t. i \<in> set is \<Longrightarrow> R s t \<Longrightarrow> res_rel R (body i s) (body' i t)"
    and "R s t"
  shows "res_rel R (forR body is s) (forR body' is t)"
  using assms
proof (induction "is" arbitrary: s t)
  case Nil
  then show ?case by simp
next
  case (Cons i "is")
  have "res_rel R (body i s) (body' i t)" using Cons.prems by simp
  then show ?case
    unfolding forR.simps
    by (rule bindR_rel) (use Cons in auto)
qed

lemma forR_append_fun: "forR body (is @ js) = (\<lambda>s. bindR (forR body is s) (forR body js))"
  by (induction "is") (auto simp: fun_eq_iff bindR_def split: sum.splits)

lemma forR_append: "forR body (is @ js) s = bindR (forR body is s) (forR body js)"
  by (simp add: forR_append_fun)


text \<open>Total loops with a counter: each pass adds between 0 and \<open>k\<close>.\<close>

lemma forR_bounded:
  fixes cnt :: "'s \<Rightarrow> int"
  assumes "\<And>i s. i \<in> set is \<Longrightarrow> P s \<Longrightarrow>
      \<exists>s'. body i s = Inr s' \<and> P s' \<and> cnt s \<le> cnt s' \<and> cnt s' \<le> cnt s + k"
    and "P s"
  shows "\<exists>s'. forR body is s = Inr s' \<and> P s' \<and> cnt s \<le> cnt s' \<and> cnt s' \<le> cnt s + k * int (length is)"
  using assms
proof (induction "is" arbitrary: s)
  case Nil
  then show ?case by simp
next
  case (Cons i "is")
  obtain t where t: "body i s = Inr t" "P t" "cnt s \<le> cnt t" "cnt t \<le> cnt s + k"
    using Cons.prems by fastforce
  have "\<exists>s'. forR body is t = Inr s' \<and> P s' \<and> cnt t \<le> cnt s' \<and> cnt s' \<le> cnt t + k * int (length is)"
    by (rule Cons.IH) (use Cons.prems(1) t(2) in auto)
  then obtain u where u: "forR body is t = Inr u" "P u" "cnt t \<le> cnt u" "cnt u \<le> cnt t + k * int (length is)"
    by blast
  have "cnt u \<le> cnt s + k * int (length (i # is))" using t(4) u(4) by (simp add: algebra_simps)
  then show ?case using t u by auto
qed

lemma forR_counts:
  fixes cnt :: "'s \<Rightarrow> int"
  assumes "\<And>i s s'. i \<in> set is \<Longrightarrow> body i s = Inr s' \<Longrightarrow> cnt s' = cnt s + k"
    and "forR body is s = Inr s'"
  shows "cnt s' = cnt s + k * int (length is)"
  using assms
proof (induction "is" arbitrary: s)
  case Nil
  then show ?case by simp
next
  case (Cons i "is")
  from Cons.prems(2) obtain t where t: "body i s = Inr t" "forR body is t = Inr s'"
    by (auto simp: bindR_eq_Inr)
  have "cnt s' = cnt t + k * int (length is)" by (rule Cons.IH) (use Cons.prems(1) t(2) in auto)
  then show ?case using Cons.prems(1) [OF _ t(1)] by (simp add: algebra_simps)
qed


text \<open>Nested loops are one loop over the pairs of indices.\<close>

lemma forR_map: "forR body (map f is) s = forR (\<lambda>i. body (f i)) is s"
  by (induction "is" arbitrary: s) (auto simp: bindR_def split: sum.splits)

lemma forR_cong:
  "(\<And>i s. i \<in> set is \<Longrightarrow> body i s = body' i s) \<Longrightarrow> forR body is s = forR body' is s"
  by (induction "is" arbitrary: s) (auto simp: bindR_def split: sum.splits)

lemma forR_product:
  "forR (\<lambda>i. forR (body i) js) is s = forR (\<lambda>(i, j). body i j) (List.product is js) s"
  by (induction "is" arbitrary: s) (auto simp: forR_append forR_map bindR_def split: sum.splits)


text \<open>A number has one representation as a digit and a quotient.\<close>

lemma digit_inj:
  fixes a :: int
  assumes "a + n * b = a' + n * b'" "0 \<le> a" "a < n" "0 \<le> a'" "a' < n"
  shows "a = a' \<and> b = b'"
proof -
  have "a = (a + n * b) mod n" using assms(2,3) by simp
  also have "\<dots> = (a' + n * b') mod n" by (simp only: assms(1))
  also have "\<dots> = a'" using assms(4,5) by simp
  finally have "a = a'" .
  then show ?thesis using assms by simp
qed

end
