(* ===== verification/Intmath.thy ===== *)
theory Intmath imports Prelude begin

text \<open>
  gem5's integer helpers: base/intmath.hh, intmath.cc and bitfield.hh.  A template over an
  unsigned type is a function on words of any length; \<open>int\<close> arguments are integers with
  the overflow of C++ written out.
\<close>

unbundle bit_operations_syntax

section \<open>base/intmath.hh\<close>

definition leastSigBit :: "'a::len word \<Rightarrow> 'a word" where
  "leastSigBit n = n AND NOT (n - 1)"

definition isPowerOf2 :: "'a::len word \<Rightarrow> bool" where
  "isPowerOf2 n \<longleftrightarrow> n \<noteq> 0 \<and> leastSigBit n = n"

text \<open>\<open>x\<close> counts to \<open>e\<close> as an \<open>int\<close> compared with an unsigned: past \<open>INT_MAX\<close> it
  overflows.\<close>

definition power_u :: "32 word \<Rightarrow> 32 word \<Rightarrow> 64 word res" where
  "power_u n e =
     (if e = 0 then Inr 1
      else if 2 ^ 31 < unat e then Inl Undefined
      else Inr (((\<lambda>result. result * ucast n) ^^ (unat e - 1)) (ucast n)))"

text \<open>One line of \<open>floorLog2\<close>: \<open>if (x & m) { y += k; x >>= k; }\<close>.\<close>

definition lg_line :: "'a::len word \<Rightarrow> nat \<Rightarrow> nat \<times> 'a word \<Rightarrow> nat \<times> 'a word" where
  "lg_line m k = (\<lambda>(y, x). if x AND m \<noteq> 0 then (y + k, drop_bit k x) else (y, x))"

definition floorLog2_32 :: "32 word \<Rightarrow> nat res" where
  "floorLog2_32 x =
     bindR (guardR (0 < x) AssertFail) (\<lambda>_.
     Inr (fst (lg_line 0x00000002 1 (lg_line 0x0000000c 2 (lg_line 0x000000f0 4
       (lg_line 0x0000ff00 8 (lg_line 0xffff0000 16 (0, x))))))))"

definition floorLog2_64 :: "64 word \<Rightarrow> nat res" where
  "floorLog2_64 x =
     bindR (guardR (0 < x) AssertFail) (\<lambda>_.
     Inr (fst (lg_line 0x0000000000000002 1 (lg_line 0x000000000000000c 2 (lg_line 0x00000000000000f0 4
       (lg_line 0x000000000000ff00 8 (lg_line 0x00000000ffff0000 16 (lg_line 0xffffffff00000000 32 (0, x)))))))))"

definition floorLog2_int :: "int \<Rightarrow> nat res" where
  "floorLog2_int x = bindR (guardR (0 < x) AssertFail) (\<lambda>_. floorLog2_32 (word_of_int x))"

definition ceilLog2_32 :: "32 word \<Rightarrow> nat res" where
  "ceilLog2_32 n = (if n = 1 then Inr 0 else bindR (floorLog2_32 (n - 1)) (\<lambda>y. Inr (y + 1)))"

definition ceilLog2_64 :: "64 word \<Rightarrow> nat res" where
  "ceilLog2_64 n = (if n = 1 then Inr 0 else bindR (floorLog2_64 (n - 1)) (\<lambda>y. Inr (y + 1)))"

definition floorPow2_64 :: "64 word \<Rightarrow> 64 word res" where
  "floorPow2_64 n = bindR (floorLog2_64 n) (\<lambda>y. Inr (push_bit y 1))"

text \<open>A shift by the width is undefined.\<close>

definition ceilPow2_64 :: "64 word \<Rightarrow> 64 word res" where
  "ceilPow2_64 n = bindR (ceilLog2_64 n) (\<lambda>y. if y < 64 then Inr (push_bit y 1) else Inl Undefined)"

definition divCeil :: "'a::len word \<Rightarrow> 'a word \<Rightarrow> 'a word res" where
  "divCeil a b = (if b = 0 then Inl Undefined else Inr ((a + b - 1) div b))"

definition roundUp :: "'a::len word \<Rightarrow> 'a word \<Rightarrow> 'a word" where
  "roundUp val al = (let m = al - 1 in (val + m) AND NOT m)"

definition roundDown :: "'a::len word \<Rightarrow> 'a word \<Rightarrow> 'a word" where
  "roundDown val al = (let m = al - 1 in val AND NOT m)"

text \<open>Characters are compared by their codes.\<close>

definition within :: "char \<Rightarrow> char \<Rightarrow> char \<Rightarrow> bool" where
  "within a b c \<longleftrightarrow> (of_char a :: int) \<le> of_char c \<and> (of_char c :: int) \<le> of_char b"

definition isHex :: "char \<Rightarrow> bool" where
  "isHex c \<longleftrightarrow> within CHR ''0'' CHR ''9'' c \<or> within CHR ''A'' CHR ''F'' c \<or> within CHR ''a'' CHR ''f'' c"

definition isOct :: "char \<Rightarrow> bool" where
  "isOct c \<longleftrightarrow> within CHR ''0'' CHR ''7'' c"

definition isDec :: "char \<Rightarrow> bool" where
  "isDec c \<longleftrightarrow> within CHR ''0'' CHR ''9'' c"

definition hex2Int :: "char \<Rightarrow> int" where
  "hex2Int c =
     (if within CHR ''0'' CHR ''9'' c then of_char c - of_char CHR ''0''
      else if within CHR ''A'' CHR ''F'' c then (of_char c - of_char CHR ''A'') + 10
      else if within CHR ''a'' CHR ''f'' c then (of_char c - of_char CHR ''a'') + 10
      else 0)"

text \<open>\<open>isPrime\<close> on \<open>int\<close>: the product \<open>i * i\<close> of the loop test may overflow.\<close>

function prime_loop :: "int \<Rightarrow> int \<Rightarrow> bool res" where
  "prime_loop n i =
     (if i < 5 \<or> 2 ^ 31 \<le> i * i then Inl Undefined
      else if i * i \<le> n then
        (if n mod i = 0 \<or> n mod (i + 2) = 0 then Inr False else prime_loop n (i + 6))
      else Inr True)"
  by pat_completeness auto

termination
  by (relation "measure (\<lambda>(n, i). nat (n + 1 - i * i))") (auto simp: algebra_simps)

declare prime_loop.simps [simp del]

definition isPrime :: "int \<Rightarrow> bool res" where
  "isPrime n = (if n = 2 \<or> n = 3 then Inr True else prime_loop n 5)"

text \<open>\<open>%\<close> truncates towards zero.\<close>

definition c_rem :: "int \<Rightarrow> int \<Rightarrow> int" where
  "c_rem a b = sgn a * (\<bar>a\<bar> mod \<bar>b\<bar>)"

lemma isPrime_small: "n < 25 \<Longrightarrow> isPrime n = Inr True"
  by (simp add: isPrime_def prime_loop.simps)

text \<open>The step is 2 or 4 whenever the loop comes to use it.\<close>

function prev_loop :: "int \<Rightarrow> int \<Rightarrow> int res" where
  "prev_loop n decr =
     bindR (isPrime n) (\<lambda>p.
       if p then Inr n
       else if decr \<notin> {2, 4} then Inl Undefined
       else prev_loop (n - decr) (6 - decr))"
  by pat_completeness auto

termination
proof (relation "measure (\<lambda>(n, decr). nat n)")
  fix n decr :: int and p
  assume "isPrime n = Inr p" "\<not> p" "\<not> decr \<notin> {2, 4}"
  moreover from this have "25 \<le> n" using isPrime_small [of n] by (cases "n < 25") auto
  ultimately show "((n - decr, 6 - decr), n, decr) \<in> measure (\<lambda>(n, decr). nat n)" by auto
qed simp

declare prev_loop.simps [simp del]

definition prevPrime :: "int \<Rightarrow> int res" where
  "prevPrime n =
     (if n \<le> - (2 ^ 31) then Inl Undefined
      else let n1 = (if even n then n - 1 else n); decr = c_rem n1 3 in
      if decr = 0 then prev_loop (n1 - 2) 2
      else if decr = 1 then prev_loop n1 4
      else prev_loop n1 decr)"

section \<open>base/bitfield.hh\<close>

text \<open>Shift amounts are those a C++ shift allows (below the width).\<close>

definition mask_n :: "nat \<Rightarrow> 64 word" where
  "mask_n nbits = (if nbits = 64 then - 1 else push_bit nbits 1 - 1)"

definition bits :: "64 word \<Rightarrow> nat \<Rightarrow> nat \<Rightarrow> 64 word" where
  "bits val hi lo = drop_bit lo val AND mask_n (hi - lo + 1)"

definition mbits :: "64 word \<Rightarrow> nat \<Rightarrow> nat \<Rightarrow> 64 word" where
  "mbits val hi lo = val AND (mask_n (hi + 1) AND NOT (mask_n lo))"

definition mask_range :: "nat \<Rightarrow> nat \<Rightarrow> 64 word" where
  "mask_range hi lo = mbits (- 1) hi lo"

definition sext :: "nat \<Rightarrow> 64 word \<Rightarrow> 64 word" where
  "sext N val = (if bits val (N - 1) (N - 1) \<noteq> 0 then val OR NOT (mask_n N) else val)"

definition insertBits :: "64 word \<Rightarrow> nat \<Rightarrow> nat \<Rightarrow> 64 word \<Rightarrow> 64 word" where
  "insertBits val hi lo bit_val =
     (let bmask = push_bit lo (mask_n (hi - lo + 1))
      in (push_bit lo bit_val AND bmask) OR (val AND NOT bmask))"

text \<open>One line of the two scans, over a window of \<open>2 * k\<close> and of \<open>k\<close> bits.\<close>

definition msb_line :: "nat \<Rightarrow> nat \<times> 64 word \<Rightarrow> nat \<times> 64 word" where
  "msb_line k = (\<lambda>(msb, val). if bits val (2 * k - 1) k \<noteq> 0 then (msb + k, drop_bit k val) else (msb, val))"

definition findMsbSet :: "64 word \<Rightarrow> nat" where
  "findMsbSet val =
     (if val = 0 then 0
      else fst (msb_line 1 (msb_line 2 (msb_line 4 (msb_line 8 (msb_line 16 (msb_line 32 (0, val))))))))"

definition lsb_line :: "nat \<Rightarrow> nat \<times> 64 word \<Rightarrow> nat \<times> 64 word" where
  "lsb_line k = (\<lambda>(lsb, val). if bits val (k - 1) 0 = 0 then (lsb + k, drop_bit k val) else (lsb, val))"

definition findLsbSet :: "64 word \<Rightarrow> nat" where
  "findLsbSet val =
     (if val = 0 then 64
      else fst (lsb_line 1 (lsb_line 2 (lsb_line 4 (lsb_line 8 (lsb_line 16 (lsb_line 32 (0, val))))))))"

definition isPow2 :: "64 word \<Rightarrow> bool" where
  "isPow2 v \<longleftrightarrow> v AND (v - 1) = 0"

section \<open>Facts\<close>

lemma funpow_mul: "((\<lambda>r. r * c) ^^ k) x = x * c ^ k" for c x :: "'a::comm_monoid_mult"
  by (induction k) (simp_all add: ac_simps)

lemma power_u_value: "unat e \<le> 2 ^ 31 \<Longrightarrow> power_u n e = Inr (ucast n ^ unat e)"
proof -
  assume e: "unat e \<le> 2 ^ 31"
  have "ucast n * ucast n ^ (unat e - 1) = (ucast n :: 64 word) ^ unat e" if "e \<noteq> 0"
    using that power_eq_if [of "ucast n :: 64 word" "unat e"] by (simp add: unat_eq_0)
  then show ?thesis using e by (auto simp: power_u_def funpow_mul)
qed

text \<open>One line of \<open>floorLog2\<close> keeps the quotient by the power counted so far, and halves the
  number of bits that may be set.\<close>

definition lg_inv :: "'a::len word \<Rightarrow> nat \<Rightarrow> nat \<times> 'a word \<Rightarrow> bool" where
  "lg_inv x0 k = (\<lambda>(y, x). unat x0 div 2 ^ y = unat x \<and> 0 < unat x \<and> unat x < 2 ^ k)"

lemma unat_drop_bit: "unat (drop_bit k x) = unat x div 2 ^ k" for x :: "'a::len word"
  by (rule trans [OF unat_drop_bit_eq drop_bit_eq_div])

lemma and_upper_mask:
  fixes x :: "'a::len word"
  assumes "unat x < 2 ^ (2 * k)"
  shows "x AND push_bit k (mask k) = 0 \<longleftrightarrow> unat x < 2 ^ k"
proof -
  let ?d = "drop_bit k x"
  have d: "unat ?d = unat x div 2 ^ k" by (rule unat_drop_bit)
  have "x AND push_bit k (mask k) = push_bit k (take_bit k ?d)"
  proof (rule bit_word_eqI)
    fix n assume "n < LENGTH('a)"
    show "bit (x AND push_bit k (mask k)) n = bit (push_bit k (take_bit k ?d)) n"
      using bit_imp_le_length [of x n] by (cases "k \<le> n") (auto simp: bit_simps \<open>n < LENGTH('a)\<close> less_imp_diff_less)
  qed
  moreover have "take_bit k ?d = ?d"
  proof (rule word_unat_eq_iff [THEN iffD2])
    have "unat x div 2 ^ k < 2 ^ k" using assms by (simp add: div_less_iff_less_mult mult_2 power_add)
    then show "unat (take_bit k ?d) = unat ?d" using d by (simp add: unsigned_take_bit_eq take_bit_nat_eq_self)
  qed
  moreover have "push_bit k ?d = 0 \<longleftrightarrow> ?d = 0"
  proof
    assume "push_bit k ?d = 0"
    moreover have "drop_bit k (push_bit k ?d) = ?d"
    proof (rule bit_word_eqI)
      fix n show "bit (drop_bit k (push_bit k ?d)) n = bit ?d n"
        using bit_imp_le_length [of x "k + n"] by (auto simp: bit_simps)
    qed
    ultimately show "?d = 0" by simp
  qed simp
  moreover have "?d = 0 \<longleftrightarrow> unat x < 2 ^ k" using d by (simp add: unat_eq_0 [symmetric] div_eq_0_iff)
  ultimately show ?thesis by simp
qed

lemma lg_line_inv:
  assumes "lg_inv x0 K p" and "K = 2 * k" and "m = push_bit k (mask k)"
  shows "lg_inv x0 k (lg_line m k p)"
proof (cases p)
  case (Pair y x)
  have i: "unat x0 div 2 ^ y = unat x" "0 < unat x" "unat x < 2 ^ (2 * k)" using assms(1,2) Pair by (simp_all add: lg_inv_def)
  have m: "x AND m = 0 \<longleftrightarrow> unat x < 2 ^ k" using and_upper_mask [OF i(3)] assms(3) by simp
  note d = unat_drop_bit [of k x]
  have "unat x0 div 2 ^ (y + k) = unat x div 2 ^ k" using i(1) by (simp add: power_add div_mult2_eq)
  moreover have "unat x div 2 ^ k < 2 ^ k" using i(3) by (simp add: div_less_iff_less_mult mult_2 power_add)
  moreover have "0 < unat x div 2 ^ k" if "\<not> unat x < 2 ^ k" using that by (simp add: div_greater_zero_iff)
  ultimately show ?thesis using Pair i m d by (simp add: lg_inv_def lg_line_def)
qed

lemma lg_inv_end: "lg_inv x0 1 (y, x) \<Longrightarrow> 2 ^ y \<le> unat x0 \<and> unat x0 < 2 ^ (y + 1)"
proof -
  assume "lg_inv x0 1 (y, x)"
  then have d: "unat x0 div 2 ^ y = 1" by (auto simp: lg_inv_def)
  have "unat x0 = 2 ^ y * (unat x0 div 2 ^ y) + unat x0 mod 2 ^ y" by (simp only: mult_div_mod_eq)
  moreover have "unat x0 mod 2 ^ y < 2 ^ y" by simp
  moreover have "unat x0 = 2 ^ y + unat x0 mod 2 ^ y" using calculation(1) d by simp
  ultimately have "2 ^ y \<le> unat x0" "unat x0 < 2 ^ y + 2 ^ y" by linarith+
  then show ?thesis by simp
qed

lemma masks_64:
  "0xffffffff00000000 = push_bit 32 (mask 32 :: 64 word)" "0x00000000ffff0000 = push_bit 16 (mask 16 :: 64 word)"
  "0x000000000000ff00 = push_bit 8 (mask 8 :: 64 word)" "0x00000000000000f0 = push_bit 4 (mask 4 :: 64 word)"
  "0x000000000000000c = push_bit 2 (mask 2 :: 64 word)" "0x0000000000000002 = push_bit 1 (mask 1 :: 64 word)"
  by (simp_all add: mask_numeral)

lemma masks_32:
  "0xffff0000 = push_bit 16 (mask 16 :: 32 word)"
  "0x0000ff00 = push_bit 8 (mask 8 :: 32 word)" "0x000000f0 = push_bit 4 (mask 4 :: 32 word)"
  "0x0000000c = push_bit 2 (mask 2 :: 32 word)" "0x00000002 = push_bit 1 (mask 1 :: 32 word)"
  by (simp_all add: mask_numeral)

lemma floorLog2_64_ok:
  assumes "x \<noteq> 0"
  shows "\<exists>y. floorLog2_64 x = Inr y \<and> 2 ^ y \<le> unat x \<and> unat x < 2 ^ (y + 1)"
proof -
  have "lg_inv x 64 (0, x)" using assms unsigned_less [of x] by (simp add: lg_inv_def unat_gt_0)
  then have "lg_inv x 1 (lg_line 0x0000000000000002 1 (lg_line 0x000000000000000c 2 (lg_line 0x00000000000000f0 4
       (lg_line 0x000000000000ff00 8 (lg_line 0x00000000ffff0000 16 (lg_line 0xffffffff00000000 32 (0, x)))))))"
    by (intro lg_line_inv [OF _ _ masks_64(6), of _ 2] lg_line_inv [OF _ _ masks_64(5), of _ 4]
        lg_line_inv [OF _ _ masks_64(4), of _ 8] lg_line_inv [OF _ _ masks_64(3), of _ 16]
        lg_line_inv [OF _ _ masks_64(2), of _ 32] lg_line_inv [OF _ _ masks_64(1), of _ 64]) simp_all
  then show ?thesis using assms lg_inv_end [of x]
    by (cases "lg_line 0x0000000000000002 1 (lg_line 0x000000000000000c 2 (lg_line 0x00000000000000f0 4
       (lg_line 0x000000000000ff00 8 (lg_line 0x00000000ffff0000 16 (lg_line 0xffffffff00000000 32 (0, x))))))")
       (auto simp: floorLog2_64_def word_gt_0)
qed

lemma floorLog2_32_ok:
  assumes "x \<noteq> 0"
  shows "\<exists>y. floorLog2_32 x = Inr y \<and> 2 ^ y \<le> unat x \<and> unat x < 2 ^ (y + 1)"
proof -
  have "lg_inv x 32 (0, x)" using assms unsigned_less [of x] by (simp add: lg_inv_def unat_gt_0)
  then have "lg_inv x 1 (lg_line 0x00000002 1 (lg_line 0x0000000c 2 (lg_line 0x000000f0 4
       (lg_line 0x0000ff00 8 (lg_line 0xffff0000 16 (0, x))))))"
    by (intro lg_line_inv [OF _ _ masks_32(5), of _ 2] lg_line_inv [OF _ _ masks_32(4), of _ 4]
        lg_line_inv [OF _ _ masks_32(3), of _ 8] lg_line_inv [OF _ _ masks_32(2), of _ 16]
        lg_line_inv [OF _ _ masks_32(1), of _ 32]) simp_all
  then show ?thesis using assms lg_inv_end [of x]
    by (cases "lg_line 0x00000002 1 (lg_line 0x0000000c 2 (lg_line 0x000000f0 4
       (lg_line 0x0000ff00 8 (lg_line 0xffff0000 16 (0, x)))))")
       (auto simp: floorLog2_32_def word_gt_0)
qed

lemma log_unique:
  assumes "(2::nat) ^ y \<le> n" "n < 2 ^ (y + 1)" "2 ^ z \<le> n" "n < 2 ^ (z + 1)"
  shows "y = z"
proof (rule ccontr)
  assume "y \<noteq> z"
  then have "y + 1 \<le> z \<or> z + 1 \<le> y" by linarith
  then have "(2::nat) ^ (y + 1) \<le> 2 ^ z \<or> (2::nat) ^ (z + 1) \<le> 2 ^ y"
    using power_increasing [of _ _ "2::nat"] by fastforce
  then show False using assms by linarith
qed

lemma ceilLog2_64_pow:
  assumes "unat n = 2 ^ k" "k < 64"
  shows "ceilLog2_64 n = Inr k"
proof (cases k)
  case 0
  then have "n = 1" using assms(1) by (simp add: word_unat_eq_iff)
  then show ?thesis using 0 by (simp add: ceilLog2_64_def)
next
  case (Suc j)
  have n1: "n \<noteq> 1" using assms(1) Suc by auto
  have n0: "n \<noteq> 0" using assms(1) by auto
  have u: "unat (n - 1) = 2 ^ k - 1" using assms(1) n0 by (simp add: unat_minus_one)
  have j: "(2::nat) ^ j \<le> 2 ^ k - 1" "(2::nat) ^ k - 1 < 2 ^ (j + 1)" using Suc by simp_all
  have "n - 1 \<noteq> 0" using n1 by simp
  then obtain y where y: "floorLog2_64 (n - 1) = Inr y" "2 ^ y \<le> unat (n - 1)" "unat (n - 1) < 2 ^ (y + 1)"
    using floorLog2_64_ok by blast
  have "y = j" by (rule log_unique [OF y(2,3)]) (use j u in simp_all)
  then show ?thesis using y(1) n1 Suc by (simp add: ceilLog2_64_def)
qed

subsection \<open>Powers of two and alignment\<close>

lemma and_pred_pow2: "0 < n \<Longrightarrow> n AND (n - 1) = 0 \<longleftrightarrow> (\<exists>k. n = 2 ^ k)" for n :: nat
proof (induction n rule: less_induct)
  case (less n)
  show ?case
  proof (cases "even n")
    case True
    then obtain m where m: "n = 2 * m" by blast
    have m0: "0 < m" "m < n" using less.prems m by simp_all
    have "n - 1 = 2 * (m - 1) + 1" using m m0 by simp
    then have "n AND (n - 1) = 2 * (m AND (m - 1))" using m by (simp add: and_nat_unfold [of "2 * m"])
    moreover have "(\<exists>k. n = 2 ^ k) \<longleftrightarrow> (\<exists>k. m = 2 ^ k)"
    proof
      assume "\<exists>k. n = 2 ^ k"
      then obtain k where k: "n = 2 ^ k" by blast
      then show "\<exists>k. m = 2 ^ k" using True m by (cases k) auto
    next
      assume "\<exists>k. m = 2 ^ k"
      then obtain k where "m = 2 ^ k" by blast
      then have "n = 2 ^ Suc k" using m by simp
      then show "\<exists>k. n = 2 ^ k" by blast
    qed
    ultimately show ?thesis using less.IH [OF m0(2,1)] by simp
  next
    case False
    then obtain m where m: "n = 2 * m + 1" by (rule oddE)
    then have "n AND (n - 1) = 2 * m" by (simp add: and_nat_unfold [of "Suc (2 * m)"])
    moreover have "(\<exists>k. n = 2 ^ k) \<longleftrightarrow> m = 0"
    proof
      assume "\<exists>k. n = 2 ^ k"
      then obtain k where "n = 2 ^ k" by blast
      moreover from this have "k = 0" using False by (cases k) auto
      ultimately show "m = 0" using m by simp
    next
      assume "m = 0"
      then have "n = 2 ^ 0" using m by simp
      then show "\<exists>k. n = 2 ^ k" by blast
    qed
    ultimately show ?thesis by simp
  qed
qed

lemma leastSigBit_eq: "leastSigBit n = n \<longleftrightarrow> n AND (n - 1) = 0"
proof -
  have "n AND NOT m = n \<longleftrightarrow> n AND m = 0" for m :: "'a word"
    by (auto simp: bit_eq_iff bit_simps)
  then show ?thesis by (simp add: leastSigBit_def)
qed

lemma isPow2_iff: "n \<noteq> 0 \<Longrightarrow> n AND (n - 1) = 0 \<longleftrightarrow> (\<exists>k. unat n = 2 ^ k)"
proof -
  assume n: "n \<noteq> 0"
  have "n AND (n - 1) = 0 \<longleftrightarrow> unat n AND (unat n - 1) = 0"
    using n by (simp add: unat_eq_0 [symmetric] unsigned_and_eq unat_minus_one)
  then show ?thesis using and_pred_pow2 [of "unat n"] n by (simp add: unat_gt_0)
qed

lemma isPowerOf2_pow: "isPowerOf2 n \<longleftrightarrow> (\<exists>k. unat n = 2 ^ k)"
  using isPow2_iff [of n] by (cases "n = 0") (auto simp: isPowerOf2_def leastSigBit_eq)

lemma pow2_width: "unat (n :: 'a::len word) = 2 ^ k \<Longrightarrow> k < LENGTH('a)"
  using unsigned_less [of n] by (metis power_strict_increasing_iff one_less_numeral_iff semiring_norm(76))

lemma unat_and_not_mask: "unat (x AND NOT (mask k)) = unat x div 2 ^ k * 2 ^ k" for x :: "'a::len word"
proof -
  have "x AND NOT (mask k) = push_bit k (drop_bit k x)"
    by (rule bit_word_eqI) (auto simp: bit_simps)
  moreover have "unat (push_bit k (drop_bit k x)) = take_bit LENGTH('a) (unat x div 2 ^ k * 2 ^ k)"
    by (rule trans [OF unsigned_push_bit_eq]) (simp only: unat_drop_bit push_bit_eq_mult)
  moreover have "unat x div 2 ^ k * 2 ^ k \<le> unat x" by simp
  then have "unat x div 2 ^ k * 2 ^ k < 2 ^ LENGTH('a)" using unsigned_less [of x] by (meson le_less_trans)
  ultimately show ?thesis by (simp add: take_bit_nat_eq_self)
qed

lemma pow2_minus_1: "unat (al :: 'a::len word) = 2 ^ k \<Longrightarrow> al - 1 = mask k"
proof -
  assume a: "unat al = 2 ^ k"
  then have "al = of_nat (2 ^ k)" using of_nat_unat [of al] by (metis ucast_id)
  then show ?thesis by (simp add: mask_eq_decr_exp)
qed

lemma roundDown_value: "unat al = 2 ^ k \<Longrightarrow> unat (roundDown v al) = unat v div 2 ^ k * 2 ^ k"
  by (simp add: roundDown_def pow2_minus_1 unat_and_not_mask)

lemma roundUp_value:
  assumes "unat al = 2 ^ k" and "unat v + 2 ^ k \<le> 2 ^ LENGTH('a)"
  shows "unat (roundUp (v :: 'a::len word) al) = (unat v + 2 ^ k - 1) div 2 ^ k * 2 ^ k"
proof -
  have k: "k < LENGTH('a)" using assms(1) by (rule pow2_width)
  have "(2::nat) ^ k < 2 ^ LENGTH('a)" using k by simp
  then have lt: "(2::nat) ^ k - 1 < 2 ^ LENGTH('a)" by linarith
  moreover have "(mask k :: 'a word) = of_nat (2 ^ k - 1)" by (simp add: mask_eq_decr_exp of_nat_diff)
  ultimately have m: "unat (mask k :: 'a word) = 2 ^ k - 1" using lt by (simp only: unat_of_nat take_bit_nat_eq_self mod_less)
  then have "unat (v + mask k) = unat v + (2 ^ k - 1)"
  proof -
    have "0 < (2::nat) ^ k" by simp
    then have "unat v + (2 ^ k - 1) < 2 ^ LENGTH('a)" using assms(2) by linarith
    then have "unat v + unat (mask k :: 'a word) < 2 ^ LENGTH('a)" by (simp only: m)
    then have "unat (v + mask k) = unat v + unat (mask k :: 'a word)" by (rule unat_add_lem [THEN iffD1])
    then show ?thesis by (simp only: m)
  qed
  then show ?thesis using assms(1) by (simp add: roundUp_def pow2_minus_1 unat_and_not_mask Let_def)
qed

lemma divCeil_value:
  assumes "0 < b" and "unat a + unat b \<le> 2 ^ LENGTH('a)"
  shows "\<exists>c. divCeil a (b :: 'a::len word) = Inr c \<and> unat c = (unat a + unat b - 1) div unat b"
proof -
  have b: "0 < unat b" using assms(1) by (simp add: word_less_nat_alt)
  have "unat (a + b - 1) = unat a + unat b - 1"
  proof -
    have "unat (a + (b - 1)) = unat a + unat (b - 1)"
      by (rule unat_add_lem [THEN iffD1]) (use assms b in \<open>auto simp: unat_minus_one\<close>)
    moreover have "unat (b - 1) = unat b - 1" using assms(1) by (intro unat_minus_one) auto
    ultimately show ?thesis using b by (simp add: algebra_simps)
  qed
  then show ?thesis using assms(1) by (auto simp: divCeil_def unat_div)
qed

subsection \<open>Bit fields\<close>

lemma mask_n_mask: "n \<le> 64 \<Longrightarrow> mask_n n = mask n"
  by (auto simp: mask_n_def mask_eq_decr_exp)

lemma bit_bits: "lo \<le> hi \<Longrightarrow> hi < 64 \<Longrightarrow> bit (bits v hi lo) j \<longleftrightarrow> j \<le> hi - lo \<and> bit v (lo + j)"
  by (auto simp: bits_def mask_n_mask bit_simps)

lemma bits_zero_range:
  assumes "lo \<le> hi" "hi < 64"
  shows "bits v hi lo = 0 \<longleftrightarrow> (\<forall>j. lo \<le> j \<and> j \<le> hi \<longrightarrow> \<not> bit v j)"
proof -
  have "bits v hi lo = 0 \<longleftrightarrow> (\<forall>j. \<not> (j \<le> hi - lo \<and> bit v (lo + j)))"
  proof
    assume "bits v hi lo = 0"
    then have "\<not> bit (bits v hi lo) j" for j by simp
    then show "\<forall>j. \<not> (j \<le> hi - lo \<and> bit v (lo + j))" using bit_bits [OF assms] by blast
  next
    assume "\<forall>j. \<not> (j \<le> hi - lo \<and> bit v (lo + j))"
    then show "bits v hi lo = 0" by (intro bit_word_eqI) (simp add: bit_bits [OF assms])
  qed
  also have "\<dots> \<longleftrightarrow> (\<forall>j. lo \<le> j \<and> j \<le> hi \<longrightarrow> \<not> bit v j)"
  proof
    assume a: "\<forall>j. \<not> (j \<le> hi - lo \<and> bit v (lo + j))"
    show "\<forall>j. lo \<le> j \<and> j \<le> hi \<longrightarrow> \<not> bit v j"
    proof (intro allI impI)
      fix j assume "lo \<le> j \<and> j \<le> hi"
      then show "\<not> bit v j" using a [rule_format, of "j - lo"] by (simp add: diff_le_mono)
    qed
  qed (use assms in auto)
  finally show ?thesis .
qed

lemma bit_insertBits:
  assumes "lo \<le> hi" "hi < 64" "j < 64"
  shows "bit (insertBits v hi lo b) j \<longleftrightarrow> (if lo \<le> j \<and> j \<le> hi then bit b (j - lo) else bit v j)"
proof -
  have "bit (push_bit lo (mask_n (hi - lo + 1))) j \<longleftrightarrow> lo \<le> j \<and> j \<le> hi"
    using assms by (auto simp: mask_n_mask bit_simps)
  then show ?thesis using assms by (auto simp: insertBits_def Let_def bit_simps)
qed

lemma bits_insertBits_same:
  assumes "lo \<le> hi" "hi < 64"
  shows "bits (insertBits v hi lo b) hi lo = b AND mask (hi - lo + 1)"
proof (rule bit_word_eqI)
  fix j assume "j < LENGTH(64)"
  show "bit (bits (insertBits v hi lo b) hi lo) j = bit (b AND mask (hi - lo + 1)) j"
  proof (cases "j \<le> hi - lo")
    case True
    then have "lo + j \<le> hi" "lo + j < 64" using assms by simp_all
    then show ?thesis using bit_insertBits [OF assms, of "lo + j" v b] True by (simp add: bit_bits [OF assms] bit_simps)
  qed (use assms in \<open>simp add: bit_bits bit_simps\<close>)
qed

lemma bits_insertBits_other:
  assumes "lo \<le> hi" "hi < 64" "lo' \<le> hi'" "hi' < 64" "hi' < lo \<or> hi < lo'"
  shows "bits (insertBits v hi lo b) hi' lo' = bits v hi' lo'"
proof (rule bit_word_eqI)
  fix j assume "j < LENGTH(64)"
  show "bit (bits (insertBits v hi lo b) hi' lo') j = bit (bits v hi' lo') j"
  proof (cases "j \<le> hi' - lo'")
    case True
    then have "lo' + j \<le> hi'" "lo' + j < 64" using assms(3,4) by simp_all
    then show ?thesis using bit_insertBits [OF assms(1,2), of "lo' + j" v b] assms(5) by (auto simp: bit_bits [OF assms(3,4)])
  qed (use assms(3,4) in \<open>simp add: bit_bits\<close>)
qed

text \<open>The two scans halve the window in which the highest or lowest set bit lies.\<close>

definition low_inv :: "64 word \<Rightarrow> nat \<Rightarrow> nat \<times> 64 word \<Rightarrow> bool" where
  "low_inv v k = (\<lambda>(n, w). w = drop_bit n v \<and> (\<forall>j < n. \<not> bit v j) \<and> (\<exists>j < k. bit w j) \<and> n + k \<le> 64)"

lemma low_step:
  assumes "low_inv v K p" "K = 2 * k" "0 < k"
  shows "low_inv v k (lsb_line k p)"
proof -
  obtain n w where p: "p = (n, w)" by (cases p)
  have i: "w = drop_bit n v" "\<forall>j < n. \<not> bit v j" "\<exists>j < 2 * k. bit w j" "n + 2 * k \<le> 64"
    using assms(1,2) p by (auto simp: low_inv_def)
  have z: "bits w (k - 1) 0 = 0 \<longleftrightarrow> (\<forall>j < k. \<not> bit w j)"
    using bits_zero_range [of 0 "k - 1" w] assms(3) i(4) by (auto simp: less_eq_Suc_le)
  show ?thesis
  proof (cases "bits w (k - 1) 0 = 0")
    case True
    then have c: "\<forall>j < k. \<not> bit w j" using z by blast
    obtain j where j: "j < 2 * k" "bit w j" using i(3) by blast
    have "k \<le> j" using j(2) c by (meson not_le)
    then have "bit (drop_bit k w) (j - k)" "j - k < k" using j by (auto simp: bit_simps)
    moreover have "\<not> bit v l" if "l < n + k" for l
    proof (cases "l < n")
      case False
      then have "\<not> bit w (l - n)" using c that by simp
      then show ?thesis using False i(1) by (simp add: bit_simps)
    qed (use i(2) in blast)
    ultimately show ?thesis using True p i by (auto simp: low_inv_def lsb_line_def drop_bit_drop_bit ac_simps)
  next
    case False
    then show ?thesis using z p i by (auto simp: low_inv_def lsb_line_def)
  qed
qed

lemma low_end: "low_inv v 1 (n, w) \<Longrightarrow> bit v n \<and> (\<forall>j < n. \<not> bit v j)"
  by (auto simp: low_inv_def bit_simps)

lemma lg_line_bits:
  assumes "0 < k" "2 * k \<le> 64"
  shows "lg_line (push_bit k (mask k)) k = msb_line k"
proof -
  have "w AND push_bit k (mask k) = 0 \<longleftrightarrow> bits w (2 * k - 1) k = 0" for w
  proof -
    have "w AND push_bit k (mask k) = 0 \<longleftrightarrow> (\<forall>j. k \<le> j \<and> j \<le> 2 * k - 1 \<longrightarrow> \<not> bit w j)"
    proof
      assume "w AND push_bit k (mask k) = 0"
      then have "\<not> bit (w AND push_bit k (mask k)) j" for j by simp
      moreover have "bit (w AND push_bit k (mask k)) j \<longleftrightarrow> bit w j \<and> k \<le> j \<and> j \<le> 2 * k - 1" for j
        using assms bit_imp_le_length [of w j] by (auto simp: bit_simps)
      ultimately show "\<forall>j. k \<le> j \<and> j \<le> 2 * k - 1 \<longrightarrow> \<not> bit w j" by blast
    next
      assume "\<forall>j. k \<le> j \<and> j \<le> 2 * k - 1 \<longrightarrow> \<not> bit w j"
      then show "w AND push_bit k (mask k) = 0" by (intro bit_word_eqI) (auto simp: bit_simps)
    qed
    then show ?thesis using bits_zero_range [of k "2 * k - 1" w] assms by auto
  qed
  then show ?thesis by (simp add: lg_line_def msb_line_def fun_eq_iff)
qed

lemma findMsbSet_lg:
  "x \<noteq> 0 \<Longrightarrow> findMsbSet x = fst (lg_line 0x0000000000000002 1 (lg_line 0x000000000000000c 2 (lg_line 0x00000000000000f0 4
       (lg_line 0x000000000000ff00 8 (lg_line 0x00000000ffff0000 16 (lg_line 0xffffffff00000000 32 (0, x)))))))"
  unfolding masks_64 by (simp only: lg_line_bits findMsbSet_def) (simp add: lg_line_bits)

text \<open>for every nonzero 64-bit word \<open>floorLog2\<close> passes its assertion and returns the
  exponent of the largest power of two not above it, and \<open>findMsbSet\<close> returns the same
  number.\<close>

theorem floorLog2_spec:
  assumes "x \<noteq> 0"
  shows "\<exists>y. floorLog2_64 x = Inr y \<and> 2 ^ y \<le> unat x \<and> unat x < 2 ^ (y + 1) \<and> findMsbSet x = y"
  using floorLog2_64_ok [OF assms] findMsbSet_lg [OF assms] assms by (auto simp: floorLog2_64_def word_gt_0)

theorem floorLog2_spec_witness: "\<exists>y. floorLog2_64 1000 = Inr y \<and> findMsbSet 1000 = y \<and> y = 9"
proof -
  obtain y where y: "floorLog2_64 1000 = Inr y" "2 ^ y \<le> unat (1000 :: 64 word)"
      "unat (1000 :: 64 word) < 2 ^ (y + 1)" "findMsbSet 1000 = y"
    using floorLog2_spec [of 1000] by auto
  have "y = 9" by (rule log_unique [OF y(2,3)]) simp_all
  then show ?thesis using y by blast
qed

lemma findLsbSet_ok:
  assumes "v \<noteq> 0"
  shows "bit v (findLsbSet v) \<and> (\<forall>j < findLsbSet v. \<not> bit v j)"
proof -
  have "\<exists>j < 64. bit v j"
  proof (rule ccontr)
    assume "\<not> (\<exists>j < 64. bit v j)"
    then have "v = 0" by (intro bit_word_eqI) auto
    then show False using assms by simp
  qed
  then have "low_inv v 64 (0, v)" by (simp add: low_inv_def)
  then have "low_inv v 1 (lsb_line 1 (lsb_line 2 (lsb_line 4 (lsb_line 8 (lsb_line 16 (lsb_line 32 (0, v)))))))"
    by (intro low_step [where K = 2] low_step [where K = 4] low_step [where K = 8] low_step [where K = 16]
        low_step [where K = 32] low_step [where K = 64]) simp_all
  then show ?thesis using assms low_end [of v]
    by (cases "lsb_line 1 (lsb_line 2 (lsb_line 4 (lsb_line 8 (lsb_line 16 (lsb_line 32 (0, v))))))")
       (simp add: findLsbSet_def)
qed

text \<open>the two tests for a power of two of the library, \<open>isPowerOf2\<close> of intmath.hh and
  \<open>isPow2\<close> of bitfield.hh, hold exactly of the powers of two; the latter also accepts zero;
  and \<open>findLsbSet\<close> of a power of two is its exponent.\<close>

theorem isPowerOf2_iff:
  "(isPowerOf2 n \<longleftrightarrow> (\<exists>k. unat n = 2 ^ k)) \<and> (isPow2 n = (isPowerOf2 n \<or> n = 0)) \<and>
   (isPowerOf2 n = (n \<noteq> 0 \<and> unat n = 2 ^ findLsbSet n))"
proof -
  have "unat n = 2 ^ findLsbSet n" if n: "n \<noteq> 0" and k: "unat n = 2 ^ k" for k
  proof -
    have b: "bit n j \<longleftrightarrow> j = k" for j
    proof -
      have "bit n j = bit (2 ^ k :: nat) j" using k by (metis bit_unsigned_iff bit_imp_le_length possible_bit_nat)
      then show ?thesis by (simp add: bit_exp_iff)
    qed
    show ?thesis using findLsbSet_ok [OF n] k b by simp
  qed
  then have e: "n \<noteq> 0 \<Longrightarrow> isPowerOf2 n \<longleftrightarrow> unat n = 2 ^ findLsbSet n" using isPowerOf2_pow [of n] by blast
  show ?thesis
  proof (cases "n = 0")
    case True
    then show ?thesis by (simp add: isPow2_def isPowerOf2_pow)
  next
    case False
    then show ?thesis using isPowerOf2_pow [of n] isPow2_iff [OF False] e by (simp add: isPow2_def)
  qed
qed

text \<open>C29: for an alignment that is a power of two, \<open>roundDown\<close> returns the largest multiple of
  it not above the value and, unless the next multiple leaves the type, \<open>roundUp\<close> the
  least one not below.\<close>

theorem rounding_spec:
  assumes "isPowerOf2 al" and "unat v + unat al \<le> 2 ^ LENGTH('a)"
  shows "unat al dvd unat (roundDown v al) \<and> roundDown v al \<le> v \<and> unat v < unat (roundDown v al) + unat al \<and>
    unat al dvd unat (roundUp (v :: 'a::len word) al) \<and> v \<le> roundUp v al \<and> unat (roundUp v al) < unat v + unat al"
proof -
  obtain k where k: "unat al = 2 ^ k" using assms(1) isPowerOf2_pow by blast
  let ?d = "(2::nat) ^ k"
  have d: "unat (roundDown v al) = unat v div ?d * ?d" by (rule roundDown_value [OF k])
  have u: "unat (roundUp v al) = (unat v + ?d - 1) div ?d * ?d" by (rule roundUp_value [OF k]) (use assms(2) k in simp)
  note div_mult_mod_eq [of "unat v" ?d] div_mult_mod_eq [of "unat v + ?d - 1" ?d]
  moreover have "unat v mod ?d < ?d" "(unat v + ?d - 1) mod ?d < ?d" "0 < ?d" by simp_all
  ultimately have "unat v div ?d * ?d \<le> unat v" "unat v < unat v div ?d * ?d + ?d"
    "unat v \<le> (unat v + ?d - 1) div ?d * ?d" "(unat v + ?d - 1) div ?d * ?d < unat v + ?d" by linarith+
  then show ?thesis using d u k by (simp add: word_le_nat_alt)
qed

theorem rounding_spec_witness: "unat (roundUp (1000 :: 64 word) 64) < unat (1000 :: 64 word) + unat (64 :: 64 word)"
proof -
  have "isPowerOf2 (64 :: 64 word)" by (simp add: isPowerOf2_def leastSigBit_def)
  then show ?thesis using rounding_spec [of "64 :: 64 word" 1000] by simp
qed

text \<open>C30: \<open>insertBits\<close> writes exactly the field: reading the field back gives the low bits of
  the value written, and every field that does not overlap it reads as before.\<close>

theorem insertBits_roundtrip:
  assumes "lo \<le> hi" "hi < 64" and "lo' \<le> hi'" "hi' < 64" and "hi' < lo \<or> hi < lo'"
  shows "bits (insertBits v hi lo b) hi lo = b AND mask_n (hi - lo + 1) \<and>
    bits (insertBits v hi lo b) hi' lo' = bits v hi' lo'"
  using bits_insertBits_same [OF assms(1,2)] bits_insertBits_other [OF assms] assms(1,2) by (simp add: mask_n_mask)

theorem insertBits_roundtrip_witness:
  "bits (insertBits 0xFF00 7 4 0x1A) 7 4 = 0xA \<and> bits (insertBits 0xFF00 7 4 0x1A) 15 8 = 0xFF"
  using insertBits_roundtrip [of 4 7 8 15 "0xFF00" "0x1A"] by (simp add: mask_n_def bits_def)

section \<open>Primes\<close>

definition prime_int :: "int \<Rightarrow> bool" where
  "prime_int n \<longleftrightarrow> 2 \<le> n \<and> (\<forall>d. 2 \<le> d \<longrightarrow> d < n \<longrightarrow> \<not> d dvd n)"

lemma six: "i mod 6 = 5 \<Longrightarrow> (i + 6) mod 6 = (5::int)"
  by simp

lemma prime_loop_ok:
  assumes "n < 46337 * 46337" "5 \<le> i" "i mod 6 = 5" "i \<le> 46337"
  shows "\<exists>b. prime_loop n i = Inr b \<and>
     (b \<longleftrightarrow> (\<forall>d. i \<le> d \<longrightarrow> d * d \<le> n \<longrightarrow> d mod 6 \<in> {1, 5} \<longrightarrow> \<not> d dvd n \<and> (d mod 6 = 5 \<longrightarrow> \<not> d + 2 dvd n)))"
  using assms
proof (induction n i rule: prime_loop.induct)
  case (1 n i)
  have sq: "i * i < 2 ^ 31" using "1.prems"(2,4) mult_mono [of i 46337 i 46337] by simp
  show ?case
  proof (cases "i * i \<le> n")
    case False
    then have "\<not> d * d \<le> n" if "i \<le> d" for d using that "1.prems"(2) mult_mono [of i d i d] by linarith
    then show ?thesis using False sq "1.prems"(2) by (auto simp: prime_loop.simps [of n i])
  next
    case True
    then have lt: "i < 46337" using "1.prems"(1,2) mult_mono [of 46337 i 46337 i] by (cases "i < 46337") auto
    then have le: "i + 6 \<le> 46337" using "1.prems"(3) by presburger
    show ?thesis
    proof (cases "n mod i = 0 \<or> n mod (i + 2) = 0")
      case div: True
      then have "\<not> (\<not> i dvd n \<and> (i mod 6 = 5 \<longrightarrow> \<not> i + 2 dvd n))" using "1.prems"(3) by (auto simp: dvd_eq_mod_eq_0)
      then show ?thesis using div True sq "1.prems"(2,3) by (auto simp: prime_loop.simps [of n i])
    next
      case no: False
      obtain b where b: "prime_loop n (i + 6) = Inr b"
        "b \<longleftrightarrow> (\<forall>d. i + 6 \<le> d \<longrightarrow> d * d \<le> n \<longrightarrow> d mod 6 \<in> {1, 5} \<longrightarrow> \<not> d dvd n \<and> (d mod 6 = 5 \<longrightarrow> \<not> d + 2 dvd n))"
        using "1.IH" sq True no "1.prems" le by auto
      let ?R = "\<lambda>d. d mod 6 \<in> {1, 5} \<longrightarrow> \<not> d dvd n \<and> (d mod 6 = 5 \<longrightarrow> \<not> d + 2 dvd n)"
      have small: "?R d" if "i \<le> d" "d < i + 6" for d
      proof
        assume "d mod 6 \<in> {1, 5}"
        then have "d mod 6 = 1 \<or> d mod 6 = 5" by simp
        then have "d = i \<or> d = i + 2" using that "1.prems"(3) by presburger
        then show "\<not> d dvd n \<and> (d mod 6 = 5 \<longrightarrow> \<not> d + 2 dvd n)"
        proof
          assume "d = i"
          then show ?thesis using no by (simp add: dvd_eq_mod_eq_0)
        next
          assume d: "d = i + 2"
          then have "d mod 6 = 1" using "1.prems"(3) by presburger
          then show ?thesis using no d by (simp add: dvd_eq_mod_eq_0)
        qed
      qed
      have split: "(\<forall>d. i \<le> d \<longrightarrow> d * d \<le> n \<longrightarrow> R d) \<longleftrightarrow> (\<forall>d. i + 6 \<le> d \<longrightarrow> d * d \<le> n \<longrightarrow> R d)"
        if "\<And>d. i \<le> d \<Longrightarrow> d < i + 6 \<Longrightarrow> R d" for R :: "int \<Rightarrow> bool"
      proof (intro iffI allI impI)
        fix d assume "\<forall>d. i + 6 \<le> d \<longrightarrow> d * d \<le> n \<longrightarrow> R d" "i \<le> d" "d * d \<le> n"
        then show "R d" using that [of d] by (cases "d < i + 6") auto
      qed auto
      have "(\<forall>d. i \<le> d \<longrightarrow> d * d \<le> n \<longrightarrow> ?R d) \<longleftrightarrow> (\<forall>d. i + 6 \<le> d \<longrightarrow> d * d \<le> n \<longrightarrow> ?R d)"
        by (rule split) (rule small)
      then have "(\<forall>d. i \<le> d \<longrightarrow> d * d \<le> n \<longrightarrow> ?R d) \<longleftrightarrow> b" using b(2) by blast
      then show ?thesis using b(1) no True sq "1.prems"(2) by (simp add: prime_loop.simps [of n i])
    qed
  qed
qed

lemma isPrime_ok:
  assumes "5 \<le> n" "n < 46337 * 46337" and c: "\<not> 2 dvd n" "\<not> 3 dvd n"
  shows "isPrime n = Inr (prime_int n)"
proof -
  obtain b where b: "prime_loop n 5 = Inr b"
     "b \<longleftrightarrow> (\<forall>d. 5 \<le> d \<longrightarrow> d * d \<le> n \<longrightarrow> d mod 6 \<in> {1, 5} \<longrightarrow> \<not> d dvd n \<and> (d mod 6 = 5 \<longrightarrow> \<not> d + 2 dvd n))"
    using prime_loop_ok [OF assms(2), of 5] by auto
  have "b \<longleftrightarrow> prime_int n"
  proof
    assume "b"
    show "prime_int n"
      unfolding prime_int_def
    proof (intro conjI allI impI notI)
      fix d :: int assume d: "2 \<le> d" "d < n" "d dvd n"
      then obtain e where e: "n = d * e" by blast
      have e1: "2 \<le> e"
      proof (rule ccontr)
        assume "\<not> 2 \<le> e"
        then have "d * e \<le> d * 1" using d(1) by (intro mult_left_mono) auto
        then show False using d(2) e by simp
      qed
      obtain f where f: "f dvd n" "f * f \<le> n" "2 \<le> f"
      proof (cases "d \<le> e")
        case True
        then show ?thesis using that [of d] d e mult_mono [of d d d e] by simp
      next
        case False
        then show ?thesis using that [of e] e e1 mult_mono [of e d e e] by simp
      qed
      have "\<not> 2 dvd f" "\<not> 3 dvd f" using c f(1) dvd_trans by blast+
      then have m: "f mod 6 = 1 \<or> f mod 6 = 5" by presburger
      then have "5 \<le> f" using f(3) by presburger
      moreover have "f mod 6 \<in> {1, 5}" using m by simp
      ultimately show False using b(2) \<open>b\<close> f by blast
    qed (use assms(1) in simp)
  next
    assume p: "prime_int n"
    show "b"
      unfolding b(2)
    proof (intro allI impI)
      fix d :: int assume d: "5 \<le> d" "d * d \<le> n" "d mod 6 \<in> {1, 5}"
      have "d * 5 \<le> d * d" using d(1) by (intro mult_left_mono) auto
      then have "d < n" "d + 2 < n" using d by linarith+
      then show "\<not> d dvd n \<and> (d mod 6 = 5 \<longrightarrow> \<not> d + 2 dvd n)" using p d(1) by (simp add: prime_int_def)
    qed
  qed
  then show ?thesis using b(1) assms(1) by (simp add: isPrime_def)
qed

text \<open>For a number from 5 to 2147117568 that neither 2 nor 3 divides, \<open>isPrime\<close> returns,
  without overflow of \<open>i * i\<close>, and decides primality.\<close>

theorem isPrime_spec:
  assumes "5 \<le> n" "n < 2147117569" and "\<not> 2 dvd n" "\<not> 3 dvd n"
  shows "isPrime n = Inr (prime_int n)"
  by (rule isPrime_ok) (use assms in simp_all)

theorem isPrime_spec_witness: "isPrime 91 = Inr (prime_int 91) \<and> isPrime 91 = Inr False"
  using isPrime_spec [of 91] by (simp add: isPrime_def prime_loop.simps)

text \<open>The searches for primes go wrong: \<open>isPrime\<close> accepts 1 and every composite below 25
  that 2 or 3 divides, and \<open>prevPrime\<close>, which steps by 4 and 2 where it should step by 2
  and 4, returns the composite 21 for 25.\<close>

theorem prevPrime_composite:
  "isPrime 1 = Inr True \<and> isPrime 9 = Inr True \<and> \<not> prime_int 9 \<and> prevPrime 25 = Inr 21 \<and> \<not> prime_int 21 \<and> prime_int 23"
proof -
  have "\<not> prime_int 9" "\<not> prime_int 21" by (auto simp: prime_int_def intro!: exI [of _ 3])
  moreover have "isPrime 23 = Inr (prime_int 23)" by (rule isPrime_ok) simp_all
  then have "prime_int 23" by (simp add: isPrime_small)
  moreover have "isPrime 25 = Inr False" by (simp add: isPrime_def prime_loop.simps)
  then have "prevPrime 25 = Inr 21"
    by (simp add: prevPrime_def c_rem_def Let_def prev_loop.simps [of 25] prev_loop.simps [of 21] isPrime_small)
  ultimately show ?thesis by (simp add: isPrime_small)
qed

lemma hex_digits:
  "map hex2Int ''0123456789abcdef'' = [0..15] \<and> map hex2Int ''0123456789ABCDEF'' = [0..15] \<and>
   list_all isHex (''0123456789abcdef'' @ ''ABCDEF'')"
  by (simp add: hex2Int_def isHex_def within_def upto.simps)

end
