(* ===== verification/EventQ.thy ===== *)
theory EventQ imports Prelude "HOL-Library.Product_Lexorder" begin

text \<open>
  gem5's event queue (sim/eventq.hh, eventq_impl.hh, eventq.cc).  The queue is a list of
  bins, one per pair of time and priority, in increasing order; a bin is a stack.  The
  list of lists stands for the \<open>nextBin\<close> and \<open>nextInBin\<close> pointers (only a
  bin's top element has a meaningful \<open>nextBin\<close>).  Event objects live outside the
  queue: \<open>evs\<close> maps an event's identity to its time, priority and flags.
\<close>

section \<open>Events\<close>

record evstate =
  ewhen :: tick
  eprio :: int
  escheduled :: bool
  esquashed :: bool

record 'e eventq =
  bins :: "'e list list"
  curTick :: tick
  evs :: "'e \<Rightarrow> evstate"

text \<open>\<open>operator<\<close>, \<open><=\<close> and \<open>==\<close> on events compare time, then priority.\<close>

definition ev_lt :: "('e \<Rightarrow> evstate) \<Rightarrow> 'e \<Rightarrow> 'e \<Rightarrow> bool" where
  "ev_lt f l r \<longleftrightarrow> ewhen (f l) < ewhen (f r) \<or> ewhen (f l) = ewhen (f r) \<and> eprio (f l) < eprio (f r)"

definition ev_le :: "('e \<Rightarrow> evstate) \<Rightarrow> 'e \<Rightarrow> 'e \<Rightarrow> bool" where
  "ev_le f l r \<longleftrightarrow> ewhen (f l) < ewhen (f r) \<or> ewhen (f l) = ewhen (f r) \<and> eprio (f l) \<le> eprio (f r)"

definition ev_eq :: "('e \<Rightarrow> evstate) \<Rightarrow> 'e \<Rightarrow> 'e \<Rightarrow> bool" where
  "ev_eq f l r \<longleftrightarrow> ewhen (f l) = ewhen (f r) \<and> eprio (f l) = eprio (f r)"

section \<open>Insertion and removal\<close>

text \<open>\<open>insertBefore event curr\<close>, where \<open>curr\<close> is the top of the first of the given
  bins: a bin of its own before them, or the top of that bin.\<close>

fun insertBefore :: "('e \<Rightarrow> evstate) \<Rightarrow> 'e \<Rightarrow> 'e list list \<Rightarrow> 'e list list" where
  "insertBefore f e [] = [[e]]"
| "insertBefore f e (b # bs) = (if ev_lt f e (hd b) then [e] # b # bs else (e # b) # bs)"

fun insert_walk :: "('e \<Rightarrow> evstate) \<Rightarrow> 'e \<Rightarrow> 'e list list \<Rightarrow> 'e list list" where
  "insert_walk f e [] = insertBefore f e []"
| "insert_walk f e (b # bs) = (if ev_lt f (hd b) e then b # insert_walk f e bs else insertBefore f e (b # bs))"

definition ev_insert :: "('e \<Rightarrow> evstate) \<Rightarrow> 'e \<Rightarrow> 'e list list \<Rightarrow> 'e list list" where
  "ev_insert f e bs =
     (case bs of
        [] \<Rightarrow> insertBefore f e []
      | b # rest \<Rightarrow> if ev_le f e (hd b) then insertBefore f e bs else b # insert_walk f e rest)"

text \<open>\<open>removeItem\<close> takes one event out of a bin and yields what is left of it; an empty
  rest means the bin is gone.\<close>

fun removeItem :: "'e \<Rightarrow> 'e list \<Rightarrow> 'e list res" where
  "removeItem e [] = Inl PanicError"
| "removeItem e (x # xs) = (if e = x then Inr xs else bindR (removeItem e xs) (\<lambda>r. Inr (x # r)))"

definition put_bin :: "'e list \<Rightarrow> 'e list list \<Rightarrow> 'e list list" where
  "put_bin b bs = (if b = [] then bs else b # bs)"

fun remove_walk :: "('e \<Rightarrow> evstate) \<Rightarrow> 'e \<Rightarrow> 'e list list \<Rightarrow> 'e list list res" where
  "remove_walk f e [] = Inl PanicError"
| "remove_walk f e (b # bs) =
     (if ev_lt f (hd b) e then bindR (remove_walk f e bs) (\<lambda>r. Inr (b # r))
      else if \<not> ev_eq f (hd b) e then Inl PanicError
      else bindR (removeItem e b) (\<lambda>r. Inr (put_bin r bs)))"

definition ev_remove :: "('e \<Rightarrow> evstate) \<Rightarrow> 'e \<Rightarrow> 'e list list \<Rightarrow> 'e list list res" where
  "ev_remove f e bs =
     (case bs of
        [] \<Rightarrow> Inl PanicError
      | b # rest \<Rightarrow>
          if ev_eq f (hd b) e then bindR (removeItem e b) (\<lambda>r. Inr (put_bin r rest))
          else bindR (remove_walk f e rest) (\<lambda>r. Inr (b # r)))"

section \<open>Scheduling\<close>

definition set_when :: "'e \<Rightarrow> tick \<Rightarrow> 'e eventq \<Rightarrow> 'e eventq" where
  "set_when e w q = q\<lparr>evs := (evs q)(e := (evs q e)\<lparr>ewhen := w\<rparr>)\<rparr>"

definition set_scheduled :: "'e \<Rightarrow> bool \<Rightarrow> 'e eventq \<Rightarrow> 'e eventq" where
  "set_scheduled e b q = q\<lparr>evs := (evs q)(e := (evs q e)\<lparr>escheduled := b\<rparr>)\<rparr>"

definition clear_squashed :: "'e \<Rightarrow> 'e eventq \<Rightarrow> 'e eventq" where
  "clear_squashed e q = q\<lparr>evs := (evs q)(e := (evs q e)\<lparr>esquashed := False\<rparr>)\<rparr>"

definition schedule :: "'e \<Rightarrow> tick \<Rightarrow> 'e eventq \<Rightarrow> 'e eventq res" where
  "schedule e w q =
     bindR (guardR (curTick q \<le> w) AssertFail) (\<lambda>_.
     bindR (guardR (\<not> escheduled (evs q e)) AssertFail) (\<lambda>_.
     let q1 = set_when e w q; q2 = q1\<lparr>bins := ev_insert (evs q1) e (bins q1)\<rparr>
     in Inr (set_scheduled e True q2)))"

definition deschedule :: "'e \<Rightarrow> 'e eventq \<Rightarrow> 'e eventq res" where
  "deschedule e q =
     bindR (guardR (escheduled (evs q e)) AssertFail) (\<lambda>_.
     bindR (ev_remove (evs q) e (bins q)) (\<lambda>bs.
     Inr (set_scheduled e False (clear_squashed e (q\<lparr>bins := bs\<rparr>)))))"

definition reschedule :: "'e \<Rightarrow> tick \<Rightarrow> bool \<Rightarrow> 'e eventq \<Rightarrow> 'e eventq res" where
  "reschedule e w always q =
     bindR (guardR (curTick q \<le> w) AssertFail) (\<lambda>_.
     bindR (guardR (always \<or> escheduled (evs q e)) AssertFail) (\<lambda>_.
     bindR (if escheduled (evs q e) then ev_remove (evs q) e (bins q) else Inr (bins q)) (\<lambda>bs.
     let q1 = set_when e w (q\<lparr>bins := bs\<rparr>); q2 = q1\<lparr>bins := ev_insert (evs q1) e (bins q1)\<rparr>
     in Inr (set_scheduled e True (clear_squashed e q2)))))"

definition squash :: "'e \<Rightarrow> 'e eventq \<Rightarrow> 'e eventq" where
  "squash e q = q\<lparr>evs := (evs q)(e := (evs q e)\<lparr>esquashed := True\<rparr>)\<rparr>"

text \<open>\<open>serviceOne\<close> up to the call of \<open>process\<close>: the popped event and whether it is to
  be processed, with the time already moved to it.  The caller runs \<open>process\<close>.\<close>

definition serviceOne :: "'e eventq \<Rightarrow> ('e \<times> bool \<times> 'e eventq) res" where
  "serviceOne q =
     (case bins q of
        [] \<Rightarrow> Inl OutOfBounds
      | b # bs \<Rightarrow>
          (case b of
             [] \<Rightarrow> Inl Undefined
           | e # rest \<Rightarrow>
               let q1 = set_scheduled e False q; q2 = q1\<lparr>bins := put_bin rest bs\<rparr>
               in if esquashed (evs q2 e) then Inr (e, False, clear_squashed e q2)
                  else Inr (e, True, q2\<lparr>curTick := ewhen (evs q2 e)\<rparr>)))"

text \<open>\<open>debugVerify\<close> walks the queue in order; \<open>short\<close> and \<open>map\<close> become the last
  time and priority and the set of events seen.\<close>

fun verify_walk :: "('e \<Rightarrow> evstate) \<Rightarrow> tick \<Rightarrow> int \<Rightarrow> 'e list \<Rightarrow> 'e list \<Rightarrow> bool" where
  "verify_walk f time prio seen [] = True"
| "verify_walk f time prio seen (e # es) =
     (if ewhen (f e) < time then False
      else if ewhen (f e) = time \<and> eprio (f e) < prio then False
      else if e \<in> set seen then False
      else verify_walk f (ewhen (f e)) (eprio (f e)) (e # seen) es)"

definition debugVerify :: "'e eventq \<Rightarrow> bool" where
  "debugVerify q = verify_walk (evs q) 0 0 [] (concat (bins q))"

section \<open>The invariant\<close>

text \<open>Bins are nonempty and uniform, tops strictly increase, an event is in the queue
  exactly when it is marked as scheduled, at most once, and not in the past.\<close>

definition bin_ok :: "('e \<Rightarrow> evstate) \<Rightarrow> 'e list \<Rightarrow> bool" where
  "bin_ok f b \<longleftrightarrow> b \<noteq> [] \<and> (\<forall>e\<in>set b. ev_eq f (hd b) e)"

definition q_ok :: "'e eventq \<Rightarrow> bool" where
  "q_ok q \<longleftrightarrow>
     list_all (bin_ok (evs q)) (bins q) \<and>
     sorted_wrt (\<lambda>b c. ev_lt (evs q) (hd b) (hd c)) (bins q) \<and>
     distinct (concat (bins q)) \<and> (\<forall>e. e \<in> set (concat (bins q)) \<longleftrightarrow> escheduled (evs q e)) \<and>
     (\<forall>e\<in>set (concat (bins q)). curTick q \<le> ewhen (evs q e))"

text \<open>What the queue stands for: the events in the order they will be served.\<close>

definition agenda :: "'e eventq \<Rightarrow> 'e list" where
  "agenda q = concat (bins q)"

text \<open>The reference insertion: before everything not earlier than the event.\<close>

fun insort_first :: "('e \<Rightarrow> evstate) \<Rightarrow> 'e \<Rightarrow> 'e list \<Rightarrow> 'e list" where
  "insort_first f e [] = [e]"
| "insort_first f e (x # xs) = (if ev_lt f x e then x # insort_first f e xs else e # x # xs)"

section \<open>Order\<close>

definition ekey :: "('e \<Rightarrow> evstate) \<Rightarrow> 'e \<Rightarrow> tick \<times> int" where
  "ekey f e = (ewhen (f e), eprio (f e))"

lemma ev_lt_key: "ev_lt f l r \<longleftrightarrow> ekey f l < ekey f r"
  by (auto simp: ev_lt_def ekey_def less_prod_def)

lemma ev_le_key: "ev_le f l r \<longleftrightarrow> ekey f l \<le> ekey f r"
  by (auto simp: ev_le_def ekey_def less_eq_prod_def)

lemma ev_eq_key: "ev_eq f l r \<longleftrightarrow> ekey f l = ekey f r"
  by (auto simp: ev_eq_def ekey_def)

lemmas ev_keys = ev_lt_key ev_le_key ev_eq_key

definition bins_ok :: "('e \<Rightarrow> evstate) \<Rightarrow> 'e list list \<Rightarrow> bool" where
  "bins_ok f bs \<longleftrightarrow> list_all (bin_ok f) bs \<and> sorted_wrt (\<lambda>b c. ev_lt f (hd b) (hd c)) bs"

lemma bins_ok_simps [simp]:
  "bins_ok f []"
  "bins_ok f (b # bs) \<longleftrightarrow> bin_ok f b \<and> (\<forall>c\<in>set bs. ekey f (hd b) < ekey f (hd c)) \<and> bins_ok f bs"
  by (auto simp: bins_ok_def ev_keys)

lemma bin_okD: "bin_ok f b \<Longrightarrow> e \<in> set b \<Longrightarrow> ekey f e = ekey f (hd b)"
  by (simp add: bin_ok_def ev_keys)

lemma bin_ok_ne: "bin_ok f b \<Longrightarrow> b \<noteq> []"
  by (simp add: bin_ok_def)

lemma bin_ok_Cons [simp]: "bin_ok f (e # b) \<longleftrightarrow> (\<forall>x\<in>set b. ekey f x = ekey f e)"
  by (auto simp: bin_ok_def ev_keys)

lemma bins_okD: "bins_ok f bs \<Longrightarrow> b \<in> set bs \<Longrightarrow> bin_ok f b"
  by (auto simp: bins_ok_def list_all_iff)

lemma key_later:
  assumes "bins_ok f (b # bs)" and "e \<in> set (concat bs)"
  shows "ekey f (hd b) < ekey f e"
proof -
  obtain c where c: "c \<in> set bs" "e \<in> set c" using assms(2) by auto
  then have "ekey f e = ekey f (hd c)" using bins_okD [of f bs c] bin_okD assms(1) by auto
  then show ?thesis using c assms(1) by auto
qed

section \<open>Insertion keeps the bins and is the reference insertion\<close>

lemma insort_first_le: "\<forall>x\<in>set xs. \<not> ev_lt f x e \<Longrightarrow> insort_first f e (xs @ ys) = (if xs = [] then insort_first f e ys else e # xs @ ys)"
  by (cases xs) auto

lemma insort_first_skip: "\<forall>x\<in>set xs. ev_lt f x e \<Longrightarrow> insort_first f e (xs @ ys) = xs @ insort_first f e ys"
  by (induction xs) auto

lemma insertBefore_ok:
  assumes "bins_ok f bs" and "bs \<noteq> [] \<Longrightarrow> ekey f e \<le> ekey f (hd (hd bs))"
  shows "bins_ok f (insertBefore f e bs) \<and> concat (insertBefore f e bs) = insort_first f e (concat bs)"
proof (cases bs)
  case Nil
  then show ?thesis by (simp add: bin_ok_def ev_keys)
next
  case (Cons b r)
  have bk: "bin_ok f b" using assms(1) Cons by simp
  have b: "b \<noteq> []" "\<And>x. x \<in> set b \<Longrightarrow> ekey f x = ekey f (hd b)"
    using bin_ok_ne [OF bk] bin_okD [OF bk] by blast+
  have le: "ekey f e \<le> ekey f (hd b)" using assms(2) Cons by simp
  have "\<forall>x\<in>set b. \<not> ev_lt f x e" unfolding ev_keys using b(2) le by (metis leD)
  then have c: "insort_first f e (concat bs) = e # concat bs" using insort_first_le [of b f e] Cons b(1) by simp
  show ?thesis
  proof (cases "ev_lt f e (hd b)")
    case True
    then show ?thesis using assms(1) Cons c by (auto simp: ev_keys)
  next
    case False
    then have k: "ekey f e = ekey f (hd b)" using le by (simp add: ev_keys)
    have "\<forall>x\<in>set b. ekey f x = ekey f e" using b(2) k by metis
    moreover have "\<forall>d\<in>set r. ekey f e < ekey f (hd d)" using assms(1) Cons k by simp
    ultimately have "bins_ok f ((e # b) # r)" using assms(1) Cons by simp
    then show ?thesis using Cons c False by simp
  qed
qed

lemma insert_walk_ok:
  assumes "bins_ok f bs"
  shows "bins_ok f (insert_walk f e bs) \<and> concat (insert_walk f e bs) = insort_first f e (concat bs) \<and>
    (\<forall>c\<in>set (insert_walk f e bs). ekey f (hd c) = ekey f e \<or> (\<exists>b\<in>set bs. hd c = hd b))"
  using assms
proof (induction bs)
  case Nil
  then show ?case by (simp add: bin_ok_def ev_keys)
next
  case (Cons b bs)
  show ?case
  proof (cases "ev_lt f (hd b) e")
    case True
    have "\<forall>x\<in>set b. ev_lt f x e" using True Cons.prems bin_okD by (fastforce simp: ev_keys)
    then have "insort_first f e (b @ concat bs) = b @ insort_first f e (concat bs)"
      by (rule insort_first_skip)
    then show ?thesis using Cons True by (fastforce simp: ev_keys)
  next
    case False
    have "bins_ok f (insertBefore f e (b # bs)) \<and>
        concat (insertBefore f e (b # bs)) = insort_first f e (concat (b # bs))"
      by (rule insertBefore_ok [OF Cons.prems]) (use False in \<open>simp add: ev_keys\<close>)
    then show ?thesis using False by auto
  qed
qed

lemma ev_insert_ok:
  assumes "bins_ok f bs"
  shows "bins_ok f (ev_insert f e bs) \<and> concat (ev_insert f e bs) = insort_first f e (concat bs)"
proof (cases bs)
  case Nil
  then show ?thesis by (simp add: ev_insert_def bin_ok_def ev_keys)
next
  case (Cons b r)
  show ?thesis
  proof (cases "ev_le f e (hd b)")
    case True
    then show ?thesis using insertBefore_ok [OF assms, of e] Cons by (simp add: ev_insert_def ev_keys)
  next
    case False
    then have "ev_insert f e bs = insert_walk f e bs" using Cons by (auto simp: ev_insert_def ev_keys)
    then show ?thesis using insert_walk_ok [OF assms, of e] by simp
  qed
qed

lemma set_insort_first [simp]: "set (insort_first f e xs) = insert e (set xs)"
  by (induction xs) auto

lemma distinct_insort_first: "e \<notin> set xs \<Longrightarrow> distinct xs \<Longrightarrow> distinct (insort_first f e xs)"
  by (induction xs) auto

section \<open>Removal\<close>

lemma removeItem_ok: "e \<in> set b \<Longrightarrow> removeItem e b = Inr (remove1 e b)"
  by (induction b) auto

lemma bins_ok_put: "bins_ok f (b # bs) \<Longrightarrow> bins_ok f (put_bin (remove1 e b) bs)"
proof -
  assume a: "bins_ok f (b # bs)"
  have s: "x \<in> set b" if "x \<in> set (remove1 e b)" for x using that by (meson notin_set_remove1)
  have h: "ekey f x = ekey f (hd b)" if "x \<in> set (remove1 e b)" for x
    using s [OF that] a bin_okD by fastforce
  have k: "ekey f (hd (remove1 e b)) = ekey f (hd b)" if "remove1 e b \<noteq> []" using h that by simp
  have "bin_ok f (remove1 e b)" if "remove1 e b \<noteq> []" using h that k by (simp add: bin_ok_def ev_keys)
  then show ?thesis using a k by (auto simp: put_bin_def)
qed

lemma concat_put [simp]: "concat (put_bin b bs) = b @ concat bs"
  by (simp add: put_bin_def)

lemma hd_put: "c \<in> set (put_bin (remove1 e b) bs) \<Longrightarrow> bin_ok f b \<Longrightarrow> c \<in> set bs \<or> ekey f (hd c) = ekey f (hd b)"
  by (auto simp: put_bin_def split: if_splits dest!: bin_okD [where e = "hd (remove1 e b)"]
      intro: notin_set_remove1 hd_in_set) (metis bin_okD hd_in_set notin_set_remove1)

lemma remove_walk_ok:
  assumes "bins_ok f bs" and "e \<in> set (concat bs)" and "distinct (concat bs)"
  shows "\<exists>r. remove_walk f e bs = Inr r \<and> bins_ok f r \<and> concat r = remove1 e (concat bs) \<and>
    (\<forall>c\<in>set r. \<exists>b\<in>set bs. ekey f (hd c) = ekey f (hd b))"
  using assms
proof (induction bs)
  case Nil
  then show ?case by simp
next
  case (Cons b bs)
  show ?case
  proof (cases "e \<in> set b")
    case True
    have k: "ekey f e = ekey f (hd b)" using True Cons.prems(1) bin_okD by fastforce
    have "concat (put_bin (remove1 e b) bs) = remove1 e (concat (b # bs))"
      using True by (simp add: remove1_append)
    then show ?thesis
      using True k removeItem_ok [OF True] bins_ok_put [OF Cons.prems(1)] hd_put [of _ e b bs f] Cons.prems(1)
      by (fastforce simp: ev_keys)
  next
    case False
    then have e: "e \<in> set (concat bs)" using Cons.prems(2) by simp
    have lt: "ekey f (hd b) < ekey f e" by (rule key_later [OF Cons.prems(1) e])
    obtain r where r: "remove_walk f e bs = Inr r" "bins_ok f r" "concat r = remove1 e (concat bs)"
        "\<forall>c\<in>set r. \<exists>b\<in>set bs. ekey f (hd c) = ekey f (hd b)"
      using Cons.IH e Cons.prems by auto
    have "concat (b # r) = remove1 e (concat (b # bs))" using r(3) False by (simp add: remove1_append)
    moreover have "\<forall>c\<in>set r. ekey f (hd b) < ekey f (hd c)" using r(4) Cons.prems(1) by fastforce
    ultimately show ?thesis using r lt Cons.prems(1) by (auto simp: ev_keys)
  qed
qed

lemma ev_remove_ok:
  assumes "bins_ok f bs" and "e \<in> set (concat bs)" and "distinct (concat bs)"
  shows "\<exists>r. ev_remove f e bs = Inr r \<and> bins_ok f r \<and> concat r = remove1 e (concat bs)"
proof (cases bs)
  case Nil
  then show ?thesis using assms(2) by simp
next
  case (Cons b r)
  show ?thesis
  proof (cases "ev_eq f (hd b) e")
    case True
    have "e \<in> set b"
      using key_later [of f b r e] assms(1,2) Cons True by (auto simp: ev_keys)
    then show ?thesis
      using Cons True removeItem_ok [of e b] bins_ok_put [of f b r e] assms(1)
      by (simp add: ev_remove_def remove1_append)
  next
    case False
    then have "e \<notin> set b" using assms(1) Cons bin_okD by (fastforce simp: ev_keys)
    moreover from this have "ekey f (hd b) < ekey f e" using key_later [of f b r e] assms(1,2) Cons by auto
    ultimately have "ev_remove f e bs = remove_walk f e bs" using Cons False by (simp add: ev_remove_def ev_keys)
    then show ?thesis using remove_walk_ok [OF assms] by auto
  qed
qed

section \<open>The queue operations\<close>

lemma q_ok_alt: "q_ok q \<longleftrightarrow> bins_ok (evs q) (bins q) \<and> distinct (agenda q) \<and>
    (\<forall>e. e \<in> set (agenda q) \<longleftrightarrow> escheduled (evs q e)) \<and> (\<forall>e\<in>set (agenda q). curTick q \<le> ewhen (evs q e))"
  by (auto simp: q_ok_def bins_ok_def agenda_def)

lemma bins_ok_cong:
  assumes "bins_ok f bs" and "\<And>x. x \<in> set (concat bs) \<Longrightarrow> ekey g x = ekey f x"
  shows "bins_ok g bs"
  using assms
proof (induction bs)
  case Nil
  then show ?case by simp
next
  case (Cons b bs)
  have h: "hd c \<in> set (concat (b # bs))" if "c \<in> set (b # bs)" for c
    using that bins_okD [OF Cons.prems(1) that] bin_ok_ne by (fastforce intro: hd_in_set)
  have b: "bin_ok g b"
    using Cons.prems(1) Cons.prems(2) [of "hd b"] Cons.prems(2) h [of b] by (auto simp: bin_ok_def ev_keys)
  have "\<forall>c\<in>set bs. ekey g (hd b) < ekey g (hd c)" using Cons.prems h by simp
  then show ?case using Cons b by simp
qed

lemma insort_first_cong:
  "ekey g e = ekey f e \<Longrightarrow> (\<And>x. x \<in> set xs \<Longrightarrow> ekey g x = ekey f x) \<Longrightarrow> insort_first g e xs = insort_first f e xs"
  by (induction xs) (auto simp: ev_keys)

lemma agenda_sorted:
  "bins_ok f bs \<Longrightarrow> sorted_wrt (\<lambda>x y. ekey f x \<le> ekey f y) (concat bs)"
proof (induction bs)
  case Nil
  then show ?case by simp
next
  case (Cons b bs)
  have s: "sorted_wrt (\<lambda>x y. ekey f x \<le> ekey f y) c" if "\<forall>x\<in>set c. ekey f x = k" for c k
    using that by (induction c) auto
  have k: "ekey f x = ekey f (hd b)" if "x \<in> set b" for x
    using that Cons.prems by (auto dest: bin_okD)
  have "ekey f x \<le> ekey f y" if "x \<in> set b" "y \<in> set (concat bs)" for x y
    using k [OF that(1)] key_later [OF Cons.prems that(2)] by simp
  moreover have "sorted_wrt (\<lambda>x y. ekey f x \<le> ekey f y) b" by (rule s) (use k in blast)
  ultimately show ?case using Cons by (simp add: sorted_wrt_append)
qed

lemma key_when_le: "ekey f x \<le> ekey f y \<Longrightarrow> ewhen (f x) \<le> ewhen (f y)"
  by (auto simp: ekey_def less_eq_prod_def)

definition scheduled_at :: "tick \<Rightarrow> evstate \<Rightarrow> evstate" where
  "scheduled_at w v = v\<lparr>ewhen := w, escheduled := True\<rparr>"

lemma enqueue_ok:
  assumes "q_ok q" and "\<not> escheduled (evs q e)" and "curTick q \<le> ewhen v" and "escheduled v"
    and "\<And>x. ekey f x = ekey ((evs q)(e := v)) x"
  shows "q_ok (q\<lparr>evs := (evs q)(e := v), bins := ev_insert f e (bins q)\<rparr>)"
    and "agenda (q\<lparr>evs := (evs q)(e := v), bins := ev_insert f e (bins q)\<rparr>) = insort_first ((evs q)(e := v)) e (agenda q)"
proof -
  let ?g = "(evs q)(e := v)"
  let ?q = "q\<lparr>evs := ?g, bins := ev_insert f e (bins q)\<rparr>"
  note ok = assms(1) [unfolded q_ok_alt]
  have e: "e \<notin> set (agenda q)" using ok assms(2) by blast
  have fq: "ekey f x = ekey (evs q) x" if "x \<in> set (agenda q)" for x
    using that e assms(5) by (auto simp: ekey_def)
  have "bins_ok f (bins q)" using ok fq by (auto simp: agenda_def intro: bins_ok_cong)
  note I = ev_insert_ok [OF this, of e]
  have b: "bins_ok ?g (bins ?q)" using I assms(5) by (auto intro: bins_ok_cong)
  have "concat (ev_insert f e (bins q)) = insort_first f e (concat (bins q))" using I by simp
  also have "\<dots> = insort_first ?g e (concat (bins q))" by (rule insort_first_cong) (simp_all add: assms(5))
  finally show a: "agenda ?q = insort_first ?g e (agenda q)" by (simp add: agenda_def)
  show "q_ok ?q"
    unfolding q_ok_alt a using b ok e assms(3,4) by (auto simp: distinct_insort_first)
qed

lemma schedule_ok:
  assumes "q_ok q" and "\<not> escheduled (evs q e)" and "curTick q \<le> w"
  shows "\<exists>q'. schedule e w q = Inr q' \<and> q_ok q' \<and> curTick q' = curTick q \<and>
     evs q' = (evs q)(e := scheduled_at w (evs q e)) \<and> agenda q' = insort_first (evs q') e (agenda q)"
proof -
  let ?f = "evs (set_when e w q)"
  have k: "ekey ?f x = ekey ((evs q)(e := scheduled_at w (evs q e))) x" for x
    by (simp add: ekey_def set_when_def scheduled_at_def)
  have "schedule e w q = Inr (q\<lparr>evs := (evs q)(e := scheduled_at w (evs q e)), bins := ev_insert ?f e (bins q)\<rparr>)"
    using assms(2,3) by (simp add: schedule_def Let_def set_when_def set_scheduled_def scheduled_at_def)
  then show ?thesis
    using enqueue_ok [OF assms(1,2), of "scheduled_at w (evs q e)" ?f] k assms(3) by (simp add: scheduled_at_def)
qed

lemma update_order:
  "v\<lparr>esquashed := a, escheduled := b\<rparr> = v\<lparr>escheduled := b, esquashed := a\<rparr>"
  "q\<lparr>bins := r, evs := g\<rparr> = q\<lparr>evs := g, bins := r\<rparr>"
  by simp_all

lemma deschedule_ok:
  assumes "q_ok q" and "escheduled (evs q e)"
  shows "\<exists>q'. deschedule e q = Inr q' \<and> q_ok q' \<and> curTick q' = curTick q \<and>
     evs q' = (evs q)(e := (evs q e)\<lparr>escheduled := False, esquashed := False\<rparr>) \<and> agenda q' = remove1 e (agenda q)"
proof -
  note ok = assms(1) [unfolded q_ok_alt]
  have "e \<in> set (concat (bins q))" using ok assms(2) by (simp add: agenda_def)
  then obtain r where r: "ev_remove (evs q) e (bins q) = Inr r" "bins_ok (evs q) r" "concat r = remove1 e (concat (bins q))"
    using ev_remove_ok [of "evs q" "bins q" e] ok by (auto simp: agenda_def)
  let ?g = "(evs q)(e := (evs q e)\<lparr>escheduled := False, esquashed := False\<rparr>)"
  let ?q = "q\<lparr>evs := ?g, bins := r\<rparr>"
  have run: "deschedule e q = Inr ?q"
    using assms(2) r(1) by (simp add: deschedule_def set_scheduled_def clear_squashed_def update_order)
  have "bins_ok ?g r" by (rule bins_ok_cong [OF r(2)]) (simp add: ekey_def)
  moreover have "agenda ?q = remove1 e (agenda q)" using r(3) by (simp add: agenda_def)
  ultimately have "q_ok ?q" unfolding q_ok_alt using ok by (auto simp: set_remove1_eq)
  then show ?thesis using run r(3) by (simp add: agenda_def)
qed

lemma reschedule_ok:
  assumes "q_ok q" and "escheduled (evs q e)" and "curTick q \<le> w"
  shows "\<exists>q'. reschedule e w always q = Inr q' \<and> q_ok q' \<and> curTick q' = curTick q \<and>
     evs q' = (evs q)(e := (scheduled_at w (evs q e))\<lparr>esquashed := False\<rparr>) \<and>
     agenda q' = insort_first (evs q') e (remove1 e (agenda q))"
proof -
  let ?v = "(scheduled_at w (evs q e))\<lparr>esquashed := False\<rparr>"
  obtain q1 where q1: "deschedule e q = Inr q1" "q_ok q1" "curTick q1 = curTick q"
     "evs q1 = (evs q)(e := (evs q e)\<lparr>escheduled := False, esquashed := False\<rparr>)" "agenda q1 = remove1 e (agenda q)"
    using deschedule_ok [OF assms(1,2)] by blast
  obtain r where r: "ev_remove (evs q) e (bins q) = Inr r" "bins q1 = r"
    using q1(1) by (auto simp: deschedule_def bindR_eq_Inr set_scheduled_def clear_squashed_def)
  let ?f = "evs (set_when e w (q\<lparr>bins := r\<rparr>))"
  have e1: "(evs q1)(e := ?v) = (evs q)(e := ?v)" using q1(4) by simp
  have k: "ekey ?f x = ekey ((evs q1)(e := ?v)) x" for x
    unfolding e1 by (simp add: ekey_def set_when_def scheduled_at_def)
  let ?q = "q1\<lparr>evs := (evs q1)(e := ?v), bins := ev_insert ?f e (bins q1)\<rparr>"
  have n: "\<not> escheduled (evs q1 e)" using q1(4) by simp
  have Q: "?q = q\<lparr>bins := ev_insert ?f e r, evs := (evs q)(e := ?v)\<rparr>"
    unfolding e1 r(2) using q1(3) by (intro eventq.equality) simp_all
  have "reschedule e w always q = Inr ?q"
    unfolding Q using assms(2,3) r(1)
    by (simp add: reschedule_def Let_def set_when_def set_scheduled_def clear_squashed_def scheduled_at_def update_order)
  moreover have "q_ok ?q" "agenda ?q = insort_first ((evs q1)(e := ?v)) e (agenda q1)"
    using enqueue_ok [OF q1(2) n, of ?v ?f] k assms(3) q1(3) by (simp_all add: scheduled_at_def)
  ultimately show ?thesis using q1(3,5) e1 by auto
qed

lemma serviceOne_ok:
  assumes "q_ok q" and "agenda q = e # rest"
  shows "\<exists>q'. serviceOne q = Inr (e, \<not> esquashed (evs q e), q') \<and> q_ok q' \<and> agenda q' = rest \<and>
     curTick q' = (if esquashed (evs q e) then curTick q else ewhen (evs q e)) \<and>
     evs q' = (evs q)(e := (evs q e)\<lparr>escheduled := False, esquashed := False\<rparr>) \<and>
     (\<forall>x\<in>set rest. ekey (evs q) e \<le> ekey (evs q) x)"
proof -
  note ok = assms(1) [unfolded q_ok_alt]
  obtain b bs where b: "bins q = b # bs" using assms(2) by (cases "bins q") (auto simp: agenda_def)
  have "b \<noteq> []" using ok b bin_ok_ne by auto
  then obtain r where r: "b = e # r" "rest = r @ concat bs" using assms(2) b by (cases b) (auto simp: agenda_def)
  let ?g = "(evs q)(e := (evs q e)\<lparr>escheduled := False, esquashed := False\<rparr>)"
  let ?t = "if esquashed (evs q e) then curTick q else ewhen (evs q e)"
  let ?q = "q\<lparr>evs := ?g, bins := put_bin r bs, curTick := ?t\<rparr>"
  have g: "(evs q)(e := (evs q e)\<lparr>escheduled := False\<rparr>) = ?g" if "\<not> esquashed (evs q e)"
    using that by (intro arg_cong [where f = "\<lambda>v. (evs q)(e := v)"]) simp
  have run: "serviceOne q = Inr (e, \<not> esquashed (evs q e), ?q)"
    using b r(1) g by (simp add: serviceOne_def Let_def set_scheduled_def clear_squashed_def)
  have so: "\<forall>x\<in>set rest. ekey (evs q) e \<le> ekey (evs q) x"
    using agenda_sorted [of "evs q" "bins q"] ok assms(2) by (simp add: agenda_def)
  have ag: "agenda ?q = rest" using r by (simp add: agenda_def)
  have "bins_ok (evs q) (put_bin (remove1 e b) bs)" using ok b by (intro bins_ok_put) simp
  then have "bins_ok (evs q) (put_bin r bs)" using r(1) by simp
  then have "bins_ok ?g (put_bin r bs)" by (rule bins_ok_cong) (simp add: ekey_def)
  then have "bins_ok ?g (bins ?q)" by simp
  moreover have "?t \<le> ewhen (?g x)" if "x \<in> set rest" for x
  proof -
    have "ewhen (evs q e) \<le> ewhen (evs q x)" 
      by (rule key_when_le) (use that so in simp)
    then show ?thesis using that ok assms(2) by (auto split: if_splits)
  qed
  ultimately have "q_ok ?q" unfolding q_ok_alt ag using ok assms(2) by auto
  then show ?thesis using run ag so by simp
qed

section \<open>Queue commands and the simulation loop\<close>

datatype 'e qcmd = Sched 'e tick | Desched 'e | Resched 'e tick bool | Squash 'e

fun do_cmd :: "'e qcmd \<Rightarrow> 'e eventq \<Rightarrow> 'e eventq res" where
  "do_cmd (Sched e w) q = schedule e w q"
| "do_cmd (Desched e) q = deschedule e q"
| "do_cmd (Resched e w a) q = reschedule e w a q"
| "do_cmd (Squash e) q = Inr (squash e q)"

text \<open>The interface a simulator loop relies on: commands that succeed keep the queue well
  formed and the time; serving moves the time forward to the event's, never back.\<close>

locale event_queue =
  fixes cmd :: "'c \<Rightarrow> 'q \<Rightarrow> 'q res" and serve :: "'q \<Rightarrow> ('e \<times> bool \<times> 'q) res"
    and ok :: "'q \<Rightarrow> bool" and now :: "'q \<Rightarrow> tick"
  assumes cmd_keeps: "ok q \<Longrightarrow> cmd c q = Inr q' \<Longrightarrow> ok q' \<and> now q' = now q"
    and serve_keeps: "ok q \<Longrightarrow> serve q = Inr (e, p, q') \<Longrightarrow> ok q' \<and> now q \<le> now q'"
begin

text \<open>One round serves an event and performs the commands of its handler; the trace
  collects the time of each round.\<close>

fun rounds :: "'c list list \<Rightarrow> 'q \<Rightarrow> ('q \<times> tick list) res" where
  "rounds [] q = Inr (q, [])"
| "rounds (cs # css) q =
     bindR (serve q) (\<lambda>(e, p, q1). bindR (if p then forR cmd cs q1 else Inr q1) (\<lambda>q2.
     bindR (rounds css q2) (\<lambda>(q3, ts). Inr (q3, now q1 # ts))))"

lemma cmds_keep: "ok q \<Longrightarrow> forR cmd cs q = Inr q' \<Longrightarrow> ok q' \<and> now q' = now q"
  by (rule forR_keeps [where I = "\<lambda>q'. ok q' \<and> now q' = now q"]) (auto dest: cmd_keeps)

lemma rounds_monotone:
  assumes "ok q" and "rounds css q = Inr (q', ts)"
  shows "ok q' \<and> sorted (now q # ts @ [now q'])"
  using assms
proof (induction css arbitrary: q ts)
  case Nil
  then show ?case by simp
next
  case (Cons cs css)
  from Cons.prems(2) obtain e p q1 q2 ts' where r: "serve q = Inr (e, p, q1)"
      "(if p then forR cmd cs q1 else Inr q1) = Inr q2" "rounds css q2 = Inr (q', ts')" "ts = now q1 # ts'"
    by (auto simp: bindR_eq_Inr)
  have 1: "ok q1 \<and> now q \<le> now q1" by (rule serve_keeps [OF Cons.prems(1) r(1)])
  then have 2: "ok q2 \<and> now q2 = now q1" using r(2) cmds_keep by (auto split: if_splits)
  from Cons.IH [of q2 ts'] r(3) 2 show ?case using 1 r(4) by fastforce
qed

end

lemma squash_ok: "q_ok q \<Longrightarrow> q_ok (squash e q)"
proof -
  assume q: "q_ok q"
  have "bins_ok (evs (squash e q)) (bins q)"
    using q by (auto simp: q_ok_alt squash_def ekey_def intro: bins_ok_cong)
  then show ?thesis using q by (auto simp: q_ok_alt squash_def agenda_def)
qed

interpretation eq_bins: event_queue do_cmd serviceOne q_ok curTick
proof
  fix q q' :: "'a eventq" and c
  assume q: "q_ok q" and c: "do_cmd c q = Inr q'"
  show "q_ok q' \<and> curTick q' = curTick q"
  proof (cases c)
    case (Sched e w)
    then show ?thesis using c schedule_ok [OF q, of e w] by (auto simp: schedule_def bindR_eq_Inr)
  next
    case (Desched e)
    then show ?thesis using c deschedule_ok [OF q, of e] by (auto simp: deschedule_def bindR_eq_Inr)
  next
    case (Resched e w a)
    show ?thesis
    proof (cases "escheduled (evs q e)")
      case True
      then show ?thesis using c Resched reschedule_ok [OF q True, of w a] by (auto simp: reschedule_def bindR_eq_Inr)
    next
      case False
      have "curTick q \<le> w" using c Resched by (auto simp: reschedule_def bindR_eq_Inr)
      moreover have "reschedule e w a q = (if a then bindR (schedule e w q) (\<lambda>q'. Inr (clear_squashed e q')) else Inl AssertFail)"
        using False calculation by (auto simp: reschedule_def schedule_def Let_def set_scheduled_def clear_squashed_def
            set_when_def guardR_def update_order)
      ultimately obtain q1 where q1: "schedule e w q = Inr q1" "q' = clear_squashed e q1"
        using c Resched by (auto simp: bindR_eq_Inr split: if_splits)
      have "q_ok q1" "curTick q1 = curTick q" using schedule_ok [OF q False \<open>curTick q \<le> w\<close>] q1(1) by auto
      moreover have "bins_ok (evs q') (bins q1)" using \<open>q_ok q1\<close> q1(2)
        by (auto simp: q_ok_alt clear_squashed_def ekey_def intro: bins_ok_cong)
      ultimately show ?thesis using q1(2) by (auto simp: q_ok_alt clear_squashed_def agenda_def)
    qed
  next
    case (Squash e)
    then show ?thesis using c squash_ok [OF q] by (auto simp: squash_def)
  qed
next
  fix q q' :: "'a eventq" and e p
  assume q: "q_ok q" and s: "serviceOne q = Inr (e, p, q')"
  obtain x xs where a: "agenda q = x # xs"
    using s q by (cases "agenda q") (auto simp: serviceOne_def agenda_def q_ok_alt bin_ok_def split: list.splits)
  then show "q_ok q' \<and> curTick q \<le> curTick q'"
    using serviceOne_ok [OF q a] s q by (auto simp: q_ok_alt)
qed

section \<open>Properties\<close>

text \<open>C25: on a well-formed queue, scheduling an event that is not scheduled, at a time not
  in the past, succeeds and inserts it into the service order before every event that is not
  earlier (time, then priority): events of one bin are served last in, first out.\<close>

theorem schedule_refines:
  assumes "q_ok q" and "\<not> escheduled (evs q e)" and "curTick q \<le> w"
  shows "\<exists>q'. schedule e w q = Inr q' \<and> q_ok q' \<and> curTick q' = curTick q \<and> ewhen (evs q' e) = w \<and>
     escheduled (evs q' e) \<and> (\<forall>x. x \<noteq> e \<longrightarrow> evs q' x = evs q x) \<and>
     agenda q' = insort_first (evs q') e (agenda q)"
  using schedule_ok [OF assms] by (auto simp: scheduled_at_def)

text \<open>C26: descheduling a scheduled event removes exactly it, and rescheduling one moves it
  to its new place; neither panics or fails an assertion.\<close>

theorem deschedule_refines:
  assumes "q_ok q" and "escheduled (evs q e)"
  shows "\<exists>q1. deschedule e q = Inr q1 \<and> q_ok q1 \<and> agenda q1 = remove1 e (agenda q) \<and> \<not> escheduled (evs q1 e) \<and>
     (\<forall>w always. curTick q \<le> w \<longrightarrow> (\<exists>q2. reschedule e w always q = Inr q2 \<and> q_ok q2 \<and>
        ewhen (evs q2 e) = w \<and> agenda q2 = insort_first (evs q2) e (remove1 e (agenda q))))"
  using deschedule_ok [OF assms] reschedule_ok [OF assms]
  by (fastforce simp: scheduled_at_def)

text \<open>C27: serving a nonempty well-formed queue takes its first event, no event left is
  earlier, and the time becomes the event's unless it was squashed.\<close>

theorem serviceOne_earliest:
  assumes "q_ok q" and "agenda q = e # rest"
  shows "\<exists>q'. serviceOne q = Inr (e, \<not> esquashed (evs q e), q') \<and> q_ok q' \<and> agenda q' = rest \<and>
     curTick q' = (if esquashed (evs q e) then curTick q else ewhen (evs q e)) \<and>
     (\<forall>x\<in>set rest. ev_le (evs q) e x)"
  using serviceOne_ok [OF assms] by (auto simp: ev_keys)

text \<open>C28: however handlers schedule, deschedule, reschedule and squash events, the times at
  which the queue serves events never decrease.\<close>

theorem time_never_decreases:
  assumes "q_ok q" and "eq_bins.rounds css q = Inr (q', ts)"
  shows "q_ok q' \<and> sorted (curTick q # ts @ [curTick q'])"
  using assms by (rule eq_bins.rounds_monotone)

text \<open>\<open>debugVerify\<close> accepts sorted lists without repetition, once past the start values.\<close>

lemma verify_walk_ok:
  "sorted_wrt (\<lambda>x y. ekey f x \<le> ekey f y) es \<Longrightarrow> distinct es \<Longrightarrow> set es \<inter> set seen = {} \<Longrightarrow>
   (\<forall>e\<in>set es. (t, p) \<le> ekey f e) \<Longrightarrow> verify_walk f t p seen es"
proof (induction es arbitrary: t p seen)
  case Nil
  then show ?case by simp
next
  case (Cons e es)
  have "(t, p) \<le> ekey f e" using Cons.prems(4) by simp
  then have "\<not> ewhen (f e) < t" "ewhen (f e) = t \<longrightarrow> \<not> eprio (f e) < p"
    by (auto simp: ekey_def less_eq_prod_def)
  moreover have "verify_walk f (ewhen (f e)) (eprio (f e)) (e # seen) es"
    using Cons.prems by (intro Cons.IH) (auto simp: ekey_def)
  ultimately show ?case using Cons.prems by auto
qed

text \<open>\<open>debugVerify\<close> reports an error on a well-formed queue exactly when the first
  event has time 0 and a negative priority, because its walk starts from priority 0.\<close>

theorem debugVerify_false_alarm:
  assumes "q_ok q"
  shows "debugVerify q \<longleftrightarrow> (case agenda q of [] \<Rightarrow> True | e # _ \<Rightarrow> \<not> (ewhen (evs q e) = 0 \<and> eprio (evs q e) < 0))"
proof (cases "agenda q")
  case Nil
  then have c: "concat (bins q) = []" by (simp add: agenda_def)
  show ?thesis unfolding debugVerify_def c Nil by simp
next
  case (Cons e es)
  have so: "sorted_wrt (\<lambda>x y. ekey (evs q) x \<le> ekey (evs q) y) (e # es)" "distinct (e # es)"
    using assms agenda_sorted [of "evs q" "bins q"] Cons by (auto simp: q_ok_alt agenda_def)
  have "verify_walk (evs q) (ewhen (evs q e)) (eprio (evs q e)) [e] es"
    by (rule verify_walk_ok) (use so in \<open>auto simp: ekey_def\<close>)
  moreover have c: "concat (bins q) = e # es" using Cons by (simp add: agenda_def)
  ultimately show ?thesis unfolding debugVerify_def c Cons by (auto simp: not_less)
qed

section \<open>Concrete queues\<close>

text \<open>Three events, numbered 0 to 2, of priorities \<open>-1\<close>, 50 and 55.\<close>

definition demo_q :: "nat eventq" where
  "demo_q = \<lparr>bins = [], curTick = 0, evs = (\<lambda>e. \<lparr>ewhen = 0, eprio = (if e = 0 then - 1 else if e = 1 then 50 else 55),
     escheduled = False, esquashed = False\<rparr>)\<rparr>"

definition demo_q2 :: "nat eventq" where
  "demo_q2 = \<lparr>bins = [[1], [2]], curTick = 0, evs = (\<lambda>e. \<lparr>ewhen = 7, eprio = (if e = 0 then - 1 else if e = 1 then 50 else 55),
     escheduled = (e = 1 \<or> e = 2), esquashed = False\<rparr>)\<rparr>"

lemma demo_q_ok: "q_ok demo_q" "q_ok demo_q2"
  by (auto simp: q_ok_def demo_q_def demo_q2_def bin_ok_def ev_eq_def ev_lt_def)

theorem schedule_refines_witness:
  "\<exists>q'. schedule 0 7 demo_q2 = Inr q' \<and> agenda q' = [0, 1, 2]"
proof -
  obtain q' where q': "schedule 0 7 demo_q2 = Inr q'" "agenda q' = insort_first (evs q') 0 (agenda demo_q2)"
      "ewhen (evs q' 0) = 7" "\<forall>x. x \<noteq> 0 \<longrightarrow> evs q' x = evs demo_q2 x"
    using schedule_refines [OF demo_q_ok(2), of 0 7] by (auto simp: demo_q2_def)
  have "eprio (evs q' 0) = - 1"
    using q'(1) by (auto simp: schedule_def Let_def demo_q2_def set_when_def set_scheduled_def)
  then show ?thesis using q' by (auto simp: agenda_def demo_q2_def ev_lt_def)
qed

theorem deschedule_refines_witness:
  "\<exists>q1 q2. deschedule 1 demo_q2 = Inr q1 \<and> agenda q1 = [2] \<and> reschedule 1 9 False demo_q2 = Inr q2 \<and> q_ok q2"
  using deschedule_refines [OF demo_q_ok(2), of 1] by (force simp: demo_q2_def agenda_def)

theorem serviceOne_earliest_witness: "\<exists>q'. serviceOne demo_q2 = Inr (1, True, q') \<and> curTick q' = 7"
  using serviceOne_earliest [OF demo_q_ok(2), of 1 "[2]"] by (auto simp: demo_q2_def agenda_def)

theorem time_never_decreases_witness:
  "\<exists>q' ts. eq_bins.rounds [[Sched 0 9], []] demo_q2 = Inr (q', ts) \<and> sorted (0 # ts @ [curTick q'])"
proof -
  have "okR (eq_bins.rounds [[Sched 0 9], []] demo_q2)"
    by (simp add: demo_q2_def serviceOne_def Let_def set_scheduled_def clear_squashed_def put_bin_def schedule_def
        set_when_def ev_insert_def ev_le_def ev_lt_def)
  then obtain r where "eq_bins.rounds [[Sched 0 9], []] demo_q2 = Inr r" by (auto simp: okR_iff)
  then show ?thesis
    using time_never_decreases [OF demo_q_ok(2), of "[[Sched 0 9], []]" "fst r" "snd r"]
    by (cases r) (auto simp: demo_q2_def)
qed

theorem debugVerify_false_alarm_witness:
  "\<exists>q'. schedule 0 0 demo_q = Inr q' \<and> q_ok q' \<and> \<not> debugVerify q'"
proof -
  obtain q' where q': "schedule 0 0 demo_q = Inr q'" "q_ok q'" "evs q' = (evs demo_q)(0 := scheduled_at 0 (evs demo_q 0))"
      "agenda q' = [0]"
    using schedule_ok [OF demo_q_ok(1), of 0 0] by (auto simp: demo_q_def agenda_def)
  then show ?thesis
    using debugVerify_false_alarm [OF q'(2)] by (auto simp: demo_q_def scheduled_at_def)
qed

end
