(* ===== verification/Clocked.thy ===== *)
theory Clocked imports Intmath EventQ begin

text \<open>
  Clocked objects (sim/clocked_object.hh): the tick of the next clock edge and the cycle
  count, brought up to date on demand.  Ticks and cycles are 64-bit words.
\<close>

record clocked =
  ctick :: tick
  ccycle :: tick
  cperiod :: tick

definition clk_update :: "tick \<Rightarrow> clocked \<Rightarrow> clocked res" where
  "clk_update now c =
     (if now \<le> ctick c then Inr c
      else let c1 = c\<lparr>ctick := ctick c + cperiod c, ccycle := ccycle c + 1\<rparr> in
      if now \<le> ctick c1 then Inr c1
      else bindR (divCeil (now - ctick c1) (cperiod c1)) (\<lambda>elapsedCycles.
           Inr (c1\<lparr>ccycle := ccycle c1 + elapsedCycles, ctick := ctick c1 + elapsedCycles * cperiod c1\<rparr>)))"

definition clockEdge :: "tick \<Rightarrow> tick \<Rightarrow> clocked \<Rightarrow> (clocked \<times> tick) res" where
  "clockEdge now cycles c = bindR (clk_update now c) (\<lambda>c'. Inr (c', ctick c' + cperiod c' * cycles))"

definition curCycle :: "tick \<Rightarrow> clocked \<Rightarrow> (clocked \<times> tick) res" where
  "curCycle now c = bindR (clk_update now c) (\<lambda>c'. Inr (c', ccycle c'))"

definition nextCycle :: "tick \<Rightarrow> clocked \<Rightarrow> (clocked \<times> tick) res" where
  "nextCycle now c = clockEdge now 1 c"

definition ticksToCycles :: "clocked \<Rightarrow> tick \<Rightarrow> tick res" where
  "ticksToCycles c t = divCeil t (cperiod c)"

text \<open>The edge lies on the grid of the period, at the cycle's place, and less than one period
  ahead of the time.\<close>

definition clk_ok :: "tick \<Rightarrow> clocked \<Rightarrow> bool" where
  "clk_ok now c \<longleftrightarrow> 0 < unat (cperiod c) \<and> unat (ctick c) = unat (ccycle c) * unat (cperiod c) \<and>
     unat (ctick c) < unat now + unat (cperiod c)"

lemma ceil_bounds:
  fixes x p :: nat
  assumes "0 < p" "0 < x"
  shows "x \<le> (x + p - 1) div p * p" "(x + p - 1) div p * p < x + p"
proof -
  have "(x + p - 1) div p * p + (x + p - 1) mod p = x + p - 1" by (rule div_mult_mod_eq)
  moreover have "(x + p - 1) mod p < p" using assms(1) by simp
  ultimately show "x \<le> (x + p - 1) div p * p" "(x + p - 1) div p * p < x + p" using assms by linarith+
qed

lemma clk_update_ok:
  assumes "clk_ok now c" and room: "unat now + unat (cperiod c) \<le> 2 ^ 64"
  shows "\<exists>c'. clk_update now c = Inr c' \<and> clk_ok now c' \<and> cperiod c' = cperiod c \<and> now \<le> ctick c'"
proof (cases "now \<le> ctick c")
  case True
  then show ?thesis using assms(1) by (simp add: clk_update_def)
next
  case False
  let ?p = "unat (cperiod c)" and ?t = "unat (ctick c)"
  have p: "0 < ?p" and t: "?t = unat (ccycle c) * ?p" using assms(1) by (simp_all add: clk_ok_def)
  have lt: "?t < unat now" using False by (simp add: word_less_nat_alt not_le)
  have t1: "unat (ctick c + cperiod c) = ?t + ?p" by (rule unat_add_lem [THEN iffD1]) (use lt room in simp)
  have cyc: "unat (ccycle c) \<le> ?t" using t p by simp
  have cy: "unat (ccycle c + 1) = unat (ccycle c) + 1"
    using unat_add_lem [of "ccycle c" 1] cyc lt room p by simp
  show ?thesis
  proof (cases "now \<le> ctick c + cperiod c")
    case True
    then show ?thesis using False t1 cy t lt p by (simp add: clk_update_def clk_ok_def algebra_simps)
  next
    case far: False
    let ?d = "now - (ctick c + cperiod c)"
    have far': "?t + ?p < unat now" using far t1 by (simp add: word_less_nat_alt not_le)
    have d: "unat ?d = unat now - (?t + ?p)" using far t1 by (simp add: unat_sub)
    obtain e where e: "divCeil ?d (cperiod c) = Inr e" "unat e = (unat ?d + ?p - 1) div ?p"
    proof -
      have "0 < cperiod c" using p by (simp add: word_less_nat_alt)
      moreover have "unat ?d + ?p \<le> 2 ^ LENGTH(64)" using d room by simp
      ultimately show ?thesis using divCeil_value [of "cperiod c" ?d] that by blast
    qed
    have b: "unat ?d \<le> unat e * ?p" "unat e * ?p < unat ?d + ?p"
      using ceil_bounds [OF p, of "unat ?d"] e(2) d far' by simp_all
    have m: "unat (e * cperiod c) = unat e * ?p"
      by (rule unat_mult_lem [THEN iffD1]) (use b d room in simp)
    have tt: "unat (ctick c + cperiod c + e * cperiod c) = ?t + ?p + unat e * ?p"
    proof -
      have "?t + ?p + unat e * ?p < 2 ^ 64" using b d far' room by linarith
      then show ?thesis using unat_add_lem [of "ctick c + cperiod c" "e * cperiod c"] m t1 by simp
    qed
    have "unat e \<le> unat e * ?p" using p by simp
    then have "unat (ccycle c) + 1 + unat e < 2 ^ 64" using cyc b d far' room p by linarith
    then have cc: "unat (ccycle c + 1 + e) = unat (ccycle c) + 1 + unat e"
      using unat_add_lem [of "ccycle c + 1" e] cy by simp
    let ?c = "c\<lparr>ctick := ctick c + cperiod c + e * cperiod c, ccycle := ccycle c + 1 + e\<rparr>"
    have "clk_update now c = Inr ?c" using False far e(1) by (simp add: clk_update_def)
    moreover have "clk_ok now ?c"
    proof -
      have "?t + ?p + unat e * ?p < unat now + ?p" using b d far' by linarith
      moreover have "?t + ?p + unat e * ?p = (unat (ccycle c) + 1 + unat e) * ?p" using t by (simp add: add_mult_distrib)
      ultimately show ?thesis using p tt cc by (simp add: clk_ok_def)
    qed
    moreover have "now \<le> ctick ?c" using tt b d far' by (simp add: word_le_nat_alt)
    ultimately show ?thesis by (intro exI [of _ ?c]) simp
  qed
qed

text \<open>\<open>clockEdge\<close> returns a multiple of the clock period that lies at least the requested
  cycles and less than one period more in the future, and leaves the object in the state
  its invariant demands, at every time that leaves room for the result in 64 bits.\<close>

theorem clockEdge_spec:
  assumes "clk_ok now c" and "unat now + unat (cperiod c) * (unat cycles + 1) \<le> 2 ^ 64"
  shows "\<exists>c' t. clockEdge now cycles c = Inr (c', t) \<and> clk_ok now c' \<and> unat (cperiod c) dvd unat t \<and>
     unat now + unat (cperiod c) * unat cycles \<le> unat t \<and> unat t < unat now + unat (cperiod c) * (unat cycles + 1)"
proof -
  let ?p = "unat (cperiod c)"
  have "unat now + ?p \<le> 2 ^ 64" using assms(2) by simp
  then obtain c' where c': "clk_update now c = Inr c'" "clk_ok now c'" "cperiod c' = cperiod c" "now \<le> ctick c'"
    using clk_update_ok [OF assms(1)] by blast
  have k: "unat (ctick c') = unat (ccycle c') * ?p" "unat (ctick c') < unat now + ?p" "unat now \<le> unat (ctick c')"
    using c'(2-4) by (simp_all add: clk_ok_def word_le_nat_alt)
  have m: "unat (cperiod c * cycles) = ?p * unat cycles"
  proof (rule unat_mult_lem [THEN iffD1])
    have "?p * (unat cycles + 1) = ?p * unat cycles + ?p" by simp
    moreover have "0 < ?p" using assms(1) by (simp add: clk_ok_def)
    ultimately show "?p * unat cycles < 2 ^ LENGTH(64)" using assms(2) by simp
  qed
  have s: "unat (ctick c' + cperiod c * cycles) = unat (ctick c') + ?p * unat cycles"
  proof -
    have "?p * (unat cycles + 1) = ?p * unat cycles + ?p" by simp
    then have "unat (ctick c') + ?p * unat cycles < 2 ^ LENGTH(64)" using k(2) assms(2) by simp
    then have "unat (ctick c') + unat (cperiod c * cycles) < 2 ^ LENGTH(64)" unfolding m .
    then show ?thesis unfolding m [symmetric] by (rule unat_add_lem [THEN iffD1])
  qed
  have d: "?p dvd unat (ctick c') + ?p * unat cycles" using k(1) by simp
  have e: "?p * (unat cycles + 1) = ?p * unat cycles + ?p" by simp
  show ?thesis
  proof (intro exI conjI)
    show "clockEdge now cycles c = Inr (c', ctick c' + cperiod c * cycles)" using c' by (simp add: clockEdge_def)
    show "?p dvd unat (ctick c' + cperiod c * cycles)" unfolding s by (rule d)
    show "unat now + ?p * unat cycles \<le> unat (ctick c' + cperiod c * cycles)" unfolding s using k(3) by simp
    show "unat (ctick c' + cperiod c * cycles) < unat now + ?p * (unat cycles + 1)" unfolding s e using k(2) by simp
  qed (rule c'(2))
qed

theorem clockEdge_spec_witness:
  "\<exists>c' t. clockEdge 1000 2 \<lparr>ctick = 333, ccycle = 1, cperiod = 333\<rparr> = Inr (c', t) \<and> unat t < 1000 + 333 * 3"
  using clockEdge_spec [of 1000 "\<lparr>ctick = 333, ccycle = 1, cperiod = 333\<rparr>" 2] by (force simp: clk_ok_def)

end
