(* ===== verification/Softfloat.thy ===== *)
theory Softfloat imports Prelude begin

text \<open>
  The C++ types \<open>float\<close> and \<open>double\<close> as the simulator's host computes them: IEEE 754
  binary32 and binary64, round to nearest, ties to even, on bit patterns.  Operations are
  executable: a pattern is decoded to sign, integer significand and exponent, the exact
  result is formed, and one rounding function packs it again.  A NaN result is the
  default quiet NaN (C++ does not fix the payload).  Nothing in this theory models a
  file of the repository; it is the language's arithmetic.
\<close>

section \<open>Formats and decoding\<close>

record fmt =
  mbits :: nat
  ebits :: nat

definition F32 :: fmt where "F32 = \<lparr>mbits = 23, ebits = 8\<rparr>"
definition F64 :: fmt where "F64 = \<lparr>mbits = 52, ebits = 11\<rparr>"

datatype fval = NaN | Inf bool | Fin bool nat int

definition emin :: "fmt \<Rightarrow> int" where
  "emin F = 2 - 2 ^ (ebits F - 1) - int (mbits F)"

definition magbits :: "fmt \<Rightarrow> nat" where
  "magbits F = mbits F + ebits F"

definition infbits :: "fmt \<Rightarrow> nat" where
  "infbits F = (2 ^ ebits F - 1) * 2 ^ mbits F"

definition qnan :: "fmt \<Rightarrow> nat" where
  "qnan F = infbits F + 2 ^ (mbits F - 1)"

definition fsign :: "fmt \<Rightarrow> nat \<Rightarrow> bool" where
  "fsign F b = odd (b div 2 ^ magbits F)"

definition fmag :: "fmt \<Rightarrow> nat \<Rightarrow> nat" where
  "fmag F b = b mod 2 ^ magbits F"

definition fpack :: "fmt \<Rightarrow> bool \<Rightarrow> nat \<Rightarrow> nat" where
  "fpack F s mag = (if s then 2 ^ magbits F else 0) + mag"

definition fdecode :: "fmt \<Rightarrow> nat \<Rightarrow> fval" where
  "fdecode F b =
     (let s = fsign F b; e = fmag F b div 2 ^ mbits F; m = fmag F b mod 2 ^ mbits F in
      if e = 2 ^ ebits F - 1 then (if m = 0 then Inf s else NaN)
      else if e = 0 then Fin s m (emin F)
      else Fin s (m + 2 ^ mbits F) (emin F + int e - 1))"

section \<open>Rounding\<close>

fun bitlen :: "nat \<Rightarrow> nat" where
  "bitlen n = (if n = 0 then 0 else Suc (bitlen (n div 2)))"

declare bitlen.simps [simp del]

text \<open>
  \<open>fround F s m e st\<close> packs the value \<open>m * 2 ^ e\<close> (a little more when \<open>st\<close>), \<open>m > 0\<close>,
  with sign \<open>s\<close>: pick the exponent of the last kept bit, round the significand to
  nearest even there, and add; a carry out of the significand moves to the next binade
  by itself, and anything from the infinity pattern on is infinity.
\<close>

definition rexp :: "fmt \<Rightarrow> nat \<Rightarrow> int \<Rightarrow> int" where
  "rexp F m e = max (emin F) (e + int (bitlen m) - int (mbits F) - 1)"

definition rsig :: "nat \<Rightarrow> int \<Rightarrow> int \<Rightarrow> bool \<Rightarrow> nat" where
  "rsig m e e' st =
     (if e' \<le> e then m * 2 ^ nat (e - e')
      else let sh = nat (e' - e); q = m div 2 ^ sh; r = m mod 2 ^ sh; h = 2 ^ (sh - 1) in
           if h < r \<or> r = h \<and> (st \<or> odd q) then q + 1 else q)"

definition fround :: "fmt \<Rightarrow> bool \<Rightarrow> nat \<Rightarrow> int \<Rightarrow> bool \<Rightarrow> nat" where
  "fround F s m e st =
     (let e' = rexp F m e
      in fpack F s (min (infbits F) (nat (e' - emin F) * 2 ^ mbits F + rsig m e e' st)))"

section \<open>Arithmetic on bit patterns\<close>

definition signed :: "bool \<Rightarrow> nat \<Rightarrow> int" where
  "signed s m = (if s then - int m else int m)"

definition fadd :: "fmt \<Rightarrow> nat \<Rightarrow> nat \<Rightarrow> nat" where
  "fadd F a b =
     (case (fdecode F a, fdecode F b) of
        (NaN, _) \<Rightarrow> qnan F
      | (_, NaN) \<Rightarrow> qnan F
      | (Inf s, Inf t) \<Rightarrow> (if s = t then a else qnan F)
      | (Inf s, _) \<Rightarrow> a
      | (_, Inf t) \<Rightarrow> b
      | (Fin s m e, Fin t n f) \<Rightarrow>
          (if m = 0 \<and> n = 0 then fpack F (s \<and> t) 0
           else if n = 0 then a
           else if m = 0 then b
           else let g = min e f;
                    v = signed s (m * 2 ^ nat (e - g)) + signed t (n * 2 ^ nat (f - g))
                in if v = 0 then 0 else fround F (v < 0) (nat \<bar>v\<bar>) g False))"

definition fneg :: "fmt \<Rightarrow> nat \<Rightarrow> nat" where
  "fneg F a = fpack F (\<not> fsign F a) (fmag F a)"

definition fsub :: "fmt \<Rightarrow> nat \<Rightarrow> nat \<Rightarrow> nat" where
  "fsub F a b = fadd F a (fneg F b)"

definition fmul :: "fmt \<Rightarrow> nat \<Rightarrow> nat \<Rightarrow> nat" where
  "fmul F a b =
     (case (fdecode F a, fdecode F b) of
        (NaN, _) \<Rightarrow> qnan F
      | (_, NaN) \<Rightarrow> qnan F
      | (Inf s, Inf t) \<Rightarrow> fpack F (s \<noteq> t) (infbits F)
      | (Inf s, Fin t n _) \<Rightarrow> (if n = 0 then qnan F else fpack F (s \<noteq> t) (infbits F))
      | (Fin s m _, Inf t) \<Rightarrow> (if m = 0 then qnan F else fpack F (s \<noteq> t) (infbits F))
      | (Fin s m e, Fin t n f) \<Rightarrow>
          (if m = 0 \<or> n = 0 then fpack F (s \<noteq> t) 0
           else fround F (s \<noteq> t) (m * n) (e + f) False))"

definition fdiv :: "fmt \<Rightarrow> nat \<Rightarrow> nat \<Rightarrow> nat" where
  "fdiv F a b =
     (case (fdecode F a, fdecode F b) of
        (NaN, _) \<Rightarrow> qnan F
      | (_, NaN) \<Rightarrow> qnan F
      | (Inf s, Inf t) \<Rightarrow> qnan F
      | (Inf s, Fin t _ _) \<Rightarrow> fpack F (s \<noteq> t) (infbits F)
      | (Fin s _ _, Inf t) \<Rightarrow> fpack F (s \<noteq> t) 0
      | (Fin s m e, Fin t n f) \<Rightarrow>
          (if n = 0 then (if m = 0 then qnan F else fpack F (s \<noteq> t) (infbits F))
           else if m = 0 then fpack F (s \<noteq> t) 0
           else let k = 2 * (mbits F + 2); x = m * 2 ^ k
                in fround F (s \<noteq> t) (x div n) (e - f - int k) (x mod n \<noteq> 0)))"

fun isqrt :: "nat \<Rightarrow> nat" where
  "isqrt n = (if n = 0 then 0
              else let r = 2 * isqrt (n div 4) in if (r + 1) * (r + 1) \<le> n then r + 1 else r)"

declare isqrt.simps [simp del]

definition fsqrt :: "fmt \<Rightarrow> nat \<Rightarrow> nat" where
  "fsqrt F a =
     (case fdecode F a of
        NaN \<Rightarrow> qnan F
      | Inf s \<Rightarrow> (if s then qnan F else a)
      | Fin s m e \<Rightarrow>
          (if m = 0 then a
           else if s then qnan F
           else let k = 2 * (mbits F + 2) + (if even e then 0 else 1);
                    x = m * 2 ^ k; r = isqrt x
                in fround F False r ((e - int k) div 2) (r * r \<noteq> x)))"

definition fof_int :: "fmt \<Rightarrow> int \<Rightarrow> nat" where
  "fof_int F i = (if i = 0 then 0 else fround F (i < 0) (nat \<bar>i\<bar>) 0 False)"

section \<open>Comparison and conversion\<close>

definition fis_nan :: "fmt \<Rightarrow> nat \<Rightarrow> bool" where
  "fis_nan F a = (infbits F < fmag F a)"

definition fkey :: "fmt \<Rightarrow> nat \<Rightarrow> int" where
  "fkey F a = signed (fsign F a) (fmag F a)"

definition flt :: "fmt \<Rightarrow> nat \<Rightarrow> nat \<Rightarrow> bool" where
  "flt F a b = (\<not> fis_nan F a \<and> \<not> fis_nan F b \<and> fkey F a < fkey F b)"

definition feq :: "fmt \<Rightarrow> nat \<Rightarrow> nat \<Rightarrow> bool" where
  "feq F a b = (\<not> fis_nan F a \<and> \<not> fis_nan F b \<and> fkey F a = fkey F b)"

definition ffinite :: "fmt \<Rightarrow> nat \<Rightarrow> bool" where
  "ffinite F a = (fmag F a < infbits F)"

text \<open>Conversion of a double to an unsigned 64-bit integer truncates; C++ leaves a value
  outside the range undefined.\<close>

definition fto_u64 :: "nat \<Rightarrow> tick res" where
  "fto_u64 a =
     (case fdecode F64 a of
        Fin s m e \<Rightarrow>
          (let t = (if 0 \<le> e then m * 2 ^ nat e else m div 2 ^ nat (- e))
           in if s \<and> 0 < t \<or> 2 ^ 64 \<le> t then Inl Undefined else Inr (of_nat t))
      | _ \<Rightarrow> Inl Undefined)"

type_synonym f32 = "32 word"
type_synonym f64 = "64 word"

definition f32_add :: "f32 \<Rightarrow> f32 \<Rightarrow> f32" where "f32_add a b = of_nat (fadd F32 (unat a) (unat b))"
definition f32_sub :: "f32 \<Rightarrow> f32 \<Rightarrow> f32" where "f32_sub a b = of_nat (fsub F32 (unat a) (unat b))"
definition f32_mul :: "f32 \<Rightarrow> f32 \<Rightarrow> f32" where "f32_mul a b = of_nat (fmul F32 (unat a) (unat b))"
definition f32_div :: "f32 \<Rightarrow> f32 \<Rightarrow> f32" where "f32_div a b = of_nat (fdiv F32 (unat a) (unat b))"
definition f32_sqrt :: "f32 \<Rightarrow> f32" where "f32_sqrt a = of_nat (fsqrt F32 (unat a))"
definition f32_of_int :: "int \<Rightarrow> f32" where "f32_of_int i = of_nat (fof_int F32 i)"
definition f32_lt :: "f32 \<Rightarrow> f32 \<Rightarrow> bool" where "f32_lt a b = flt F32 (unat a) (unat b)"
definition f32_eq :: "f32 \<Rightarrow> f32 \<Rightarrow> bool" where "f32_eq a b = feq F32 (unat a) (unat b)"
definition f32_finite :: "f32 \<Rightarrow> bool" where "f32_finite a = ffinite F32 (unat a)"
definition f32_nan :: "f32 \<Rightarrow> bool" where "f32_nan a = fis_nan F32 (unat a)"
definition f64_mul :: "f64 \<Rightarrow> f64 \<Rightarrow> f64" where "f64_mul a b = of_nat (fmul F64 (unat a) (unat b))"
definition f64_add :: "f64 \<Rightarrow> f64 \<Rightarrow> f64" where "f64_add a b = of_nat (fadd F64 (unat a) (unat b))"
definition f64_of_nat :: "nat \<Rightarrow> f64" where "f64_of_nat n = of_nat (fof_int F64 (int n))"
definition f64_to_u64 :: "f64 \<Rightarrow> tick res" where "f64_to_u64 a = fto_u64 (unat a)"
definition f64_lt :: "f64 \<Rightarrow> f64 \<Rightarrow> bool" where "f64_lt a b = flt F64 (unat a) (unat b)"
definition f64_nan :: "f64 \<Rightarrow> bool" where "f64_nan a = fis_nan F64 (unat a)"

abbreviation f32_pzero :: f32 where "f32_pzero \<equiv> 0"
abbreviation f32_nzero :: f32 where "f32_nzero \<equiv> 0x80000000"
abbreviation f32_qnan :: f32 where "f32_qnan \<equiv> 0x7fc00000"
abbreviation f32_min :: f32 where "f32_min \<equiv> 0x00800000" \<comment> \<open>numeric_limits<float>::min(), the least positive normal\<close>


section \<open>Facts used by the components\<close>

named_theorems float_defs "definitions that evaluate an operation on bit patterns"

lemmas f32_ops_defs [float_defs] = f32_add_def f32_sub_def f32_mul_def f32_div_def f32_sqrt_def
  f32_of_int_def f32_lt_def f32_eq_def f32_finite_def f32_nan_def
  f64_mul_def f64_add_def f64_of_nat_def f64_to_u64_def f64_lt_def f64_nan_def
lemmas fmt_defs [float_defs] = fadd_def fsub_def fmul_def fneg_def fof_int_def fdecode_def
  fsign_def fmag_def magbits_def emin_def fround_def rexp_def rsig_def fpack_def infbits_def
  qnan_def signed_def fis_nan_def fkey_def flt_def feq_def ffinite_def fto_u64_def
  F32_def F64_def bitlen.simps Let_def

subsection \<open>Comparison is a strict weak order without NaNs\<close>

lemma f32_lt_irrefl [simp]: "\<not> f32_lt a a"
  by (simp add: f32_lt_def flt_def)

lemma f32_lt_trans: "f32_lt a b \<Longrightarrow> f32_lt b c \<Longrightarrow> f32_lt a c"
  by (auto simp: f32_lt_def flt_def)

lemma f32_lt_asym: "f32_lt a b \<Longrightarrow> \<not> f32_lt b a"
  by (auto simp: f32_lt_def flt_def)

lemma f32_lt_linear: "\<not> f32_nan a \<Longrightarrow> \<not> f32_nan b \<Longrightarrow> f32_lt a b \<or> f32_eq a b \<or> f32_lt b a"
  by (auto simp: f32_lt_def f32_nan_def flt_def f32_eq_def feq_def)

lemma f32_lt_not_nan: "f32_lt a b \<Longrightarrow> \<not> f32_nan a \<and> \<not> f32_nan b"
  by (simp add: f32_lt_def flt_def f32_nan_def)

lemma f32_not_lt_trans:
  "\<not> f32_lt b a \<Longrightarrow> \<not> f32_lt c b \<Longrightarrow> \<not> f32_nan b \<Longrightarrow> \<not> f32_lt c a"
  by (auto simp: f32_lt_def flt_def f32_nan_def)

lemma f64_lt_irrefl [simp]: "\<not> f64_lt a a"
  by (simp add: f64_lt_def flt_def)

lemma f64_lt_trans: "f64_lt a b \<Longrightarrow> f64_lt b c \<Longrightarrow> f64_lt a c"
  by (auto simp: f64_lt_def flt_def)

lemma f64_lt_asym: "f64_lt a b \<Longrightarrow> \<not> f64_lt b a"
  by (auto simp: f64_lt_def flt_def)

lemma f64_lt_le_trans: "f64_lt a b \<Longrightarrow> \<not> f64_lt c b \<Longrightarrow> \<not> f64_nan c \<Longrightarrow> f64_lt a c"
  by (auto simp: f64_lt_def flt_def f64_nan_def)

lemma f64_lt_not_nan: "f64_lt a b \<Longrightarrow> \<not> f64_nan a \<and> \<not> f64_nan b"
  by (simp add: f64_lt_def flt_def f64_nan_def)

subsection \<open>Zeros\<close>

definition f32_is_zero :: "f32 \<Rightarrow> bool" where
  "f32_is_zero a = (a = f32_pzero \<or> a = f32_nzero)"

lemma unat_split31: "unat (a :: f32) = (unat a div 2 ^ 31) * 2 ^ 31 + unat a mod 2 ^ 31"
  by simp

lemma unat_div31: "unat (a :: f32) div 2 ^ 31 = 0 \<or> unat a div 2 ^ 31 = 1"
proof -
  have "unat a < 2 ^ 32" using unsigned_less [of a] by simp
  then have "unat a div 2 ^ 31 < 2" by (simp add: less_mult_imp_div_less)
  then show ?thesis by linarith
qed

lemma emin_F32: "emin F32 = - 149" by (simp add: emin_def F32_def)

lemma infbits_F32: "infbits F32 = 0x7f800000" by (simp add: infbits_def F32_def)

lemma mbits_F32: "mbits F32 = 23" by (simp add: F32_def)

lemma ebits_F32: "ebits F32 = 8" by (simp add: F32_def)

lemma fmag_F32: "fmag F32 b = b mod 2 ^ 31"
  by (simp add: fmag_def magbits_def F32_def)

lemma fsign_F32: "fsign F32 (unat (a :: f32)) \<longleftrightarrow> unat a div 2 ^ 31 = 1"
  using unat_div31 [of a] by (auto simp: fsign_def magbits_def F32_def)

lemma f32_mag_zero_iff: "fmag F32 (unat (a :: f32)) = 0 \<longleftrightarrow> f32_is_zero a"
proof
  assume "fmag F32 (unat a) = 0"
  then have "unat a mod 2 ^ 31 = 0" by (simp add: fmag_F32)
  then have "unat a = 0 \<or> unat a = 2 ^ 31"
    using unat_div31 [of a] unat_split31 [of a] by auto
  then show "f32_is_zero a"
  proof
    assume "unat a = 0" then show ?thesis by (simp add: f32_is_zero_def unat_eq_0)
  next
    assume "unat a = 2 ^ 31"
    then have "of_nat (unat a) = (of_nat (2 ^ 31) :: f32)" by simp
    then show ?thesis by (simp add: f32_is_zero_def)
  qed
next
  assume "f32_is_zero a"
  then show "fmag F32 (unat a) = 0" by (auto simp: f32_is_zero_def fmag_F32)
qed

lemma f32_eq_zero_iff: "f32_eq a 0 \<longleftrightarrow> f32_is_zero a"
proof
  assume "f32_eq a 0"
  then have "fkey F32 (unat a) = 0"
    by (auto simp: f32_eq_def feq_def fkey_def fmag_F32 signed_def)
  then have "fmag F32 (unat a) = 0" by (simp add: fkey_def signed_def split: if_splits)
  then show "f32_is_zero a" by (simp only: f32_mag_zero_iff)
next
  assume "f32_is_zero a"
  then show "f32_eq a 0"
    by (auto simp: f32_is_zero_def f32_eq_def feq_def fkey_def fmag_F32 signed_def
        fis_nan_def infbits_F32)
qed

subsection \<open>Decoding binary32 patterns\<close>

lemma fdecode_pzero: "fdecode F32 0 = Fin False 0 (- 149)"
  by (simp add: float_defs)

lemma fdecode_nzero: "fdecode F32 0x80000000 = Fin True 0 (- 149)"
  by (simp add: float_defs)

lemma f32_decode_cases:
  obtains (nan) "fdecode F32 (unat (a :: f32)) = NaN" "f32_nan a"
  | (inf) s where "fdecode F32 (unat a) = Inf s" "fmag F32 (unat a) = infbits F32"
  | (fin) s m e where "fdecode F32 (unat a) = Fin s m e" "- 149 \<le> e" "f32_finite a"
      "m = 0 \<longleftrightarrow> f32_is_zero a" "s = fsign F32 (unat a)"
proof -
  define g where "g = fmag F32 (unat a)"
  define x where "x = g div 2 ^ 23"
  define m where "m = g mod 2 ^ 23"
  have gx: "g = x * 2 ^ 23 + m" by (simp add: x_def m_def)
  have "g < 2 ^ 31" by (simp add: g_def fmag_F32)
  then have x: "x < 256" by (simp add: x_def less_mult_imp_div_less)
  have m: "m < 2 ^ 23" by (simp add: m_def)
  have d: "fdecode F32 (unat a) =
      (if x = 255 then (if m = 0 then Inf (fsign F32 (unat a)) else NaN)
       else if x = 0 then Fin (fsign F32 (unat a)) m (- 149)
       else Fin (fsign F32 (unat a)) (m + 2 ^ 23) (- 149 + int x - 1))"
    by (simp add: fdecode_def Let_def emin_F32 mbits_F32 ebits_F32 x_def m_def g_def)
  consider "x = 255" "m = 0" | "x = 255" "m \<noteq> 0" | "x = 0" | "0 < x" "x < 255"
    using x by linarith
  then show thesis
  proof cases
    case 1
    then show thesis using d gx inf by (simp add: g_def infbits_F32)
  next
    case 2
    then have "infbits F32 < g" using gx by (simp add: infbits_F32)
    then show thesis using d 2 nan by (simp add: f32_nan_def fis_nan_def g_def)
  next
    case 3
    then have "g = m" using gx by simp
    then have "m = 0 \<longleftrightarrow> f32_is_zero a" using f32_mag_zero_iff [of a] by (simp add: g_def)
    moreover have "f32_finite a"
      using \<open>g = m\<close> m by (simp add: f32_finite_def ffinite_def infbits_F32 g_def)
    ultimately show thesis using d 3 fin by simp
  next
    case 4
    then have "g \<noteq> 0" using gx by simp
    then have "\<not> f32_is_zero a" using f32_mag_zero_iff [of a] by (simp add: g_def)
    moreover have "g < 0x7f800000" using gx [simplified] m [simplified] 4 by linarith
    then have "f32_finite a" by (simp add: f32_finite_def ffinite_def infbits_F32 g_def)
    ultimately show thesis using d 4 fin [of "fsign F32 (unat a)" "m + 2 ^ 23" "- 149 + int x - 1"]
      by simp
  qed
qed


subsection \<open>Rounding keeps nonzero values nonzero\<close>

lemma bitlen_lower: "0 < m \<Longrightarrow> 2 ^ (bitlen m - 1) \<le> m"
proof (induction m rule: bitlen.induct)
  case (1 n)
  show ?case
  proof (cases "n div 2 = 0")
    case True
    then have "bitlen n = 1" using "1.prems" by (simp add: bitlen.simps [of n] bitlen.simps [of 0])
    then show ?thesis using "1.prems" by simp
  next
    case False
    then have "2 ^ (bitlen (n div 2) - 1) \<le> n div 2" using "1.IH" "1.prems" by simp
    moreover have "0 < bitlen (n div 2)" using False by (simp add: bitlen.simps [of "n div 2"])
    ultimately have "2 * 2 ^ (bitlen (n div 2) - 1) \<le> n" by linarith
    moreover have "bitlen n = Suc (bitlen (n div 2))"
      using "1.prems" by (simp add: bitlen.simps [of n])
    ultimately show ?thesis using \<open>0 < bitlen (n div 2)\<close> by (simp flip: power_Suc)
  qed
qed

lemma rsig_pos:
  assumes "0 < m" and "emin F \<le> e"
  shows "0 < rsig m e (rexp F m e) st"
proof (cases "rexp F m e \<le> e")
  case True
  with assms show ?thesis by (simp add: rsig_def)
next
  case False
  define sh where "sh = nat (rexp F m e - e)"
  have "rexp F m e = e + int (bitlen m) - int (mbits F) - 1"
    using False assms(2) by (simp add: rexp_def max_def split: if_splits)
  then have "sh \<le> bitlen m - 1" using False by (simp add: sh_def)
  then have "2 ^ sh \<le> m"
    using bitlen_lower [OF assms(1)] by (meson one_le_numeral order_trans power_increasing)
  then have "0 < m div 2 ^ sh" by (simp add: div_greater_zero_iff)
  then show ?thesis using False by (simp add: rsig_def Let_def sh_def)
qed

lemma fround_F32:
  obtains mag where "fround F32 s m e st = (if s then 2 ^ 31 else 0) + mag" "mag \<le> 0x7f800000"
    "0 < m \<Longrightarrow> - 149 \<le> e \<Longrightarrow> 0 < mag"
proof (rule that)
  let ?mag = "min (infbits F32) (nat (rexp F32 m e - emin F32) * 2 ^ mbits F32 + rsig m e (rexp F32 m e) st)"
  show "fround F32 s m e st = (if s then 2 ^ 31 else 0) + ?mag"
    by (simp add: fround_def Let_def fpack_def magbits_def mbits_F32 ebits_F32)
  show "?mag \<le> 0x7f800000" by (simp add: infbits_F32)
  show "0 < ?mag" if "0 < m" "- 149 \<le> e"
    using rsig_pos [of m F32 e st] that by (simp add: emin_F32 infbits_F32)
qed

lemma f32_pattern_unat:
  assumes "mag \<le> 0x7f800000"
  shows "unat (of_nat ((if s then 2 ^ 31 else 0) + mag) :: f32) = (if s then 2 ^ 31 else 0) + mag"
  by (subst unat_of_nat) (use assms in auto)

lemma f32_pattern:
  assumes "mag \<le> 0x7f800000"
  shows "f32_is_zero (of_nat ((if s then 2 ^ 31 else 0) + mag)) \<longleftrightarrow> mag = 0"
proof -
  have "unat (of_nat ((if s then 2 ^ 31 else 0) + mag) :: f32) = (if s then 2 ^ 31 else 0) + mag"
    by (rule f32_pattern_unat [OF assms])
  then have "fmag F32 (unat (of_nat ((if s then 2 ^ 31 else 0) + mag) :: f32)) = mag"
    using assms by (simp add: fmag_F32 split: if_splits)
  then show ?thesis using f32_mag_zero_iff by metis
qed

subsection \<open>Adding and multiplying zeros\<close>

text \<open>
  A running sum that starts at \<open>+0\<close> never becomes \<open>-0\<close>, and adding a zero to a sum
  that is not \<open>-0\<close> (and, if it is a NaN, is the default one) leaves it as it is.
\<close>

definition f32_sum_ok :: "f32 \<Rightarrow> bool" where
  "f32_sum_ok s = (s \<noteq> f32_nzero \<and> (f32_nan s \<longrightarrow> s = f32_qnan))"

lemma qnan_F32: "qnan F32 = 0x7fc00000"
  by (simp add: qnan_def infbits_F32 mbits_F32)

lemma f32_sum_ok_pzero [simp]: "f32_sum_ok f32_pzero"
  by (simp add: f32_sum_ok_def f32_nan_def fis_nan_def infbits_F32 fmag_F32)

lemma f32_sum_ok_qnan: "f32_sum_ok f32_qnan"
  by (simp add: f32_sum_ok_def)

lemma f32_sum_ok_inf: "fmag F32 (unat a) = infbits F32 \<Longrightarrow> f32_sum_ok a"
  by (auto simp: f32_sum_ok_def infbits_F32 fmag_F32 f32_nan_def fis_nan_def)

lemma f32_finite_not_nan: "f32_finite a \<Longrightarrow> \<not> f32_nan a"
  by (simp add: f32_finite_def ffinite_def f32_nan_def fis_nan_def)

lemma f32_sum_ok_fin: "f32_finite a \<Longrightarrow> \<not> f32_is_zero a \<Longrightarrow> f32_sum_ok a"
  by (auto simp: f32_sum_ok_def f32_is_zero_def dest: f32_finite_not_nan)

lemma f32_sum_ok_round: "0 < m \<Longrightarrow> - 149 \<le> e \<Longrightarrow> f32_sum_ok (of_nat (fround F32 s m e st))"
proof (rule fround_F32 [of s m e st])
  fix mag
  assume m: "0 < m" "- 149 \<le> e" and f: "fround F32 s m e st = (if s then 2 ^ 31 else 0) + mag"
    and le: "mag \<le> 0x7f800000" and pos: "0 < m \<Longrightarrow> - 149 \<le> e \<Longrightarrow> 0 < mag"
  let ?w = "of_nat (fround F32 s m e st) :: f32"
  have nz: "\<not> f32_is_zero ?w" using f32_pattern [OF le, of s] pos [OF m] by (simp only: f)
  have "unat ?w = (if s then 2 ^ 31 else 0) + mag"
    unfolding f by (rule f32_pattern_unat [OF le])
  then have "fmag F32 (unat ?w) = mag" using le by (simp add: fmag_F32 split: if_splits)
  then have "\<not> f32_nan ?w" using le by (simp add: f32_nan_def fis_nan_def infbits_F32)
  with nz show "f32_sum_ok ?w" by (auto simp: f32_sum_ok_def f32_is_zero_def)
qed

lemma f32_zero_decode:
  assumes "f32_is_zero z"
  obtains t where "fdecode F32 (unat z) = Fin t 0 (- 149)"
proof (cases "z = 0")
  case True
  then show thesis using that [of False] fdecode_pzero by simp
next
  case False
  then have "z = f32_nzero" using assms by (simp add: f32_is_zero_def)
  then show thesis using that [of True] fdecode_nzero by simp
qed

lemma f32_add_zero: "f32_sum_ok s \<Longrightarrow> f32_is_zero z \<Longrightarrow> f32_add s z = s"
proof -
  assume s: "f32_sum_ok s" and z: "f32_is_zero z"
  obtain t where t: "fdecode F32 (unat z) = Fin t 0 (- 149)"
    by (rule f32_zero_decode [OF z])
  show "f32_add s z = s"
  proof (cases rule: f32_decode_cases [of s])
    case nan
    then show ?thesis using s t by (simp add: f32_add_def fadd_def f32_sum_ok_def qnan_F32)
  next
    case (inf b)
    then show ?thesis using t by (simp add: f32_add_def fadd_def)
  next
    case (fin b m e)
    show ?thesis
    proof (cases "m = 0")
      case True
      then have "s = 0" using fin s by (auto simp: f32_is_zero_def f32_sum_ok_def)
      then show ?thesis
        using fin t fdecode_pzero by (simp add: f32_add_def fadd_def fpack_def)
    next
      case False
      then show ?thesis using fin t by (simp add: f32_add_def fadd_def)
    qed
  qed
qed

lemma fdecode_sign_zero: "fdecode F32 (unat a) = Fin True m e \<Longrightarrow> f32_is_zero a \<Longrightarrow> a = f32_nzero"
  using fdecode_pzero by (auto simp: f32_is_zero_def)

lemma f32_add_sum_ok: "f32_sum_ok s \<Longrightarrow> f32_sum_ok (f32_add s x)"
proof -
  assume s: "f32_sum_ok s"
  show "f32_sum_ok (f32_add s x)"
  proof (cases rule: f32_decode_cases [of s])
    case nan
    then show ?thesis by (simp add: f32_add_def fadd_def qnan_F32 f32_sum_ok_qnan)
  next
    case (inf b)
    then show ?thesis using f32_sum_ok_inf [of s]
      by (cases rule: f32_decode_cases [of x])
        (simp_all add: f32_add_def fadd_def qnan_F32 f32_sum_ok_qnan)
  next
    case (fin b m e)
    note s_fin = fin
    show ?thesis
    proof (cases rule: f32_decode_cases [of x])
      case nan
      then show ?thesis using s_fin by (simp add: f32_add_def fadd_def qnan_F32 f32_sum_ok_qnan)
    next
      case (inf c)
      then show ?thesis using s_fin f32_sum_ok_inf [of x] by (simp add: f32_add_def fadd_def)
    next
      case (fin c n f)
      show ?thesis
      proof (cases "n = 0")
        case True
        then have "f32_is_zero x" using fin by simp
        then show ?thesis using f32_add_zero [OF s] s by simp
      next
        case nz: False
        then have x_ok: "f32_sum_ok x" using fin f32_sum_ok_fin by simp
        define g where "g = min e f"
        define v where "v = signed b (m * 2 ^ nat (e - g)) + signed c (n * 2 ^ nat (f - g))"
        have a: "f32_add s x = (if m = 0 then x else if v = 0 then 0
            else of_nat (fround F32 (v < 0) (nat \<bar>v\<bar>) g False))"
          using s_fin fin nz by (simp add: f32_add_def fadd_def g_def v_def Let_def)
        have "- 149 \<le> g" using s_fin fin by (simp add: g_def)
        then have "f32_sum_ok (of_nat (fround F32 (v < 0) (nat \<bar>v\<bar>) g False))" if "v \<noteq> 0"
          using that by (intro f32_sum_ok_round) auto
        then show ?thesis using a x_ok by simp
      qed
    qed
  qed
qed

lemma f32_mul_zero: "f32_finite x \<Longrightarrow> f32_is_zero z \<Longrightarrow> f32_is_zero (f32_mul x z)"
proof -
  assume x: "f32_finite x" and z: "f32_is_zero z"
  obtain t where t: "fdecode F32 (unat z) = Fin t 0 (- 149)"
    by (rule f32_zero_decode [OF z])
  have p: "f32_is_zero (of_nat (fpack F32 u 0))" for u
    by (simp add: fpack_def f32_is_zero_def magbits_def mbits_F32 ebits_F32)
  show "f32_is_zero (f32_mul x z)"
  proof (cases rule: f32_decode_cases [of x])
    case nan
    then show ?thesis using f32_finite_not_nan [OF x] by simp
  next
    case (inf b)
    then show ?thesis using x by (simp add: f32_finite_def ffinite_def)
  next
    case (fin b m e)
    then show ?thesis using t p by (simp add: f32_mul_def fmul_def)
  qed
qed

lemma f32_mac_zero:
  "f32_sum_ok s \<Longrightarrow> f32_finite x \<Longrightarrow> f32_is_zero w \<Longrightarrow> f32_add s (f32_mul x w) = s"
  by (simp add: f32_add_zero f32_mul_zero)


subsection \<open>Subtraction and small integers\<close>

definition f32_neg :: "f32 \<Rightarrow> f32" where
  "f32_neg a = of_nat (fneg F32 (unat a))"

lemma magbits_F32: "magbits F32 = 31"
  by (simp add: magbits_def F32_def)

lemma unat_f32_neg: "unat (f32_neg a) = fneg F32 (unat a)"
proof -
  have "unat a mod 2 ^ 31 < 2 ^ 31" by simp
  then have "fneg F32 (unat a) < 2 ^ 32"
    unfolding fneg_def fpack_def fmag_F32 magbits_F32 by (cases "fsign F32 (unat a)") simp_all
  then show ?thesis unfolding f32_neg_def by (subst unat_of_nat) simp
qed

lemma f32_sub_neg: "f32_sub a b = f32_add a (f32_neg b)"
  by (simp add: f32_sub_def f32_add_def fsub_def unat_f32_neg)

lemma f32_neg_zero: "f32_is_zero z \<Longrightarrow> f32_is_zero (f32_neg z)"
proof -
  assume "f32_is_zero z"
  then have "fmag F32 (unat z) = 0" by (simp add: f32_mag_zero_iff)
  then have "fmag F32 (unat (f32_neg z)) = 0"
    by (simp add: unat_f32_neg fneg_def fpack_def fmag_F32 magbits_F32)
  then show ?thesis by (simp add: f32_mag_zero_iff)
qed

lemma f32_sub_sum_ok: "f32_sum_ok s \<Longrightarrow> f32_sum_ok (f32_sub s x)"
  by (simp add: f32_sub_neg f32_add_sum_ok)

lemma f32_msub_zero:
  "f32_sum_ok s \<Longrightarrow> f32_finite x \<Longrightarrow> f32_is_zero w \<Longrightarrow> f32_sub s (f32_mul x w) = s"
  by (simp add: f32_sub_neg f32_add_zero f32_mul_zero f32_neg_zero)

lemma bitlen_upper: "m < 2 ^ bitlen m"
proof (induction m rule: bitlen.induct)
  case (1 n)
  show ?case
  proof (cases "n = 0")
    case False
    then have "n div 2 < 2 ^ bitlen (n div 2)" using 1 by simp
    then have "n < 2 * 2 ^ bitlen (n div 2)" by linarith
    then show ?thesis using False by (subst bitlen.simps) simp
  qed (simp add: bitlen.simps)
qed

lemma bitlen_le: "m < 2 ^ k \<Longrightarrow> bitlen m \<le> k"
proof (cases "m = 0")
  case True
  then show ?thesis by (simp add: bitlen.simps)
next
  case False
  assume m: "m < 2 ^ k"
  have "(2 :: nat) ^ (bitlen m - 1) < 2 ^ k" using bitlen_lower [of m] False m by linarith
  then have "bitlen m - 1 < k" by (simp add: power_strict_increasing_iff)
  then show ?thesis by simp
qed

lemma f32_of_int_finite:
  assumes "\<bar>i\<bar> < 2 ^ 24"
  shows "f32_finite (f32_of_int i)"
proof (cases "i = 0")
  case True
  then show ?thesis by (simp add: f32_of_int_def fof_int_def f32_finite_def ffinite_def fmag_F32 infbits_F32)
next
  case False
  define m where "m = nat \<bar>i\<bar>"
  have m: "m < 2 ^ 24" using assms by (simp add: m_def nat_less_iff)
  have b: "bitlen m \<le> 24" by (rule bitlen_le [OF m])
  let ?e = "rexp F32 m 0"
  have e: "?e = int (bitlen m) - 24" "?e \<le> 0" using b by (simp_all add: rexp_def emin_F32 mbits_F32)
  have "rsig m 0 ?e False = m * 2 ^ (24 - bitlen m)"
    using e b by (simp add: rsig_def nat_diff_distrib)
  moreover have "m * 2 ^ (24 - bitlen m) < 2 ^ bitlen m * 2 ^ (24 - bitlen m)"
    using bitlen_upper [of m] by simp
  moreover have "(2 :: nat) ^ bitlen m * 2 ^ (24 - bitlen m) = 2 ^ 24"
    using b by (simp add: power_add [symmetric])
  ultimately have sig: "rsig m 0 ?e False < 2 ^ 24" by simp
  have ex: "nat (?e - emin F32) \<le> 149" using e(2) by (simp add: emin_F32)
  define mag where "mag = nat (?e - emin F32) * 2 ^ 23 + rsig m 0 ?e False"
  have mag: "mag < 0x7f800000" using sig ex by (simp add: mag_def)
  have "fof_int F32 i = (if i < 0 then 2 ^ 31 else 0) + mag"
    using False mag by (simp add: fof_int_def m_def [symmetric] fround_def Let_def fpack_def magbits_def
        infbits_F32 mbits_F32 ebits_F32 mag_def min_def)
  then have "f32_of_int i = of_nat ((if i < 0 then 2 ^ 31 else 0) + mag)" by (simp only: f32_of_int_def)
  then have "unat (f32_of_int i) = (if i < 0 then 2 ^ 31 else 0) + mag"
    using f32_pattern_unat [of mag "i < 0"] mag by simp
  then show ?thesis using mag by (simp add: f32_finite_def ffinite_def fmag_F32 infbits_F32)
qed

end
