(* ===== verification/Memory_Hub.thy ===== *)
theory Memory_Hub imports Softfloat begin

text \<open>
  The accelerators' memories: \<open>class Memory\<close>, \<open>class SharedMemory\<close> and
  \<open>class MemHub\<close> (vdev/SimpleCNN/memory.cpp, memhub.cpp; the RRAM accelerator uses the
  same files).  A heap of float blocks stands for the arrays \<open>new float[n]\<close> returns; a
  \<open>float*\<close> is a block and an offset in floats.  A \<open>Memory\<close> is a shape and a base
  pointer; several may share one block.  Loads and stores outside the block fault.
\<close>

section \<open>Data\<close>

record block =
  blen :: nat
  bdat :: "nat \<Rightarrow> f32"

record fptr =
  pblk :: nat
  poff :: int

record memory =
  mdata :: fptr
  xLen :: int
  yLen :: int
  zLen :: int
  wLen :: int
  wzLen :: int
  wzyLen :: int
  wzyxLen :: int

record memhub =
  heap :: "block list"
  memories :: "string \<Rightarrow> memory option"

section \<open>Pointers, loads and stores\<close>

definition ptr_add :: "fptr \<Rightarrow> int \<Rightarrow> fptr" where
  "ptr_add p n = p\<lparr>poff := poff p + n\<rparr>"

definition ptr_valid :: "memhub \<Rightarrow> fptr \<Rightarrow> bool" where
  "ptr_valid h p \<longleftrightarrow> pblk p < length (heap h) \<and> 0 \<le> poff p \<and> poff p < int (blen (heap h ! pblk p))"

definition loadF :: "memhub \<Rightarrow> fptr \<Rightarrow> f32 res" where
  "loadF h p = (if ptr_valid h p then Inr (bdat (heap h ! pblk p) (nat (poff p))) else Inl OutOfBounds)"

definition storeF :: "memhub \<Rightarrow> fptr \<Rightarrow> f32 \<Rightarrow> memhub res" where
  "storeF h p v =
     (if ptr_valid h p
      then Inr (h\<lparr>heap := (heap h)[pblk p := (heap h ! pblk p)
             \<lparr>bdat := (bdat (heap h ! pblk p))(nat (poff p) := v)\<rparr>]\<rparr>)
      else Inl OutOfBounds)"

text \<open>Bytes of a float array, little endian, for the accesses through \<open>uint8_t*\<close> and
  \<open>int8_t*\<close>.\<close>

definition byte_of :: "f32 \<Rightarrow> nat \<Rightarrow> byte" where
  "byte_of w k = ucast (drop_bit (8 * k) w)"

unbundle bit_operations_syntax

definition with_byte :: "f32 \<Rightarrow> nat \<Rightarrow> byte \<Rightarrow> f32" where
  "with_byte w k b = (w AND NOT (push_bit (8 * k) (mask 8))) OR push_bit (8 * k) (ucast b)"

definition loadB :: "memhub \<Rightarrow> fptr \<Rightarrow> int \<Rightarrow> byte res" where
  "loadB h p k = bindR (loadF h (ptr_add p (k div 4))) (\<lambda>w. Inr (byte_of w (nat (k mod 4))))"

definition storeB :: "memhub \<Rightarrow> fptr \<Rightarrow> int \<Rightarrow> byte \<Rightarrow> memhub res" where
  "storeB h p k b =
     bindR (loadF h (ptr_add p (k div 4)))
       (\<lambda>w. storeF h (ptr_add p (k div 4)) (with_byte w (nat (k mod 4)) b))"

text \<open>\<open>memset(p, 0, 4 * n)\<close> for \<open>n\<close> floats.\<close>

definition memset0 :: "memhub \<Rightarrow> fptr \<Rightarrow> int \<Rightarrow> memhub res" where
  "memset0 h p n =
     (if n \<le> 0 then Inr h
      else if pblk p < length (heap h) \<and> 0 \<le> poff p \<and> poff p + n \<le> int (blen (heap h ! pblk p))
      then Inr (h\<lparr>heap := (heap h)[pblk p := (heap h ! pblk p)
             \<lparr>bdat := (\<lambda>j. if poff p \<le> int j \<and> int j < poff p + n then 0
                          else bdat (heap h ! pblk p) j)\<rparr>]\<rparr>)
      else Inl OutOfBounds)"

lemma ptr_add_0 [simp]: "ptr_add p 0 = p"
  by (simp add: ptr_add_def)

section \<open>Memory and MemHub\<close>

text \<open>\<open>Memory::Memory\<close>: the strides, and a fresh array of \<open>wzyxLen\<close> floats whose contents
  the argument \<open>junk\<close> gives (\<open>new float[n]\<close> leaves them indeterminate).\<close>

definition Memory_new :: "fptr \<Rightarrow> int \<Rightarrow> int \<Rightarrow> int \<Rightarrow> int \<Rightarrow> memory" where
  "Memory_new p xl yl zl wl =
     (let wz = wl * zl; wzy = wz * yl; wzyx = wzy * xl in
      \<lparr>mdata = p, xLen = xl, yLen = yl, zLen = zl, wLen = wl,
       wzLen = wz, wzyLen = wzy, wzyxLen = wzyx\<rparr>)"

definition getPtr :: "memory \<Rightarrow> int \<Rightarrow> int \<Rightarrow> int \<Rightarrow> int \<Rightarrow> fptr res" where
  "getPtr m xi yi zi wi =
     (let index = wi + zi * wLen m + yi * wzLen m + xi * wzyLen m in
      if index < wzyxLen m then Inr (ptr_add (mdata m) index) else Inl AssertFail)"

definition getMemSizeByByte :: "memory \<Rightarrow> int" where
  "getMemSizeByByte m = wzyxLen m * 4"

definition getMemSizeByFloat :: "memory \<Rightarrow> int" where
  "getMemSizeByFloat m = wzyxLen m"

definition SharedMemory_new :: "fptr \<Rightarrow> int \<Rightarrow> int \<Rightarrow> int \<Rightarrow> int \<Rightarrow> memory" where
  "SharedMemory_new p xl yl zl wl =
     (let wz = wl * zl; wzy = wz * yl; wzyx = wzy * xl in
      \<lparr>mdata = p, xLen = xl, yLen = yl, zLen = zl, wLen = wl,
       wzLen = wz, wzyLen = wzy, wzyxLen = wzyx\<rparr>)"

text \<open>\<open>emplace\<close> keeps an entry that is already there (and frees the new object).\<close>

definition addMemory :: "(nat \<Rightarrow> f32) \<Rightarrow> string \<Rightarrow> int \<Rightarrow> int \<Rightarrow> int \<Rightarrow> int \<Rightarrow> memhub \<Rightarrow> memhub res" where
  "addMemory junk name xl yl zl wl h =
     (let m = Memory_new \<lparr>pblk = length (heap h), poff = 0\<rparr> xl yl zl wl in
      if wzyxLen m < 0 then Inl Undefined
      else case memories h name of
        Some _ \<Rightarrow> Inr h
      | None \<Rightarrow> Inr \<lparr>heap = heap h @ [\<lparr>blen = nat (wzyxLen m), bdat = junk\<rparr>],
                     memories = (memories h)(name \<mapsto> m)\<rparr>)"

definition addSharedMemory :: "string \<Rightarrow> fptr \<Rightarrow> int \<Rightarrow> int \<Rightarrow> int \<Rightarrow> int \<Rightarrow> memhub \<Rightarrow> memhub" where
  "addSharedMemory name p xl yl zl wl h =
     (case memories h name of
        Some _ \<Rightarrow> h
      | None \<Rightarrow> h\<lparr>memories := (memories h)(name \<mapsto> SharedMemory_new p xl yl zl wl)\<rparr>)"

definition getMemory :: "memhub \<Rightarrow> string \<Rightarrow> memory res" where
  "getMemory h name = (case memories h name of None \<Rightarrow> Inl MissingKey | Some m \<Rightarrow> Inr m)"

definition loadAt :: "memhub \<Rightarrow> memory \<Rightarrow> int \<Rightarrow> int \<Rightarrow> int \<Rightarrow> int \<Rightarrow> f32 res" where
  "loadAt h m xi yi zi wi = bindR (getPtr m xi yi zi wi) (loadF h)"

definition storeAt :: "memhub \<Rightarrow> memory \<Rightarrow> int \<Rightarrow> int \<Rightarrow> int \<Rightarrow> int \<Rightarrow> f32 \<Rightarrow> memhub res" where
  "storeAt h m xi yi zi wi v = bindR (getPtr m xi yi zi wi) (\<lambda>p. storeF h p v)"

section \<open>Lemmas\<close>

text \<open>
  \<open>same_layout\<close>: two hubs with the same names, shapes and block sizes; every store keeps
  it.  \<open>mem_ok\<close>: a memory whose shape is consistent and lies inside its block, which
  makes every access with in-range indices succeed.
\<close>

definition same_layout :: "memhub \<Rightarrow> memhub \<Rightarrow> bool" where
  "same_layout h h' \<longleftrightarrow> memories h' = memories h \<and> map blen (heap h') = map blen (heap h)"

lemma same_layout_refl [simp, intro]: "same_layout h h"
  by (simp add: same_layout_def)

lemma same_layout_trans: "same_layout h h' \<Longrightarrow> same_layout h' h'' \<Longrightarrow> same_layout h h''"
  by (simp add: same_layout_def)

lemma same_layout_length: "same_layout h h' \<Longrightarrow> length (heap h') = length (heap h)"
  unfolding same_layout_def by (metis length_map)

lemma same_layout_blen:
  assumes "same_layout h h'" and "b < length (heap h)"
  shows "blen (heap h' ! b) = blen (heap h ! b)"
proof -
  have "map blen (heap h') ! b = map blen (heap h) ! b" using assms(1) by (simp add: same_layout_def)
  then show ?thesis using assms same_layout_length [OF assms(1)] by simp
qed

lemma ptr_valid_layout: "same_layout h h' \<Longrightarrow> ptr_valid h' p = ptr_valid h p"
  using same_layout_length same_layout_blen by (auto simp: ptr_valid_def)

lemma map_blen_update:
  "b < length xs \<Longrightarrow> blen y = blen (xs ! b) \<Longrightarrow> map blen (xs[b := y]) = map blen xs"
  by (rule nth_equalityI) (auto simp: nth_list_update)

lemma storeF_layout: "storeF h p v = Inr h' \<Longrightarrow> same_layout h h'"
  by (auto simp: storeF_def same_layout_def ptr_valid_def map_blen_update split: if_splits)

lemma memset0_layout: "memset0 h p n = Inr h' \<Longrightarrow> same_layout h h'"
  by (auto simp: memset0_def same_layout_def map_blen_update split: if_splits)

lemma storeF_other:
  "storeF h p v = Inr h' \<Longrightarrow> b \<noteq> pblk p \<Longrightarrow> heap h' ! b = heap h ! b"
  by (auto simp: storeF_def split: if_splits)

lemma storeF_bdat:
  "storeF h p v = Inr h' \<Longrightarrow>
   bdat (heap h' ! b) = (if b = pblk p then (bdat (heap h ! b))(nat (poff p) := v) else bdat (heap h ! b))"
  by (auto simp: storeF_def ptr_valid_def split: if_splits)

lemma loadF_storeF:
  assumes "storeF h p v = Inr h'"
  shows "loadF h' q = (if q = p then Inr v else loadF h q)"
proof -
  have v: "ptr_valid h' q = ptr_valid h q" by (rule ptr_valid_layout [OF storeF_layout [OF assms]])
  have p: "ptr_valid h p" using assms by (simp add: storeF_def split: if_splits)
  show ?thesis
  proof (cases "q = p")
    case True
    then show ?thesis using v p storeF_bdat [OF assms] by (simp add: loadF_def)
  next
    case False
    show ?thesis
    proof (cases "ptr_valid h q")
      case True
      then have "pblk q \<noteq> pblk p \<or> nat (poff q) \<noteq> nat (poff p)"
        using False p by (auto simp: ptr_valid_def fptr.equality)
      then show ?thesis using True False v storeF_bdat [OF assms] by (auto simp: loadF_def)
    next
      case False
      then show ?thesis using \<open>q \<noteq> p\<close> v by (simp add: loadF_def)
    qed
  qed
qed

lemma okR_loadF [simp]: "okR (loadF h p) \<longleftrightarrow> ptr_valid h p"
  by (simp add: loadF_def)

lemma okR_storeF [simp]: "okR (storeF h p v) \<longleftrightarrow> ptr_valid h p"
  by (simp add: storeF_def)

lemma storeF_ok:
  assumes "ptr_valid h p"
  shows "\<exists>h'. storeF h p v = Inr h' \<and> same_layout h h'"
proof -
  obtain h' where "storeF h p v = Inr h'" using assms by (auto simp: storeF_def)
  then show ?thesis using storeF_layout by blast
qed

subsection \<open>Bytes\<close>

lemma byte_of_with_byte_same: "k < 4 \<Longrightarrow> byte_of (with_byte w k b) k = b"
proof (rule bit_word_eqI)
  fix n assume "k < 4" "n < LENGTH(8)"
  then show "bit (byte_of (with_byte w k b) k) n = bit b n"
    by (simp add: byte_of_def with_byte_def bit_simps)
qed

lemma byte_of_with_byte_other:
  assumes "k < 4" "j < 4" "j \<noteq> k"
  shows "byte_of (with_byte w k b) j = byte_of w j"
proof (rule bit_word_eqI)
  fix n assume n: "n < LENGTH(8)"
  have "8 * j + n < 8 * k \<or> 8 * k + 8 \<le> 8 * j + n" using assms n by simp linarith
  then show "bit (byte_of (with_byte w k b) j) n = bit (byte_of w j) n"
    using assms n by (auto simp: byte_of_def with_byte_def bit_simps dest: bit_imp_le_length)
qed


subsection \<open>Shapes\<close>

definition mem_ok :: "memhub \<Rightarrow> memory \<Rightarrow> bool" where
  "mem_ok h m \<longleftrightarrow>
     pblk (mdata m) < length (heap h) \<and> 0 \<le> poff (mdata m) \<and>
     poff (mdata m) + wzyxLen m \<le> int (blen (heap h ! pblk (mdata m))) \<and>
     0 < xLen m \<and> 0 < yLen m \<and> 0 < zLen m \<and> 0 < wLen m \<and>
     wzLen m = wLen m * zLen m \<and> wzyLen m = wzLen m * yLen m \<and> wzyxLen m = wzyLen m * xLen m"

lemma mem_ok_layout: "same_layout h h' \<Longrightarrow> mem_ok h' m = mem_ok h m"
  using same_layout_length same_layout_blen by (auto simp: mem_ok_def)

lemma horner_bound:
  assumes "0 \<le> a" "a < A" "0 \<le> b" "b < (B :: int)"
  shows "0 \<le> a + A * b" and "a + A * b < A * B"
proof -
  show "0 \<le> a + A * b" using assms by simp
  have "A * b \<le> A * (B - 1)" using assms by (intro mult_left_mono) auto
  then show "a + A * b < A * B" using assms by (simp add: algebra_simps)
qed

lemma index_horner:
  assumes "mem_ok h m"
  shows "wi + zi * wLen m + yi * wzLen m + xi * wzyLen m
         = wi + wLen m * (zi + zLen m * (yi + yLen m * xi))"
    and "wzyxLen m = wLen m * (zLen m * (yLen m * xLen m))"
  using assms by (simp_all add: mem_ok_def algebra_simps)

definition in_shape :: "memory \<Rightarrow> int \<Rightarrow> int \<Rightarrow> int \<Rightarrow> int \<Rightarrow> bool" where
  "in_shape m xi yi zi wi \<longleftrightarrow>
     0 \<le> xi \<and> xi < xLen m \<and> 0 \<le> yi \<and> yi < yLen m \<and> 0 \<le> zi \<and> zi < zLen m \<and> 0 \<le> wi \<and> wi < wLen m"

lemma index_bounds:
  assumes "mem_ok h m" and "in_shape m xi yi zi wi"
  shows "0 \<le> wi + zi * wLen m + yi * wzLen m + xi * wzyLen m"
    and "wi + zi * wLen m + yi * wzLen m + xi * wzyLen m < wzyxLen m"
proof -
  have r: "0 \<le> xi" "xi < xLen m" "0 \<le> yi" "yi < yLen m" "0 \<le> zi" "zi < zLen m" "0 \<le> wi" "wi < wLen m"
    using assms(2) by (simp_all add: in_shape_def)
  note 1 = horner_bound [OF r(3,4,1,2)]
  note 2 = horner_bound [OF r(5,6) 1]
  note 3 = horner_bound [OF r(7,8) 2]
  show "0 \<le> wi + zi * wLen m + yi * wzLen m + xi * wzyLen m"
    and "wi + zi * wLen m + yi * wzLen m + xi * wzyLen m < wzyxLen m"
    using 3 by (simp_all only: index_horner [OF assms(1)])
qed

lemma getPtr_in_shape:
  assumes "mem_ok h m" and "in_shape m xi yi zi wi"
  shows "\<exists>p. getPtr m xi yi zi wi = Inr p \<and> ptr_valid h p"
  using index_bounds [OF assms] assms(1)
  by (auto simp: getPtr_def Let_def ptr_valid_def ptr_add_def mem_ok_def)

lemma loadAt_ok: "mem_ok h m \<Longrightarrow> in_shape m xi yi zi wi \<Longrightarrow> \<exists>v. loadAt h m xi yi zi wi = Inr v"
  using getPtr_in_shape [of h m xi yi zi wi] by (auto simp: loadAt_def loadF_def)

lemma storeAt_layout: "storeAt h m xi yi zi wi v = Inr h' \<Longrightarrow> same_layout h h'"
  by (auto simp: storeAt_def bindR_eq_Inr dest: storeF_layout)

lemma storeAt_ok:
  "mem_ok h m \<Longrightarrow> in_shape m xi yi zi wi \<Longrightarrow> \<exists>h'. storeAt h m xi yi zi wi v = Inr h' \<and> same_layout h h'"
  using getPtr_in_shape [of h m xi yi zi wi] storeF_ok by (fastforce simp: storeAt_def)

lemma getPtr_block: "getPtr m xi yi zi wi = Inr p \<Longrightarrow> pblk p = pblk (mdata m)"
  by (auto simp: getPtr_def Let_def ptr_add_def split: if_splits)

text \<open>\<open>block_finite\<close>: every float of the block is finite. Stores into another block keep it.\<close>

definition block_finite :: "memhub \<Rightarrow> nat \<Rightarrow> bool" where
  "block_finite h b \<longleftrightarrow> (\<forall>i < blen (heap h ! b). f32_finite (bdat (heap h ! b) i))"

lemma block_finite_load: "block_finite h b \<Longrightarrow> loadF h p = Inr v \<Longrightarrow> pblk p = b \<Longrightarrow> f32_finite v"
  by (auto simp: block_finite_def loadF_def ptr_valid_def split: if_splits)

lemma block_finite_loadAt:
  "block_finite h (pblk (mdata m)) \<Longrightarrow> loadAt h m xi yi zi wi = Inr v \<Longrightarrow> f32_finite v"
  using block_finite_load getPtr_block by (auto simp: loadAt_def bindR_eq_Inr)

lemma storeAt_other:
  "storeAt h m xi yi zi wi v = Inr h' \<Longrightarrow> b \<noteq> pblk (mdata m) \<Longrightarrow> heap h' ! b = heap h ! b"
  using storeF_other getPtr_block by (auto simp: storeAt_def bindR_eq_Inr)

lemma storeAt_finite_other:
  "storeAt h m xi yi zi wi v = Inr h' \<Longrightarrow> b \<noteq> pblk (mdata m) \<Longrightarrow> block_finite h b \<Longrightarrow> block_finite h' b"
  using storeAt_other by (simp add: block_finite_def)

lemma getPtr_inj:
  assumes "mem_ok h m" and "in_shape m x y z w" and "in_shape m x' y' z' w'"
    and "getPtr m x y z w = Inr p" and "getPtr m x' y' z' w' = Inr p"
  shows "x = x' \<and> y = y' \<and> z = z' \<and> w = w'"
proof -
  have eq: "w + wLen m * (z + zLen m * (y + yLen m * x)) = w' + wLen m * (z' + zLen m * (y' + yLen m * x'))"
    using assms(4,5) index_horner(1) [OF assms(1)]
    by (auto simp: getPtr_def Let_def ptr_add_def split: if_splits dest: arg_cong [where f = poff])
  have "w = w' \<and> z + zLen m * (y + yLen m * x) = z' + zLen m * (y' + yLen m * x')"
    using assms(2,3) by (intro digit_inj [OF eq]) (simp_all add: in_shape_def)
  then have w: "w = w'" and eq2: "z + zLen m * (y + yLen m * x) = z' + zLen m * (y' + yLen m * x')" by auto
  have "z = z' \<and> y + yLen m * x = y' + yLen m * x'"
    using assms(2,3) by (intro digit_inj [OF eq2]) (simp_all add: in_shape_def)
  then have z: "z = z'" and eq3: "y + yLen m * x = y' + yLen m * x'" by auto
  have "y = y' \<and> x = x'"
    using assms(2,3) by (intro digit_inj [OF eq3]) (simp_all add: in_shape_def)
  with w z show ?thesis by simp
qed


subsection \<open>Byte accesses\<close>

lemma loadB_ok: "ptr_valid h (ptr_add p (k div 4)) \<Longrightarrow> \<exists>b. loadB h p k = Inr b"
  by (simp add: loadB_def loadF_def)

lemma storeB_ok:
  assumes "ptr_valid h (ptr_add p (k div 4))"
  shows "\<exists>h'. storeB h p k b = Inr h' \<and> same_layout h h'"
  using storeF_ok [OF assms] assms by (auto simp: storeB_def loadF_def)

lemma storeB_layout: "storeB h p k b = Inr h' \<Longrightarrow> same_layout h h'"
  by (auto simp: storeB_def bindR_eq_Inr dest: storeF_layout)

lemma storeB_other: "storeB h p k b = Inr h' \<Longrightarrow> c \<noteq> pblk p \<Longrightarrow> heap h' ! c = heap h ! c"
  by (auto simp: storeB_def bindR_eq_Inr ptr_add_def dest: storeF_other)

lemma loadB_storeB:
  assumes "storeB h p k b = Inr h'"
  shows "loadB h' q j =
    (if ptr_add q (j div 4) = ptr_add p (k div 4) \<and> j mod 4 = k mod 4 then Inr b else loadB h q j)"
proof -
  let ?p = "ptr_add p (k div 4)" and ?q = "ptr_add q (j div 4)"
  have lt: "nat (k mod 4) < 4" "nat (j mod 4) < 4" by (simp_all add: nat_less_iff)
  obtain w where w: "loadF h ?p = Inr w" "storeF h ?p (with_byte w (nat (k mod 4)) b) = Inr h'"
    using assms by (auto simp: storeB_def bindR_eq_Inr)
  have n: "loadF h' ?q = (if ?q = ?p then Inr (with_byte w (nat (k mod 4)) b) else loadF h ?q)"
    by (rule loadF_storeF [OF w(2)])
  show ?thesis
  proof (cases "?q = ?p")
    case True
    show ?thesis
    proof (cases "j mod 4 = k mod 4")
      case False
      then have "nat (j mod 4) \<noteq> nat (k mod 4)" by (simp add: nat_eq_iff)
      then show ?thesis using n True w(1) False byte_of_with_byte_other [OF lt] by (simp add: loadB_def)
    qed (use n True byte_of_with_byte_same [OF lt(1)] in \<open>simp add: loadB_def\<close>)
  qed (use n in \<open>simp add: loadB_def\<close>)
qed

lemma loadB_storeB_base:
  assumes "storeB h p k b = Inr h'"
  shows "loadB h' p j = (if j = k then Inr b else loadB h p j)"
proof -
  have "ptr_add p (j div 4) = ptr_add p (k div 4) \<and> j mod 4 = k mod 4 \<longleftrightarrow> j = k"
  proof
    assume "ptr_add p (j div 4) = ptr_add p (k div 4) \<and> j mod 4 = k mod 4"
    then have "poff (ptr_add p (j div 4)) = poff (ptr_add p (k div 4))" and m: "j mod 4 = k mod 4" by simp_all
    then have "j div 4 = k div 4" by (simp add: ptr_add_def)
    with m show "j = k" by presburger
  qed simp
  then show ?thesis using loadB_storeB [OF assms, of p j] by simp
qed

lemma loadB_same_block: "same_layout h h' \<Longrightarrow> heap h' ! pblk p = heap h ! pblk p \<Longrightarrow> loadB h' p k = loadB h p k"
  by (simp add: loadB_def loadF_def ptr_valid_layout ptr_add_def)

lemma loadF_same_block: "same_layout h h' \<Longrightarrow> heap h' ! pblk p = heap h ! pblk p \<Longrightarrow> loadF h' p = loadF h p"
  by (simp add: loadF_def ptr_valid_layout)

end
