(* ===== verification/Vdev.thy ===== *)
theory Vdev imports Clocked Memory_Hub begin

text \<open>
  The virtual device (vdev/vdev.cc, vdev.hh) that puts an accelerator on the memory bus, and
  the hooks of the CPU it calls (cpu/base.cc, cpu/simple/atomic.cc).  The device is generic in
  the accelerator: \<open>'a accel\<close> lists what it uses of class \<open>AIChip\<close>; \<open>Vdev_Chips\<close> has the
  two instances.  Events are the CPU's tick and one interrupt per device,
  on the event queue of \<open>EventQ\<close>.
\<close>

unbundle bit_operations_syntax

section \<open>The accelerator a device contains\<close>

record 'a accel =
  acc_run :: "'a \<Rightarrow> ('a \<times> int) res"
  acc_finished :: "'a \<Rightarrow> bool"
  acc_counter :: "'a \<Rightarrow> byte"
  acc_set_counter :: "byte \<Rightarrow> 'a \<Rightarrow> 'a"
  acc_set_period :: "int \<Rightarrow> 'a \<Rightarrow> 'a"
  acc_load :: "'a \<Rightarrow> nat \<Rightarrow> int \<Rightarrow> byte res"
  acc_store :: "'a \<Rightarrow> nat \<Rightarrow> int \<Rightarrow> byte \<Rightarrow> 'a res"

section \<open>The CPU's hooks\<close>

record cpu =
  lat_vdev :: "tick list"
  status_vdev :: "bool list"
  vdev_set :: bool
  vdev_set_latency :: tick
  in_interrupt :: bool
  cpu_idle :: bool
  cpu_period :: tick
  sim_inst_stalls :: bool
  sim_data_stalls :: bool

datatype sysev = CpuTick | VdevInt nat

definition registerVDev :: "tick \<Rightarrow> cpu \<Rightarrow> cpu \<times> nat" where
  "registerVDev t c =
     (let i = length (lat_vdev c) in (c\<lparr>lat_vdev := lat_vdev c @ [t], status_vdev := status_vdev c @ [False]\<rparr>, i))"

fun total_lat :: "tick list \<Rightarrow> bool list \<Rightarrow> tick \<Rightarrow> tick" where
  "total_lat (l # ls) (s # ss) t = total_lat ls ss (if s then t + l else t)"
| "total_lat _ _ t = t"

definition getTotalLat :: "cpu \<Rightarrow> tick" where
  "getTotalLat c = total_lat (lat_vdev c) (status_vdev c) 0"

definition set_status :: "nat \<Rightarrow> bool \<Rightarrow> cpu \<Rightarrow> cpu res" where
  "set_status i b c =
     (if i < length (status_vdev c) then Inr (c\<lparr>status_vdev := (status_vdev c)[i := b]\<rparr>) else Inl OutOfBounds)"

definition virtualDeviceStart :: "nat \<Rightarrow> cpu \<Rightarrow> cpu res" where
  "virtualDeviceStart i c = set_status i True c"

definition virtualDeviceEnd :: "nat \<Rightarrow> cpu \<Rightarrow> cpu res" where
  "virtualDeviceEnd i c = set_status i False c"

definition virtualDeviceSet :: "tick \<Rightarrow> cpu \<Rightarrow> cpu" where
  "virtualDeviceSet t c = c\<lparr>vdev_set := True, vdev_set_latency := t\<rparr>"

definition round_tick :: "tick \<Rightarrow> tick \<Rightarrow> tick" where
  "round_tick p t = (if t mod p \<noteq> 0 then t + (p - t mod p) else t)"

definition virtualDeviceDelay :: "tick \<Rightarrow> cpu \<Rightarrow> sysev eventq \<Rightarrow> sysev eventq res" where
  "virtualDeviceDelay t c q =
     bindR (guardR (cpu_period c \<noteq> 0) Undefined) (\<lambda>_.
     reschedule CpuTick (ewhen (evs q CpuTick) + round_tick (cpu_period c) t) False q)"

definition virtualDeviceInterrupt :: "tick \<Rightarrow> cpu \<Rightarrow> sysev eventq \<Rightarrow> (cpu \<times> sysev eventq) res" where
  "virtualDeviceInterrupt t c q =
     (let c' = c\<lparr>in_interrupt := True\<rparr> in bindR (virtualDeviceDelay t c' q) (\<lambda>q'. Inr (c', q')))"

section \<open>The device\<close>

datatype vstate = STATE_POWEROFF | STATE_IDLE | STATE_ACTIVE

record 'a vdev =
  vid :: nat
  aichip_of :: 'a
  range_start :: "64 word"
  range_end :: "64 word"
  delay_set :: tick
  delay_self :: tick
  delay_cpu_interrupt :: tick
  data_bandwidth :: f64
  execution_state :: vstate
  pmem :: byte

record 'a system =
  evq :: "sysev eventq"
  scpu :: cpu
  vdevs :: "'a vdev list"

definition VDEV_SET :: byte where "VDEV_SET = 0x01"
definition VDEV_WORK :: byte where "VDEV_WORK = 0x02"
definition VDEV_READY :: byte where "VDEV_READY = 0x04"
definition VDEV_FINISH :: byte where "VDEV_FINISH = 0x08"

text \<open>The constructor: \<open>tickPerCycle\<close> is an \<open>int\<close>, the clock period a \<open>Tick\<close>.\<close>

definition VirtualDevice_new :: "'a accel \<Rightarrow> 'a \<Rightarrow> 64 word \<Rightarrow> 64 word \<Rightarrow> tick \<Rightarrow> tick \<Rightarrow> f64 \<Rightarrow> tick \<Rightarrow> 'a vdev" where
  "VirtualDevice_new A chip lo hi dset dint bw period =
     \<lparr>vid = 0, aichip_of = acc_set_period A (sint (ucast period :: 32 word)) chip, range_start = lo, range_end = hi,
      delay_set = dset, delay_self = 0, delay_cpu_interrupt = dint, data_bandwidth = bw,
      execution_state = STATE_POWEROFF, pmem = VDEV_READY OR VDEV_FINISH\<rparr>"

text \<open>\<open>init\<close> registers with the CPU, which fixes the device's id.\<close>

definition VirtualDevice_init :: "'a vdev \<Rightarrow> 'a system \<Rightarrow> 'a system" where
  "VirtualDevice_init d s =
     (let (c, i) = registerVDev 1 (scpu s)
      in s\<lparr>scpu := c, vdevs := vdevs s @ [d\<lparr>vid := i, execution_state := STATE_POWEROFF\<rparr>]\<rparr>)"

definition put_dev :: "nat \<Rightarrow> 'a vdev \<Rightarrow> 'a system \<Rightarrow> 'a system" where
  "put_dev i d s = s\<lparr>vdevs := (vdevs s)[i := d]\<rparr>"

definition triggerInterrupt :: "'a accel \<Rightarrow> nat \<Rightarrow> 'a system \<Rightarrow> 'a system res" where
  "triggerInterrupt A i s =
     (let d = (vdevs s ! i)\<lparr>execution_state := STATE_IDLE\<rparr> in
      bindR (guardR (pmem d AND VDEV_WORK \<noteq> 0) AssertFail) (\<lambda>_.
      let p1 = (pmem d OR VDEV_READY) AND NOT VDEV_WORK;
          p2 = (if acc_finished A (aichip_of d) then p1 OR VDEV_FINISH else p1);
          s1 = put_dev i (d\<lparr>pmem := p2\<rparr>) s
      in bindR (virtualDeviceInterrupt (delay_cpu_interrupt d) (scpu s1) (evq s1)) (\<lambda>(c, q).
         bindR (virtualDeviceEnd (vid d) c) (\<lambda>c'.
         Inr (s1\<lparr>scpu := c', evq := q\<rparr>)))))"

text \<open>A packet carries its address and its data buffer.  The memory and byte index an
  offset above the two registers denotes:\<close>

datatype packet = ReadPkt "64 word" "byte list" | WritePkt "64 word" "byte list" | OtherPkt "64 word"

definition window :: "64 word \<Rightarrow> nat \<times> int" where
  "window off =
     (if off < 1024 * 1024 + 2 then (1, uint off - 2)
      else if off < 1024 * 1024 * 2 + 2 then (2, uint off - 1024 * 1024 - 2)
      else (3, uint off - 1024 * 1024 * 2 - 2))"

fun read_bytes :: "'a accel \<Rightarrow> 'a \<Rightarrow> nat \<Rightarrow> int \<Rightarrow> nat \<Rightarrow> byte list res" where
  "read_bytes A a m k 0 = Inr []"
| "read_bytes A a m k (Suc n) =
     bindR (acc_load A a m k) (\<lambda>b. bindR (read_bytes A a m (k + 1) n) (\<lambda>bs. Inr (b # bs)))"

fun write_bytes :: "'a accel \<Rightarrow> nat \<Rightarrow> int \<Rightarrow> byte list \<Rightarrow> 'a \<Rightarrow> 'a res" where
  "write_bytes A m k [] a = Inr a"
| "write_bytes A m k (b # bs) a = bindR (acc_store A a m k b) (write_bytes A m (k + 1) bs)"

text \<open>Writing the first byte of a buffer.\<close>

definition put_first :: "byte \<Rightarrow> byte list \<Rightarrow> byte list res" where
  "put_first b buf = (case buf of [] \<Rightarrow> Inl OutOfBounds | _ # r \<Rightarrow> Inr (b # r))"

definition get_first :: "byte list \<Rightarrow> byte res" where
  "get_first buf = (case buf of [] \<Rightarrow> Inl OutOfBounds | b # _ \<Rightarrow> Inr b)"

text \<open>\<open>data_bandwidth * pkt->getSize()\<close>, converted to a \<open>Tick\<close>.\<close>

definition transfer_delay :: "'a vdev \<Rightarrow> nat \<Rightarrow> tick res" where
  "transfer_delay d n = f64_to_u64 (f64_mul (data_bandwidth d) (f64_of_nat n))"

definition start_request :: "'a accel \<Rightarrow> nat \<Rightarrow> 'a system \<Rightarrow> 'a system res" where
  "start_request A i s =
     (let d = vdevs s ! i in
      if pmem d AND VDEV_WORK \<noteq> 0 then Inr s
      else let d1 = d\<lparr>execution_state := STATE_ACTIVE,
                      pmem := ((pmem d OR VDEV_WORK) AND NOT VDEV_READY) AND NOT VDEV_FINISH\<rparr> in
        bindR (acc_run A (aichip_of d1)) (\<lambda>(a, t).
        let d2 = d1\<lparr>aichip_of := a, delay_self := word_of_int t\<rparr> in
        bindR (schedule (VdevInt i) (curTick (evq s) + delay_set d2 + delay_self d2) (evq s)) (\<lambda>q.
        bindR (virtualDeviceStart (vid d2) (virtualDeviceSet (delay_set d2) (scpu s))) (\<lambda>c.
        Inr (put_dev i d2 (s\<lparr>evq := q, scpu := c\<rparr>))))))"

definition vdev_access :: "'a accel \<Rightarrow> nat \<Rightarrow> packet \<Rightarrow> 'a system \<Rightarrow> ('a system \<times> packet) res" where
  "vdev_access A i pkt s =
     (let d = vdevs s ! i in
      case pkt of
        ReadPkt addr buf \<Rightarrow>
          (let offset = addr - range_start d in
           bindR (if offset = 0 then put_first (pmem d) buf
                  else if offset = 1 then put_first (acc_counter A (aichip_of d)) buf
                  else read_bytes A (aichip_of d) (fst (window offset)) (snd (window offset)) (length buf)) (\<lambda>buf'.
           bindR (transfer_delay d (length buf)) (\<lambda>t.
           Inr (s\<lparr>scpu := virtualDeviceSet t (scpu s)\<rparr>, ReadPkt addr buf'))))
      | WritePkt addr buf \<Rightarrow>
          (let offset = addr - range_start d in
           if offset = 0 then
             bindR (get_first buf) (\<lambda>b.
             if b AND VDEV_SET \<noteq> 0 then bindR (start_request A i s) (\<lambda>s'. Inr (s', pkt)) else Inr (s, pkt))
           else if offset = 1 then
             bindR (get_first buf) (\<lambda>b.
             Inr (put_dev i (d\<lparr>aichip_of := acc_set_counter A b (aichip_of d)\<rparr>) s, pkt))
           else
             bindR (write_bytes A (fst (window offset)) (snd (window offset)) buf (aichip_of d)) (\<lambda>a.
             bindR (transfer_delay d (length buf)) (\<lambda>t.
             Inr ((put_dev i (d\<lparr>aichip_of := a\<rparr>) s)\<lparr>scpu := virtualDeviceSet t (scpu s)\<rparr>, pkt))))
      | OtherPkt addr \<Rightarrow> Inr (s, pkt))"

text \<open>The port's handlers: atomic accesses take no time of their own; the others are not
  supported.\<close>

definition recvAtomic :: "'a accel \<Rightarrow> nat \<Rightarrow> packet \<Rightarrow> 'a system \<Rightarrow> ('a system \<times> packet \<times> tick) res" where
  "recvAtomic A i pkt s = bindR (vdev_access A i pkt s) (\<lambda>(s', p). Inr (s', p, 0))"

definition recvFunctional :: "'a accel \<Rightarrow> nat \<Rightarrow> packet \<Rightarrow> 'a system \<Rightarrow> 'a system res" where
  "recvFunctional A i pkt s = Inl FatalError"

definition recvTimingReq :: "'a accel \<Rightarrow> nat \<Rightarrow> packet \<Rightarrow> 'a system \<Rightarrow> ('a system \<times> bool) res" where
  "recvTimingReq A i pkt s = Inl FatalError"

definition recvRespRetry :: "'a accel \<Rightarrow> nat \<Rightarrow> 'a system \<Rightarrow> 'a system res" where
  "recvRespRetry A i s = Inl FatalError"

section \<open>A CPU tick\<close>

text \<open>What one iteration of \<open>tick\<close> gets from the parts outside this model: whether the CPU was
  suspended by a PC event, whether the fetch translated, whether it accessed the instruction
  port and its latency, the packets the instruction sends to devices, whether it accessed the
  data port and its latency, and whether it suspended the CPU.\<close>

record iter =
  it_idle :: bool
  it_fetch_ok :: bool
  it_icache :: bool
  it_icache_latency :: tick
  it_pkts :: "(nat \<times> packet) list"
  it_dcache :: bool
  it_dcache_latency :: tick
  it_suspends :: bool

definition tick_stall :: "iter \<Rightarrow> tick \<Rightarrow> cpu \<Rightarrow> (cpu \<times> tick) res" where
  "tick_stall it latency c =
     (let st0 = 0;
          st1 = (if sim_inst_stalls c \<and> it_icache it then st0 + it_icache_latency it else st0);
          st2 = (if sim_data_stalls c \<and> it_dcache it then st1 + it_dcache_latency it else st1);
          (c', st3) = (if vdev_set c then (c\<lparr>vdev_set := False\<rparr>, st2 + vdev_set_latency c) else (c, st2))
      in if st3 \<noteq> 0 then bindR (divCeil st3 (cpu_period c')) (\<lambda>n. Inr (c', latency + n * cpu_period c'))
         else Inr (c', latency))"

definition send_packets :: "'a accel \<Rightarrow> (nat \<times> packet) list \<Rightarrow> 'a system \<Rightarrow> 'a system res" where
  "send_packets A ps s = forR (\<lambda>(i, p) s. bindR (recvAtomic A i p s) (\<lambda>(s', _, _). Inr s')) ps s"

text \<open>The loop; the flag tells that \<open>tick\<close> returned from inside it.\<close>

fun tick_loop :: "'a accel \<Rightarrow> iter list \<Rightarrow> tick \<Rightarrow> 'a system \<Rightarrow> ('a system \<times> tick \<times> bool) res" where
  "tick_loop A [] latency s = Inr (s, latency, False)"
| "tick_loop A (it # its) latency s =
     (if it_idle it \<or> cpu_idle (scpu s) then Inr (s\<lparr>scpu := (scpu s)\<lparr>cpu_idle := True\<rparr>\<rparr>, latency, True)
      else bindR (if it_fetch_ok it
                  then bindR (send_packets A (it_pkts it) s) (\<lambda>s1.
                       bindR (tick_stall it latency (scpu s1)) (\<lambda>(c, lat).
                       Inr (s1\<lparr>scpu := c\<lparr>cpu_idle := cpu_idle c \<or> it_suspends it\<rparr>\<rparr>, lat)))
                  else Inr (s, latency)) (\<lambda>(s2, lat). tick_loop A its lat s2))"

definition cpu_tick :: "'a accel \<Rightarrow> iter list \<Rightarrow> bool \<Rightarrow> 'a system \<Rightarrow> 'a system res" where
  "cpu_tick A its drained s =
     bindR (tick_loop A its 0 (s\<lparr>scpu := (scpu s)\<lparr>in_interrupt := False\<rparr>\<rparr>)) (\<lambda>(s1, latency, returned).
     if returned \<or> drained then Inr s1
     else let latency' = (if latency < cpu_period (scpu s1) then cpu_period (scpu s1) else latency) in
       if cpu_idle (scpu s1) then Inr s1
       else bindR (schedule CpuTick (curTick (evq s1) + latency') (evq s1)) (\<lambda>q. Inr (s1\<lparr>evq := q\<rparr>)))"

text \<open>One turn of the simulation loop: the earliest event is taken off the queue and
  processed.\<close>

definition sys_step :: "'a accel \<Rightarrow> iter list \<times> bool \<Rightarrow> 'a system \<Rightarrow> 'a system res" where
  "sys_step A w s =
     bindR (serviceOne (evq s)) (\<lambda>(e, process, q).
     let s1 = s\<lparr>evq := q\<rparr> in
     if process
     then (case e of CpuTick \<Rightarrow> cpu_tick A (fst w) (snd w) s1 | VdevInt i \<Rightarrow> triggerInterrupt A i s1)
     else Inr s1)"

end
