(* ===== verification/Vdev_Inv.thy ===== *)
theory Vdev_Inv imports Vdev begin

text \<open>
  The contract between a virtual device and its accelerator, and what the device, the CPU and
  the event queue keep of each other's state: a device works exactly while its interrupt is
  scheduled, which is what the assertions of both rely on.
\<close>

section \<open>The status register\<close>

lemma flag_bits:
  "p AND VDEV_SET \<noteq> 0 \<longleftrightarrow> bit p 0" "p AND VDEV_WORK \<noteq> 0 \<longleftrightarrow> bit p 1"
  "p AND VDEV_READY \<noteq> 0 \<longleftrightarrow> bit p 2" "p AND VDEV_FINISH \<noteq> 0 \<longleftrightarrow> bit p 3"
proof -
  have "p AND 2 ^ n \<noteq> 0 \<longleftrightarrow> bit p n" for n by (simp add: and_exp_eq_0_iff_not_bit)
  from this [of 0] this [of 1] this [of 2] this [of 3]
  show "p AND VDEV_SET \<noteq> 0 \<longleftrightarrow> bit p 0" "p AND VDEV_WORK \<noteq> 0 \<longleftrightarrow> bit p 1"
    "p AND VDEV_READY \<noteq> 0 \<longleftrightarrow> bit p 2" "p AND VDEV_FINISH \<noteq> 0 \<longleftrightarrow> bit p 3"
    by (simp_all add: VDEV_SET_def VDEV_WORK_def VDEV_READY_def VDEV_FINISH_def)
qed

lemma request_bits:
  "bit (((p OR VDEV_WORK) AND NOT VDEV_READY) AND NOT VDEV_FINISH) 1"
  "\<not> bit (((p OR VDEV_WORK) AND NOT VDEV_READY) AND NOT VDEV_FINISH) 2"
  "\<not> bit (((p OR VDEV_WORK) AND NOT VDEV_READY) AND NOT VDEV_FINISH) 3"
  by (simp_all add: VDEV_WORK_def VDEV_READY_def VDEV_FINISH_def bit_simps bit_numeral_rec numeral_eq_Suc)

lemma interrupt_bits:
  "\<not> bit ((p OR VDEV_READY) AND NOT VDEV_WORK) 1" "bit ((p OR VDEV_READY) AND NOT VDEV_WORK) 2"
  "bit ((p OR VDEV_READY) AND NOT VDEV_WORK) 3 = bit p 3"
  "bit (r OR VDEV_FINISH) 1 = bit r 1" "bit (r OR VDEV_FINISH) 2 = bit r 2" "bit (r OR VDEV_FINISH) 3"
  by (simp_all add: VDEV_WORK_def VDEV_READY_def VDEV_FINISH_def bit_simps bit_numeral_rec numeral_eq_Suc)

section \<open>The invariant\<close>

definition max_delay :: nat where
  "max_delay = 2 ^ 32"

text \<open>What no operation changes of a device.\<close>

definition conf :: "'a vdev \<Rightarrow> nat \<times> 64 word \<times> 64 word \<times> tick \<times> tick \<times> f64" where
  "conf d = (vid d, range_start d, range_end d, delay_set d, delay_cpu_interrupt d, data_bandwidth d)"

definition dev_inv :: "('a \<Rightarrow> bool) \<Rightarrow> sysev eventq \<Rightarrow> cpu \<Rightarrow> nat \<Rightarrow> 'a vdev \<Rightarrow> bool" where
  "dev_inv ready q c i d \<longleftrightarrow>
     vid d = i \<and> ready (aichip_of d) \<and> (bit (pmem d) 1 \<longleftrightarrow> escheduled (evs q (VdevInt i))) \<and>
     (bit (pmem d) 2 \<longleftrightarrow> \<not> bit (pmem d) 1) \<and> (status_vdev c ! i \<longleftrightarrow> bit (pmem d) 1) \<and>
     (execution_state d = STATE_ACTIVE \<longleftrightarrow> bit (pmem d) 1) \<and>
     unat (delay_set d) \<le> max_delay \<and> unat (delay_cpu_interrupt d) \<le> max_delay"

definition sys_inv :: "('a \<Rightarrow> bool) \<Rightarrow> 'a system \<Rightarrow> bool" where
  "sys_inv ready s \<longleftrightarrow>
     q_ok (evq s) \<and> cpu_period (scpu s) \<noteq> 0 \<and> unat (cpu_period (scpu s)) \<le> max_delay \<and> \<not> cpu_idle (scpu s) \<and>
     length (status_vdev (scpu s)) = length (vdevs s) \<and> (\<forall>e. \<not> esquashed (evs (evq s) e)) \<and>
     (\<forall>i < length (vdevs s). dev_inv ready (evq s) (scpu s) i (vdevs s ! i)) \<and>
     (\<forall>i \<ge> length (vdevs s). \<not> escheduled (evs (evq s) (VdevInt i)))"

text \<open>No time in the system is later than \<open>B\<close>.\<close>

definition within_time :: "nat \<Rightarrow> 'a system \<Rightarrow> bool" where
  "within_time B s \<longleftrightarrow> unat (curTick (evq s)) \<le> B \<and> unat (vdev_set_latency (scpu s)) \<le> max_delay \<and>
     (\<forall>e. escheduled (evs (evq s) e) \<longrightarrow> unat (ewhen (evs (evq s) e)) \<le> B)"

definition same_frame :: "'a system \<Rightarrow> 'a system \<Rightarrow> bool" where
  "same_frame s s' \<longleftrightarrow> map conf (vdevs s') = map conf (vdevs s) \<and> curTick (evq s') = curTick (evq s) \<and>
     evs (evq s') CpuTick = evs (evq s) CpuTick \<and> cpu_period (scpu s') = cpu_period (scpu s) \<and>
     sim_inst_stalls (scpu s') = sim_inst_stalls (scpu s) \<and> sim_data_stalls (scpu s') = sim_data_stalls (scpu s) \<and>
     (\<forall>j. escheduled (evs (evq s) (VdevInt j)) \<longrightarrow> evs (evq s') (VdevInt j) = evs (evq s) (VdevInt j))"

lemma same_frame_refl [simp]: "same_frame s s"
  by (simp add: same_frame_def)

lemma same_frame_trans: "same_frame s s' \<Longrightarrow> same_frame s' s'' \<Longrightarrow> same_frame s s''"
  by (simp add: same_frame_def)

lemma same_frame_length: "same_frame s s' \<Longrightarrow> length (vdevs s') = length (vdevs s)"
  unfolding same_frame_def by (metis length_map)

lemma same_frame_conf: "same_frame s s' \<Longrightarrow> i < length (vdevs s) \<Longrightarrow> conf (vdevs s' ! i) = conf (vdevs s ! i)"
  using same_frame_length [of s s'] unfolding same_frame_def by (metis nth_map)

definition packet_ok :: "(nat \<Rightarrow> int) \<Rightarrow> 'a vdev \<Rightarrow> packet \<Rightarrow> bool" where
  "packet_ok msize d pkt \<longleftrightarrow>
     (case pkt of OtherPkt addr \<Rightarrow> True
      | ReadPkt addr buf \<Rightarrow> buf \<noteq> [] \<and> (\<exists>t. transfer_delay d (length buf) = Inr t \<and> unat t \<le> max_delay) \<and>
          (addr - range_start d \<in> {0, 1} \<or>
           snd (window (addr - range_start d)) + int (length buf) \<le> msize (fst (window (addr - range_start d))))
      | WritePkt addr buf \<Rightarrow> buf \<noteq> [] \<and> (\<exists>t. transfer_delay d (length buf) = Inr t \<and> unat t \<le> max_delay) \<and>
          (addr - range_start d \<in> {0, 1} \<or>
           snd (window (addr - range_start d)) + int (length buf) \<le> msize (fst (window (addr - range_start d)))))"

lemma packet_ok_conf: "conf d = conf d' \<Longrightarrow> packet_ok msize d p = packet_ok msize d' p"
  by (simp add: packet_ok_def conf_def transfer_delay_def split: packet.split)

lemma window_ok: "off \<noteq> 0 \<Longrightarrow> off \<noteq> 1 \<Longrightarrow> fst (window off) \<in> {1, 2, 3} \<and> 0 \<le> snd (window off)"
proof -
  assume "off \<noteq> 0" "off \<noteq> 1"
  then have "uint off \<noteq> 0" "uint off \<noteq> 1" "0 \<le> uint off" by (simp_all add: word_uint_eq_iff)
  then have "2 \<le> uint off" by linarith
  then show ?thesis by (auto simp: window_def word_less_def not_less)
qed

text \<open>What a tick may ask of the devices \<open>ds\<close>: it does not suspend the CPU, its latencies are
  bounded and its packets fit.\<close>

definition iter_ok :: "(nat \<Rightarrow> int) \<Rightarrow> 'a vdev list \<Rightarrow> iter \<Rightarrow> bool" where
  "iter_ok msize ds it \<longleftrightarrow> \<not> it_idle it \<and> \<not> it_suspends it \<and> unat (it_icache_latency it) \<le> max_delay \<and>
     unat (it_dcache_latency it) \<le> max_delay \<and> (\<forall>(i, p)\<in>set (it_pkts it). i < length ds \<and> packet_ok msize (ds ! i) p)"

definition work_ok :: "(nat \<Rightarrow> int) \<Rightarrow> nat \<Rightarrow> 'a vdev list \<Rightarrow> iter list \<times> bool \<Rightarrow> bool" where
  "work_ok msize W ds w \<longleftrightarrow> \<not> snd w \<and> length (fst w) \<le> W \<and> (\<forall>it\<in>set (fst w). iter_ok msize ds it)"

lemma iter_ok_conf:
  assumes "map conf ds = map conf ds'"
  shows "iter_ok msize ds it = iter_ok msize ds' it"
proof -
  have l: "length ds = length ds'" using arg_cong [OF assms, of length] by simp
  have "conf (ds ! i) = conf (ds' ! i)" if "i < length ds" for i
    using that l assms by (metis nth_map)
  then have "i < length ds \<and> packet_ok msize (ds ! i) p \<longleftrightarrow> i < length ds' \<and> packet_ok msize (ds' ! i) p" for i p
    using l packet_ok_conf by metis
  then show ?thesis by (simp add: iter_ok_def)
qed

lemma work_ok_conf: "map conf ds = map conf ds' \<Longrightarrow> work_ok msize W ds w = work_ok msize W ds' w"
  using iter_ok_conf [of ds ds' msize] by (simp add: work_ok_def)

definition step_room :: "nat \<Rightarrow> nat" where
  "step_room W = 4 * max_delay * (W + 2)"

lemma tick_stall_ok:
  assumes p: "cpu_period c \<noteq> 0" "unat (cpu_period c) \<le> max_delay" and v: "unat (vdev_set_latency c) \<le> max_delay"
    and l: "unat (it_icache_latency it) \<le> max_delay" "unat (it_dcache_latency it) \<le> max_delay"
    and b: "unat latency + 4 * max_delay < 2 ^ 63"
  shows "\<exists>lat. tick_stall it latency c = Inr (c\<lparr>vdev_set := False\<rparr>, lat) \<and> unat lat \<le> unat latency + 4 * max_delay"
proof -
  let ?st1 = "if sim_inst_stalls c \<and> it_icache it then it_icache_latency it else 0"
  let ?st2 = "if sim_data_stalls c \<and> it_dcache it then ?st1 + it_dcache_latency it else ?st1"
  let ?st3 = "if vdev_set c then ?st2 + vdev_set_latency c else ?st2"
  have add: "unat (x + y) \<le> unat x + unat y" for x y :: tick by (simp add: unat_word_ariths)
  have "unat ?st1 \<le> max_delay" using l(1) by simp
  then have "unat ?st2 \<le> 2 * max_delay" using l(2) add [of ?st1 "it_dcache_latency it"] by simp
  then have st3: "unat ?st3 \<le> 3 * max_delay" using v add [of ?st2 "vdev_set_latency c"] by simp
  have c: "(if vdev_set c then c\<lparr>vdev_set := False\<rparr> else c) = c\<lparr>vdev_set := False\<rparr>" by simp
  show ?thesis
  proof (cases "?st3 = 0")
    case True
    then have "tick_stall it latency c = Inr (c\<lparr>vdev_set := False\<rparr>, latency)"
      by (simp add: tick_stall_def Let_def split del: if_split) (auto split: if_splits)
    then show ?thesis by simp
  next
    case False
    have "0 < cpu_period c" using p(1) by (simp add: word_gt_0)
    moreover have "unat ?st3 + unat (cpu_period c) \<le> 2 ^ LENGTH(64)" using st3 p(2) by (simp add: max_delay_def)
    ultimately obtain n where n: "divCeil ?st3 (cpu_period c) = Inr n"
        "unat n = (unat ?st3 + unat (cpu_period c) - 1) div unat (cpu_period c)"
      using divCeil_value [of "cpu_period c" ?st3] by blast
    have "unat n * unat (cpu_period c) < unat ?st3 + unat (cpu_period c)"
      unfolding n(2) by (rule ceil_bounds(2)) (use p(1) False in \<open>simp_all add: unat_gt_0\<close>)
    then have np: "unat n * unat (cpu_period c) \<le> 4 * max_delay" using st3 p(2) by linarith
    have "unat (n * cpu_period c) \<le> unat n * unat (cpu_period c)" by (simp add: unat_word_ariths)
    then have "unat (latency + n * cpu_period c) \<le> unat latency + 4 * max_delay" 
      using np add [of latency "n * cpu_period c"] by linarith
    moreover have "tick_stall it latency c = Inr (c\<lparr>vdev_set := False\<rparr>, latency + n * cpu_period c)"
      using False n(1) by (simp add: tick_stall_def Let_def split del: if_split) (auto split: if_splits)
    ultimately show ?thesis by blast
  qed
qed

section \<open>The contract of an accelerator\<close>

text \<open>A run of the simulation loop, given the work of each step.\<close>

fun sys_run :: "'a accel \<Rightarrow> (iter list \<times> bool) list \<Rightarrow> 'a system \<Rightarrow> 'a system res" where
  "sys_run A [] s = Inr s"
| "sys_run A (w # ws) s = bindR (sys_step A w s) (sys_run A ws)"

definition run_good :: "('a \<Rightarrow> bool) \<Rightarrow> nat \<Rightarrow> 'a system \<Rightarrow> bool" where
  "run_good ready B s \<longleftrightarrow> sys_inv ready s \<and> within_time B s \<and> escheduled (evs (evq s) CpuTick)"

text \<open>What is left before the interrupt of device \<open>i\<close>: the ticks of the CPU that fit before it,
  each followed by at most one interrupt of each other device.\<close>

definition pending :: "'a system \<Rightarrow> nat set" where
  "pending s = {j. j < length (vdevs s) \<and> escheduled (evs (evq s) (VdevInt j))}"

definition steps_left :: "nat \<Rightarrow> 'a system \<Rightarrow> nat" where
  "steps_left i s =
     (unat (ewhen (evs (evq s) (VdevInt i))) + unat (cpu_period (scpu s)) - unat (ewhen (evs (evq s) CpuTick)))
        div unat (cpu_period (scpu s)) * Suc (length (vdevs s)) + card (pending s)"

text \<open>The two kinds of step: the CPU ticks, or device \<open>i\<close> interrupts.\<close>

definition tick_step :: "'a system \<Rightarrow> 'a system \<Rightarrow> bool" where
  "tick_step s s' \<longleftrightarrow>
     (\<forall>j. escheduled (evs (evq s) (VdevInt j)) \<longrightarrow> evs (evq s') (VdevInt j) = evs (evq s) (VdevInt j) \<and>
        unat (ewhen (evs (evq s) CpuTick)) \<le> unat (ewhen (evs (evq s) (VdevInt j)))) \<and>
     unat (ewhen (evs (evq s) CpuTick)) + unat (cpu_period (scpu s)) \<le> unat (ewhen (evs (evq s') CpuTick))"

definition int_step :: "nat \<Rightarrow> 'a system \<Rightarrow> 'a system \<Rightarrow> bool" where
  "int_step i s s' \<longleftrightarrow> escheduled (evs (evq s) (VdevInt i)) \<and> \<not> escheduled (evs (evq s') (VdevInt i)) \<and>
     i < length (vdevs s) \<and> \<not> bit (pmem (vdevs s' ! i)) 1 \<and> bit (pmem (vdevs s' ! i)) 2 \<and>
     (\<forall>j. j \<noteq> i \<longrightarrow> evs (evq s') (VdevInt j) = evs (evq s) (VdevInt j)) \<and>
     unat (ewhen (evs (evq s) CpuTick)) \<le> unat (ewhen (evs (evq s') CpuTick))"

locale accelerator =
  fixes A :: "'a accel"
    and ready :: "'a \<Rightarrow> bool"
    and msize :: "nat \<Rightarrow> int"
  assumes run_ok: "ready a \<Longrightarrow> \<exists>a' t. acc_run A a = Inr (a', t) \<and> ready a' \<and> 0 \<le> t \<and> t \<le> int max_delay"
    and ready_counter: "ready a \<Longrightarrow> ready (acc_set_counter A n a)"
    and counter_set: "acc_counter A (acc_set_counter A n a) = n"
    and load_ok: "ready a \<Longrightarrow> m \<in> {1, 2, 3} \<Longrightarrow> 0 \<le> k \<Longrightarrow> k < msize m \<Longrightarrow> okR (acc_load A a m k)"
    and store_ok: "ready a \<Longrightarrow> m \<in> {1, 2, 3} \<Longrightarrow> 0 \<le> k \<Longrightarrow> k < msize m \<Longrightarrow>
      \<exists>a'. acc_store A a m k b = Inr a' \<and> ready a' \<and>
        (\<forall>m'\<in>{1, 2, 3}. \<forall>k'. 0 \<le> k' \<longrightarrow> k' < msize m' \<longrightarrow>
           acc_load A a' m' k' = (if m' = m \<and> k' = k then Inr b else acc_load A a m' k'))"
begin

lemma read_bytes_ok:
  assumes "ready a" "m \<in> {1, 2, 3}" "0 \<le> k" "k + int n \<le> msize m"
  shows "\<exists>bs. read_bytes A a m k n = Inr bs \<and> length bs = n"
  using assms(3,4)
proof (induction n arbitrary: k)
  case (Suc n)
  obtain b where b: "acc_load A a m k = Inr b"
    using load_ok [OF assms(1,2) Suc.prems(1)] Suc.prems(2) by (auto simp: okR_iff)
  obtain bs where "read_bytes A a m (k + 1) n = Inr bs" "length bs = n"
    using Suc.IH [of "k + 1"] Suc.prems by auto
  then show ?case using b by simp
qed simp

lemma write_bytes_ok:
  assumes "ready a" "m \<in> {1, 2, 3}" "0 \<le> k" "k + int (length bs) \<le> msize m"
  shows "\<exists>a'. write_bytes A m k bs a = Inr a' \<and> ready a' \<and>
     (\<forall>m'\<in>{1, 2, 3}. \<forall>j. 0 \<le> j \<longrightarrow> j < msize m' \<longrightarrow>
        acc_load A a' m' j = (if m' = m \<and> k \<le> j \<and> j < k + int (length bs) then Inr (bs ! nat (j - k)) else acc_load A a m' j))"
  using assms(1,3,4)
proof (induction bs arbitrary: a k)
  case (Cons b bs)
  obtain a1 where a1: "acc_store A a m k b = Inr a1" "ready a1"
     "\<forall>m'\<in>{1, 2, 3}. \<forall>j. 0 \<le> j \<longrightarrow> j < msize m' \<longrightarrow> acc_load A a1 m' j = (if m' = m \<and> j = k then Inr b else acc_load A a m' j)"
    using store_ok [OF Cons.prems(1) assms(2) Cons.prems(2)] Cons.prems(3) by fastforce
  obtain a' where a': "write_bytes A m (k + 1) bs a1 = Inr a'" "ready a'"
     "\<forall>m'\<in>{1, 2, 3}. \<forall>j. 0 \<le> j \<longrightarrow> j < msize m' \<longrightarrow>
        acc_load A a' m' j = (if m' = m \<and> k + 1 \<le> j \<and> j < k + 1 + int (length bs) then Inr (bs ! nat (j - (k + 1))) else acc_load A a1 m' j)"
    using Cons.IH [OF a1(2), of "k + 1"] Cons.prems by auto
  have "acc_load A a' m' j = (if m' = m \<and> k \<le> j \<and> j < k + int (length (b # bs)) then Inr ((b # bs) ! nat (j - k)) else acc_load A a m' j)"
    if "m' \<in> {1, 2, 3}" "0 \<le> j" "j < msize m'" for m' j
  proof (cases "j = k")
    case True
    then show ?thesis using a'(3) a1(3) that by auto
  next
    case False
    then have "nat (j - k) = Suc (nat (j - (k + 1)))" if "k \<le> j" using that by simp
    then have "(b # bs) ! nat (j - k) = bs ! nat (j - (k + 1))" if "k \<le> j" using that by (simp del: nat_diff_distrib')
    then show ?thesis using False a'(3) a1(3) that by auto
  qed
  then show ?case using a1(1) a'(1,2) by auto
qed auto

text \<open>A request starts an idle device, and is discarded while the device works.\<close>

lemma start_request_ok:
  assumes inv: "sys_inv ready s" and i: "i < length (vdevs s)" and t: "within_time B s"
    and room: "unat (curTick (evq s)) + 2 * max_delay \<le> B" "B < 2 ^ 63"
  shows "\<exists>s'. start_request A i s = Inr s' \<and> sys_inv ready s' \<and> within_time B s' \<and> same_frame s s'"
proof (cases "bit (pmem (vdevs s ! i)) 1")
  case True
  then have "start_request A i s = Inr s" by (simp add: start_request_def Let_def flag_bits)
  then show ?thesis using inv t by simp
next
  case idle: False
  let ?d = "vdevs s ! i" and ?q = "evq s" and ?c = "scpu s"
  note I = inv [unfolded sys_inv_def]
  have d: "dev_inv ready ?q ?c i ?d" using I i by blast
  note D = d [unfolded dev_inv_def]
  have r: "ready (aichip_of ?d)" using D by blast
  obtain a t where a: "acc_run A (aichip_of ?d) = Inr (a, t)" "ready a" "0 \<le> t" "t \<le> int max_delay"
    using run_ok [OF r] by blast
  let ?w = "curTick ?q + delay_set ?d + word_of_int t"
  have ut: "unat (word_of_int t :: tick) = nat t"
    using a(3,4) by (simp add: unat_eq_nat_uint uint_word_of_int max_delay_def)
  have u1: "unat (curTick ?q + delay_set ?d) = unat (curTick ?q) + unat (delay_set ?d)"
    using D room by (intro unat_add_lem [THEN iffD1]) (simp add: max_delay_def)
  have dd: "unat (delay_set ?d) \<le> max_delay" using D by blast
  have "nat t \<le> max_delay" using a(3,4) by simp
  then have "unat (curTick ?q) + unat (delay_set ?d) + nat t < 2 ^ 64"
    using dd room by (simp add: max_delay_def)
  then have w: "unat ?w = unat (curTick ?q) + unat (delay_set ?d) + nat t"
    using ut unat_add_lem [of "curTick ?q + delay_set ?d" "word_of_int t"] unfolding u1 by simp
  have le: "curTick ?q \<le> ?w" using w by (simp add: word_le_nat_alt)
  have ns: "\<not> escheduled (evs ?q (VdevInt i))" using D idle by blast
  obtain q where q: "schedule (VdevInt i) ?w ?q = Inr q" "q_ok q" "curTick q = curTick ?q"
     "evs q = (evs ?q)(VdevInt i := scheduled_at ?w (evs ?q (VdevInt i)))"
    using schedule_ok [OF _ ns le] I by blast
  define p where "p = ((pmem ?d OR VDEV_WORK) AND NOT VDEV_READY) AND NOT VDEV_FINISH"
  define d' where "d' = ?d\<lparr>execution_state := STATE_ACTIVE, pmem := p, aichip_of := a, delay_self := word_of_int t\<rparr>"
  define c' where "c' = (virtualDeviceSet (delay_set ?d) ?c)\<lparr>status_vdev := (status_vdev ?c)[i := True]\<rparr>"
  define s' where "s' = put_dev i d' (s\<lparr>evq := q, scpu := c'\<rparr>)"
  have pb: "bit p 1" "\<not> bit p 2" unfolding p_def by (rule request_bits)+
  have len: "length (status_vdev ?c) = length (vdevs s)" using I by blast
  have vid: "vid ?d = i" using D by blast
  have "start_request A i s = Inr s'"
    using idle a(1) q(1) len i vid
    by (simp add: start_request_def Let_def flag_bits virtualDeviceStart_def set_status_def virtualDeviceSet_def
        s'_def d'_def c'_def p_def put_dev_def)
  moreover have "dev_inv ready q c' j (vdevs s' ! j)" if j: "j < length (vdevs s)" for j
  proof (cases "j = i")
    case True
    then show ?thesis using D i len a(2) pb q(4) by (simp add: dev_inv_def s'_def put_dev_def d'_def c'_def scheduled_at_def)
  next
    case False
    have "dev_inv ready ?q ?c j (vdevs s ! j)" using I j by blast
    then show ?thesis using False q(4) by (simp add: dev_inv_def s'_def put_dev_def c'_def virtualDeviceSet_def)
  qed
  then have "sys_inv ready s'"
    using I q i by (simp add: sys_inv_def s'_def put_dev_def c'_def virtualDeviceSet_def scheduled_at_def)
  moreover have "within_time B s'"
    using t q w D room a(4)
    by (auto simp: within_time_def s'_def put_dev_def c'_def virtualDeviceSet_def scheduled_at_def max_delay_def split: if_splits)
  moreover have "same_frame s s'"
    using q i ns by (simp add: same_frame_def s'_def put_dev_def c'_def d'_def virtualDeviceSet_def map_update list_update_same_conv conf_def)
  ultimately show ?thesis by blast
qed

lemma set_keeps:
  assumes "sys_inv ready s" "within_time B s" "unat t \<le> max_delay"
  shows "sys_inv ready (s\<lparr>scpu := virtualDeviceSet t (scpu s)\<rparr>) \<and> within_time B (s\<lparr>scpu := virtualDeviceSet t (scpu s)\<rparr>) \<and>
    same_frame s (s\<lparr>scpu := virtualDeviceSet t (scpu s)\<rparr>)"
  using assms by (simp add: sys_inv_def within_time_def virtualDeviceSet_def dev_inv_def same_frame_def)

lemma chip_keeps:
  assumes "sys_inv ready s" "within_time B s" "i < length (vdevs s)" "ready a"
  shows "sys_inv ready (put_dev i ((vdevs s ! i)\<lparr>aichip_of := a\<rparr>) s) \<and>
    within_time B (put_dev i ((vdevs s ! i)\<lparr>aichip_of := a\<rparr>) s) \<and>
    same_frame s (put_dev i ((vdevs s ! i)\<lparr>aichip_of := a\<rparr>) s)"
proof -
  have "dev_inv ready (evq s) (scpu s) j ((vdevs s)[i := (vdevs s ! i)\<lparr>aichip_of := a\<rparr>] ! j)" if "j < length (vdevs s)" for j
    using assms(1,3,4) that by (cases "j = i") (auto simp: sys_inv_def dev_inv_def)
  then show ?thesis
    using assms by (simp add: sys_inv_def within_time_def put_dev_def same_frame_def map_update conf_def list_update_same_conv)
qed

lemma access_ok:
  assumes inv: "sys_inv ready s" and i: "i < length (vdevs s)" and t: "within_time B s"
    and room: "unat (curTick (evq s)) + 2 * max_delay \<le> B" "B < 2 ^ 63"
    and pk: "packet_ok msize (vdevs s ! i) pkt"
  shows "\<exists>s' p'. vdev_access A i pkt s = Inr (s', p') \<and> sys_inv ready s' \<and> within_time B s' \<and> same_frame s s'"
proof -
  let ?d = "vdevs s ! i"
  have r: "ready (aichip_of ?d)" using inv i by (auto simp: sys_inv_def dev_inv_def)
  show ?thesis
  proof (cases pkt)
    case (ReadPkt addr buf)
    let ?o = "addr - range_start ?d"
    obtain t' where t': "transfer_delay ?d (length buf) = Inr t'" "unat t' \<le> max_delay" and ne: "buf \<noteq> []"
      and fit: "?o \<in> {0, 1} \<or> snd (window ?o) + int (length buf) \<le> msize (fst (window ?o))"
      using pk ReadPkt by (auto simp: packet_ok_def)
    have "\<exists>buf'. (if ?o = 0 then put_first (pmem ?d) buf else if ?o = 1 then put_first (acc_counter A (aichip_of ?d)) buf
        else read_bytes A (aichip_of ?d) (fst (window ?o)) (snd (window ?o)) (length buf)) = Inr buf'"
    proof (cases "?o \<in> {0, 1}")
      case True
      then show ?thesis using ne by (auto simp: put_first_def split: list.split)
    next
      case False
      then show ?thesis using read_bytes_ok [OF r, of "fst (window ?o)" "snd (window ?o)" "length buf"] fit window_ok [of ?o] by auto
    qed
    then obtain buf' where "(if ?o = 0 then put_first (pmem ?d) buf else if ?o = 1 then put_first (acc_counter A (aichip_of ?d)) buf
        else read_bytes A (aichip_of ?d) (fst (window ?o)) (snd (window ?o)) (length buf)) = Inr buf'" by blast
    then have "vdev_access A i pkt s = Inr (s\<lparr>scpu := virtualDeviceSet t' (scpu s)\<rparr>, ReadPkt addr buf')"
      using ReadPkt t'(1) by (simp add: vdev_access_def Let_def)
    then show ?thesis using set_keeps [OF inv t t'(2)] by blast
  next
    case (WritePkt addr buf)
    let ?o = "addr - range_start ?d"
    obtain t' where t': "transfer_delay ?d (length buf) = Inr t'" "unat t' \<le> max_delay" and ne: "buf \<noteq> []"
      and fit: "?o \<in> {0, 1} \<or> snd (window ?o) + int (length buf) \<le> msize (fst (window ?o))"
      using pk WritePkt by (auto simp: packet_ok_def)
    obtain b where b: "get_first buf = Inr b" using ne by (cases buf) (auto simp: get_first_def)
    consider "?o = 0" | "?o = 1" | "?o \<noteq> 0" "?o \<noteq> 1" by blast
    then show ?thesis
    proof cases
      case 1
      obtain s' where "start_request A i s = Inr s'" "sys_inv ready s'" "within_time B s'" "same_frame s s'"
        using start_request_ok [OF inv i t room] by blast
      then show ?thesis using 1 WritePkt b inv t by (cases "b AND VDEV_SET = 0") (simp_all add: vdev_access_def)
    next
      case 2
      then have "addr \<noteq> range_start ?d" by auto
      with 2 have "vdev_access A i pkt s = Inr (put_dev i (?d\<lparr>aichip_of := acc_set_counter A b (aichip_of ?d)\<rparr>) s, pkt)"
        using WritePkt b by (simp add: vdev_access_def Let_def)
      then show ?thesis using chip_keeps [OF inv t i ready_counter [OF r, of b]] by blast
    next
      case 3
      obtain a where a: "write_bytes A (fst (window ?o)) (snd (window ?o)) buf (aichip_of ?d) = Inr a" "ready a"
        using write_bytes_ok [OF r, of "fst (window ?o)" "snd (window ?o)" buf] fit window_ok [OF 3] 3 by auto
      let ?s = "put_dev i (?d\<lparr>aichip_of := a\<rparr>) s"
      have k: "sys_inv ready ?s" "within_time B ?s" "same_frame s ?s" using chip_keeps [OF inv t i a(2)] by blast+
      have c: "scpu ?s = scpu s" by (simp add: put_dev_def)
      have "vdev_access A i pkt s = Inr (?s\<lparr>scpu := virtualDeviceSet t' (scpu s)\<rparr>, pkt)"
        using WritePkt 3 a(1) t'(1) by (simp add: vdev_access_def Let_def)
      then show ?thesis using set_keeps [OF k(1,2) t'(2)] same_frame_trans [OF k(3)] unfolding c by blast
    qed
  next
    case (OtherPkt addr)
    then show ?thesis using inv t by (simp add: vdev_access_def)
  qed
qed

lemma send_packets_ok:
  assumes "sys_inv ready s" "within_time B s" "unat (curTick (evq s)) + 2 * max_delay \<le> B" "B < 2 ^ 63"
    and "\<forall>(i, p)\<in>set ps. i < length (vdevs s) \<and> packet_ok msize (vdevs s ! i) p"
  shows "\<exists>s'. send_packets A ps s = Inr s' \<and> sys_inv ready s' \<and> within_time B s' \<and> same_frame s s'"
  using assms
proof (induction ps arbitrary: s)
  case Nil
  then show ?case by (simp add: send_packets_def)
next
  case (Cons e ps)
  obtain i p where e: "e = (i, p)" by (cases e)
  have "i < length (vdevs s)" "packet_ok msize (vdevs s ! i) p" using Cons.prems(5) e by auto
  then obtain s1 p' where s1: "vdev_access A i p s = Inr (s1, p')" "sys_inv ready s1" "within_time B s1" "same_frame s s1"
    using access_ok Cons.prems(1-4) by blast
  have "\<forall>(i, p)\<in>set ps. i < length (vdevs s1) \<and> packet_ok msize (vdevs s1 ! i) p"
  proof (clarify, intro conjI)
    fix j q assume jq: "(j, q) \<in> set ps"
    then have j: "j < length (vdevs s)" "packet_ok msize (vdevs s ! j) q" using Cons.prems(5) by auto
    then show "j < length (vdevs s1)" using same_frame_length [OF s1(4)] by simp
    show "packet_ok msize (vdevs s1 ! j) q"
      using j packet_ok_conf [OF same_frame_conf [OF s1(4) j(1)]] by simp
  qed
  moreover have "curTick (evq s1) = curTick (evq s)" using s1(4) by (simp add: same_frame_def)
  ultimately obtain s' where "send_packets A ps s1 = Inr s'" "sys_inv ready s'" "within_time B s'" "same_frame s1 s'"
    using Cons.IH [OF s1(2,3)] Cons.prems(3,4) by auto
  then show ?case using s1 same_frame_trans [OF s1(4)] e by (auto simp: send_packets_def recvAtomic_def)
qed

text \<open>The interrupt: the assertion holds, the device is ready again and the CPU's next tick is
  delayed.\<close>

lemma round_tick_le:
  assumes "p \<noteq> 0" "unat t + unat p < 2 ^ 64"
  shows "unat t \<le> unat (round_tick p t) \<and> unat (round_tick p t) < unat t + unat p \<and> unat p dvd unat (round_tick p t)"
proof -
  have p0: "0 < unat p" using assms(1) by (simp add: unat_gt_0)
  have m: "unat (t mod p) = unat t mod unat p" by (rule unat_mod)
  show ?thesis
  proof (cases "t mod p = 0")
    case True
    then have "unat t mod unat p = 0" using m by simp
    then show ?thesis using True p0 by (auto simp: round_tick_def)
  next
    case False
    then have r0: "0 < unat t mod unat p" using m by (metis unat_eq_0 neq0_conv)
    have r1: "unat t mod unat p < unat p" using p0 by simp
    have s: "unat (p - t mod p) = unat p - unat t mod unat p"
      using m r1 by (subst unat_sub) (simp_all add: word_le_nat_alt)
    have "unat t + unat (p - t mod p) < 2 ^ 64" using s r0 r1 assms(2) by linarith
    then have a: "unat (t + (p - t mod p)) = unat t + (unat p - unat t mod unat p)"
      using unat_add_lem [of t "p - t mod p"] s by simp
    have k: "unat t + (unat p - unat t mod unat p) = unat p * (unat t div unat p + 1)"
    proof -
      have "unat p * (unat t div unat p) + unat t mod unat p = unat t" by (rule mult_div_mod_eq)
      then show ?thesis using r1 unfolding distrib_left mult_1_right by linarith
    qed
    have "round_tick p t = t + (p - t mod p)" using False by (simp add: round_tick_def)
    then have u: "unat (round_tick p t) = unat t + (unat p - unat t mod unat p)" using a by simp
    have "unat p dvd unat (round_tick p t)" unfolding u k by simp
    moreover have "unat t \<le> unat (round_tick p t)" "unat (round_tick p t) < unat t + unat p"
      using u r0 r1 by linarith+
    ultimately show ?thesis by blast
  qed
qed

lemma trigger_ok:
  assumes inv: "sys_inv ready s" and t: "within_time B s" and B: "B + 2 * max_delay < 2 ^ 63"
    and i: "i < length (vdevs s)" and work: "bit (pmem (vdevs s ! i)) 1"
    and tick: "escheduled (evs (evq s) CpuTick)"
    and popped: "q_ok q" "\<not> escheduled (evs q (VdevInt i))"
      "evs q = (evs (evq s))(VdevInt i := v)" "\<not> esquashed v" "unat (curTick q) \<le> B" 
    and s': "s1 = s\<lparr>evq := q\<rparr>"
  shows "\<exists>s'. triggerInterrupt A i s1 = Inr s' \<and> sys_inv ready s' \<and> within_time (B + 2 * max_delay) s' \<and>
     map conf (vdevs s') = map conf (vdevs s) \<and> escheduled (evs (evq s') CpuTick) \<and>
     \<not> bit (pmem (vdevs s' ! i)) 1 \<and> bit (pmem (vdevs s' ! i)) 2 \<and> curTick (evq s') = curTick q \<and>
     cpu_period (scpu s') = cpu_period (scpu s) \<and> evs (evq s') (VdevInt i) = v \<and>
     (\<forall>j. j \<noteq> i \<longrightarrow> evs (evq s') (VdevInt j) = evs (evq s) (VdevInt j)) \<and> ewhen (evs (evq s) CpuTick) \<le> ewhen (evs (evq s') CpuTick)"
proof -
  let ?d = "vdevs s ! i" and ?c = "scpu s"
  note I = inv [unfolded sys_inv_def]
  have D: "dev_inv ready (evq s) ?c i ?d" using I i by blast
  have e: "escheduled (evs q CpuTick)" "evs q CpuTick = evs (evq s) CpuTick" using popped(3) tick by simp_all
  have p0: "cpu_period ?c \<noteq> 0" and pm: "unat (cpu_period ?c) \<le> max_delay" using I by blast+
  have dm: "unat (delay_cpu_interrupt ?d) \<le> max_delay" using D by (simp add: dev_inv_def)
  let ?r = "round_tick (cpu_period ?c) (delay_cpu_interrupt ?d)"
  have "unat (delay_cpu_interrupt ?d) + unat (cpu_period ?c) < 2 ^ 64" using pm dm by (simp add: max_delay_def)
  then have r: "unat ?r < unat (delay_cpu_interrupt ?d) + unat (cpu_period ?c)" using round_tick_le [OF p0] by blast
  let ?w = "ewhen (evs q CpuTick) + ?r"
  have wb: "unat (ewhen (evs q CpuTick)) \<le> B" using t tick e(2) by (simp add: within_time_def)
  have w: "unat ?w = unat (ewhen (evs q CpuTick)) + unat ?r"
    by (rule unat_add_lem [THEN iffD1]) (use wb r dm pm B in simp)
  have "CpuTick \<in> set (agenda q)" using popped(1) e(1) unfolding q_ok_alt by blast
  then have "curTick q \<le> ewhen (evs q CpuTick)" using popped(1) unfolding q_ok_alt by blast
  then have le: "curTick q \<le> ?w" using w by (simp add: word_le_nat_alt)
  obtain q' where q': "reschedule CpuTick ?w False q = Inr q'" "q_ok q'" "curTick q' = curTick q"
     "evs q' = (evs q)(CpuTick := (scheduled_at ?w (evs q CpuTick))\<lparr>esquashed := False\<rparr>)"
    using reschedule_ok [OF popped(1) e(1) le] by blast
  define p1 where "p1 = (pmem ?d OR VDEV_READY) AND NOT VDEV_WORK"
  define p2 where "p2 = (if acc_finished A (aichip_of ?d) then p1 OR VDEV_FINISH else p1)"
  have pb: "\<not> bit p2 1" "bit p2 2" by (simp_all add: p2_def p1_def interrupt_bits del: One_nat_def)
  define d' where "d' = ?d\<lparr>execution_state := STATE_IDLE, pmem := p2\<rparr>"
  define c' where "c' = ?c\<lparr>in_interrupt := True, status_vdev := (status_vdev ?c)[i := False]\<rparr>"
  define s' where "s' = put_dev i d' (s\<lparr>scpu := c', evq := q'\<rparr>)"
  have len: "length (status_vdev ?c) = length (vdevs s)" using I by blast
  have vid: "vid ?d = i" using D by (simp add: dev_inv_def)
  have "triggerInterrupt A i s1 = Inr s'"
    using work q'(1) len i vid p0
    by (simp add: triggerInterrupt_def Let_def flag_bits s' virtualDeviceInterrupt_def virtualDeviceDelay_def
        virtualDeviceEnd_def set_status_def put_dev_def s'_def d'_def c'_def p2_def p1_def del: One_nat_def)
  moreover have "dev_inv ready q' c' j (vdevs s' ! j)" if j: "j < length (vdevs s)" for j
  proof (cases "j = i")
    case True
    then show ?thesis using D i len pb q'(4) popped(2)
      by (simp add: dev_inv_def s'_def put_dev_def d'_def c'_def)
  next
    case False
    have "dev_inv ready (evq s) ?c j (vdevs s ! j)" using I j by blast
    then show ?thesis using False q'(4) popped(3) by (simp add: dev_inv_def s'_def put_dev_def c'_def)
  qed
  then have "sys_inv ready s'"
    using I q' i popped(2,3,4) by (simp add: sys_inv_def s'_def put_dev_def c'_def)
  moreover have "within_time (B + 2 * max_delay) s'"
    using t q' w wb r dm pm popped(2,3,5)
    by (auto simp: within_time_def s'_def put_dev_def c'_def scheduled_at_def split: if_splits)
  moreover have "map conf (vdevs s') = map conf (vdevs s)"
    using i by (simp add: s'_def put_dev_def d'_def map_update list_update_same_conv conf_def)
  moreover have "ewhen (evs (evq s) CpuTick) \<le> ewhen (evs (evq s') CpuTick)"
    using q'(4) w e(2) by (simp add: s'_def put_dev_def scheduled_at_def word_le_nat_alt)
  ultimately show ?thesis using q' pb i popped(3) by (simp add: s'_def put_dev_def d'_def c'_def scheduled_at_def)
qed

lemma tick_loop_ok:
  assumes "sys_inv ready s" "within_time B s" "unat (curTick (evq s)) + 2 * max_delay \<le> B" "B < 2 ^ 63"
    and "\<forall>it\<in>set its. iter_ok msize (vdevs s) it"
    and "unat latency + 4 * max_delay * length its < 2 ^ 63"
  shows "\<exists>s' lat. tick_loop A its latency s = Inr (s', lat, False) \<and> sys_inv ready s' \<and> within_time B s' \<and>
     same_frame s s' \<and> unat lat \<le> unat latency + 4 * max_delay * length its"
  using assms
proof (induction its arbitrary: latency s)
  case Nil
  then show ?case by simp
next
  case (Cons it its)
  have idle: "\<not> it_idle it" "\<not> it_suspends it" "\<not> cpu_idle (scpu s)" and it: "iter_ok msize (vdevs s) it"
    using Cons.prems(1,5) by (auto simp: iter_ok_def sys_inv_def)
  have room: "unat latency + 4 * max_delay < 2 ^ 63" using Cons.prems(6) by simp
  have "\<exists>s2 lat. (if it_fetch_ok it
          then bindR (send_packets A (it_pkts it) s) (\<lambda>s1. bindR (tick_stall it latency (scpu s1)) (\<lambda>(c, lat).
                 Inr (s1\<lparr>scpu := c\<lparr>cpu_idle := cpu_idle c \<or> it_suspends it\<rparr>\<rparr>, lat)))
          else Inr (s, latency)) = Inr (s2, lat) \<and> sys_inv ready s2 \<and> within_time B s2 \<and> same_frame s s2 \<and>
        unat lat \<le> unat latency + 4 * max_delay"
  proof (cases "it_fetch_ok it")
    case True
    obtain s1 where s1: "send_packets A (it_pkts it) s = Inr s1" "sys_inv ready s1" "within_time B s1" "same_frame s s1"
      using send_packets_ok [OF Cons.prems(1-4)] it by (auto simp: iter_ok_def)
    obtain lat where lat: "tick_stall it latency (scpu s1) = Inr ((scpu s1)\<lparr>vdev_set := False\<rparr>, lat)"
        "unat lat \<le> unat latency + 4 * max_delay"
      using tick_stall_ok [of "scpu s1" it latency] s1(2,3) it room by (auto simp: sys_inv_def within_time_def iter_ok_def)
    have ni: "\<not> cpu_idle (scpu s1)" using s1(2) by (simp add: sys_inv_def)
    let ?s2 = "s1\<lparr>scpu := (scpu s1)\<lparr>vdev_set := False\<rparr>\<rparr>"
    have "sys_inv ready ?s2" "within_time B ?s2" "same_frame s1 ?s2"
      using s1(2,3) by (simp_all add: sys_inv_def within_time_def same_frame_def dev_inv_def)
    then show ?thesis using True s1(1,4) lat idle(2) ni same_frame_trans [OF s1(4)] by auto
  next
    case False
    then show ?thesis using Cons.prems(1,2) by auto
  qed
  then obtain s2 lat where s2: "(if it_fetch_ok it
          then bindR (send_packets A (it_pkts it) s) (\<lambda>s1. bindR (tick_stall it latency (scpu s1)) (\<lambda>(c, lat).
                 Inr (s1\<lparr>scpu := c\<lparr>cpu_idle := cpu_idle c \<or> it_suspends it\<rparr>\<rparr>, lat)))
          else Inr (s, latency)) = Inr (s2, lat)" "sys_inv ready s2" "within_time B s2" "same_frame s s2"
        "unat lat \<le> unat latency + 4 * max_delay" by blast
  have "\<forall>it\<in>set its. iter_ok msize (vdevs s2) it"
    using Cons.prems(5) s2(4) iter_ok_conf [of "vdevs s2" "vdevs s" msize] by (simp add: same_frame_def)
  moreover have "unat (curTick (evq s2)) + 2 * max_delay \<le> B" using s2(4) Cons.prems(3) by (simp add: same_frame_def)
  moreover have "unat lat + 4 * max_delay * length its < 2 ^ 63" using s2(5) Cons.prems(6) by simp
  ultimately obtain s' lat' where "tick_loop A its lat s2 = Inr (s', lat', False)" "sys_inv ready s'" "within_time B s'"
      "same_frame s2 s'" "unat lat' \<le> unat lat + 4 * max_delay * length its"
    using Cons.IH [OF s2(2,3)] Cons.prems(4) by blast
  then show ?case using s2 idle(1,3) same_frame_trans [OF s2(4)] by (intro exI [of _ s'] exI [of _ lat']) simp
qed

lemma cpu_tick_ok:
  assumes inv: "sys_inv ready s" and t: "within_time B s" and B: "B + step_room W < 2 ^ 63"
    and w: "work_ok msize W (vdevs s) w" and ns: "\<not> escheduled (evs (evq s) CpuTick)"
  shows "\<exists>s'. cpu_tick A (fst w) (snd w) s = Inr s' \<and> sys_inv ready s' \<and> within_time (B + step_room W) s' \<and>
     map conf (vdevs s') = map conf (vdevs s) \<and> escheduled (evs (evq s') CpuTick) \<and> curTick (evq s') = curTick (evq s) \<and>
     cpu_period (scpu s') = cpu_period (scpu s) \<and>
     (\<forall>j. escheduled (evs (evq s) (VdevInt j)) \<longrightarrow> evs (evq s') (VdevInt j) = evs (evq s) (VdevInt j)) \<and>
     unat (curTick (evq s)) + unat (cpu_period (scpu s)) \<le> unat (ewhen (evs (evq s') CpuTick))"
proof -
  let ?s0 = "s\<lparr>scpu := (scpu s)\<lparr>in_interrupt := False\<rparr>\<rparr>" and ?B = "B + 2 * max_delay"
  have i0: "sys_inv ready ?s0" using inv by (simp add: sys_inv_def dev_inv_def)
  have t0: "within_time ?B ?s0" using t by (auto simp: within_time_def intro: trans_le_add1)
  have c0: "unat (curTick (evq ?s0)) + 2 * max_delay \<le> ?B" using t by (simp add: within_time_def)
  have len: "length (fst w) \<le> W" and its: "\<forall>it\<in>set (fst w). iter_ok msize (vdevs ?s0) it" and nd: "\<not> snd w"
    using w by (simp_all add: work_ok_def)
  have mono: "4 * max_delay * length (fst w) \<le> 4 * max_delay * W" using len by simp
  have exp: "step_room W = 4 * max_delay * W + 8 * max_delay" by (simp add: step_room_def)
  have b1: "?B < 2 ^ 63" using B exp by linarith
  have b2: "unat (0 :: tick) + 4 * max_delay * length (fst w) < 2 ^ 63"
    using B mono exp unat_0 [where 'a=64] by linarith
  obtain s1 lat where s1: "tick_loop A (fst w) 0 ?s0 = Inr (s1, lat, False)" "sys_inv ready s1" "within_time ?B s1"
      "same_frame ?s0 s1" "unat lat \<le> 4 * max_delay * length (fst w)"
    using tick_loop_ok [OF i0 t0 c0 b1 its b2] by auto
  let ?p = "cpu_period (scpu s)"
  define lat' where "lat' = (if lat < ?p then ?p else lat)"
  have fr: "curTick (evq s1) = curTick (evq s)" "evs (evq s1) CpuTick = evs (evq s) CpuTick" "cpu_period (scpu s1) = ?p"
      "map conf (vdevs s1) = map conf (vdevs s)"
      "\<forall>j. escheduled (evs (evq s) (VdevInt j)) \<longrightarrow> evs (evq s1) (VdevInt j) = evs (evq s) (VdevInt j)"
    using s1(4) by (simp_all add: same_frame_def)
  have pm: "unat ?p \<le> max_delay" using inv by (simp add: sys_inv_def)
  have l1: "unat lat' \<le> 4 * max_delay * W + max_delay" "unat ?p \<le> unat lat'"
    using le_trans [OF s1(5) mono] pm by (auto simp: lat'_def word_less_nat_alt)
  have cB: "unat (curTick (evq s)) \<le> B" using t by (simp add: within_time_def)
  have "unat (curTick (evq s)) + unat lat' < 2 ^ 64"
    using l1(1) cB B exp by simp
  then have u: "unat (curTick (evq s) + lat') = unat (curTick (evq s)) + unat lat'"
    using unat_add_lem [of "curTick (evq s)" lat'] by simp
  then have le: "curTick (evq s1) \<le> curTick (evq s1) + lat'" using fr(1) by (simp add: word_le_nat_alt)
  have ns1: "\<not> escheduled (evs (evq s1) CpuTick)" using ns fr(2) by simp
  have q1: "q_ok (evq s1)" using s1(2) by (simp add: sys_inv_def)
  obtain q where q: "schedule CpuTick (curTick (evq s1) + lat') (evq s1) = Inr q" "q_ok q" "curTick q = curTick (evq s1)"
     "evs q = (evs (evq s1))(CpuTick := scheduled_at (curTick (evq s1) + lat') (evs (evq s1) CpuTick))"
    using schedule_ok [OF q1 ns1 le] by blast
  have ni: "\<not> cpu_idle (scpu s1)" using s1(2) by (simp add: sys_inv_def)
  let ?s' = "s1\<lparr>evq := q\<rparr>"
  have "cpu_tick A (fst w) (snd w) s = Inr ?s'"
    unfolding cpu_tick_def s1(1) bindR_Inr prod.case Let_def fr(3) lat'_def [symmetric] using nd ni q(1) by simp
  moreover have "sys_inv ready ?s'" using s1(2) q by (auto simp: sys_inv_def dev_inv_def scheduled_at_def)
  moreover have "within_time (B + step_room W) ?s'"
  proof -
    have "unat (curTick (evq s1) + lat') \<le> B + step_room W" using u fr(1) cB l1(1) exp by simp
    moreover have "?B \<le> B + step_room W" using exp by simp
    ultimately show ?thesis using s1(3) q fr(1) cB by (auto simp: within_time_def scheduled_at_def)
  qed
  ultimately show ?thesis using fr q u l1(2) by (simp add: scheduled_at_def)
qed

text \<open>One turn of the simulation loop: it processes the earliest event.\<close>

lemma sys_step_head:
  assumes inv: "sys_inv ready s" and t: "within_time B s" and B: "B + step_room W < 2 ^ 63"
    and w: "work_ok msize W (vdevs s) w" and sc: "escheduled (evs (evq s) CpuTick)"
  shows "\<exists>s'. sys_step A w s = Inr s' \<and> sys_inv ready s' \<and> within_time (B + step_room W) s' \<and>
     map conf (vdevs s') = map conf (vdevs s) \<and> escheduled (evs (evq s') CpuTick) \<and> curTick (evq s) \<le> curTick (evq s') \<and>
     cpu_period (scpu s') = cpu_period (scpu s) \<and>
     (\<exists>e q. serviceOne (evq s) = Inr (e, True, q) \<and> curTick q = ewhen (evs (evq s) e) \<and> escheduled (evs (evq s) e) \<and>
        evs q = (evs (evq s))(e := (evs (evq s) e)\<lparr>escheduled := False, esquashed := False\<rparr>) \<and> q_ok q \<and>
        (case e of CpuTick \<Rightarrow> tick_step s s' | VdevInt i \<Rightarrow> int_step i s s'))"
proof -
  let ?q = "evq s"
  note I = inv [unfolded sys_inv_def]
  have q0: "q_ok ?q" using I by blast
  have sched: "e \<in> set (agenda ?q) \<longleftrightarrow> escheduled (evs ?q e)" for e using q0 unfolding q_ok_alt by blast
  then have "agenda ?q \<noteq> []" using sc by (metis empty_iff list.set(1))
  then obtain e rest where ag: "agenda ?q = e # rest" by (cases "agenda ?q") auto
  then have es: "escheduled (evs ?q e)" using sched [of e] by simp
  have nsq: "\<not> esquashed (evs ?q e)" using I by blast
  obtain q where q: "serviceOne ?q = Inr (e, True, q)" "q_ok q" "curTick q = ewhen (evs ?q e)"
      "evs q = (evs ?q)(e := (evs ?q e)\<lparr>escheduled := False, esquashed := False\<rparr>)"
    using serviceOne_ok [OF q0 ag] nsq by auto
  have eB: "unat (ewhen (evs ?q e)) \<le> B" using t es by (simp add: within_time_def)
  have "\<forall>e\<in>set (agenda ?q). curTick ?q \<le> ewhen (evs ?q e)" using q0 unfolding q_ok_alt by blast
  then have now: "curTick ?q \<le> curTick q" using ag q(3) by simp
  have later: "unat (curTick q) \<le> unat (ewhen (evs ?q x))" if "escheduled (evs ?q x)" "x \<noteq> e" for x
  proof -
    have "escheduled (evs q x)" "ewhen (evs q x) = ewhen (evs ?q x)" using that q(4) by simp_all
    then show ?thesis using q(2) unfolding q_ok_alt by (metis word_le_nat_alt)
  qed
  let ?s = "s\<lparr>evq := q\<rparr>"
  show ?thesis
  proof (cases e)
    case CpuTick
    have i1: "sys_inv ready ?s" using I q(2,4) CpuTick by (auto simp: sys_inv_def dev_inv_def)
    have t1: "within_time B ?s" using t q(3,4) eB by (auto simp: within_time_def)
    have w1: "work_ok msize W (vdevs ?s) w" using w by simp
    have n1: "\<not> escheduled (evs (evq ?s) CpuTick)" using q(4) CpuTick by simp
    obtain s' where "cpu_tick A (fst w) (snd w) ?s = Inr s'" "sys_inv ready s'" "within_time (B + step_room W) s'"
        "map conf (vdevs s') = map conf (vdevs ?s)" "escheduled (evs (evq s') CpuTick)" "curTick (evq s') = curTick q"
        "cpu_period (scpu s') = cpu_period (scpu s)"
        "\<forall>j. escheduled (evs q (VdevInt j)) \<longrightarrow> evs (evq s') (VdevInt j) = evs q (VdevInt j)"
        "unat (curTick q) + unat (cpu_period (scpu s)) \<le> unat (ewhen (evs (evq s') CpuTick))"
      using cpu_tick_ok [OF i1 t1 B w1 n1] by auto
    moreover from this have "tick_step s s'" using q(3,4) CpuTick later by (simp add: tick_step_def)
    ultimately show ?thesis using q es CpuTick now by (auto simp: sys_step_def)
  next
    case (VdevInt i)
    have i: "i < length (vdevs s)" using I es VdevInt by (metis not_le)
    then have "dev_inv ready ?q (scpu s) i (vdevs s ! i)" using I by blast
    then have work: "bit (pmem (vdevs s ! i)) 1" using es VdevInt by (simp add: dev_inv_def)
    have B2: "B + 2 * max_delay < 2 ^ 63" and mono: "B + 2 * max_delay \<le> B + step_room W"
      using B by (simp_all add: step_room_def)
    have pn: "\<not> escheduled (evs q (VdevInt i))" using q(4) VdevInt by simp
    obtain s' where s': "triggerInterrupt A i ?s = Inr s'" "sys_inv ready s'" "within_time (B + 2 * max_delay) s'"
        "map conf (vdevs s') = map conf (vdevs s)" "escheduled (evs (evq s') CpuTick)" "curTick (evq s') = curTick q"
        "cpu_period (scpu s') = cpu_period (scpu s)" "int_step i s s'"
      using trigger_ok [OF inv t B2 i work sc q(2) pn q(4) [unfolded VdevInt] _ _ refl] eB q(3) es VdevInt i
      by (auto simp: int_step_def word_le_nat_alt)
    have "within_time (B + step_room W) s'" using s'(3) mono by (auto simp: within_time_def)
    then show ?thesis using q es VdevInt now s' by (auto simp: sys_step_def)
  qed
qed

lemma sys_step_ok:
  assumes "sys_inv ready s" and "within_time B s" and "B + step_room W < 2 ^ 63"
    and "work_ok msize W (vdevs s) w" and "escheduled (evs (evq s) CpuTick)"
  shows "\<exists>s'. sys_step A w s = Inr s' \<and> sys_inv ready s' \<and> within_time (B + step_room W) s' \<and>
     map conf (vdevs s') = map conf (vdevs s) \<and> escheduled (evs (evq s') CpuTick) \<and> curTick (evq s) \<le> curTick (evq s') \<and>
     cpu_period (scpu s') = cpu_period (scpu s) \<and> (tick_step s s' \<or> (\<exists>i. int_step i s s'))"
  using sys_step_head [OF assms] by (fastforce split: sysev.splits)

end

end
