(* ===== verification/Vdev_Live.thy ===== *)
theory Vdev_Live imports Vdev_Inv begin

text \<open>
  Runs of the system of CPU and virtual devices: every run keeps the invariant, and a device
  that works is interrupted after a bounded number of steps.
\<close>

lemma card_pending: "card (pending s) \<le> length (vdevs s)"
proof -
  have "card (pending s) \<le> card {..<length (vdevs s)}" by (rule card_mono) (auto simp: pending_def)
  then show ?thesis by simp
qed

lemma tick_step_left:
  assumes st: "tick_step s s'" and p: "cpu_period (scpu s') = cpu_period (scpu s)" "cpu_period (scpu s) \<noteq> 0"
    and len: "length (vdevs s') = length (vdevs s)" and i: "escheduled (evs (evq s) (VdevInt i))"
  shows "steps_left i s' < steps_left i s"
proof -
  let ?w = "unat (ewhen (evs (evq s) (VdevInt i)))" and ?t = "unat (ewhen (evs (evq s) CpuTick))"
    and ?t' = "unat (ewhen (evs (evq s') CpuTick))" and ?p = "unat (cpu_period (scpu s))" and ?D = "Suc (length (vdevs s))"
  have p0: "0 < ?p" using p(2) by (simp add: unat_gt_0)
  have t: "?t \<le> ?w" "?t + ?p \<le> ?t'" "evs (evq s') (VdevInt i) = evs (evq s) (VdevInt i)"
    using st i by (simp_all add: tick_step_def)
  have "(?w + ?p - ?t') div ?p \<le> (?w - ?t) div ?p" using t by (intro div_le_mono) linarith
  moreover have "(?w + ?p - ?t) div ?p = Suc ((?w - ?t) div ?p)"
    using t(1) p0 div_add_self2 [of ?p "?w - ?t"] by (simp only: Nat.add_diff_assoc2 [OF t(1), symmetric])
  ultimately have "Suc ((?w + ?p - ?t') div ?p) \<le> (?w + ?p - ?t) div ?p" by simp
  then have "Suc ((?w + ?p - ?t') div ?p) * ?D \<le> (?w + ?p - ?t) div ?p * ?D" by (rule mult_le_mono1)
  then show ?thesis using card_pending [of s'] t(3) p(1) len unfolding steps_left_def by simp
qed

lemma int_step_left:
  assumes st: "int_step j s s'" and p: "cpu_period (scpu s') = cpu_period (scpu s)"
    and len: "length (vdevs s') = length (vdevs s)" and i: "j \<noteq> i"
  shows "steps_left i s' < steps_left i s"
proof -
  let ?w = "unat (ewhen (evs (evq s) (VdevInt i)))" and ?t = "unat (ewhen (evs (evq s) CpuTick))"
    and ?t' = "unat (ewhen (evs (evq s') CpuTick))" and ?p = "unat (cpu_period (scpu s))"
  have t: "?t \<le> ?t'" "evs (evq s') (VdevInt i) = evs (evq s) (VdevInt i)"
    using st i by (simp_all add: int_step_def)
  have "pending s' \<subset> pending s" using st len by (force simp: pending_def int_step_def)
  then have "card (pending s') < card (pending s)" by (rule psubset_card_mono [rotated]) (simp add: pending_def)
  moreover have "(?w + ?p - ?t') div ?p \<le> (?w + ?p - ?t) div ?p" using t(1) by (intro div_le_mono) linarith
  then have "(?w + ?p - ?t') div ?p * Suc (length (vdevs s)) \<le> (?w + ?p - ?t) div ?p * Suc (length (vdevs s))"
    by (rule mult_le_mono1)
  ultimately show ?thesis using t(2) p len unfolding steps_left_def by simp
qed

lemma read_bytes_eq:
  "\<forall>j < length bs. acc_load A a m (k + int j) = Inr (bs ! j) \<Longrightarrow> read_bytes A a m k (length bs) = Inr bs"
proof (induction bs arbitrary: k)
  case (Cons b bs)
  have "acc_load A a m k = Inr b" using Cons.prems by force
  moreover have "\<forall>j < length bs. acc_load A a m (k + 1 + int j) = Inr (bs ! j)"
    using Cons.prems by (auto simp: add.assoc dest: spec [of _ "Suc _"])
  ultimately show ?case using Cons.IH [of "k + 1"] by simp
qed simp

context accelerator
begin

lemma write_read:
  assumes i: "i < length (vdevs s)" and r: "ready (aichip_of (vdevs s ! i))"
    and off: "addr - range_start (vdevs s ! i) \<notin> {0, 1}"
    and pk: "packet_ok msize (vdevs s ! i) (WritePkt addr buf)" and len: "length old = length buf"
  shows "\<exists>s1 s2. vdev_access A i (WritePkt addr buf) s = Inr (s1, WritePkt addr buf) \<and>
     vdev_access A i (ReadPkt addr old) s1 = Inr (s2, ReadPkt addr buf) \<and> vdevs s2 = vdevs s1"
proof -
  let ?d = "vdevs s ! i"
  let ?o = "addr - range_start ?d"
  obtain m k where w: "window ?o = (m, k)" by (cases "window ?o")
  have mk: "m \<in> {1, 2, 3}" "0 \<le> k" using window_ok [of ?o] off w by auto
  have fit: "k + int (length buf) \<le> msize m" using pk off w by (auto simp: packet_ok_def)
  obtain t where t: "transfer_delay ?d (length buf) = Inr t" using pk by (auto simp: packet_ok_def)
  obtain a where a: "write_bytes A m k buf (aichip_of ?d) = Inr a"
     "\<forall>m'\<in>{1, 2, 3}. \<forall>j. 0 \<le> j \<longrightarrow> j < msize m' \<longrightarrow>
        acc_load A a m' j = (if m' = m \<and> k \<le> j \<and> j < k + int (length buf) then Inr (buf ! nat (j - k)) else acc_load A (aichip_of ?d) m' j)"
    using write_bytes_ok [OF r mk fit] by blast
  have "read_bytes A a m k (length buf) = Inr buf"
    using a(2) mk fit by (intro read_bytes_eq) auto
  then show ?thesis
    using i off w t a(1) len by (simp add: vdev_access_def Let_def put_dev_def transfer_delay_def)
qed


lemma sys_run_ok:
  assumes "run_good ready B s" and "B + length ws * step_room W < 2 ^ 63" and "\<forall>w\<in>set ws. work_ok msize W (vdevs s) w"
  shows "\<exists>s'. sys_run A ws s = Inr s' \<and> run_good ready (B + length ws * step_room W) s' \<and>
     map conf (vdevs s') = map conf (vdevs s) \<and> curTick (evq s) \<le> curTick (evq s')"
  using assms
proof (induction ws arbitrary: s B)
  case Nil
  then show ?case by simp
next
  case (Cons w ws)
  note g = Cons.prems(1) [unfolded run_good_def]
  have B: "B + step_room W < 2 ^ 63" using Cons.prems(2) by simp
  obtain s1 where s1: "sys_step A w s = Inr s1" "sys_inv ready s1" "within_time (B + step_room W) s1"
      "map conf (vdevs s1) = map conf (vdevs s)" "escheduled (evs (evq s1) CpuTick)" "curTick (evq s) \<le> curTick (evq s1)"
    using sys_step_ok [OF _ _ B, of s w] g Cons.prems(3) by auto
  have "\<forall>w\<in>set ws. work_ok msize W (vdevs s1) w"
    using Cons.prems(3) work_ok_conf [OF s1(4)] by simp
  then obtain s' where "sys_run A ws s1 = Inr s'" "run_good ready (B + step_room W + length ws * step_room W) s'"
      "map conf (vdevs s') = map conf (vdevs s1)" "curTick (evq s1) \<le> curTick (evq s')"
    using Cons.IH [of "B + step_room W" s1] s1 Cons.prems(2) by (auto simp: run_good_def add.assoc)
  then show ?case using s1 by (auto simp: add.assoc intro: order_trans)
qed

lemma interrupt_served:
  assumes "run_good ready B s" and "B + length ws * step_room W < 2 ^ 63" and "\<forall>w\<in>set ws. work_ok msize W (vdevs s) w"
    and "i < length (vdevs s)" and "bit (pmem (vdevs s ! i)) 1" and "steps_left i s \<le> length ws"
  shows "\<exists>k \<le> length ws. \<exists>s'. sys_run A (take k ws) s = Inr s' \<and>
     bit (pmem (vdevs s' ! i)) 2 \<and> \<not> bit (pmem (vdevs s' ! i)) 1"
  using assms
proof (induction ws arbitrary: s B)
  case Nil
  have "escheduled (evs (evq s) (VdevInt i))"
    using Nil.prems(1,4,5) by (simp add: run_good_def sys_inv_def dev_inv_def)
  then have "card (pending s) \<noteq> 0" using Nil.prems(4) by (auto simp: pending_def card_eq_0_iff)
  then show ?case using Nil.prems(6) by (simp add: steps_left_def)
next
  case (Cons w ws)
  note g = Cons.prems(1) [unfolded run_good_def]
  have B: "B + step_room W < 2 ^ 63" using Cons.prems(2) by simp
  obtain s1 where s1: "sys_step A w s = Inr s1" "sys_inv ready s1" "within_time (B + step_room W) s1"
      "map conf (vdevs s1) = map conf (vdevs s)" "escheduled (evs (evq s1) CpuTick)"
      "cpu_period (scpu s1) = cpu_period (scpu s)" "tick_step s s1 \<or> (\<exists>j. int_step j s s1)"
    using sys_step_ok [OF _ _ B, of s w] g Cons.prems(3) by auto
  have len: "length (vdevs s1) = length (vdevs s)" using s1(4) by (metis length_map)
  have i: "escheduled (evs (evq s) (VdevInt i))" and p0: "cpu_period (scpu s) \<noteq> 0"
    using g Cons.prems(4,5) by (simp_all add: sys_inv_def dev_inv_def)
  show ?case
  proof (cases "int_step i s s1")
    case True
    then show ?thesis using s1(1) by (intro exI [of _ 1]) (auto simp: int_step_def)
  next
    case False
    then have less: "steps_left i s1 < steps_left i s"
      using s1(7) tick_step_left [OF _ s1(6) p0 len i] int_step_left [OF _ s1(6) len] by metis
    have "evs (evq s1) (VdevInt i) = evs (evq s) (VdevInt i)"
      using False s1(7) i by (metis int_step_def tick_step_def)
    then have wk: "bit (pmem (vdevs s1 ! i)) 1"
      using s1(2) Cons.prems(4) len i by (simp add: sys_inv_def dev_inv_def)
    have "\<forall>w\<in>set ws. work_ok msize W (vdevs s1) w"
      using Cons.prems(3) work_ok_conf [OF s1(4)] by simp
    then obtain k s' where "k \<le> length ws" "sys_run A (take k ws) s1 = Inr s'"
        "bit (pmem (vdevs s' ! i)) 2" "\<not> bit (pmem (vdevs s' ! i)) 1"
      using Cons.IH [of "B + step_room W" s1] s1 Cons.prems(2,4,6) len wk less by (auto simp: run_good_def add.assoc)
    then show ?thesis using s1(1) by (intro exI [of _ "Suc k"]) auto
  qed
qed

end

end
