(* ===== verification/Periph.thy ===== *)
theory Periph imports Vdev_Live begin

text \<open>
  The host program's driver (binnet/peripheral.c): polling the status register, requests,
  and copies to and from the device's memories.  The driver is generic in the
  peripheral, a record of the two accesses; \<open>Host_Sys\<close> has the one that goes
  through the simulated CPU, event queue and device.  The locale \<open>peripheral\<close> is what
  the driver relies on.
\<close>

unbundle bit_operations_syntax

section \<open>The driver\<close>

text \<open>Accesses at an offset from \<open>cmd_reg\<close>.\<close>

record 's periph =
  p_write :: "nat \<Rightarrow> byte \<Rightarrow> 's \<Rightarrow> 's res"
  p_read :: "nat \<Rightarrow> 's \<Rightarrow> ('s \<times> byte) res"

definition VDEV_INIT :: byte where "VDEV_INIT = 0x01"

text \<open>\<open>while (!(*cmd_reg & VDEV_READY));\<close> for at most \<open>n\<close> polls.\<close>

fun periWait :: "'s periph \<Rightarrow> nat \<Rightarrow> 's \<Rightarrow> 's res" where
  "periWait P 0 s = Inl OutOfFuel"
| "periWait P (Suc n) s =
     bindR (p_read P 0 s) (\<lambda>(s', v). if v AND VDEV_READY \<noteq> 0 then Inr s' else periWait P n s')"

definition periInit :: "'s periph \<Rightarrow> nat \<Rightarrow> byte \<Rightarrow> 's \<Rightarrow> 's res" where
  "periInit P n c s =
     bindR (p_write P 1 c s) (\<lambda>s1. bindR (p_write P 0 VDEV_INIT s1) (periWait P n))"

text \<open>\<open>memcpy\<close> to and from the device, byte by byte.\<close>

fun store_bytes :: "'s periph \<Rightarrow> nat \<Rightarrow> byte list \<Rightarrow> 's \<Rightarrow> 's res" where
  "store_bytes P off [] s = Inr s"
| "store_bytes P off (b # bs) s = bindR (p_write P off b s) (store_bytes P (off + 1) bs)"

fun load_bytes :: "'s periph \<Rightarrow> nat \<Rightarrow> nat \<Rightarrow> 's \<Rightarrow> ('s \<times> byte list) res" where
  "load_bytes P off 0 s = Inr (s, [])"
| "load_bytes P off (Suc n) s =
     bindR (p_read P off s) (\<lambda>(s1, b). bindR (load_bytes P (off + 1) n s1) (\<lambda>(s2, bs). Inr (s2, b # bs)))"

definition periWrite :: "'s periph \<Rightarrow> nat \<Rightarrow> nat \<Rightarrow> byte list \<Rightarrow> 's \<Rightarrow> 's res" where
  "periWrite P n off src s = bindR (periWait P n s) (store_bytes P off src)"

definition periRead :: "'s periph \<Rightarrow> nat \<Rightarrow> nat \<Rightarrow> nat \<Rightarrow> 's \<Rightarrow> ('s \<times> byte list) res" where
  "periRead P n off len s = bindR (periWait P n s) (load_bytes P off len)"

definition periIsFinished :: "'s periph \<Rightarrow> 's \<Rightarrow> ('s \<times> bool) res" where
  "periIsFinished P s = bindR (p_read P 0 s) (\<lambda>(s', v). Inr (s', v AND VDEV_FINISH \<noteq> 0))"

section \<open>What the driver relies on\<close>

text \<open>The offset of byte \<open>k\<close> of memory \<open>m\<close>.\<close>

definition mem_off :: "nat \<Rightarrow> nat \<Rightarrow> nat" where
  "mem_off m k = 2 + (m - 1) * 1048576 + k"

definition mem_room :: "(nat \<Rightarrow> int) \<Rightarrow> nat \<Rightarrow> nat \<Rightarrow> bool" where
  "mem_room msize m k \<longleftrightarrow> m \<in> {1, 2, 3} \<and> int k \<le> msize m \<and> (m = 3 \<or> k \<le> 1048576) \<and> k \<le> 2 ^ 32"

text \<open>The requests with the given counters, one after the other.\<close>

fun acc_seq :: "'a accel \<Rightarrow> byte list \<Rightarrow> 'a \<Rightarrow> 'a res" where
  "acc_seq A [] a = Inr a"
| "acc_seq A (n # ns) a = bindR (acc_run A (acc_set_counter A n a)) (\<lambda>(a', t). acc_seq A ns a')"

text \<open>
  \<open>good n s\<close>: the state is consistent and has time for \<open>n\<close> more rounds; \<open>idle s\<close>: the device
  has no request to work on; \<open>polls s\<close> bounds the polls of a working device, and \<open>limit\<close>
  bounds them in every state.
\<close>

locale peripheral =
  fixes P :: "'s periph"
    and A :: "'a accel"
    and msize :: "nat \<Rightarrow> int"
    and good :: "nat \<Rightarrow> 's \<Rightarrow> bool"
    and idle :: "'s \<Rightarrow> bool"
    and chip :: "'s \<Rightarrow> 'a"
    and fin :: "'s \<Rightarrow> bool"
    and polls :: "'s \<Rightarrow> nat"
    and limit :: nat
  assumes counter_write: "good (Suc n) s \<Longrightarrow> idle s \<Longrightarrow>
      \<exists>s'. p_write P 1 c s = Inr s' \<and> good n s' \<and> idle s' \<and> chip s' = acc_set_counter A c (chip s)"
    and request: "good (n + 2) s \<Longrightarrow> idle s \<Longrightarrow>
      \<exists>s' t. p_write P 0 VDEV_INIT s = Inr s' \<and> good n s' \<and> \<not> idle s' \<and> acc_run A (chip s) = Inr (chip s', t)"
    and poll_idle: "good (Suc n) s \<Longrightarrow> idle s \<Longrightarrow>
      \<exists>s' v. p_read P 0 s = Inr (s', v) \<and> v AND VDEV_READY \<noteq> 0 \<and> (v AND VDEV_FINISH \<noteq> 0 \<longleftrightarrow> fin s) \<and>
        good n s' \<and> idle s' \<and> chip s' = chip s \<and> fin s' = fin s"
    and poll_busy: "good (n + 2) s \<Longrightarrow> \<not> idle s \<Longrightarrow>
      \<exists>s' v. p_read P 0 s = Inr (s', v) \<and> chip s' = chip s \<and>
        (if v AND VDEV_READY \<noteq> 0 then good n s' \<and> idle s' \<and> fin s' = acc_finished A (chip s)
         else good (n + 2) s' \<and> \<not> idle s' \<and> polls s' < polls s)"
    and polls_limit: "good n s \<Longrightarrow> \<not> idle s \<Longrightarrow> polls s \<le> limit"
    and store: "good (Suc n) s \<Longrightarrow> idle s \<Longrightarrow> mem_room msize m (Suc k) \<Longrightarrow>
      \<exists>s'. p_write P (mem_off m k) b s = Inr s' \<and> good n s' \<and> idle s' \<and> acc_store A (chip s) m (int k) b = Inr (chip s')"
    and load: "good (Suc n) s \<Longrightarrow> idle s \<Longrightarrow> mem_room msize m (Suc k) \<Longrightarrow>
      \<exists>s' b. p_read P (mem_off m k) s = Inr (s', b) \<and> good n s' \<and> idle s' \<and> chip s' = chip s \<and> fin s' = fin s \<and>
        acc_load A (chip s) m (int k) = Inr b"
begin

lemma wait_idle:
  assumes "good (Suc n) s" "idle s" "0 < F"
  shows "\<exists>s'. periWait P F s = Inr s' \<and> good n s' \<and> idle s' \<and> chip s' = chip s \<and> fin s' = fin s"
  using poll_idle [OF assms(1,2)] assms(3) by (cases F) auto

text \<open>The polling loop ends, because every poll that finds the device busy leaves fewer.\<close>

lemma wait_busy:
  assumes "good (n + 2) s" "\<not> idle s" "polls s < F"
  shows "\<exists>s'. periWait P F s = Inr s' \<and> good n s' \<and> idle s' \<and> chip s' = chip s \<and> fin s' = acc_finished A (chip s)"
  using assms
proof (induction F arbitrary: s)
  case (Suc F)
  obtain s' v where r: "p_read P 0 s = Inr (s', v)" "chip s' = chip s"
      "if v AND VDEV_READY \<noteq> 0 then good n s' \<and> idle s' \<and> fin s' = acc_finished A (chip s)
       else good (n + 2) s' \<and> \<not> idle s' \<and> polls s' < polls s"
    using poll_busy [OF Suc.prems(1,2)] by blast
  show ?case
  proof (cases "v AND VDEV_READY \<noteq> 0")
    case True
    then show ?thesis using r by simp
  next
    case False
    then have b: "good (n + 2) s'" "\<not> idle s'" "polls s' < F" using r(3) Suc.prems(3) by simp_all
    obtain s'' where "periWait P F s' = Inr s''" "good n s''" "idle s''" "chip s'' = chip s'" "fin s'' = acc_finished A (chip s')"
      using Suc.IH [OF b] by blast
    then show ?thesis using r(1,2) False by simp
  qed
qed simp

lemma init_ok:
  assumes "good (n + 5) s" "idle s" "limit < F"
  shows "\<exists>s' t. periInit P F c s = Inr s' \<and> good n s' \<and> idle s' \<and>
     acc_run A (acc_set_counter A c (chip s)) = Inr (chip s', t) \<and> fin s' = acc_finished A (chip s')"
proof -
  have "good (Suc (n + 2 + 2)) s" using assms(1) by (simp add: eval_nat_numeral)
  then obtain s1 where s1: "p_write P 1 c s = Inr s1" "good (n + 2 + 2) s1" "idle s1" "chip s1 = acc_set_counter A c (chip s)"
    using counter_write assms(2) by blast
  obtain s2 t where s2: "p_write P 0 VDEV_INIT s1 = Inr s2" "good (n + 2) s2" "\<not> idle s2" "acc_run A (chip s1) = Inr (chip s2, t)"
    using request [OF s1(2,3)] by blast
  have "polls s2 < F" using polls_limit [OF s2(2,3)] assms(3) by simp
  then obtain s3 where "periWait P F s2 = Inr s3" "good n s3" "idle s3" "chip s3 = chip s2" "fin s3 = acc_finished A (chip s2)"
    using wait_busy [OF s2(2,3)] by blast
  then show ?thesis using s1 s2 by (simp add: periInit_def)
qed

lemma store_bytes_ok:
  assumes "good (n + length bs) s" "idle s" "mem_room msize m (k + length bs)"
  shows "\<exists>s'. store_bytes P (mem_off m k) bs s = Inr s' \<and> good n s' \<and> idle s' \<and>
     write_bytes A m (int k) bs (chip s) = Inr (chip s')"
  using assms
proof (induction bs arbitrary: k s)
  case (Cons b bs)
  have r: "mem_room msize m (Suc k)" and g: "good (Suc (n + length bs)) s"
    using Cons.prems by (auto simp: mem_room_def)
  obtain s1 where s1: "p_write P (mem_off m k) b s = Inr s1" "good (n + length bs) s1" "idle s1"
      "acc_store A (chip s) m (int k) b = Inr (chip s1)"
    using store [OF g Cons.prems(2) r] by blast
  obtain s' where "store_bytes P (mem_off m (Suc k)) bs s1 = Inr s'" "good n s'" "idle s'"
      "write_bytes A m (int (Suc k)) bs (chip s1) = Inr (chip s')"
    using Cons.IH [OF s1(2,3), of "Suc k"] Cons.prems(3) by auto
  then show ?case using s1 by (simp add: mem_off_def add.commute)
qed simp

lemma write_ok:
  assumes "good (n + length bs + 1) s" "idle s" "mem_room msize m (k + length bs)" "0 < F"
  shows "\<exists>s'. periWrite P F (mem_off m k) bs s = Inr s' \<and> good n s' \<and> idle s' \<and>
     write_bytes A m (int k) bs (chip s) = Inr (chip s')"
proof -
  obtain s1 where "periWait P F s = Inr s1" "good (n + length bs) s1" "idle s1" "chip s1 = chip s"
    using wait_idle [of "n + length bs"] assms by auto
  then show ?thesis using store_bytes_ok [of n bs s1] assms(3) by (auto simp: periWrite_def)
qed

lemma read_byte_ok:
  assumes "good (n + 2) s" "idle s" "mem_room msize m (Suc k)" "0 < F"
  shows "\<exists>s' b. periRead P F (mem_off m k) 1 s = Inr (s', [b]) \<and> good n s' \<and> idle s' \<and> chip s' = chip s \<and>
     acc_load A (chip s) m (int k) = Inr b"
proof -
  obtain s1 where s1: "periWait P F s = Inr s1" "good (Suc n) s1" "idle s1" "chip s1 = chip s"
    using wait_idle [of "Suc n"] assms by auto
  then show ?thesis using load [OF s1(2,3) assms(3)] by (auto simp: periRead_def)
qed

lemma finished_ok:
  assumes "good (Suc n) s" "idle s"
  shows "\<exists>s'. periIsFinished P s = Inr (s', fin s) \<and> good n s' \<and> idle s' \<and> chip s' = chip s \<and> fin s' = fin s"
  using poll_idle [OF assms] by (auto simp: periIsFinished_def)

text \<open>A sequence of requests.\<close>

lemma inits_ok:
  assumes "good (n + 5 * length cs) s" "idle s" "limit < F"
  shows "\<exists>s'. forR (periInit P F) cs s = Inr s' \<and> good n s' \<and> idle s' \<and> acc_seq A cs (chip s) = Inr (chip s') \<and>
     (cs \<noteq> [] \<longrightarrow> fin s' = acc_finished A (chip s'))"
  using assms(1,2)
proof (induction cs arbitrary: s)
  case (Cons c cs)
  have "good (n + 5 * length cs + 5) s" using Cons.prems(1) by (simp add: algebra_simps)
  then obtain s1 t where s1: "periInit P F c s = Inr s1" "good (n + 5 * length cs) s1" "idle s1"
      "acc_run A (acc_set_counter A c (chip s)) = Inr (chip s1, t)" "fin s1 = acc_finished A (chip s1)"
    using init_ok Cons.prems(2) assms(3) by blast
  show ?case
  proof (cases "cs = []")
    case True
    then show ?thesis using s1 by simp
  next
    case False
    then show ?thesis using s1 Cons.IH [OF s1(2,3)] by auto
  qed
qed simp

end

end
