(* ===== verification/Host_Sys.thy ===== *)
theory Host_Sys imports Periph begin

text \<open>
  The peripheral as the host program sees it: every access is an instruction of a CPU
  tick, which sends its packet to the device when the event queue reaches the tick; interrupts
  that are earlier are processed first.  The system has one device.
\<close>

section \<open>An access of the CPU\<close>

text \<open>A tick that executes one instruction with the latencies of \<open>it\<close> and sends \<open>pkt\<close>.\<close>

definition access_iter :: "iter \<Rightarrow> packet \<Rightarrow> iter" where
  "access_iter it pkt =
     it\<lparr>it_idle := False, it_fetch_ok := True, it_pkts := [(0, pkt)], it_suspends := False\<rparr>"

text \<open>The state in which the instruction of a tick executes, when \<open>q\<close> is the queue without the
  tick.\<close>

definition at_tick :: "sysev eventq \<Rightarrow> 'a system \<Rightarrow> 'a system" where
  "at_tick q s = s\<lparr>evq := q, scpu := (scpu s)\<lparr>in_interrupt := False\<rparr>\<rparr>"

fun cpu_access :: "'a accel \<Rightarrow> iter \<Rightarrow> nat \<Rightarrow> packet \<Rightarrow> 'a system \<Rightarrow> ('a system \<times> packet) res" where
  "cpu_access A it 0 pkt s = Inl OutOfFuel"
| "cpu_access A it (Suc n) pkt s =
     bindR (serviceOne (evq s)) (\<lambda>(e, process, q).
     if e = CpuTick \<and> process
     then bindR (vdev_access A 0 pkt (at_tick q s)) (\<lambda>(_, p).
          bindR (sys_step A ([access_iter it pkt], False) s) (\<lambda>s'. Inr (s', p)))
     else bindR (sys_step A ([], False) s) (cpu_access A it n pkt))"

definition pkt_byte :: "packet \<Rightarrow> byte res" where
  "pkt_byte p = (case p of ReadPkt _ (b # _) \<Rightarrow> Inr b | _ \<Rightarrow> Inl Undefined)"

definition sys_periph :: "'a accel \<Rightarrow> iter \<Rightarrow> 64 word \<Rightarrow> 'a system periph" where
  "sys_periph A it lo =
     \<lparr>p_write = (\<lambda>off b s. bindR (cpu_access A it (Suc (length (vdevs s))) (WritePkt (lo + of_nat off) [b]) s)
        (\<lambda>(s', _). Inr s')),
      p_read = (\<lambda>off s. bindR (cpu_access A it (Suc (length (vdevs s))) (ReadPkt (lo + of_nat off) [0]) s)
        (\<lambda>(s', p). bindR (pkt_byte p) (\<lambda>b. Inr (s', b))))\<rparr>"

lemma sys_write:
  "cpu_access A it (Suc (length (vdevs s))) (WritePkt (lo + of_nat off) [b]) s = Inr (s', p) \<Longrightarrow>
   p_write (sys_periph A it lo) off b s = Inr s'"
  by (simp only: sys_periph_def periph.select_convs bindR_Inr prod.case)

lemma sys_read:
  "cpu_access A it (Suc (length (vdevs s))) (ReadPkt (lo + of_nat off) [0]) s = Inr (s', ReadPkt a [b]) \<Longrightarrow>
   p_read (sys_periph A it lo) off s = Inr (s', b)"
  by (simp only: sys_periph_def periph.select_convs bindR_Inr prod.case) (simp add: pkt_byte_def)

section \<open>Effects on the device\<close>

lemma cpu_tick_effect:
  assumes "cpu_tick A [access_iter it pkt] False s = Inr s'" and "\<not> cpu_idle (scpu s)"
  shows "\<exists>s1 p. vdev_access A 0 pkt (at_tick (evq s) s) = Inr (s1, p) \<and> vdevs s' = vdevs s1 \<and>
     (\<forall>j. evs (evq s') (VdevInt j) = evs (evq s1) (VdevInt j))"
proof -
  have a: "s\<lparr>scpu := (scpu s)\<lparr>in_interrupt := False\<rparr>\<rparr> = at_tick (evq s) s" by (simp add: at_tick_def)
  obtain s1 p where s1: "vdev_access A 0 pkt (at_tick (evq s) s) = Inr (s1, p)"
    using assms unfolding cpu_tick_def a
    by (auto simp: bindR_eq_Inr access_iter_def send_packets_def recvAtomic_def at_tick_def split: if_splits prod.splits)
  then show ?thesis
    using assms unfolding cpu_tick_def a
    by (auto simp: bindR_eq_Inr access_iter_def send_packets_def recvAtomic_def Let_def at_tick_def
        schedule_def set_when_def set_scheduled_def split: if_splits prod.splits)
qed

lemma trigger_effect:
  assumes "triggerInterrupt A i s = Inr s'" and "i < length (vdevs s)"
  shows "\<exists>p. vdevs s' = (vdevs s)[i := (vdevs s ! i)\<lparr>execution_state := STATE_IDLE, pmem := p\<rparr>] \<and>
     (bit p 3 \<longleftrightarrow> bit (pmem (vdevs s ! i)) 3 \<or> acc_finished A (aichip_of (vdevs s ! i)))"
  using assms
  by (auto simp: triggerInterrupt_def Let_def put_dev_def bindR_eq_Inr virtualDeviceInterrupt_def interrupt_bits
      simp del: One_nat_def split: if_splits)

section \<open>The state of the system\<close>

definition dev :: "'a system \<Rightarrow> 'a vdev" where
  "dev s = vdevs s ! 0"

definition iter_times :: "iter \<Rightarrow> bool" where
  "iter_times it \<longleftrightarrow> unat (it_icache_latency it) \<le> max_delay \<and> unat (it_dcache_latency it) \<le> max_delay"

definition one_dev :: "64 word \<Rightarrow> 'a system \<Rightarrow> bool" where
  "one_dev lo s \<longleftrightarrow> length (vdevs s) = 1 \<and> range_start (dev s) = lo \<and>
     (\<exists>t. transfer_delay (dev s) 1 = Inr t \<and> unat t \<le> max_delay)"

text \<open>While the device works, its interrupt is due by \<open>T\<close>, however often the CPU polls.\<close>

definition busy_by :: "nat \<Rightarrow> 'a system \<Rightarrow> bool" where
  "busy_by T s \<longleftrightarrow> \<not> bit (pmem (dev s)) 3 \<and> unat (ewhen (evs (evq s) (VdevInt 0))) \<le> T \<and>
     unat (ewhen (evs (evq s) (VdevInt 0))) \<le> unat (ewhen (evs (evq s) CpuTick)) + 2 * max_delay"

definition sys_good :: "('a \<Rightarrow> bool) \<Rightarrow> iter \<Rightarrow> 64 word \<Rightarrow> nat \<Rightarrow> 'a system \<Rightarrow> bool" where
  "sys_good ready it lo n s \<longleftrightarrow> iter_times it \<and> one_dev lo s \<and>
     (\<exists>T. run_good ready (T + step_room 1) s \<and> T + (n + 3) * step_room 1 < 2 ^ 63 \<and> (bit (pmem (dev s)) 1 \<longrightarrow> busy_by T s))"

definition sys_idle :: "'a system \<Rightarrow> bool" where
  "sys_idle s \<longleftrightarrow> \<not> bit (pmem (dev s)) 1"

definition sys_fin :: "'a system \<Rightarrow> bool" where
  "sys_fin s \<longleftrightarrow> bit (pmem (dev s)) 3"

definition max_polls :: nat where
  "max_polls = (2 * max_delay + 1) * 2 + 1"

lemma one_dev_conf: "map conf (vdevs s') = map conf (vdevs s) \<Longrightarrow> one_dev lo s' = one_dev lo s"
proof -
  assume m: "map conf (vdevs s') = map conf (vdevs s)"
  have l: "length (vdevs s') = length (vdevs s)" using arg_cong [OF m, of length] by simp
  show ?thesis
  proof (cases "length (vdevs s) = 1")
    case True
    then have "conf (dev s') = conf (dev s)" using arg_cong [OF m, of "\<lambda>xs. xs ! 0"] l by (simp add: dev_def)
    then show ?thesis using l by (simp add: one_dev_def conf_def transfer_delay_def)
  qed (simp add: one_dev_def l)
qed

lemma steps_left_limit:
  assumes "length (vdevs s) = 1" "cpu_period (scpu s) \<noteq> 0"
    and "unat (ewhen (evs (evq s) (VdevInt 0))) \<le> unat (ewhen (evs (evq s) CpuTick)) + 2 * max_delay"
  shows "steps_left 0 s \<le> max_polls"
proof -
  let ?w = "unat (ewhen (evs (evq s) (VdevInt 0)))" and ?t = "unat (ewhen (evs (evq s) CpuTick))"
    and ?p = "unat (cpu_period (scpu s))"
  have p: "0 < ?p" using assms(2) by (simp add: unat_gt_0)
  have "?w + ?p - ?t \<le> 2 * max_delay + ?p" using assms(3) by linarith
  then have "(?w + ?p - ?t) div ?p \<le> (2 * max_delay + ?p) div ?p" by (rule div_le_mono)
  also have "\<dots> = 2 * max_delay div ?p + 1" by (rule div_add_self2) (use p in linarith)
  also have "\<dots> \<le> 2 * max_delay + 1" by simp
  finally show ?thesis using card_pending [of s] assms(1) unfolding steps_left_def max_polls_def by simp
qed

lemma word_bits_ready: "bit p 2 \<Longrightarrow> p AND VDEV_READY \<noteq> 0" "\<not> bit p 2 \<Longrightarrow> p AND VDEV_READY = 0"
  using flag_bits by blast+

section \<open>Packets\<close>

lemma room_window:
  assumes "mem_room msize m (Suc k)"
  shows "window (of_nat (mem_off m k)) = (m, int k)" "of_nat (mem_off m k) \<noteq> (0 :: 64 word)" "of_nat (mem_off m k) \<noteq> (1 :: 64 word)"
    "int k < msize m" "m \<in> {1, 2, 3}"
proof -
  have k: "k < 2 ^ 32" "m = 1 \<and> k < 1048576 \<or> m = 2 \<and> k < 1048576 \<or> m = 3" using assms by (auto simp: mem_room_def)
  have "mem_off m k < 2 ^ 33" using k by (auto simp: mem_off_def)
  then have u: "uint (of_nat (mem_off m k) :: 64 word) = int (mem_off m k)"
    by (simp add: uint_nat unat_of_nat)
  show "window (of_nat (mem_off m k)) = (m, int k)"
    using k u by (auto simp: window_def word_less_def mem_off_def)
  show "of_nat (mem_off m k) \<noteq> (0 :: 64 word)" "of_nat (mem_off m k) \<noteq> (1 :: 64 word)"
    using u unfolding word_uint_eq_iff by (simp_all del: of_nat_add of_nat_mult add: mem_off_def)
  show "int k < msize m" "m \<in> {1, 2, 3}" using assms by (auto simp: mem_room_def)
qed

lemma packet_ok_reg:
  assumes "one_dev lo s" "r \<in> {0, 1}"
  shows "packet_ok msize (dev s) (ReadPkt (lo + of_nat r) [b])" "packet_ok msize (dev s) (WritePkt (lo + of_nat r) [b])"
  using assms by (auto simp: packet_ok_def one_dev_def)

lemma packet_ok_mem:
  assumes "one_dev lo s" "mem_room msize m (Suc k)"
  shows "packet_ok msize (dev s) (ReadPkt (lo + of_nat (mem_off m k)) [b])"
    "packet_ok msize (dev s) (WritePkt (lo + of_nat (mem_off m k)) [b])"
  using assms(1) room_window [OF assms(2)] by (auto simp: packet_ok_def one_dev_def)

text \<open>The effect of each packet on the device.\<close>

lemma counter_effect:
  assumes "vdev_access A 0 (WritePkt (lo + of_nat 1) [c]) s0 = Inr (s1, p)" and "vdevs s0 = vdevs s" and "one_dev lo s"
  shows "dev s1 = (dev s)\<lparr>aichip_of := acc_set_counter A c (aichip_of (dev s))\<rparr>"
  using assms by (auto simp: vdev_access_def Let_def one_dev_def dev_def get_first_def put_dev_def)

lemma status_effect:
  assumes "vdev_access A 0 (ReadPkt (lo + of_nat 0) [0]) s0 = Inr (s1, p)" and "vdevs s0 = vdevs s" and "one_dev lo s"
  shows "dev s1 = dev s" "p = ReadPkt (lo + of_nat 0) [pmem (dev s)]"
  using assms by (auto simp: vdev_access_def Let_def one_dev_def dev_def put_first_def bindR_eq_Inr)

lemma request_effect:
  assumes "vdev_access A 0 (WritePkt (lo + of_nat 0) [VDEV_INIT]) s0 = Inr (s1, p)" and "vdevs s0 = vdevs s" and "one_dev lo s"
    and "sys_idle s"
  shows "\<exists>t. acc_run A (aichip_of (dev s)) = Inr (aichip_of (dev s1), t)" "bit (pmem (dev s1)) 1" "\<not> bit (pmem (dev s1)) 3"
proof -
  have "VDEV_INIT AND VDEV_SET \<noteq> 0" by (simp add: VDEV_INIT_def VDEV_SET_def)
  moreover have "\<not> bit (pmem (vdevs s0 ! 0)) 1" "length (vdevs s0) = 1" using assms(2-4) by (auto simp: sys_idle_def dev_def one_dev_def)
  ultimately show "\<exists>t. acc_run A (aichip_of (dev s)) = Inr (aichip_of (dev s1), t)" "bit (pmem (dev s1)) 1" "\<not> bit (pmem (dev s1)) 3"
    using assms(1-3) flag_bits(2) [of "pmem (vdevs s0 ! 0)"] request_bits [of "pmem (vdevs s0 ! 0)"]
    by (auto simp: vdev_access_def Let_def one_dev_def dev_def get_first_def put_dev_def start_request_def bindR_eq_Inr
        simp del: One_nat_def)
qed

lemma store_effect:
  assumes "vdev_access A 0 (WritePkt (lo + of_nat (mem_off m k)) [b]) s0 = Inr (s1, p)" and "vdevs s0 = vdevs s" and "one_dev lo s"
    and "mem_room msize m (Suc k)"
  shows "\<exists>a. acc_store A (aichip_of (dev s)) m (int k) b = Inr a \<and> dev s1 = (dev s)\<lparr>aichip_of := a\<rparr>"
  using assms(1-3) room_window [OF assms(4)]
  by (auto simp: vdev_access_def Let_def one_dev_def dev_def get_first_def put_dev_def bindR_eq_Inr)

lemma load_effect:
  assumes "vdev_access A 0 (ReadPkt (lo + of_nat (mem_off m k)) [0]) s0 = Inr (s1, p)" and "vdevs s0 = vdevs s" and "one_dev lo s"
    and "mem_room msize m (Suc k)"
  shows "dev s1 = dev s \<and> (\<exists>b. acc_load A (aichip_of (dev s)) m (int k) = Inr b \<and> p = ReadPkt (lo + of_nat (mem_off m k)) [b])"
  using assms(1-3) room_window [OF assms(4)]
  by (auto simp: vdev_access_def Let_def one_dev_def dev_def put_dev_def bindR_eq_Inr)

context accelerator
begin

text \<open>The next event is the CPU's tick, or the device's interrupt while it works.\<close>

lemma next_step:
  assumes g: "run_good ready B s" and B: "B + step_room 1 < 2 ^ 63" and o: "length (vdevs s) = 1"
    and w: "work_ok msize 1 (vdevs s) w"
  shows "\<exists>s' q. sys_step A w s = Inr s' \<and> run_good ready (B + step_room 1) s' \<and>
     map conf (vdevs s') = map conf (vdevs s) \<and> cpu_period (scpu s') = cpu_period (scpu s) \<and>
     (serviceOne (evq s) = Inr (CpuTick, True, q) \<and> tick_step s s' \<and> curTick q = ewhen (evs (evq s) CpuTick) \<and>
        evs q = (evs (evq s))(CpuTick := (evs (evq s) CpuTick)\<lparr>escheduled := False, esquashed := False\<rparr>) \<and> q_ok q \<or>
      serviceOne (evq s) = Inr (VdevInt 0, True, q) \<and> int_step 0 s s')"
proof -
  note G = g [unfolded run_good_def]
  obtain s' e q where r: "sys_step A w s = Inr s'" "run_good ready (B + step_room 1) s'" "map conf (vdevs s') = map conf (vdevs s)"
      "cpu_period (scpu s') = cpu_period (scpu s)" "serviceOne (evq s) = Inr (e, True, q)" "curTick q = ewhen (evs (evq s) e)"
      "evs q = (evs (evq s))(e := (evs (evq s) e)\<lparr>escheduled := False, esquashed := False\<rparr>)" "q_ok q"
      "case e of CpuTick \<Rightarrow> tick_step s s' | VdevInt i \<Rightarrow> int_step i s s'"
    using sys_step_head [OF _ _ B w] G unfolding run_good_def by blast
  show ?thesis
  proof (cases e)
    case CpuTick
    then show ?thesis using r by auto
  next
    case (VdevInt i)
    then have "i = 0" using r(9) o by (simp add: int_step_def)
    then show ?thesis using r VdevInt by auto
  qed
qed

lemma tick_idle:
  assumes g: "run_good ready B s" and i: "sys_idle s" and o: "length (vdevs s) = 1" and q: "q_ok q"
    and sv: "evs q = (evs (evq s))(CpuTick := (evs (evq s) CpuTick)\<lparr>escheduled := False, esquashed := False\<rparr>)"
    and pk: "packet_ok msize (dev s) pkt" and c: "unat (curTick q) \<le> B" and B: "B + step_room 1 < 2 ^ 63"
    and a: "vdev_access A 0 pkt (at_tick q s) = Inr (s1, p)"
  shows "escheduled (evs (evq s1) (VdevInt 0)) \<longrightarrow> unat (ewhen (evs (evq s1) (VdevInt 0))) \<le> unat (curTick q) + 2 * max_delay"
proof -
  let ?s = "at_tick q s" and ?B = "unat (curTick q) + 2 * max_delay"
  note I = g [unfolded run_good_def sys_inv_def]
  have n: "\<not> escheduled (evs q (VdevInt j))" for j
    using I i o sv by (cases "j = 0") (auto simp: dev_inv_def sys_idle_def dev_def)
  have "sys_inv ready ?s"
    using I q sv by (simp add: sys_inv_def at_tick_def dev_inv_def)
  moreover have "within_time ?B ?s"
  proof -
    have "\<not> escheduled (evs q e)" for e using n sv by (cases e) simp_all
    then show ?thesis using I by (simp add: within_time_def at_tick_def run_good_def)
  qed
  moreover have "?B < 2 ^ 63" using c B by (simp add: step_room_def)
  ultimately show ?thesis
    using access_ok [of ?s 0 ?B pkt] o pk a unfolding within_time_def by (auto simp: at_tick_def dev_def)
qed

lemma access_idle:
  assumes g: "run_good ready B s" and o: "one_dev lo s" and i: "sys_idle s" and it: "iter_times it"
    and B: "B + step_room 1 < 2 ^ 63" and pk: "packet_ok msize (dev s) pkt"
  shows "\<exists>s' s0 s1 p. cpu_access A it (Suc k) pkt s = Inr (s', p) \<and> vdev_access A 0 pkt s0 = Inr (s1, p) \<and>
     vdevs s0 = vdevs s \<and> vdevs s' = vdevs s1 \<and> one_dev lo s' \<and> run_good ready (B + step_room 1) s' \<and>
     (\<not> sys_idle s' \<longrightarrow> unat (ewhen (evs (evq s') (VdevInt 0))) \<le> B + 2 * max_delay \<and>
        unat (ewhen (evs (evq s') (VdevInt 0))) \<le> unat (ewhen (evs (evq s') CpuTick)) + 2 * max_delay)"
proof -
  let ?w = "([access_iter it pkt], False)"
  have l: "length (vdevs s) = 1" using o by (simp add: one_dev_def)
  note G = g [unfolded run_good_def sys_inv_def within_time_def]
  have w: "work_ok msize 1 (vdevs s) ?w"
    using it pk l by (simp add: work_ok_def iter_ok_def access_iter_def iter_times_def dev_def)
  obtain s' q where n: "sys_step A ?w s = Inr s'" "run_good ready (B + step_room 1) s'" "map conf (vdevs s') = map conf (vdevs s)"
     "serviceOne (evq s) = Inr (CpuTick, True, q) \<and> tick_step s s' \<and> curTick q = ewhen (evs (evq s) CpuTick) \<and>
        evs q = (evs (evq s))(CpuTick := (evs (evq s) CpuTick)\<lparr>escheduled := False, esquashed := False\<rparr>) \<and> q_ok q \<or>
      int_step 0 s s'"
    using next_step [OF g B l w] by blast
  have "dev_inv ready (evq s) (scpu s) 0 (vdevs s ! 0)" using G l by auto
  then have ns: "\<not> escheduled (evs (evq s) (VdevInt 0))" using i by (simp add: sys_idle_def dev_def dev_inv_def)
  then have t: "serviceOne (evq s) = Inr (CpuTick, True, q)" "tick_step s s'" "curTick q = ewhen (evs (evq s) CpuTick)" "q_ok q"
     "evs q = (evs (evq s))(CpuTick := (evs (evq s) CpuTick)\<lparr>escheduled := False, esquashed := False\<rparr>)"
    using n(4) by (auto simp: int_step_def)
  have "cpu_tick A [access_iter it pkt] False (s\<lparr>evq := q\<rparr>) = Inr s'" using n(1) t(1) by (simp add: sys_step_def Let_def)
  then obtain s1 p where a: "vdev_access A 0 pkt (at_tick q s) = Inr (s1, p)" "vdevs s' = vdevs s1"
     "\<forall>j. evs (evq s') (VdevInt j) = evs (evq s1) (VdevInt j)"
    using cpu_tick_effect [of A it pkt "s\<lparr>evq := q\<rparr>" s'] G by (auto simp: at_tick_def)
  have c: "unat (curTick q) \<le> B" using t(3) G by simp
  have later: "unat (ewhen (evs (evq s) CpuTick)) \<le> unat (ewhen (evs (evq s') CpuTick))" using t(2) by (simp add: tick_step_def)
  have l': "length (vdevs s') = 1" using arg_cong [OF n(3), of length] l by simp
  have "escheduled (evs (evq s') (VdevInt 0))" if "\<not> sys_idle s'"
    using n(2) l' that by (auto simp: run_good_def sys_inv_def dev_inv_def sys_idle_def dev_def)
  then have "\<not> sys_idle s' \<longrightarrow> unat (ewhen (evs (evq s') (VdevInt 0))) \<le> unat (curTick q) + 2 * max_delay"
    using tick_idle [OF g i l t(4,5) pk c B a(1)] a(3) by auto
  moreover have "cpu_access A it (Suc k) pkt s = Inr (s', p)" using t(1) a(1) n(1) by simp
  moreover have "vdevs (at_tick q s) = vdevs s" by (simp add: at_tick_def)
  moreover have "one_dev lo s'" using o one_dev_conf [OF n(3)] by simp
  ultimately show ?thesis using a(1,2) n(2) c later t(3) by (intro exI [of _ s'] exI [of _ "at_tick q s"] exI [of _ s1] exI [of _ p]) auto
qed

lemma good_idle:
  assumes "sys_good ready it lo (Suc n) s" and "sys_idle s" and "packet_ok msize (dev s) pkt"
  shows "\<exists>s' s0 s1 p. cpu_access A it (Suc (length (vdevs s))) pkt s = Inr (s', p) \<and> vdev_access A 0 pkt s0 = Inr (s1, p) \<and>
     vdevs s0 = vdevs s \<and> dev s' = dev s1 \<and> (sys_idle s' \<longrightarrow> sys_good ready it lo n s') \<and>
     (\<forall>m. n = Suc m \<longrightarrow> bit (pmem (dev s')) 1 \<longrightarrow> \<not> bit (pmem (dev s')) 3 \<longrightarrow> sys_good ready it lo m s')"
proof -
  obtain T where T: "run_good ready (T + step_room 1) s" "T + (Suc n + 3) * step_room 1 < 2 ^ 63" "iter_times it" "one_dev lo s"
    using assms(1) by (auto simp: sys_good_def)
  have B: "T + step_room 1 + step_room 1 < 2 ^ 63" using T(2) by (simp add: algebra_simps)
  obtain s' s0 s1 p where r: "cpu_access A it (Suc (length (vdevs s))) pkt s = Inr (s', p)" "vdev_access A 0 pkt s0 = Inr (s1, p)"
     "vdevs s0 = vdevs s" "vdevs s' = vdevs s1" "one_dev lo s'" "run_good ready (T + step_room 1 + step_room 1) s'"
     "\<not> sys_idle s' \<longrightarrow> unat (ewhen (evs (evq s') (VdevInt 0))) \<le> T + step_room 1 + 2 * max_delay \<and>
        unat (ewhen (evs (evq s') (VdevInt 0))) \<le> unat (ewhen (evs (evq s') CpuTick)) + 2 * max_delay"
    using access_idle [OF T(1,4) assms(2) T(3) B assms(3)] by blast
  have "sys_good ready it lo n s'" if "sys_idle s'"
    unfolding sys_good_def using r(5,6) T(2,3) that
    by (intro conjI exI [of _ "T + step_room 1"]) (simp_all add: sys_idle_def algebra_simps)
  moreover have "sys_good ready it lo m s'" if "n = Suc m" "bit (pmem (dev s')) 1" "\<not> bit (pmem (dev s')) 3" for m
  proof -
    have "2 * max_delay \<le> step_room 1" by (simp add: step_room_def)
    then have "busy_by (T + step_room 1 + step_room 1) s'"
      using r(7) that(2,3) by (auto simp: busy_by_def sys_idle_def)
    moreover have "run_good ready (T + step_room 1 + step_room 1 + step_room 1) s'"
      using r(6) by (auto simp: run_good_def within_time_def intro: trans_le_add1)
    moreover have "T + step_room 1 + step_room 1 + (m + 3) * step_room 1 < 2 ^ 63" using T(2) that(1) by (simp add: algebra_simps)
    ultimately show ?thesis using r(5) T(3) unfolding sys_good_def by blast
  qed
  ultimately show ?thesis using r by (auto simp: dev_def)
qed

lemma status_bits:
  assumes "run_good ready B s" "one_dev lo s"
  shows "bit (pmem (dev s)) 2 \<longleftrightarrow> sys_idle s"
proof -
  have "dev_inv ready (evq s) (scpu s) 0 (vdevs s ! 0)" using assms by (auto simp: run_good_def sys_inv_def one_dev_def)
  then show ?thesis by (simp add: dev_inv_def sys_idle_def dev_def)
qed

text \<open>A poll of a working device: either the tick comes first and finds it working, or the
  interrupt does.\<close>

lemma int_access:
  assumes g: "run_good ready B s" and B: "B + step_room 1 < 2 ^ 63" and o: "one_dev lo s"
    and n: "serviceOne (evq s) = Inr (VdevInt 0, True, q)" and f: "\<not> bit (pmem (dev s)) 3"
  shows "\<exists>s'. sys_step A ([], False) s = Inr s' \<and> run_good ready (B + step_room 1) s' \<and> one_dev lo s' \<and> sys_idle s' \<and>
     length (vdevs s') = length (vdevs s) \<and> aichip_of (dev s') = aichip_of (dev s) \<and> sys_fin s' = acc_finished A (aichip_of (dev s))"
proof -
  have l: "length (vdevs s) = 1" using o by (simp add: one_dev_def)
  have w: "work_ok msize 1 (vdevs s) ([], False)" by (simp add: work_ok_def)
  obtain s' where r: "sys_step A ([], False) s = Inr s'" "run_good ready (B + step_room 1) s'"
      "map conf (vdevs s') = map conf (vdevs s)" "int_step 0 s s'"
    using next_step [OF g B l w] n by auto
  have "triggerInterrupt A 0 (s\<lparr>evq := q\<rparr>) = Inr s'" using r(1) n by (simp add: sys_step_def Let_def)
  then have "aichip_of (dev s') = aichip_of (dev s)" "sys_fin s' = acc_finished A (aichip_of (dev s))"
    using trigger_effect [of A 0 "s\<lparr>evq := q\<rparr>" s'] l f by (auto simp: dev_def sys_fin_def)
  moreover have "sys_idle s'" using r(4) by (simp add: int_step_def sys_idle_def dev_def)
  moreover have "one_dev lo s'" using o one_dev_conf [OF r(3)] by simp
  moreover from this have "length (vdevs s') = length (vdevs s)" using l by (simp add: one_dev_def)
  ultimately show ?thesis using r(1,2) by blast
qed

lemma before_interrupt:
  assumes g: "run_good ready B s" and t: "tick_step s s'" and o: "length (vdevs s) = 1" and b: "\<not> sys_idle s" "busy_by T s"
  shows "run_good ready T s" "escheduled (evs (evq s) (VdevInt 0))"
proof -
  note G = g [unfolded run_good_def sys_inv_def]
  have "dev_inv ready (evq s) (scpu s) 0 (vdevs s ! 0)" using G o by auto
  then show sc: "escheduled (evs (evq s) (VdevInt 0))" using b(1) by (simp add: dev_inv_def sys_idle_def dev_def)
  then have c: "unat (ewhen (evs (evq s) CpuTick)) \<le> T" using t b(2) by (auto simp: tick_step_def busy_by_def)
  have "CpuTick \<in> set (agenda (evq s))" using G unfolding q_ok_alt by blast
  then have "curTick (evq s) \<le> ewhen (evs (evq s) CpuTick)" using G unfolding q_ok_alt by blast
  then have n: "unat (curTick (evq s)) \<le> T" using c by (simp add: word_le_nat_alt)
  have "unat (ewhen (evs (evq s) e)) \<le> T" if "escheduled (evs (evq s) e)" for e
  proof (cases e)
    case CpuTick then show ?thesis using c by simp
  next
    case (VdevInt j)
    then have "j = 0" using that G o by (metis less_one not_le)
    then show ?thesis using VdevInt b(2) by (simp add: busy_by_def)
  qed
  then show "run_good ready T s" using g n by (simp add: run_good_def within_time_def)
qed

lemma poll_tick:
  assumes g: "sys_good ready it lo n s" and b: "\<not> sys_idle s" and q: "serviceOne (evq s) = Inr (CpuTick, True, q)"
  shows "\<exists>s'. cpu_access A it (Suc k) (ReadPkt (lo + of_nat 0) [0]) s = Inr (s', ReadPkt (lo + of_nat 0) [pmem (dev s)]) \<and>
     sys_good ready it lo n s' \<and> dev s' = dev s \<and> steps_left 0 s' < steps_left 0 s"
proof -
  let ?pkt = "ReadPkt (lo + of_nat 0) [0]"
  let ?w = "([access_iter it ?pkt], False)"
  obtain T where T: "run_good ready (T + step_room 1) s" "T + (n + 3) * step_room 1 < 2 ^ 63" "iter_times it" "one_dev lo s" "busy_by T s"
    using g b by (auto simp: sys_good_def sys_idle_def)
  have l: "length (vdevs s) = 1" using T(4) by (simp add: one_dev_def)
  have B: "T + step_room 1 < 2 ^ 63" "T + step_room 1 + step_room 1 < 2 ^ 63" using T(2) by (simp_all add: algebra_simps)
  have "packet_ok msize (dev s) ?pkt" by (rule packet_ok_reg(1) [OF T(4)]) simp
  then have w: "work_ok msize 1 (vdevs s) ?w"
    using T(3) l by (simp add: work_ok_def iter_ok_def access_iter_def iter_times_def dev_def)
  have ni: "\<not> cpu_idle (scpu s)" and p0: "cpu_period (scpu s) \<noteq> 0" using T(1) by (simp_all add: run_good_def sys_inv_def)
  obtain s' where r: "sys_step A ?w s = Inr s'" "tick_step s s'"
    using next_step [OF T(1) B(2) l w] q by auto
  note t = before_interrupt [OF T(1) r(2) l b T(5)]
  have r': "run_good ready (T + step_room 1) s'" "map conf (vdevs s') = map conf (vdevs s)" "cpu_period (scpu s') = cpu_period (scpu s)"
    using next_step [OF t(1) B(1) l w] r(1) by auto
  have "cpu_tick A [access_iter it ?pkt] False (s\<lparr>evq := q\<rparr>) = Inr s'" using r(1) q by (simp add: sys_step_def Let_def)
  then obtain s1 p where a: "vdev_access A 0 ?pkt (at_tick q s) = Inr (s1, p)" "vdevs s' = vdevs s1"
    using cpu_tick_effect [of A it ?pkt "s\<lparr>evq := q\<rparr>" s'] ni by (auto simp: at_tick_def)
  have v: "vdevs (at_tick q s) = vdevs s" by (simp add: at_tick_def)
  have e: "dev s1 = dev s" "p = ReadPkt (lo + of_nat 0) [pmem (dev s)]" using status_effect [OF a(1) v T(4)] by simp_all
  have d: "dev s' = dev s" using e(1) a(2) by (simp add: dev_def)
  have o': "one_dev lo s'" using T(4) one_dev_conf [OF r'(2)] by simp
  have tk: "evs (evq s') (VdevInt 0) = evs (evq s) (VdevInt 0)"
      "unat (ewhen (evs (evq s) CpuTick)) \<le> unat (ewhen (evs (evq s') CpuTick))" using r(2) t(2) by (simp_all add: tick_step_def)
  have "busy_by T s'" using T(5) d tk by (auto simp: busy_by_def)
  then have "sys_good ready it lo n s'" using r'(1) o' T(2,3) by (auto simp: sys_good_def)
  moreover have "length (vdevs s') = length (vdevs s)" using o' l by (simp add: one_dev_def)
  then have "steps_left 0 s' < steps_left 0 s" by (rule tick_step_left [OF r(2) r'(3) p0 _ t(2)])
  ultimately show ?thesis using q a(1) r(1) e(2) d by simp
qed

lemma poll_busy_ok:
  assumes g: "sys_good ready it lo (n + 2) s" and b: "\<not> sys_idle s"
  shows "\<exists>s' v. cpu_access A it (Suc (length (vdevs s))) (ReadPkt (lo + of_nat 0) [0]) s = Inr (s', ReadPkt (lo + of_nat 0) [v]) \<and>
     aichip_of (dev s') = aichip_of (dev s) \<and>
     (if v AND VDEV_READY \<noteq> 0 then sys_good ready it lo n s' \<and> sys_idle s' \<and> sys_fin s' = acc_finished A (aichip_of (dev s))
      else sys_good ready it lo (n + 2) s' \<and> \<not> sys_idle s' \<and> steps_left 0 s' < steps_left 0 s)"
proof -
  obtain T where T: "run_good ready (T + step_room 1) s" "T + (n + 2 + 3) * step_room 1 < 2 ^ 63" "iter_times it" "one_dev lo s" "busy_by T s"
    using g b by (auto simp: sys_good_def sys_idle_def)
  have l: "length (vdevs s) = 1" using T(4) by (simp add: one_dev_def)
  have B: "T + step_room 1 + step_room 1 < 2 ^ 63" "T + step_room 1 + step_room 1 + step_room 1 < 2 ^ 63"
    using T(2) by (simp_all add: algebra_simps)
  have w0: "work_ok msize 1 (vdevs s) ([], False)" by (simp add: work_ok_def)
  obtain q e where q: "serviceOne (evq s) = Inr (e, True, q)" "e = CpuTick \<or> e = VdevInt 0"
    using next_step [OF T(1) B(1) l w0] by blast
  show ?thesis
  proof (cases "e = CpuTick")
    case True
    obtain s' where s': "cpu_access A it (Suc (length (vdevs s))) (ReadPkt (lo + of_nat 0) [0]) s = Inr (s', ReadPkt (lo + of_nat 0) [pmem (dev s)])"
        "sys_good ready it lo (n + 2) s'" "dev s' = dev s" "steps_left 0 s' < steps_left 0 s"
      using poll_tick [OF g b] q True by blast
    have "pmem (dev s) AND VDEV_READY = 0" using word_bits_ready status_bits [OF T(1,4)] b by blast
    then show ?thesis using s' b by (auto simp: sys_idle_def)
  next
    case False
    then have q: "serviceOne (evq s) = Inr (VdevInt 0, True, q)" using q by simp
    obtain s1 where s1: "sys_step A ([], False) s = Inr s1" "run_good ready (T + step_room 1 + step_room 1) s1" "one_dev lo s1" "sys_idle s1"
        "aichip_of (dev s1) = aichip_of (dev s)" "sys_fin s1 = acc_finished A (aichip_of (dev s))"
      using int_access [OF T(1) B(1) T(4) q] T(5) by (auto simp: busy_by_def)
    let ?pkt = "ReadPkt (lo + of_nat 0) [0]"
    have pk: "packet_ok msize (dev s1) ?pkt" by (rule packet_ok_reg(1) [OF s1(3)]) simp
    obtain s' s0 s2 p where r: "cpu_access A it (Suc 0) ?pkt s1 = Inr (s', p)" "vdev_access A 0 ?pkt s0 = Inr (s2, p)"
       "vdevs s0 = vdevs s1" "vdevs s' = vdevs s2" "one_dev lo s'" "run_good ready (T + step_room 1 + step_room 1 + step_room 1) s'"
      using access_idle [OF s1(2,3,4) T(3) B(2) pk] by blast
    have e: "dev s2 = dev s1" "p = ReadPkt (lo + of_nat 0) [pmem (dev s1)]" using status_effect [OF r(2,3) s1(3)] by simp_all
    have d: "dev s' = dev s1" using e(1) r(4) by (simp add: dev_def)
    have i: "sys_idle s'" using d s1(4) by (simp add: sys_idle_def)
    have "T + step_room 1 + step_room 1 + (n + 3) * step_room 1 < 2 ^ 63" using T(2) by (simp add: algebra_simps)
    then have "sys_good ready it lo n s'"
      unfolding sys_good_def using r(5,6) T(3) i
      by (intro conjI exI [of _ "T + step_room 1 + step_room 1"]) (simp_all add: sys_idle_def)
    moreover have "pmem (dev s1) AND VDEV_READY \<noteq> 0" using word_bits_ready status_bits [OF s1(2,3)] s1(4) by blast
    ultimately show ?thesis using r(1) e(2) d i s1 q l by (auto simp: sys_fin_def)
  qed
qed

text \<open>The system is a peripheral the driver can rely on.\<close>

lemma system_peripheral:
  "peripheral (sys_periph A it lo) A msize (sys_good ready it lo) sys_idle (\<lambda>s. aichip_of (dev s)) sys_fin (steps_left 0) max_polls"
proof
  fix n s c
  assume g: "sys_good ready it lo (Suc n) s" and i: "sys_idle s"
  have o: "one_dev lo s" using g by (simp add: sys_good_def)
  have pk: "packet_ok msize (dev s) (WritePkt (lo + of_nat 1) [c])" by (rule packet_ok_reg(2) [OF o]) simp
  obtain s' s0 s1 p where r: "cpu_access A it (Suc (length (vdevs s))) (WritePkt (lo + of_nat 1) [c]) s = Inr (s', p)"
      "vdev_access A 0 (WritePkt (lo + of_nat 1) [c]) s0 = Inr (s1, p)" "vdevs s0 = vdevs s" "dev s' = dev s1"
      "sys_idle s' \<longrightarrow> sys_good ready it lo n s'"
    using good_idle [OF g i pk] by blast
  have "dev s' = (dev s)\<lparr>aichip_of := acc_set_counter A c (aichip_of (dev s))\<rparr>"
    using counter_effect [OF r(2,3) o] r(4) by simp
  then show "\<exists>s'. p_write (sys_periph A it lo) 1 c s = Inr s' \<and> sys_good ready it lo n s' \<and> sys_idle s' \<and>
      aichip_of (dev s') = acc_set_counter A c (aichip_of (dev s))"
    using sys_write [OF r(1)] r(5) i by (simp add: sys_idle_def)
next
  fix n s
  assume g: "sys_good ready it lo (n + 2) s" and i: "sys_idle s"
  have o: "one_dev lo s" using g by (simp add: sys_good_def)
  have g': "sys_good ready it lo (Suc (Suc n)) s" using g by simp
  have pk: "packet_ok msize (dev s) (WritePkt (lo + of_nat 0) [VDEV_INIT])" by (rule packet_ok_reg(2) [OF o]) simp
  obtain s' s0 s1 p where r: "cpu_access A it (Suc (length (vdevs s))) (WritePkt (lo + of_nat 0) [VDEV_INIT]) s = Inr (s', p)"
      "vdev_access A 0 (WritePkt (lo + of_nat 0) [VDEV_INIT]) s0 = Inr (s1, p)" "vdevs s0 = vdevs s" "dev s' = dev s1"
      "bit (pmem (dev s')) 1 \<longrightarrow> \<not> bit (pmem (dev s')) 3 \<longrightarrow> sys_good ready it lo n s'"
    using good_idle [OF g' i pk] by blast
  then show "\<exists>s' t. p_write (sys_periph A it lo) 0 VDEV_INIT s = Inr s' \<and> sys_good ready it lo n s' \<and> \<not> sys_idle s' \<and>
      acc_run A (aichip_of (dev s)) = Inr (aichip_of (dev s'), t)"
    using request_effect [OF r(2,3) o i] sys_write [OF r(1)] by (auto simp: sys_idle_def)
next
  fix n s
  assume g: "sys_good ready it lo (Suc n) s" and i: "sys_idle s"
  have o: "one_dev lo s" using g by (simp add: sys_good_def)
  have pk: "packet_ok msize (dev s) (ReadPkt (lo + of_nat 0) [0])" by (rule packet_ok_reg(1) [OF o]) simp
  obtain s' s0 s1 p where r: "cpu_access A it (Suc (length (vdevs s))) (ReadPkt (lo + of_nat 0) [0]) s = Inr (s', p)"
      "vdev_access A 0 (ReadPkt (lo + of_nat 0) [0]) s0 = Inr (s1, p)" "vdevs s0 = vdevs s" "dev s' = dev s1"
      "sys_idle s' \<longrightarrow> sys_good ready it lo n s'"
    using good_idle [OF g i pk] by blast
  have e: "dev s' = dev s" "p = ReadPkt (lo + of_nat 0) [pmem (dev s)]" using status_effect [OF r(2,3) o] r(4) by simp_all
  obtain T where "run_good ready (T + step_room 1) s" using g by (auto simp: sys_good_def)
  then have "pmem (dev s) AND VDEV_READY \<noteq> 0" using word_bits_ready status_bits [OF _ o] i by blast
  then show "\<exists>s' v. p_read (sys_periph A it lo) 0 s = Inr (s', v) \<and> v AND VDEV_READY \<noteq> 0 \<and>
      (v AND VDEV_FINISH \<noteq> 0 \<longleftrightarrow> sys_fin s) \<and> sys_good ready it lo n s' \<and> sys_idle s' \<and>
      aichip_of (dev s') = aichip_of (dev s) \<and> sys_fin s' = sys_fin s"
    using sys_read [OF r(1) [unfolded e(2)]] r(5) e(1) i by (simp add: sys_idle_def sys_fin_def flag_bits del: One_nat_def)
next
  fix n s
  assume "sys_good ready it lo (n + 2) s" "\<not> sys_idle s"
  then obtain s' v where r: "cpu_access A it (Suc (length (vdevs s))) (ReadPkt (lo + of_nat 0) [0]) s = Inr (s', ReadPkt (lo + of_nat 0) [v])"
     "aichip_of (dev s') = aichip_of (dev s)"
     "if v AND VDEV_READY \<noteq> 0 then sys_good ready it lo n s' \<and> sys_idle s' \<and> sys_fin s' = acc_finished A (aichip_of (dev s))
      else sys_good ready it lo (n + 2) s' \<and> \<not> sys_idle s' \<and> steps_left 0 s' < steps_left 0 s"
    using poll_busy_ok by blast
  have "p_read (sys_periph A it lo) 0 s = Inr (s', v)" by (rule sys_read [OF r(1)])
  then show "\<exists>s' v. p_read (sys_periph A it lo) 0 s = Inr (s', v) \<and> aichip_of (dev s') = aichip_of (dev s) \<and>
     (if v AND VDEV_READY \<noteq> 0 then sys_good ready it lo n s' \<and> sys_idle s' \<and> sys_fin s' = acc_finished A (aichip_of (dev s))
      else sys_good ready it lo (n + 2) s' \<and> \<not> sys_idle s' \<and> steps_left 0 s' < steps_left 0 s)"
    using r(2,3) by blast
next
  fix n s
  assume "sys_good ready it lo n s" "\<not> sys_idle s"
  then show "steps_left 0 s \<le> max_polls"
    by (intro steps_left_limit) (auto simp: sys_good_def sys_idle_def one_dev_def busy_by_def run_good_def sys_inv_def)
next
  fix n s m k b
  assume g: "sys_good ready it lo (Suc n) s" and i: "sys_idle s" and m: "mem_room msize m (Suc k)"
  have o: "one_dev lo s" using g by (simp add: sys_good_def)
  let ?pkt = "WritePkt (lo + of_nat (mem_off m k)) [b]"
  obtain s' s0 s1 p where r: "cpu_access A it (Suc (length (vdevs s))) ?pkt s = Inr (s', p)"
      "vdev_access A 0 ?pkt s0 = Inr (s1, p)" "vdevs s0 = vdevs s" "dev s' = dev s1"
      "sys_idle s' \<longrightarrow> sys_good ready it lo n s'"
    using good_idle [OF g i packet_ok_mem(2) [OF o m]] by blast
  then show "\<exists>s'. p_write (sys_periph A it lo) (mem_off m k) b s = Inr s' \<and> sys_good ready it lo n s' \<and> sys_idle s' \<and>
      acc_store A (aichip_of (dev s)) m (int k) b = Inr (aichip_of (dev s'))"
    using store_effect [OF r(2,3) o m] sys_write [OF r(1)] i by (auto simp: sys_idle_def)
next
  fix n s m k
  assume g: "sys_good ready it lo (Suc n) s" and i: "sys_idle s" and m: "mem_room msize m (Suc k)"
  have o: "one_dev lo s" using g by (simp add: sys_good_def)
  let ?pkt = "ReadPkt (lo + of_nat (mem_off m k)) [0]"
  obtain s' s0 s1 p where r: "cpu_access A it (Suc (length (vdevs s))) ?pkt s = Inr (s', p)"
      "vdev_access A 0 ?pkt s0 = Inr (s1, p)" "vdevs s0 = vdevs s" "dev s' = dev s1"
      "sys_idle s' \<longrightarrow> sys_good ready it lo n s'"
    using good_idle [OF g i packet_ok_mem(1) [OF o m]] by blast
  then show "\<exists>s' b. p_read (sys_periph A it lo) (mem_off m k) s = Inr (s', b) \<and> sys_good ready it lo n s' \<and> sys_idle s' \<and>
      aichip_of (dev s') = aichip_of (dev s) \<and> sys_fin s' = sys_fin s \<and> acc_load A (aichip_of (dev s)) m (int k) = Inr b"
    using load_effect [OF r(2,3) o m] sys_read [of A it s lo "mem_off m k" s'] i by (auto simp: sys_idle_def sys_fin_def)
qed

end

end
