(* ===== verification/Host.thy ===== *)
theory Host imports Periph begin

text \<open>
  The host program (binnet/main.cpp): it reads the weights of the three layers, lays them out
  in the accelerator's weight memory, either as three full matrices or as one merged matrix, and
  classifies the images one after the other.  The program is generic in the peripheral.

  A text file is given by the values that successive \<open>fscanf\<close> conversions store, a binary file
  by its bytes; a file that cannot be opened is \<open>None\<close>.  The calls that have no effect on the
  results (\<open>printf\<close>, \<open>m5_dumpreset_stats\<close>, \<open>mmap\<close>, \<open>periLogout\<close>, \<open>fclose\<close>) are left out.
\<close>

section \<open>The weights\<close>

type_synonym matrix = "int \<Rightarrow> int \<Rightarrow> byte"
type_synonym vector = "int \<Rightarrow> f32"

text \<open>The global arrays of a layer, and those of the program; all start as zero.\<close>

record layer =
  fc_wt :: matrix
  bn_b :: vector
  bn_w :: vector
  bn_var :: vector
  bn_mean :: vector

record weights =
  layer1 :: layer
  layer2 :: layer
  layer3 :: layer
  overall :: layer

definition zero_layer :: layer where
  "zero_layer = \<lparr>fc_wt = (\<lambda>i j. 0), bn_b = (\<lambda>i. 0), bn_w = (\<lambda>i. 0), bn_var = (\<lambda>i. 0), bn_mean = (\<lambda>i. 0)\<rparr>"

definition zero_weights :: weights where
  "zero_weights = \<lparr>layer1 = zero_layer, layer2 = zero_layer, layer3 = zero_layer, overall = zero_layer\<rparr>"

record files =
  int_file :: "string \<Rightarrow> byte list option"
  float_file :: "string \<Rightarrow> f32 list option"
  bin_file :: "string \<Rightarrow> byte list option"

definition fopen :: "'f option \<Rightarrow> 'f res" where
  "fopen f = (case f of None \<Rightarrow> Inl AssertFail | Some vs \<Rightarrow> Inr vs)"

text \<open>A conversion at the end of the file stores nothing.\<close>

definition upd_matrix :: "matrix \<Rightarrow> int \<Rightarrow> int \<Rightarrow> byte \<Rightarrow> matrix" where
  "upd_matrix f i j v = f(i := (f i)(j := v))"

definition scan_cell :: "int \<Rightarrow> int \<Rightarrow> byte list \<times> matrix \<Rightarrow> byte list \<times> matrix" where
  "scan_cell i j st = (case st of ([], f) \<Rightarrow> ([], f) | (v # vs, f) \<Rightarrow> (vs, upd_matrix f i j v))"

definition scan_elem :: "int \<Rightarrow> f32 list \<times> vector \<Rightarrow> f32 list \<times> vector" where
  "scan_elem i st = (case st of ([], f) \<Rightarrow> ([], f) | (v # vs, f) \<Rightarrow> (vs, f(i := v)))"

definition read_fc :: "files \<Rightarrow> string \<Rightarrow> int \<Rightarrow> int \<Rightarrow> int \<Rightarrow> int \<Rightarrow> matrix \<Rightarrow> matrix res" where
  "read_fc fs name row_bias rows col_bias cols f =
     bindR (fopen (int_file fs name)) (\<lambda>vs.
     Inr (snd (fold (\<lambda>i. fold (scan_cell i) (idx col_bias (col_bias + cols) 1)) (idx row_bias (row_bias + rows) 1) (vs, f))))"

definition read_bn :: "files \<Rightarrow> string \<Rightarrow> int \<Rightarrow> int \<Rightarrow> vector \<Rightarrow> vector res" where
  "read_bn fs name row_bias rows f =
     bindR (fopen (float_file fs name)) (\<lambda>vs.
     Inr (snd (fold scan_elem (idx row_bias (row_bias + rows) 1) (vs, f))))"

definition read_bns :: "files \<Rightarrow> string \<Rightarrow> string \<Rightarrow> string \<Rightarrow> string \<Rightarrow> int \<Rightarrow> int \<Rightarrow> layer \<Rightarrow> layer res" where
  "read_bns fs bname wname vname mname row_bias rows l =
     bindR (read_bn fs bname row_bias rows (bn_b l)) (\<lambda>b.
     bindR (read_bn fs wname row_bias rows (bn_w l)) (\<lambda>w.
     bindR (read_bn fs vname row_bias rows (bn_var l)) (\<lambda>v.
     bindR (read_bn fs mname row_bias rows (bn_mean l)) (\<lambda>m.
     Inr (l\<lparr>bn_b := b, bn_w := w, bn_var := v, bn_mean := m\<rparr>)))))"

definition read_weights :: "files \<Rightarrow> weights \<Rightarrow> weights res" where
  "read_weights fs w =
     bindR (read_fc fs ''data/fc1_weight.txt'' 10 64 0 784 (fc_wt (layer1 w))) (\<lambda>m1.
     bindR (read_fc fs ''data/fc2_weight.txt'' 768 256 10 64 (fc_wt (layer2 w))) (\<lambda>m2.
     bindR (read_fc fs ''data/fc3_weight.txt'' 0 10 768 256 (fc_wt (layer3 w))) (\<lambda>m3.
     bindR (read_bns fs ''data/bn1_bias.txt'' ''data/bn1_weight.txt'' ''data/bn1_var.txt'' ''data/bn1_mean.txt'' 10 64
              ((layer1 w)\<lparr>fc_wt := m1\<rparr>)) (\<lambda>l1.
     bindR (read_bns fs ''data/bn2_bias.txt'' ''data/bn2_weight.txt'' ''data/bn2_var.txt'' ''data/bn2_mean.txt'' 768 256
              ((layer2 w)\<lparr>fc_wt := m2\<rparr>)) (\<lambda>l2.
     bindR (read_bns fs ''data/bn3_bias.txt'' ''data/bn3_weight.txt'' ''data/bn3_var.txt'' ''data/bn3_mean.txt'' 0 10
              ((layer3 w)\<lparr>fc_wt := m3\<rparr>)) (\<lambda>l3.
     Inr (w\<lparr>layer1 := l1, layer2 := l2, layer3 := l3\<rparr>)))))))"

text \<open>The second half of \<open>load_weights\<close> copies the three layers into one.\<close>

definition copy_fc :: "int \<Rightarrow> int \<Rightarrow> int \<Rightarrow> int \<Rightarrow> matrix \<Rightarrow> matrix \<Rightarrow> matrix" where
  "copy_fc row_bias rows col_bias cols src dst =
     fold (\<lambda>i. fold (\<lambda>j f. upd_matrix f i j (src i j)) (idx col_bias (col_bias + cols) 1))
       (idx row_bias (row_bias + rows) 1) dst"

definition copy_bn :: "int \<Rightarrow> int \<Rightarrow> layer \<Rightarrow> layer \<Rightarrow> layer" where
  "copy_bn row_bias rows src dst =
     fold (\<lambda>i d. d\<lparr>bn_b := (bn_b d)(i := bn_b src i), bn_w := (bn_w d)(i := bn_w src i),
                  bn_var := (bn_var d)(i := bn_var src i), bn_mean := (bn_mean d)(i := bn_mean src i)\<rparr>)
       (idx row_bias (row_bias + rows) 1) dst"

definition merge_weights :: "weights \<Rightarrow> weights" where
  "merge_weights w =
     (let m1 = copy_fc 10 64 0 784 (fc_wt (layer1 w)) (fc_wt (overall w));
          m2 = copy_fc 768 256 10 64 (fc_wt (layer2 w)) m1;
          m3 = copy_fc 0 10 768 256 (fc_wt (layer3 w)) m2;
          o0 = (overall w)\<lparr>fc_wt := m3\<rparr>;
          o1 = copy_bn 10 64 (layer1 w) o0;
          o2 = copy_bn 768 256 (layer2 w) o1;
          o3 = copy_bn 0 10 (layer3 w) o2
      in w\<lparr>overall := o3\<rparr>)"

definition load_weights :: "files \<Rightarrow> weights \<Rightarrow> weights res" where
  "load_weights fs w = bindR (read_weights fs w) (\<lambda>w'. Inr (merge_weights w'))"

section \<open>The program\<close>

text \<open>The bytes of the arrays, row by row and little endian.\<close>

definition matrix_bytes :: "matrix \<Rightarrow> byte list" where
  "matrix_bytes f = map (\<lambda>k. f (int (k div 1024)) (int (k mod 1024))) [0..<1048576]"

definition vector_bytes :: "vector \<Rightarrow> byte list" where
  "vector_bytes v = map (\<lambda>k. byte_of (v (int (k div 4))) (k mod 4)) [0..<4096]"

definition send_layer :: "'s periph \<Rightarrow> nat \<Rightarrow> layer \<Rightarrow> nat \<times> 's \<Rightarrow> (nat \<times> 's) res" where
  "send_layer P F l st =
     (let (off, s) = st in
      bindR (periWrite P F off (matrix_bytes (fc_wt l)) s) (\<lambda>s1.
      bindR (periWrite P F (off + 1048576) (vector_bytes (bn_b l)) s1) (\<lambda>s2.
      bindR (periWrite P F (off + 1048576 + 4096) (vector_bytes (bn_w l)) s2) (\<lambda>s3.
      bindR (periWrite P F (off + 1048576 + 4096 + 4096) (vector_bytes (bn_var l)) s3) (\<lambda>s4.
      bindR (periWrite P F (off + 1048576 + 4096 + 4096 + 4096) (vector_bytes (bn_mean l)) s4) (\<lambda>s5.
      Inr (off + 1048576 + 4096 + 4096 + 4096 + 4096, s5)))))))"

definition send_weights :: "'s periph \<Rightarrow> nat \<Rightarrow> bool \<Rightarrow> weights \<Rightarrow> 's \<Rightarrow> 's res" where
  "send_weights P F once w s =
     bindR (if once then send_layer P F (overall w) (2 + 1024 * 1024 * 2, s)
            else bindR (send_layer P F (layer1 w) (2 + 1024 * 1024 * 2, s)) (\<lambda>st1.
                 bindR (send_layer P F (layer2 w) st1) (\<lambda>st2.
                 send_layer P F (layer3 w) st2)))
       (\<lambda>(off, s'). Inr s')"

text \<open>\<open>fread\<close> of \<open>n\<close> bytes: what the file does not provide keeps the buffer's contents.\<close>

definition fread :: "nat \<Rightarrow> (nat \<Rightarrow> byte) \<Rightarrow> byte list \<Rightarrow> byte list \<times> byte list" where
  "fread n buf f = (map (\<lambda>k. if k < length f then f ! k else buf k) [0..<n], drop n f)"

text \<open>One image.  \<open>buf\<close> is the indeterminate contents of \<open>input_byte\<close>, \<open>r0\<close> those of
  \<open>finalresult[count]\<close>, of which \<open>periRead\<close> sets one byte.\<close>

definition classify_image :: "'s periph \<Rightarrow> nat \<Rightarrow> (nat \<Rightarrow> byte) \<Rightarrow> 32 word \<Rightarrow> byte list \<Rightarrow> 's \<Rightarrow> (byte list \<times> 's \<times> 32 word) res" where
  "classify_image P F buf r0 f s =
     (let (img, f') = fread 784 buf f in
      bindR (periWrite P F (2 + 1024 * 1024) img s) (\<lambda>s1.
      bindR (forR (\<lambda>j. periInit P F (word_of_int j)) (idx 1 8 1) s1) (\<lambda>s2.
      bindR (periIsFinished P s2) (\<lambda>(s3, fini).
      bindR (guardR fini AssertFail) (\<lambda>_.
      bindR (periRead P F 2 1 s3) (\<lambda>(s4, bs).
      Inr (f', s4, with_byte r0 0 (hd bs))))))))"

text \<open>The loop over the images: \<open>junk\<close> gives the indeterminate contents of each iteration.\<close>

type_synonym junk = "((nat \<Rightarrow> byte) \<times> 32 word) list"

fun classify_images :: "'s periph \<Rightarrow> nat \<Rightarrow> junk \<Rightarrow> byte list \<Rightarrow> 's \<Rightarrow> ('s \<times> 32 word list) res" where
  "classify_images P F [] f s = Inr (s, [])"
| "classify_images P F ((buf, r0) # junk) f s =
     bindR (classify_image P F buf r0 f s) (\<lambda>(f', s1, r).
     bindR (classify_images P F junk f' s1) (\<lambda>(s2, rs). Inr (s2, r # rs)))"

text \<open>\<open>finalresult[i] == target_list[i]\<close> compares an \<open>int\<close> with a \<open>uint8_t\<close>.\<close>

definition count_correct :: "32 word list \<Rightarrow> byte list \<Rightarrow> nat" where
  "count_correct rs ts = length (filter (\<lambda>(r, t). sint r = uint t) (zip rs ts))"

text \<open>\<open>main\<close> after the start-up request.  \<open>TOTAL_NUM\<close> is the length of \<open>junk\<close>; \<open>tbuf\<close> is the
  indeterminate contents of \<open>target_list\<close>.  The result is the final state, \<open>finalresult\<close> and
  \<open>correct\<close>.\<close>

definition main_body :: "'s periph \<Rightarrow> nat \<Rightarrow> files \<Rightarrow> bool \<Rightarrow> junk \<Rightarrow> (nat \<Rightarrow> byte) \<Rightarrow> 's \<Rightarrow>
    ('s \<times> 32 word list \<times> nat) res" where
  "main_body P F fs once junk tbuf s =
     bindR (load_weights fs zero_weights) (\<lambda>w.
     bindR (send_weights P F once w s) (\<lambda>s1.
     bindR (fopen (bin_file fs ''data/images-mnist-test-01347'')) (\<lambda>imgs.
     bindR (classify_images P F junk imgs s1) (\<lambda>(s2, finalresult).
     bindR (fopen (bin_file fs ''data/labels-mnist-test-01347'')) (\<lambda>labels.
     Inr (s2, finalresult, count_correct finalresult (fst (fread (length junk) tbuf labels))))))))"

definition host_main :: "'s periph \<Rightarrow> nat \<Rightarrow> files \<Rightarrow> bool \<Rightarrow> junk \<Rightarrow> (nat \<Rightarrow> byte) \<Rightarrow> 's \<Rightarrow>
    ('s \<times> 32 word list \<times> nat) res" where
  "host_main P F fs once junk tbuf s =
     bindR (periInit P F 0 s) (main_body P F fs once junk tbuf)"

end
