(* ===== verification/Host_Run.thy ===== *)
theory Host_Run imports Host begin

text \<open>
  Runs of the host program on a peripheral: through the driver, the program does to the
  accelerator what the same writes, requests and reads do to it directly, in bounded time.
\<close>

section \<open>The program on the accelerator itself\<close>

definition layer_bytes :: "layer \<Rightarrow> byte list" where
  "layer_bytes l = matrix_bytes (fc_wt l) @ vector_bytes (bn_b l) @ vector_bytes (bn_w l) @ vector_bytes (bn_var l) @
     vector_bytes (bn_mean l)"

definition layers_sent :: "bool \<Rightarrow> weights \<Rightarrow> layer list" where
  "layers_sent once w = (if once then [overall w] else [layer1 w, layer2 w, layer3 w])"

definition acc_image :: "'a accel \<Rightarrow> byte list \<Rightarrow> 'a \<Rightarrow> ('a \<times> byte) res" where
  "acc_image A img a =
     bindR (write_bytes A 2 0 img a) (\<lambda>a1. bindR (acc_seq A [1, 2, 3, 4, 5, 6, 7] a1) (\<lambda>a2.
     bindR (acc_load A a2 1 0) (\<lambda>b. Inr (a2, b))))"

fun acc_images :: "'a accel \<Rightarrow> byte list list \<Rightarrow> 'a \<Rightarrow> ('a \<times> byte list) res" where
  "acc_images A [] a = Inr (a, [])"
| "acc_images A (img # imgs) a =
     bindR (acc_image A img a) (\<lambda>(a1, b). bindR (acc_images A imgs a1) (\<lambda>(a2, bs). Inr (a2, b # bs)))"

definition acc_main :: "'a accel \<Rightarrow> layer list \<Rightarrow> byte list list \<Rightarrow> 'a \<Rightarrow> ('a \<times> byte list) res" where
  "acc_main A ls imgs a = bindR (write_bytes A 3 0 (concat (map layer_bytes ls)) a) (acc_images A imgs)"

text \<open>The seven requests of an image end with the FINISH flag.\<close>

definition answers :: "'a accel \<Rightarrow> bool" where
  "answers A \<longleftrightarrow> (\<forall>a a'. acc_seq A [1, 2, 3, 4, 5, 6, 7] a = Inr a' \<longrightarrow> acc_finished A a')"

text \<open>The images the loop reads from the file.\<close>

fun images_of :: "junk \<Rightarrow> byte list \<Rightarrow> byte list list" where
  "images_of [] f = []"
| "images_of ((buf, r0) # junk) f = fst (fread 784 buf f) # images_of junk (drop 784 f)"

definition results :: "junk \<Rightarrow> byte list \<Rightarrow> 32 word list" where
  "results junk bs = map2 (\<lambda>(buf, r0) b. with_byte r0 0 b) junk bs"

lemma length_bytes [simp]: "length (matrix_bytes f) = 1048576" "length (vector_bytes v) = 4096"
  by (simp_all add: matrix_bytes_def vector_bytes_def)

lemma length_layer [simp]: "length (layer_bytes l) = 1064960"
  by (simp add: layer_bytes_def)

lemma length_fread [simp]: "length (fst (fread n buf f)) = n" "snd (fread n buf f) = drop n f"
  by (simp_all add: fread_def)

lemma write_bytes_append:
  "write_bytes A m k (bs @ cs) a = bindR (write_bytes A m k bs a) (write_bytes A m (k + int (length bs)) cs)"
proof (induction bs arbitrary: k a)
  case (Cons b bs)
  have "k + 1 + int (length bs) = k + int (length (b # bs))" by simp
  then show ?case using Cons [of "k + 1"] by (simp add: bindR_def add.assoc split: sum.split)
qed simp

section \<open>Through the driver\<close>

text \<open>The rounds of the event queue one layer and one image take at most.\<close>

definition layer_rounds :: nat where "layer_rounds = 1064965"
definition image_rounds :: nat where "image_rounds = 823"

context peripheral
begin

lemma send_layer_ok:
  assumes g: "good (n + layer_rounds) s" and i: "idle s" and r: "mem_room msize 3 (k + 1064960)" and F: "0 < F"
  shows "\<exists>s'. send_layer P F l (mem_off 3 k, s) = Inr (mem_off 3 (k + 1064960), s') \<and> good n s' \<and> idle s' \<and>
     write_bytes A 3 (int k) (layer_bytes l) (chip s) = Inr (chip s')"
proof -
  have room: "mem_room msize 3 (k + d)" if "d \<le> 1064960" for d using r that by (simp add: mem_room_def)
  have g0: "good (n + 4097 + 4097 + 4097 + 4097 + length (matrix_bytes (fc_wt l)) + 1) s" using g by (simp add: layer_rounds_def add.commute)
  obtain s1 where s1: "periWrite P F (mem_off 3 k) (matrix_bytes (fc_wt l)) s = Inr s1" "good (n + 4097 + 4097 + 4097 + 4097) s1"
      "idle s1" "write_bytes A 3 (int k) (matrix_bytes (fc_wt l)) (chip s) = Inr (chip s1)"
    using write_ok [OF g0 i _ F, of 3 k] room by auto
  have step: "\<exists>s'. periWrite P F (mem_off 3 (k + d)) (vector_bytes v) t = Inr s' \<and> good m s' \<and> idle s' \<and>
      write_bytes A 3 (int (k + d)) (vector_bytes v) (chip t) = Inr (chip s')"
    if "good (m + 4097) t" "idle t" "d + 4096 \<le> 1064960" for m t d v
  proof -
    have "m + length (vector_bytes v) + 1 = m + 4097" by simp
    then have "good (m + length (vector_bytes v) + 1) t" using that(1) by (simp only:)
    then show ?thesis using write_ok [of m "vector_bytes v" t 3 "k + d" F] that(2,3) room [of "d + 4096"] F by (simp add: add.assoc)
  qed
  obtain s2 where s2: "periWrite P F (mem_off 3 (k + 1048576)) (vector_bytes (bn_b l)) s1 = Inr s2" "good (n + 4097 + 4097 + 4097) s2"
      "idle s2" "write_bytes A 3 (int (k + 1048576)) (vector_bytes (bn_b l)) (chip s1) = Inr (chip s2)"
    using step [OF s1(2,3), of 1048576] by auto
  obtain s3 where s3: "periWrite P F (mem_off 3 (k + 1052672)) (vector_bytes (bn_w l)) s2 = Inr s3" "good (n + 4097 + 4097) s3"
      "idle s3" "write_bytes A 3 (int (k + 1052672)) (vector_bytes (bn_w l)) (chip s2) = Inr (chip s3)"
    using step [OF s2(2,3), of 1052672] by auto
  obtain s4 where s4: "periWrite P F (mem_off 3 (k + 1056768)) (vector_bytes (bn_var l)) s3 = Inr s4" "good (n + 4097) s4"
      "idle s4" "write_bytes A 3 (int (k + 1056768)) (vector_bytes (bn_var l)) (chip s3) = Inr (chip s4)"
    using step [OF s3(2,3), of 1056768] by auto
  obtain s5 where s5: "periWrite P F (mem_off 3 (k + 1060864)) (vector_bytes (bn_mean l)) s4 = Inr s5" "good n s5"
      "idle s5" "write_bytes A 3 (int (k + 1060864)) (vector_bytes (bn_mean l)) (chip s4) = Inr (chip s5)"
    using step [OF s4(2,3), of 1060864] by auto
  have off: "mem_off 3 k + 1048576 = mem_off 3 (k + 1048576)" "mem_off 3 (k + 1048576) + 4096 = mem_off 3 (k + 1052672)"
    "mem_off 3 (k + 1052672) + 4096 = mem_off 3 (k + 1056768)" "mem_off 3 (k + 1056768) + 4096 = mem_off 3 (k + 1060864)"
    "mem_off 3 (k + 1060864) + 4096 = mem_off 3 (k + 1064960)"
    by (simp_all add: mem_off_def)
  have "send_layer P F l (mem_off 3 k, s) = Inr (mem_off 3 (k + 1064960), s5)"
    unfolding send_layer_def Let_def prod.case off s1(1) bindR_Inr s2(1) s3(1) s4(1) s5(1) ..
  moreover have "write_bytes A 3 (int k) (layer_bytes l) (chip s) = Inr (chip s5)"
    using s1(4) s2(4) s3(4) s4(4) s5(4) by (simp add: layer_bytes_def write_bytes_append add.assoc)
  ultimately show ?thesis using s5(2,3) by blast
qed

lemma send_weights_ok:
  assumes g: "good (n + layer_rounds * length (layers_sent once w)) s" and i: "idle s" and r: "3194880 \<le> msize 3" and F: "0 < F"
  shows "\<exists>s'. send_weights P F once w s = Inr s' \<and> good n s' \<and> idle s' \<and>
     write_bytes A 3 0 (concat (map layer_bytes (layers_sent once w))) (chip s) = Inr (chip s')"
proof -
  have room: "mem_room msize 3 d" if "d \<le> 3194880" for d using r that by (simp add: mem_room_def)
  have b: "(2 + 1024 * 1024 * 2 :: nat) = mem_off 3 0" by (simp add: mem_off_def)
  show ?thesis
  proof (cases once)
    case True
    then have "good (n + layer_rounds) s" using g by (simp add: layers_sent_def)
    then obtain s' where "send_layer P F (overall w) (mem_off 3 0, s) = Inr (mem_off 3 (0 + 1064960), s')" "good n s'" "idle s'"
        "write_bytes A 3 (int 0) (layer_bytes (overall w)) (chip s) = Inr (chip s')"
      using send_layer_ok [of n s 0 F "overall w"] i F room by auto
    then show ?thesis using True unfolding send_weights_def b by (simp add: layers_sent_def)
  next
    case False
    then have g0: "good (n + layer_rounds + layer_rounds + layer_rounds) s" using g by (simp add: layers_sent_def algebra_simps)
    obtain s1 where s1: "send_layer P F (layer1 w) (mem_off 3 0, s) = Inr (mem_off 3 1064960, s1)"
        "good (n + layer_rounds + layer_rounds) s1" "idle s1" "write_bytes A 3 0 (layer_bytes (layer1 w)) (chip s) = Inr (chip s1)"
      using send_layer_ok [OF g0 i _ F, of 0 "layer1 w"] room by auto
    obtain s2 where s2: "send_layer P F (layer2 w) (mem_off 3 1064960, s1) = Inr (mem_off 3 2129920, s2)"
        "good (n + layer_rounds) s2" "idle s2" "write_bytes A 3 1064960 (layer_bytes (layer2 w)) (chip s1) = Inr (chip s2)"
      using send_layer_ok [OF s1(2,3) _ F, of 1064960 "layer2 w"] room by auto
    obtain s3 where s3: "send_layer P F (layer3 w) (mem_off 3 2129920, s2) = Inr (mem_off 3 3194880, s3)"
        "good n s3" "idle s3" "write_bytes A 3 2129920 (layer_bytes (layer3 w)) (chip s2) = Inr (chip s3)"
      using send_layer_ok [OF s2(2,3) _ F, of 2129920 "layer3 w"] room by auto
    show ?thesis using False s1 s2 s3 unfolding send_weights_def b by (simp add: layers_sent_def write_bytes_append)
  qed
qed

lemma classify_image_ok:
  assumes g: "good (n + image_rounds) s" and i: "idle s" and r: "784 \<le> msize 2" "1 \<le> msize 1" and F: "limit < F"
    and fi: "answers A"
  shows "\<exists>s' b. classify_image P F buf r0 f s = Inr (drop 784 f, s', with_byte r0 0 b) \<and> good n s' \<and> idle s' \<and>
     acc_image A (fst (fread 784 buf f)) (chip s) = Inr (chip s', b)"
proof -
  let ?img = "fst (fread 784 buf f)" and ?cs = "[1, 2, 3, 4, 5, 6, 7] :: byte list"
  have "good (n + 3 + 35 + length ?img + 1) s" using g by (simp add: image_rounds_def add.commute)
  then obtain s1 where s1: "periWrite P F (mem_off 2 0) ?img s = Inr s1" "good (n + 3 + 35) s1" "idle s1"
      "write_bytes A 2 0 ?img (chip s) = Inr (chip s1)"
    using write_ok [of "n + 3 + 35" ?img s 2 0 F] i F r(1) by (auto simp: mem_room_def)
  have "good (n + 3 + 5 * length ?cs) s1" using s1(2) by simp
  then obtain s2 where s2: "forR (periInit P F) ?cs s1 = Inr s2" "good (n + 3) s2" "idle s2" "acc_seq A ?cs (chip s1) = Inr (chip s2)"
      "fin s2 = acc_finished A (chip s2)"
    using inits_ok [of "n + 3" ?cs s1 F] s1(3) F by auto
  have l: "forR (\<lambda>j. periInit P F (word_of_int j)) (idx 1 8 1) s1 = Inr s2"
  proof -
    have "map word_of_int (idx 1 8 1) = ?cs" by (simp add: idx.simps)
    then show ?thesis using s2(1) forR_map [of "periInit P F" word_of_int "idx 1 8 1" s1] by (simp only:)
  qed
  have "good (Suc (n + 2)) s2" using s2(2) by (simp add: eval_nat_numeral)
  then obtain s3 where s3: "periIsFinished P s2 = Inr (s3, True)" "good (n + 2) s3" "idle s3" "chip s3 = chip s2"
    using finished_ok [OF _ s2(3)] s2(4,5) fi by (fastforce simp: answers_def)
  obtain s4 b where s4: "periRead P F (mem_off 1 0) 1 s3 = Inr (s4, [b])" "good n s4" "idle s4" "chip s4 = chip s3"
      "acc_load A (chip s3) 1 (int 0) = Inr b"
    using read_byte_ok [OF s3(2,3), of 1 0 F] r(2) F by (auto simp: mem_room_def)
  have off: "2 + 1024 * 1024 = mem_off 2 0" "2 = mem_off 1 0" by (simp_all add: mem_off_def)
  have "classify_image P F buf r0 f s = Inr (drop 784 f, s4, with_byte r0 0 b)"
    using s1(1) l s3(1) s4(1) unfolding classify_image_def off [symmetric] by (simp add: fread_def)
  then show ?thesis using s1(4) s2(4) s3(4) s4 by (auto simp: acc_image_def)
qed

lemma classify_images_ok:
  assumes "good (n + image_rounds * length junk) s" and "idle s" and r: "784 \<le> msize 2" "1 \<le> msize 1" and F: "limit < F"
    and fi: "answers A"
  shows "\<exists>s' bs. classify_images P F junk f s = Inr (s', results junk bs) \<and> length bs = length junk \<and> good n s' \<and> idle s' \<and>
     acc_images A (images_of junk f) (chip s) = Inr (chip s', bs)"
  using assms(1,2)
proof (induction junk arbitrary: f s)
  case Nil
  then show ?case by (simp add: results_def)
next
  case (Cons e junk)
  obtain buf r0 where e: "e = (buf, r0)" by (cases e)
  have "good (n + image_rounds * length junk + image_rounds) s" using Cons.prems(1) by (simp add: algebra_simps)
  then obtain s1 b where s1: "classify_image P F buf r0 f s = Inr (drop 784 f, s1, with_byte r0 0 b)"
      "good (n + image_rounds * length junk) s1" "idle s1" "acc_image A (fst (fread 784 buf f)) (chip s) = Inr (chip s1, b)"
    using classify_image_ok [OF _ Cons.prems(2) r F fi] by blast
  obtain s2 bs where "classify_images P F junk (drop 784 f) s1 = Inr (s2, results junk bs)" "length bs = length junk" "good n s2"
      "idle s2" "acc_images A (images_of junk (drop 784 f)) (chip s1) = Inr (chip s2, bs)"
    using Cons.IH [OF s1(2,3)] by blast
  then show ?case using s1 e by (intro exI [of _ s2] exI [of _ "b # bs"]) (simp add: results_def)
qed

text \<open>The whole program after the start-up request.\<close>

lemma main_body_ok:
  assumes g: "good (layer_rounds * 3 + image_rounds * length junk) s" and i: "idle s"
    and r: "784 \<le> msize 2" "1 \<le> msize 1" "3194880 \<le> msize 3" and F: "limit < F"
    and mono: "\<And>n s. good (Suc n) s \<Longrightarrow> good n s"
    and fi: "answers A"
    and w: "load_weights fs zero_weights = Inr w" and im: "bin_file fs ''data/images-mnist-test-01347'' = Some imgs"
    and la: "bin_file fs ''data/labels-mnist-test-01347'' = Some labels"
  shows "\<exists>s' bs. main_body P F fs once junk tbuf s = Inr (s', results junk bs,
        count_correct (results junk bs) (fst (fread (length junk) tbuf labels))) \<and> length bs = length junk \<and>
     idle s' \<and> acc_main A (layers_sent once w) (images_of junk imgs) (chip s) = Inr (chip s', bs)"
proof -
  have down: "good (k + m) t \<Longrightarrow> good k t" for k m t
    by (induction m) (use mono in auto)
  have "good (image_rounds * length junk + layer_rounds * length (layers_sent once w)) s"
    using g down [of "image_rounds * length junk + layer_rounds" "layer_rounds * 2" s]
    by (cases once) (simp_all add: layers_sent_def layer_rounds_def algebra_simps)
  then obtain s1 where s1: "send_weights P F once w s = Inr s1" "good (image_rounds * length junk) s1" "idle s1"
      "write_bytes A 3 0 (concat (map layer_bytes (layers_sent once w))) (chip s) = Inr (chip s1)"
    using send_weights_ok [OF _ i r(3), of "image_rounds * length junk" once w F] F by auto
  have "good (0 + image_rounds * length junk) s1" using s1(2) by simp
  then obtain s2 bs where "classify_images P F junk imgs s1 = Inr (s2, results junk bs)" "length bs = length junk" "idle s2"
      "acc_images A (images_of junk imgs) (chip s1) = Inr (chip s2, bs)"
    using classify_images_ok [OF _ s1(3) r(1,2) F fi] by blast
  then show ?thesis using s1 w im la by (simp add: main_body_def fopen_def acc_main_def)
qed

end

end
