(* ===== verification/Simd.thy ===== *)
theory Simd imports Memory_Hub begin

text \<open>
  The 4-wide floating-point unit of the CNN accelerator (vdev/SimpleCNN/simd.h):
  \<open>struct Data\<close> and the multiply-accumulate, add, ReLU and maximum operations, each
  returning the cycles it takes.
\<close>

datatype Data = Data f32 f32 f32 f32

fun data_list :: "Data \<Rightarrow> f32 list" where
  "data_list (Data a b c d) = [a, b, c, d]"

text \<open>\<open>std::max(a, b)\<close> is \<open>(a < b) ? b : a\<close>.\<close>

definition std_max :: "f32 \<Rightarrow> f32 \<Rightarrow> f32" where
  "std_max a b = (if f32_lt a b then b else a)"

fun mac :: "Data \<Rightarrow> Data \<Rightarrow> Data \<Rightarrow> Data \<times> int" where
  "mac (Data s0 s1 s2 s3) (Data a0 a1 a2 a3) (Data b0 b1 b2 b3) =
     (Data (f32_add s0 (f32_mul a0 b0)) (f32_add s1 (f32_mul a1 b1))
           (f32_add s2 (f32_mul a2 b2)) (f32_add s3 (f32_mul a3 b3)), 1)"

fun simd_add :: "Data \<Rightarrow> Data \<Rightarrow> Data \<times> int" where
  "simd_add (Data s0 s1 s2 s3) (Data a0 a1 a2 a3) =
     (Data (f32_add s0 a0) (f32_add s1 a1) (f32_add s2 a2) (f32_add s3 a3), 1)"

fun relu :: "Data \<Rightarrow> Data \<times> int" where
  "relu (Data s0 s1 s2 s3) = (Data (std_max s0 0) (std_max s1 0) (std_max s2 0) (std_max s3 0), 1)"

fun simd_max :: "Data \<Rightarrow> Data \<Rightarrow> Data \<times> int" where
  "simd_max (Data s0 s1 s2 s3) (Data a0 a1 a2 a3) =
     (Data (std_max s0 a0) (std_max s1 a1) (std_max s2 a2) (std_max s3 a3), 1)"

section \<open>Lemmas\<close>

definition data_all :: "(f32 \<Rightarrow> bool) \<Rightarrow> Data \<Rightarrow> bool" where
  "data_all P d \<longleftrightarrow> list_all P (data_list d)"

lemma data_all_Data [simp]: "data_all P (Data a b c d) \<longleftrightarrow> P a \<and> P b \<and> P c \<and> P d"
  by (simp add: data_all_def)

lemma mac_cycles [simp]: "snd (mac s a b) = 1"
  by (cases s; cases a; cases b) simp

lemma simd_add_cycles [simp]: "snd (simd_add s a) = 1"
  by (cases s; cases a) simp

lemma relu_cycles [simp]: "snd (relu s) = 1"
  by (cases s) simp

lemma simd_max_cycles [simp]: "snd (simd_max s a) = 1"
  by (cases s; cases a) simp

lemma mac_sum_ok: "data_all f32_sum_ok s \<Longrightarrow> data_all f32_sum_ok (fst (mac s a b))"
  by (cases s; cases a; cases b) (simp add: f32_add_sum_ok)

lemma mac_zero_weight:
  "data_all f32_sum_ok s \<Longrightarrow> data_all f32_finite a \<Longrightarrow> data_all f32_is_zero b \<Longrightarrow> fst (mac s a b) = s"
  by (cases s; cases a; cases b) (simp add: f32_mac_zero)

lemma std_max_nonneg: "\<not> f32_lt (std_max a 0) 0"
  by (simp add: std_max_def)

lemma relu_nonneg: "data_all (\<lambda>x. \<not> f32_lt x 0) (fst (relu s))"
  by (cases s) (simp add: std_max_nonneg)

lemma std_max_ge: "\<not> f32_nan a \<Longrightarrow> \<not> f32_nan b \<Longrightarrow> \<not> f32_lt (std_max a b) a \<and> \<not> f32_lt (std_max a b) b"
  using f32_lt_asym by (simp add: std_max_def)

end
