(* ===== verification/Cnn_Core.thy ===== *)
theory Cnn_Core imports Simd begin

text \<open>
  The CNN accelerator's operations (\<open>class Core\<close>): the modified
  hw3/simplecnn_modified/core.cpp, which skips groups of four zero weights, and the
  original convolution and fully connected loops it replaces
  (gem5/src/vdev/SimpleCNN/core.cpp).  Every operation takes the memory hub and returns
  the new hub and the cycles used, or the fault it stops with.
\<close>

record core =
  hub :: memhub
  outputIndex :: int

section \<open>Set-up\<close>

definition op_init :: "core \<Rightarrow> (core \<times> int) res" where
  "op_init c = (let h0 = hub c in
     bindR (getMemory h0 ''weight_and_bias_mem'') (\<lambda>wm. bindR (getPtr wm 0 0 0 0) (\<lambda>p0.
     let h1 = addSharedMemory ''model/conv2d/kernel'' p0 5 5 1 32 h0;
         p1 = ptr_add p0 (5 * 5 * 1 * 32);
         h2 = addSharedMemory ''model/conv2d/bias'' p1 32 1 1 1 h1;
         p2 = ptr_add p1 32;
         h3 = addSharedMemory ''model/conv2d_1/kernel'' p2 5 5 32 64 h2;
         p3 = ptr_add p2 (5 * 5 * 32 * 64);
         h4 = addSharedMemory ''model/conv2d_1/bias'' p3 64 1 1 1 h3;
         p4 = ptr_add p3 64;
         h5 = addSharedMemory ''model/dense/kernel'' p4 3136 512 1 1 h4;
         p5 = ptr_add p4 (3136 * 512);
         h6 = addSharedMemory ''model/dense/bias'' p5 512 1 1 1 h5;
         p6 = ptr_add p5 512;
         h7 = addSharedMemory ''model/dense_1/kernel'' p6 512 10 1 1 h6;
         p7 = ptr_add p6 (512 * 10);
         h8 = addSharedMemory ''model/dense_1/bias'' p7 10 1 1 1 h7
     in bindR (getMemory h8 ''activation_mem1'') (\<lambda>a1. bindR (getPtr a1 0 0 0 0) (\<lambda>m1.
        bindR (getMemory h8 ''activation_mem2'') (\<lambda>a2. bindR (getPtr a2 0 0 0 0) (\<lambda>m2.
     let h9 = addSharedMemory ''data/padding/in'' m1 28 28 1 1 h8;
         h10 = addSharedMemory ''data/padding/out|conv2d/in'' m2 32 32 1 1 h9;
         h11 = addSharedMemory ''data/conv2d/out|pool/in'' m1 28 28 32 1 h10;
         h12 = addSharedMemory ''data/pool/out|padding_1/in'' m2 14 14 32 1 h11;
         h13 = addSharedMemory ''data/padding_1/out|conv2d_1/in'' m1 18 18 32 1 h12;
         h14 = addSharedMemory ''data/conv2d_1/out|pool_1/in'' m2 14 14 64 1 h13;
         h15 = addSharedMemory ''data/pool_1/out|dense/in'' m1 7 7 64 1 h14;
         h16 = addSharedMemory ''data/dense/out|dense_1/in'' m2 512 1 1 1 h15;
         h17 = addSharedMemory ''data/dense_1/out'' m1 10 1 1 1 h16
     in Inr (c\<lparr>hub := h17\<rparr>, 1))))))))"

section \<open>Input and output\<close>

definition op_input :: "core \<Rightarrow> string \<Rightarrow> string \<Rightarrow> (core \<times> int) res" where
  "op_input c fromMemName toMemName =
     bindR (getMemory (hub c) fromMemName) (\<lambda>fm. bindR (getPtr fm 0 0 0 0) (\<lambda>from.
     bindR (getMemory (hub c) toMemName) (\<lambda>tm. bindR (getPtr tm 0 0 0 0) (\<lambda>to.
     bindR (forR (\<lambda>x. forR (\<lambda>y h.
              bindR (loadB h from (x * 28 + y)) (\<lambda>b.
              storeF h (ptr_add to (x * 28 + y))
                (f32_sub (f32_div (f32_of_int (uint b)) (f32_of_int 255)) 0x3f000000)))
            (idx 0 28 1)) (idx 0 28 1) (hub c))
       (\<lambda>h. Inr (c\<lparr>hub := h\<rparr>, 10))))))"

text \<open>\<open>std::max_element(p, p + n) - p\<close>: the loads \<open>p[0] .. p[n-1]\<close>, then the first
  position no later element of which is greater than all before.\<close>

fun max_element :: "f32 \<Rightarrow> int \<Rightarrow> int \<Rightarrow> f32 list \<Rightarrow> int" where
  "max_element best at i [] = at"
| "max_element best at i (x # xs) =
     (if f32_lt best x then max_element x i (i + 1) xs else max_element best at (i + 1) xs)"

definition op_output :: "core \<Rightarrow> string \<Rightarrow> (core \<times> int) res" where
  "op_output c memName =
     bindR (getMemory (hub c) memName) (\<lambda>m. bindR (getPtr m 0 0 0 0) (\<lambda>ptr.
     bindR (loadF (hub c) ptr) (\<lambda>x0.
     bindR (forR (\<lambda>i xs. bindR (loadF (hub c) (ptr_add ptr i)) (\<lambda>v. Inr (xs @ [v]))) (idx 1 10 1) [])
       (\<lambda>xs. Inr (c\<lparr>outputIndex := max_element x0 0 1 xs\<rparr>, 10)))))"

section \<open>Convolution\<close>

definition load4_w :: "memhub \<Rightarrow> memory \<Rightarrow> int \<Rightarrow> int \<Rightarrow> int \<Rightarrow> int \<Rightarrow> Data res" where
  "load4_w h m xi yi zi wi =
     bindR (loadAt h m xi yi zi wi) (\<lambda>a. bindR (loadAt h m xi yi zi (wi + 1)) (\<lambda>b.
     bindR (loadAt h m xi yi zi (wi + 2)) (\<lambda>c. bindR (loadAt h m xi yi zi (wi + 3)) (\<lambda>d.
     Inr (Data a b c d)))))"

definition load4_z :: "memhub \<Rightarrow> memory \<Rightarrow> int \<Rightarrow> int \<Rightarrow> int \<Rightarrow> Data res" where
  "load4_z h m xi yi zi =
     bindR (loadAt h m xi yi zi 0) (\<lambda>a. bindR (loadAt h m xi yi (zi + 1) 0) (\<lambda>b.
     bindR (loadAt h m xi yi (zi + 2) 0) (\<lambda>c. bindR (loadAt h m xi yi (zi + 3) 0) (\<lambda>d.
     Inr (Data a b c d)))))"

definition load4_x :: "memhub \<Rightarrow> memory \<Rightarrow> int \<Rightarrow> Data res" where
  "load4_x h m xi =
     bindR (loadAt h m xi 0 0 0) (\<lambda>a. bindR (loadAt h m (xi + 1) 0 0 0) (\<lambda>b.
     bindR (loadAt h m (xi + 2) 0 0 0) (\<lambda>c. bindR (loadAt h m (xi + 3) 0 0 0) (\<lambda>d.
     Inr (Data a b c d)))))"

fun store4_z :: "memhub \<Rightarrow> memory \<Rightarrow> int \<Rightarrow> int \<Rightarrow> int \<Rightarrow> Data \<Rightarrow> memhub res" where
  "store4_z h m xi yi zi (Data a b c d) =
     bindR (storeAt h m xi yi zi 0 a) (\<lambda>h1. bindR (storeAt h1 m xi yi (zi + 1) 0 b) (\<lambda>h2.
     bindR (storeAt h2 m xi yi (zi + 2) 0 c) (\<lambda>h3. storeAt h3 m xi yi (zi + 3) 0 d)))"

definition flag_zero :: "Data \<Rightarrow> bool" where
  "flag_zero w = list_all (\<lambda>x. f32_eq x 0) (data_list w)"

text \<open>One pass of the innermost loop: with the skip of all-zero weights, and without.\<close>

definition conv_tap :: "memhub \<Rightarrow> memory \<Rightarrow> memory \<Rightarrow> int \<Rightarrow> int \<Rightarrow> int \<Rightarrow> int \<Rightarrow> int \<Rightarrow> int \<Rightarrow>
    Data \<times> int \<Rightarrow> (Data \<times> int) res" where
  "conv_tap h inm weight wX wY inX inY outChannel inChannel st =
     bindR (load4_w h weight wX wY inChannel outChannel) (\<lambda>w.
     bindR (loadAt h inm inX inY inChannel 0) (\<lambda>x.
     if flag_zero w then Inr st
     else (case mac (fst st) (Data x x x x) w of (acc, cy) \<Rightarrow> Inr (acc, snd st + cy))))"

definition conv_tap_orig :: "memhub \<Rightarrow> memory \<Rightarrow> memory \<Rightarrow> int \<Rightarrow> int \<Rightarrow> int \<Rightarrow> int \<Rightarrow> int \<Rightarrow> int \<Rightarrow>
    Data \<times> int \<Rightarrow> (Data \<times> int) res" where
  "conv_tap_orig h inm weight wX wY inX inY outChannel inChannel st =
     bindR (load4_w h weight wX wY inChannel outChannel) (\<lambda>w.
     bindR (loadAt h inm inX inY inChannel 0) (\<lambda>x.
     case mac (fst st) (Data x x x x) w of (acc, cy) \<Rightarrow> Inr (acc, snd st + cy)))"

type_synonym tap = "memhub \<Rightarrow> memory \<Rightarrow> memory \<Rightarrow> int \<Rightarrow> int \<Rightarrow> int \<Rightarrow> int \<Rightarrow> int \<Rightarrow> int \<Rightarrow>
    Data \<times> int \<Rightarrow> (Data \<times> int) res"

text \<open>The three accumulation loops around the tap, and the loops over the output.\<close>

definition conv_acc :: "tap \<Rightarrow> memhub \<Rightarrow> memory \<Rightarrow> memory \<Rightarrow> int \<Rightarrow> int \<Rightarrow> int \<Rightarrow> int \<Rightarrow> int \<Rightarrow> int \<Rightarrow>
    int \<Rightarrow> (Data \<times> int) res" where
  "conv_acc tp h inm weight inChannelNum filterSize stride outX outY outChannel cycles =
     forR (\<lambda>wX. forR (\<lambda>wY. forR (\<lambda>inChannel.
         tp h inm weight wX wY (outX * stride + wX) (outY * stride + wY) outChannel inChannel)
       (idx 0 inChannelNum 1)) (idx 0 filterSize 1)) (idx 0 filterSize 1) (Data 0 0 0 0, cycles)"

definition conv_point :: "tap \<Rightarrow> memory \<Rightarrow> memory \<Rightarrow> memory \<Rightarrow> memory \<Rightarrow> int \<Rightarrow> int \<Rightarrow> int \<Rightarrow>
    int \<Rightarrow> int \<Rightarrow> int \<Rightarrow> memhub \<times> int \<Rightarrow> (memhub \<times> int) res" where
  "conv_point tp inm out weight bias inChannelNum filterSize stride outX outY outChannel st =
     (case st of (h, cycles) \<Rightarrow>
     bindR (conv_acc tp h inm weight inChannelNum filterSize stride outX outY outChannel cycles)
       (\<lambda>(acc, cycles1).
     bindR (load4_x h bias outChannel) (\<lambda>b.
     case simd_add acc b of (acc1, c1) \<Rightarrow> case relu acc1 of (acc2, c2) \<Rightarrow>
     bindR (store4_z h out outX outY outChannel acc2) (\<lambda>h'. Inr (h', cycles1 + c1 + c2)))))"

definition conv_loops :: "tap \<Rightarrow> core \<Rightarrow> string \<Rightarrow> string \<Rightarrow> string \<Rightarrow> string \<Rightarrow> int \<Rightarrow>
    int \<times> int \<Rightarrow> int \<times> int \<Rightarrow> int \<times> int \<Rightarrow> int \<Rightarrow> int \<Rightarrow> (core \<times> int) res" where
  "conv_loops tp c inName outName wName bName inChannelNum outChannelRange outXRange outYRange
      filterSize stride =
     bindR (getMemory (hub c) inName) (\<lambda>inm. bindR (getMemory (hub c) outName) (\<lambda>out.
     bindR (getMemory (hub c) wName) (\<lambda>weight. bindR (getMemory (hub c) bName) (\<lambda>bias.
     bindR (forR (\<lambda>outX. forR (\<lambda>outY. forR (\<lambda>outChannel.
              conv_point tp inm out weight bias inChannelNum filterSize stride outX outY outChannel)
            (idx (fst outChannelRange) (snd outChannelRange) 4))
          (idx (fst outYRange) (snd outYRange) 1))
        (idx (fst outXRange) (snd outXRange) 1) (hub c, 0))
       (\<lambda>(h, cycles). Inr (c\<lparr>hub := h\<rparr>, cycles div 64))))))"

definition op_conv :: "core \<Rightarrow> string \<Rightarrow> string \<Rightarrow> string \<Rightarrow> string \<Rightarrow> int \<Rightarrow>
    int \<times> int \<Rightarrow> int \<times> int \<Rightarrow> int \<times> int \<Rightarrow> int \<Rightarrow> int \<Rightarrow> (core \<times> int) res" where
  "op_conv = conv_loops conv_tap"

definition op_conv_orig :: "core \<Rightarrow> string \<Rightarrow> string \<Rightarrow> string \<Rightarrow> string \<Rightarrow> int \<Rightarrow>
    int \<times> int \<Rightarrow> int \<times> int \<Rightarrow> int \<times> int \<Rightarrow> int \<Rightarrow> int \<Rightarrow> (core \<times> int) res" where
  "op_conv_orig = conv_loops conv_tap_orig"

section \<open>Fully connected layer\<close>

definition fc_load_w :: "memhub \<Rightarrow> memory \<Rightarrow> int \<Rightarrow> int \<Rightarrow> int \<Rightarrow> Data res" where
  "fc_load_w h weight inIndex outIndex rend =
     bindR (loadAt h weight inIndex outIndex 0 0) (\<lambda>a.
     bindR (loadAt h weight inIndex (outIndex + 1) 0 0) (\<lambda>b.
     bindR (if outIndex + 4 > rend then Inr 0 else loadAt h weight inIndex (outIndex + 2) 0 0) (\<lambda>c.
     bindR (if outIndex + 4 > rend then Inr 0 else loadAt h weight inIndex (outIndex + 3) 0 0) (\<lambda>d.
     Inr (Data a b c d)))))"

definition fc_load_b :: "memhub \<Rightarrow> memory \<Rightarrow> int \<Rightarrow> int \<Rightarrow> Data res" where
  "fc_load_b h bias outIndex rend =
     bindR (loadAt h bias outIndex 0 0 0) (\<lambda>a.
     bindR (loadAt h bias (outIndex + 1) 0 0 0) (\<lambda>b.
     bindR (if outIndex + 4 > rend then Inr 0 else loadAt h bias (outIndex + 2) 0 0 0) (\<lambda>c.
     bindR (if outIndex + 4 > rend then Inr 0 else loadAt h bias (outIndex + 3) 0 0 0) (\<lambda>d.
     Inr (Data a b c d)))))"

text \<open>\<open>in.getPtr()[inIndex]\<close>: the pointer to the first element, then plain indexing.\<close>

definition fc_load_in :: "memhub \<Rightarrow> memory \<Rightarrow> int \<Rightarrow> f32 res" where
  "fc_load_in h inm inIndex = bindR (getPtr inm 0 0 0 0) (\<lambda>p. loadF h (ptr_add p inIndex))"

definition fc_tap :: "memhub \<Rightarrow> memory \<Rightarrow> memory \<Rightarrow> int \<Rightarrow> int \<Rightarrow> int \<Rightarrow> Data \<times> int \<Rightarrow> (Data \<times> int) res" where
  "fc_tap h inm weight rend outIndex inIndex st =
     bindR (fc_load_in h inm inIndex) (\<lambda>x.
     bindR (fc_load_w h weight inIndex outIndex rend) (\<lambda>w.
     if flag_zero w then Inr st
     else (case mac (fst st) (Data x x x x) w of (acc, cy) \<Rightarrow> Inr (acc, snd st + cy))))"

definition fc_tap_orig :: "memhub \<Rightarrow> memory \<Rightarrow> memory \<Rightarrow> int \<Rightarrow> int \<Rightarrow> int \<Rightarrow> Data \<times> int \<Rightarrow> (Data \<times> int) res" where
  "fc_tap_orig h inm weight rend outIndex inIndex st =
     bindR (fc_load_in h inm inIndex) (\<lambda>x.
     bindR (fc_load_w h weight inIndex outIndex rend) (\<lambda>w.
     case mac (fst st) (Data x x x x) w of (acc, cy) \<Rightarrow> Inr (acc, snd st + cy)))"

fun fc_store :: "memhub \<Rightarrow> memory \<Rightarrow> int \<Rightarrow> int \<Rightarrow> Data \<Rightarrow> memhub res" where
  "fc_store h out outIndex rend (Data a b c d) =
     bindR (storeAt h out outIndex 0 0 0 a) (\<lambda>h1. bindR (storeAt h1 out (outIndex + 1) 0 0 0 b) (\<lambda>h2.
     if outIndex + 4 \<le> rend
     then bindR (storeAt h2 out (outIndex + 2) 0 0 0 c) (\<lambda>h3. storeAt h3 out (outIndex + 3) 0 0 0 d)
     else Inr h2))"

type_synonym ftap = "memhub \<Rightarrow> memory \<Rightarrow> memory \<Rightarrow> int \<Rightarrow> int \<Rightarrow> int \<Rightarrow> Data \<times> int \<Rightarrow> (Data \<times> int) res"

definition fc_point :: "ftap \<Rightarrow> memory \<Rightarrow> memory \<Rightarrow> memory \<Rightarrow> memory \<Rightarrow> int \<Rightarrow> int \<Rightarrow> int \<Rightarrow>
    memhub \<times> int \<Rightarrow> (memhub \<times> int) res" where
  "fc_point tp inm out weight bias inDataLength rend outIndex st =
     (case st of (h, cycles) \<Rightarrow>
     bindR (forR (tp h inm weight rend outIndex) (idx 0 inDataLength 1) (Data 0 0 0 0, cycles))
       (\<lambda>(acc, cycles1).
     bindR (fc_load_b h bias outIndex rend) (\<lambda>b.
     case simd_add acc b of (acc1, c1) \<Rightarrow> case relu acc1 of (acc2, c2) \<Rightarrow>
     bindR (fc_store h out outIndex rend acc2) (\<lambda>h'. Inr (h', cycles1 + c1 + c2)))))"

definition fc_loops :: "ftap \<Rightarrow> core \<Rightarrow> string \<Rightarrow> string \<Rightarrow> string \<Rightarrow> string \<Rightarrow> int \<Rightarrow>
    int \<times> int \<Rightarrow> (core \<times> int) res" where
  "fc_loops tp c inName outName wName bName inDataLength outRange =
     bindR (getMemory (hub c) inName) (\<lambda>inm. bindR (getMemory (hub c) outName) (\<lambda>out.
     bindR (getMemory (hub c) wName) (\<lambda>weight. bindR (getMemory (hub c) bName) (\<lambda>bias.
     bindR (forR (fc_point tp inm out weight bias inDataLength (snd outRange))
              (idx (fst outRange) (snd outRange) 4) (hub c, 0))
       (\<lambda>(h, cycles). Inr (c\<lparr>hub := h\<rparr>, cycles div 64))))))"

definition op_fc :: "core \<Rightarrow> string \<Rightarrow> string \<Rightarrow> string \<Rightarrow> string \<Rightarrow> int \<Rightarrow> int \<times> int \<Rightarrow> (core \<times> int) res" where
  "op_fc = fc_loops fc_tap"

definition op_fc_orig :: "core \<Rightarrow> string \<Rightarrow> string \<Rightarrow> string \<Rightarrow> string \<Rightarrow> int \<Rightarrow> int \<times> int \<Rightarrow> (core \<times> int) res" where
  "op_fc_orig = fc_loops fc_tap_orig"

section \<open>Pooling and padding\<close>

text \<open>The running maximum starts from \<open>numeric_limits<float>::min()\<close>.\<close>

definition pool_window :: "memhub \<Rightarrow> memory \<Rightarrow> int \<Rightarrow> int \<Rightarrow> int \<Rightarrow> int \<Rightarrow> int \<Rightarrow> int \<Rightarrow> (Data \<times> int) res" where
  "pool_window h inm filterSize stride outX outY z cycles =
     forR (\<lambda>inX. forR (\<lambda>inY st.
         bindR (load4_z h inm inX inY z) (\<lambda>i.
         case simd_max (fst st) i of (m, cy) \<Rightarrow> Inr (m, snd st + cy)))
       (idx (outY * stride) (outY * stride + filterSize) 1))
     (idx (outX * stride) (outX * stride + filterSize) 1)
     (Data f32_min f32_min f32_min f32_min, cycles)"

definition op_pool :: "core \<Rightarrow> string \<Rightarrow> string \<Rightarrow> int \<times> int \<Rightarrow> int \<times> int \<Rightarrow> int \<times> int \<Rightarrow> int \<Rightarrow> int \<Rightarrow>
    (core \<times> int) res" where
  "op_pool c inName outName outChannelRange outXRange outYRange filterSize stride =
     bindR (getMemory (hub c) inName) (\<lambda>inm. bindR (getMemory (hub c) outName) (\<lambda>out.
     bindR (forR (\<lambda>outX. forR (\<lambda>outY. forR (\<lambda>z st.
         bindR (pool_window (fst st) inm filterSize stride outX outY z (snd st)) (\<lambda>(m, cycles).
         bindR (store4_z (fst st) out outX outY z m) (\<lambda>h. Inr (h, cycles))))
            (idx (fst outChannelRange) (snd outChannelRange) 4))
          (idx (fst outYRange) (snd outYRange) 1))
        (idx (fst outXRange) (snd outXRange) 1) (hub c, 0))
       (\<lambda>(h, cycles). Inr (c\<lparr>hub := h\<rparr>, cycles div 64))))"

definition op_padding :: "core \<Rightarrow> string \<Rightarrow> string \<Rightarrow> int \<Rightarrow> int \<Rightarrow> int \<Rightarrow> int \<Rightarrow> int \<Rightarrow> (core \<times> int) res" where
  "op_padding c inName outName padLength inXLen inYLen inZLen inWLen =
     bindR (getMemory (hub c) inName) (\<lambda>inm. bindR (getMemory (hub c) outName) (\<lambda>out.
     bindR (getPtr out 0 0 0 0) (\<lambda>po.
     bindR (memset0 (hub c) po (getMemSizeByByte out div 4)) (\<lambda>h0.
     bindR (forR (\<lambda>x. forR (\<lambda>y. forR (\<lambda>z. forR (\<lambda>w h.
         bindR (loadAt h inm x y z w) (\<lambda>v. storeAt h out (x + padLength) (y + padLength) z w v))
         (idx 0 inWLen 1)) (idx 0 inZLen 1)) (idx 0 inYLen 1)) (idx 0 inXLen 1) h0)
       (\<lambda>h. Inr (c\<lparr>hub := h\<rparr>, 1))))))"


section \<open>A small concrete core\<close>

text \<open>Three blocks of 784 floats and a few shapes over them, for concrete instances.\<close>

definition demo_core :: core where
  "demo_core =
     \<lparr>hub = \<lparr>heap = [\<lparr>blen = 784, bdat = \<lambda>i. if i = 3 then 0x40000000 else 0x3f800000\<rparr>,
                    \<lparr>blen = 784, bdat = \<lambda>_. 0\<rparr>, \<lparr>blen = 784, bdat = \<lambda>_. 0x3f000000\<rparr>],
            memories = map_of
              [(''in'', SharedMemory_new \<lparr>pblk = 0, poff = 0\<rparr> 784 1 1 1),
               (''in2'', SharedMemory_new \<lparr>pblk = 0, poff = 0\<rparr> 2 2 4 1),
               (''out'', SharedMemory_new \<lparr>pblk = 1, poff = 0\<rparr> 784 1 1 1),
               (''out2'', SharedMemory_new \<lparr>pblk = 1, poff = 0\<rparr> 4 4 4 1),
               (''w'', SharedMemory_new \<lparr>pblk = 2, poff = 0\<rparr> 1 1 1 4),
               (''b'', SharedMemory_new \<lparr>pblk = 2, poff = 4\<rparr> 4 4 1 1)]\<rparr>,
      outputIndex = - 1\<rparr>"

lemma demo_memories [simp]:
  "memories (hub demo_core) ''in'' = Some (SharedMemory_new \<lparr>pblk = 0, poff = 0\<rparr> 784 1 1 1)"
  "memories (hub demo_core) ''in2'' = Some (SharedMemory_new \<lparr>pblk = 0, poff = 0\<rparr> 2 2 4 1)"
  "memories (hub demo_core) ''out'' = Some (SharedMemory_new \<lparr>pblk = 1, poff = 0\<rparr> 784 1 1 1)"
  "memories (hub demo_core) ''out2'' = Some (SharedMemory_new \<lparr>pblk = 1, poff = 0\<rparr> 4 4 4 1)"
  "memories (hub demo_core) ''w'' = Some (SharedMemory_new \<lparr>pblk = 2, poff = 0\<rparr> 1 1 1 4)"
  "memories (hub demo_core) ''b'' = Some (SharedMemory_new \<lparr>pblk = 2, poff = 4\<rparr> 4 4 1 1)"
  by (simp_all add: demo_core_def)

lemma demo_heap [simp]:
  "heap (hub demo_core) = [\<lparr>blen = 784, bdat = \<lambda>i. if i = 3 then 0x40000000 else 0x3f800000\<rparr>,
                    \<lparr>blen = 784, bdat = \<lambda>_. 0\<rparr>, \<lparr>blen = 784, bdat = \<lambda>_. 0x3f000000\<rparr>]"
  by (simp add: demo_core_def)

lemma demo_blocks [simp]:
  "pblk (mdata (SharedMemory_new p x y z w)) = pblk p" "mdata (SharedMemory_new p x y z w) = p"
  by (simp_all add: SharedMemory_new_def Let_def)

lemma demo_ok:
  "mem_ok (hub demo_core) (SharedMemory_new \<lparr>pblk = 0, poff = 0\<rparr> 784 1 1 1)"
  "mem_ok (hub demo_core) (SharedMemory_new \<lparr>pblk = 0, poff = 0\<rparr> 2 2 4 1)"
  "mem_ok (hub demo_core) (SharedMemory_new \<lparr>pblk = 1, poff = 0\<rparr> 784 1 1 1)"
  "mem_ok (hub demo_core) (SharedMemory_new \<lparr>pblk = 1, poff = 0\<rparr> 4 4 4 1)"
  by (simp_all add: mem_ok_def SharedMemory_new_def Let_def)

lemma demo_finite: "block_finite (hub demo_core) 0"
  by (simp add: block_finite_def float_defs)

end
