(* ===== verification/Copy_Loops.thy ===== *)
theory Copy_Loops imports Memory_Hub begin

text \<open>
  Loops that compute values from one block of the heap and store them, as floats or as
  bytes, at distinct places of another.
\<close>

section \<open>Copy loops\<close>

text \<open>
  A loop that computes values from one block and stores them at distinct places of
  another: afterwards each place holds its value and everything else is as before.
\<close>

definition only_block :: "nat \<Rightarrow> (memhub \<Rightarrow> 'a res) \<Rightarrow> bool" where
  "only_block a ld \<longleftrightarrow> (\<forall>h h'. same_layout h h' \<longrightarrow> heap h' ! a = heap h ! a \<longrightarrow> ld h' = ld h)"

lemma only_block_loadF: "pblk p = a \<Longrightarrow> only_block a (\<lambda>h. loadF h p)"
  by (auto simp: only_block_def loadF_def ptr_valid_layout)

lemma only_block_loadAt: "pblk (mdata m) = a \<Longrightarrow> only_block a (\<lambda>h. loadAt h m x y z w)"
  using only_block_loadF getPtr_block
  by (cases "getPtr m x y z w") (fastforce simp: loadAt_def only_block_def)+

lemma only_block_bind: "only_block a ld \<Longrightarrow> only_block a (\<lambda>h. bindR (ld h) f)"
  unfolding only_block_def by fastforce

lemma only_blockD:
  "only_block a ld \<Longrightarrow> same_layout h h' \<Longrightarrow> heap h' ! a = heap h ! a \<Longrightarrow> ld h' = ld h"
  by (auto simp: only_block_def)

lemma copy_loop:
  assumes "distinct es" and "inj_on dp (set es)"
    and "\<And>e. e \<in> set es \<Longrightarrow> only_block a (\<lambda>h. ld h e) \<and> (\<exists>v. ld h0 e = Inr v) \<and>
        ptr_valid h0 (dp e) \<and> pblk (dp e) \<noteq> a"
  shows "\<exists>h'. forR (\<lambda>e h. bindR (ld h e) (storeF h (dp e))) es h0 = Inr h' \<and> same_layout h0 h' \<and>
     heap h' ! a = heap h0 ! a \<and> (\<forall>e\<in>set es. loadF h' (dp e) = ld h0 e) \<and>
     (\<forall>q. q \<notin> dp ` set es \<longrightarrow> loadF h' q = loadF h0 q)"
  using assms
proof (induction es arbitrary: h0)
  case Nil
  then show ?case by simp
next
  case (Cons e es)
  from Cons.prems(3) [of e] obtain v where v: "ld h0 e = Inr v" "ptr_valid h0 (dp e)" "pblk (dp e) \<noteq> a"
    by auto
  obtain h1 where h1: "storeF h0 (dp e) v = Inr h1" "same_layout h0 h1"
    using storeF_ok [OF v(2)] by blast
  have blk: "heap h1 ! a = heap h0 ! a" using storeF_other [OF h1(1)] v(3) by simp
  have ld: "ld h1 f = ld h0 f" if "f \<in> set es" for f
    using Cons.prems(3) [of f] that h1(2) blk by (intro only_blockD) auto
  have "\<exists>h'. forR (\<lambda>e h. bindR (ld h e) (storeF h (dp e))) es h1 = Inr h' \<and> same_layout h1 h' \<and>
     heap h' ! a = heap h1 ! a \<and> (\<forall>e\<in>set es. loadF h' (dp e) = ld h1 e) \<and>
     (\<forall>q. q \<notin> dp ` set es \<longrightarrow> loadF h' q = loadF h1 q)"
    by (rule Cons.IH) (use Cons.prems ptr_valid_layout [OF h1(2)] ld in auto)
  then obtain h' where h': "forR (\<lambda>e h. bindR (ld h e) (storeF h (dp e))) es h1 = Inr h'" "same_layout h1 h'"
      "heap h' ! a = heap h1 ! a" "\<forall>e\<in>set es. loadF h' (dp e) = ld h1 e"
      "\<forall>q. q \<notin> dp ` set es \<longrightarrow> loadF h' q = loadF h1 q"
    by blast
  have new: "loadF h1 q = (if q = dp e then Inr v else loadF h0 q)" for q
    by (rule loadF_storeF [OF h1(1)])
  have "dp e \<notin> dp ` set es" using Cons.prems(1,2) by auto
  then have "loadF h' (dp e) = ld h0 e" using h'(5) new v(1) by simp
  moreover have "same_layout h0 h'" using h1(2) h'(2) by (rule same_layout_trans)
  ultimately show ?case
    using h1 v h' blk ld new by auto
qed

lemma only_block_loadB: "pblk p = a \<Longrightarrow> only_block a (\<lambda>h. loadB h p k)"
  unfolding loadB_def by (intro only_block_bind only_block_loadF) (simp add: ptr_add_def)

lemma only_block_const [intro]: "only_block a (\<lambda>h. Inr v)"
  by (simp add: only_block_def)

lemma only_block_bind2:
  "only_block a ld \<Longrightarrow> (\<And>x. only_block a (\<lambda>h. f h x)) \<Longrightarrow> only_block a (\<lambda>h. bindR (ld h) (f h))"
  unfolding only_block_def by (fastforce intro: bindR_cong)

lemma only_block_forR:
  assumes "\<And>i s. only_block a (\<lambda>h. body h i s)"
  shows "only_block a (\<lambda>h. forR (body h) is s)"
proof (induction "is" arbitrary: s)
  case Nil
  then show ?case by (simp add: only_block_def)
next
  case (Cons i "is")
  show ?case unfolding forR.simps by (rule only_block_bind2 [OF assms Cons.IH])
qed

lemma byte_loop:
  assumes "distinct es" and "pblk p \<noteq> a"
    and "\<And>e. e \<in> set es \<Longrightarrow> only_block a (\<lambda>h. ld h e) \<and> (\<exists>v. ld h0 e = Inr v) \<and> ptr_valid h0 (ptr_add p (e div 4))"
  shows "\<exists>h'. forR (\<lambda>e h. bindR (ld h e) (storeB h p e)) es h0 = Inr h' \<and> same_layout h0 h' \<and>
     (\<forall>b. b \<noteq> pblk p \<longrightarrow> heap h' ! b = heap h0 ! b) \<and>
     (\<forall>j. loadB h' p j = (if j \<in> set es then ld h0 j else loadB h0 p j))"
  using assms
proof (induction es arbitrary: h0)
  case Nil
  then show ?case by simp
next
  case (Cons e es)
  from Cons.prems(3) [of e] obtain v where v: "ld h0 e = Inr v" "ptr_valid h0 (ptr_add p (e div 4))" by auto
  obtain h1 where h1: "storeB h0 p e v = Inr h1" "same_layout h0 h1" using storeB_ok [OF v(2)] by blast
  have blk: "heap h1 ! b = heap h0 ! b" if "b \<noteq> pblk p" for b using storeB_other [OF h1(1) that] .
  have ld: "ld h1 f = ld h0 f" if "f \<in> set es" for f
    using Cons.prems(2) Cons.prems(3) [of f] that h1(2) blk by (intro only_blockD) auto
  have "\<exists>h'. forR (\<lambda>e h. bindR (ld h e) (storeB h p e)) es h1 = Inr h' \<and> same_layout h1 h' \<and>
     (\<forall>b. b \<noteq> pblk p \<longrightarrow> heap h' ! b = heap h1 ! b) \<and>
     (\<forall>j. loadB h' p j = (if j \<in> set es then ld h1 j else loadB h1 p j))"
    by (rule Cons.IH) (use Cons.prems ptr_valid_layout [OF h1(2)] ld in auto)
  then obtain h' where h': "forR (\<lambda>e h. bindR (ld h e) (storeB h p e)) es h1 = Inr h'" "same_layout h1 h'"
      "\<forall>b. b \<noteq> pblk p \<longrightarrow> heap h' ! b = heap h1 ! b"
      "\<forall>j. loadB h' p j = (if j \<in> set es then ld h1 j else loadB h1 p j)" by blast
  have "loadB h' p j = (if j \<in> set (e # es) then ld h0 j else loadB h0 p j)" for j
    using h'(4) ld v(1) loadB_storeB_base [OF h1(1), of j] Cons.prems(1) by auto
  moreover have "same_layout h0 h'" using h1(2) h'(2) by (rule same_layout_trans)
  ultimately show ?case using h1(1) v(1) h'(1,3) blk by auto
qed

end
