(* ===== verification/Rram.thy ===== *)
theory Rram imports Cnn_Core Copy_Loops begin

text \<open>
  The RRAM accelerator of the homework (hw3/binnet_modified/vdev/binnet): the 1024 x 1024
  array \<open>RRAM_Array\<close> (simd.h), the core's operations (core.cpp) and the chip (ai_chip.cpp,
  ai_chip.h).  The device noise is the field \<open>noise\<close>: the samples \<open>dist(e)\<close>
  returns, in order.  The memories are those of the CNN accelerator.
\<close>

section \<open>The array\<close>

record rram =
  weight_positive :: "int \<Rightarrow> int \<Rightarrow> f32"
  weight_negative :: "int \<Rightarrow> int \<Rightarrow> f32"
  batchnorm_mean :: "int \<Rightarrow> f32"
  batchnorm_var :: "int \<Rightarrow> f32"
  batchnorm_weight :: "int \<Rightarrow> f32"
  batchnorm_bias :: "int \<Rightarrow> f32"
  noise :: "nat \<Rightarrow> f32"
  drawn :: nat

definition upd2 :: "(int \<Rightarrow> int \<Rightarrow> f32) \<Rightarrow> int \<Rightarrow> int \<Rightarrow> f32 \<Rightarrow> int \<Rightarrow> int \<Rightarrow> f32" where
  "upd2 f i j v = f(i := (f i)(j := v))"

definition load_cell :: "memhub \<Rightarrow> fptr \<Rightarrow> int \<Rightarrow> int \<Rightarrow> rram \<Rightarrow> rram res" where
  "load_cell h weight i j r =
     bindR (loadB h weight (i * 1024 + j)) (\<lambda>b.
     let r0 = r\<lparr>weight_positive := upd2 (weight_positive r) i j 0,
                weight_negative := upd2 (weight_negative r) i j 0\<rparr>;
         r1 = (if 0 < sint b
               then r0\<lparr>weight_positive := upd2 (weight_positive r0) i j (noise r0 (drawn r0)), drawn := drawn r0 + 1\<rparr>
               else r0);
         r2 = (if sint b < 0
               then r1\<lparr>weight_negative := upd2 (weight_negative r1) i j (noise r1 (drawn r1)), drawn := drawn r1 + 1\<rparr>
               else r1)
     in Inr r2)"

text \<open>\<open>memcpy(dst, src, 4096)\<close> of 1024 floats.\<close>

definition copy_floats :: "memhub \<Rightarrow> fptr \<Rightarrow> (int \<Rightarrow> f32) \<Rightarrow> (int \<Rightarrow> f32) res" where
  "copy_floats h src dst =
     forR (\<lambda>k f. bindR (loadF h (ptr_add src k)) (\<lambda>v. Inr (f(k := v)))) (idx 0 1024 1) dst"

definition load_weight :: "memhub \<Rightarrow> fptr \<Rightarrow> fptr \<Rightarrow> fptr \<Rightarrow> fptr \<Rightarrow> fptr \<Rightarrow> rram \<Rightarrow> (rram \<times> int) res" where
  "load_weight h weight mean var bw bias r =
     bindR (forR (\<lambda>i. forR (\<lambda>j. load_cell h weight i j) (idx 0 1024 1)) (idx 0 1024 1) r) (\<lambda>r1.
     bindR (copy_floats h mean (batchnorm_mean r1)) (\<lambda>m.
     bindR (copy_floats h var (batchnorm_var r1)) (\<lambda>v.
     bindR (copy_floats h bw (batchnorm_weight r1)) (\<lambda>w.
     bindR (copy_floats h bias (batchnorm_bias r1)) (\<lambda>b.
     Inr (r1\<lparr>batchnorm_mean := m, batchnorm_var := v, batchnorm_weight := w, batchnorm_bias := b\<rparr>, 100000))))))"

text \<open>\<open>1e-5f\<close> is \<open>0x3727C5AC\<close>.\<close>

definition row_sum :: "rram \<Rightarrow> memhub \<Rightarrow> fptr \<Rightarrow> int \<Rightarrow> f32 res" where
  "row_sum r h inp i =
     bindR (forR (\<lambda>j v. bindR (loadB h inp j) (\<lambda>b.
              Inr (f32_add v (f32_mul (f32_of_int (sint b)) (weight_positive r i j))))) (idx 0 1024 1) 0) (\<lambda>v.
     forR (\<lambda>j v. bindR (loadB h inp j) (\<lambda>b.
              Inr (f32_sub v (f32_mul (f32_of_int (sint b)) (weight_negative r i j))))) (idx 0 1024 1) v)"

definition batch_norm :: "rram \<Rightarrow> int \<Rightarrow> f32 \<Rightarrow> f32" where
  "batch_norm r i v =
     f32_add (f32_mul (f32_div (f32_sub v (batchnorm_mean r i))
                               (f32_sqrt (f32_add (batchnorm_var r i) 0x3727C5AC)))
                      (batchnorm_weight r i))
             (batchnorm_bias r i)"

definition rram_calculate :: "rram \<Rightarrow> memhub \<Rightarrow> fptr \<Rightarrow> fptr \<Rightarrow> (memhub \<times> int) res" where
  "rram_calculate r h inp outp =
     bindR (forR (\<lambda>i h. bindR (row_sum r h inp i) (\<lambda>v. storeF h (ptr_add outp i) (batch_norm r i v)))
              (idx 0 1024 1) h)
       (\<lambda>h'. Inr (h', 100))"

definition sign_byte :: "f32 \<Rightarrow> byte" where
  "sign_byte x = (if f32_lt 0 x then 1 else if f32_lt x 0 then - 1 else 0)"

definition rram_sign :: "memhub \<Rightarrow> fptr \<Rightarrow> fptr \<Rightarrow> (memhub \<times> int) res" where
  "rram_sign h inp outp =
     bindR (forR (\<lambda>i h. bindR (loadF h (ptr_add inp i)) (\<lambda>x. storeB h outp i (sign_byte x))) (idx 0 1024 1) h)
       (\<lambda>h'. Inr (h', 1))"

section \<open>The core's operations\<close>

text \<open>A table of views placed one after the other from a pointer, as \<open>op_init\<close> does.\<close>

fun add_row :: "fptr \<Rightarrow> (string \<times> int) list \<Rightarrow> memhub \<Rightarrow> memhub" where
  "add_row p [] h = h"
| "add_row p ((n, len) # t) h = add_row (ptr_add p len) t (addSharedMemory n p len 1 1 1 h)"

definition rop_init :: "core \<Rightarrow> (core \<times> int) res" where
  "rop_init c = (let h0 = hub c in
     bindR (getMemory h0 ''weight_and_bias_mem'') (\<lambda>wm. bindR (getPtr wm 0 0 0 0) (\<lambda>mem3.
     let h1 = add_row mem3
          [(''model/fc1/weight'', 1024 * 1024 div 4), (''model/bn1/bias'', 1024), (''model/bn1/weight'', 1024),
           (''model/bn1/var'', 1024), (''model/bn1/mean'', 1024),
           (''model/fc2/weight'', 1024 * 1024 div 4), (''model/bn2/bias'', 1024), (''model/bn2/weight'', 1024),
           (''model/bn2/var'', 1024), (''model/bn2/mean'', 1024),
           (''model/fc3/weight'', 1024 * 1024 div 4), (''model/bn3/bias'', 1024), (''model/bn3/weight'', 1024),
           (''model/bn3/var'', 1024), (''model/bn3/mean'', 1024)] h0
     in bindR (getMemory h1 ''activation_mem1'') (\<lambda>a1. bindR (getPtr a1 0 0 0 0) (\<lambda>m1.
        bindR (getMemory h1 ''activation_mem2'') (\<lambda>a2. bindR (getPtr a2 0 0 0 0) (\<lambda>m2.
     let h2 = addSharedMemory ''fc1/in'' m1 1024 1 1 1 h1;
         h3 = addSharedMemory ''fc1/out|sign1/in'' m2 1024 1 1 1 h2;
         h4 = addSharedMemory ''sign1/out|fc2/in'' m1 1024 1 1 1 h3;
         h5 = addSharedMemory ''fc2/out|sign2/in'' m2 1024 1 1 1 h4;
         h6 = addSharedMemory ''sign2/out|fc3/in'' m1 1024 1 1 1 h5;
         h7 = addSharedMemory ''fc3/out'' m2 1024 1 1 1 h6
     in Inr (c\<lparr>hub := h7\<rparr>, 1))))))))"

definition rop_input :: "core \<Rightarrow> string \<Rightarrow> string \<Rightarrow> (core \<times> int) res" where
  "rop_input c fromMemName toMemName =
     bindR (getMemory (hub c) fromMemName) (\<lambda>fm. bindR (getPtr fm 0 0 0 0) (\<lambda>from.
     bindR (getMemory (hub c) toMemName) (\<lambda>tm. bindR (getPtr tm 0 0 0 0) (\<lambda>to.
     bindR (forR (\<lambda>i h. bindR (loadB h from i) (\<lambda>b. storeB h to i (if 0 < uint b then 1 else 0)))
              (idx 0 784 1) (hub c))
       (\<lambda>h. Inr (c\<lparr>hub := h\<rparr>, 10))))))"

definition rop_output :: "core \<Rightarrow> string \<Rightarrow> (core \<times> int) res" where
  "rop_output c memName =
     bindR (getMemory (hub c) memName) (\<lambda>m. bindR (getPtr m 0 0 0 0) (\<lambda>ptr.
     bindR (loadF (hub c) ptr) (\<lambda>x0.
     bindR (forR (\<lambda>i xs. bindR (loadF (hub c) (ptr_add ptr i)) (\<lambda>v. Inr (xs @ [v]))) (idx 1 10 1) [])
       (\<lambda>xs. Inr (c\<lparr>outputIndex := max_element x0 0 1 xs\<rparr>, 10)))))"

definition op_fc_calculate :: "core \<Rightarrow> string \<Rightarrow> string \<Rightarrow> string \<Rightarrow> string \<Rightarrow> string \<Rightarrow> string \<Rightarrow> string \<Rightarrow>
    rram \<Rightarrow> bool \<Rightarrow> (core \<times> rram \<times> int) res" where
  "op_fc_calculate c inN outN wN varN meanN bwN biasN array load_w =
     bindR (getMemory (hub c) inN) (\<lambda>inm. bindR (getMemory (hub c) outN) (\<lambda>out.
     bindR (getMemory (hub c) wN) (\<lambda>fc_w. bindR (getMemory (hub c) varN) (\<lambda>bn_var.
     bindR (getMemory (hub c) meanN) (\<lambda>bn_mean. bindR (getMemory (hub c) bwN) (\<lambda>bn_w.
     bindR (getMemory (hub c) biasN) (\<lambda>bn_b.
     bindR (if load_w
            then bindR (getPtr fc_w 0 0 0 0) (\<lambda>pw. bindR (getPtr bn_mean 0 0 0 0) (\<lambda>pm.
                 bindR (getPtr bn_var 0 0 0 0) (\<lambda>pv. bindR (getPtr bn_w 0 0 0 0) (\<lambda>pbw.
                 bindR (getPtr bn_b 0 0 0 0) (\<lambda>pb. load_weight (hub c) pw pm pv pbw pb array)))))
            else Inr (array, 0)) (\<lambda>(array', cycles).
     bindR (getPtr inm 0 0 0 0) (\<lambda>pi. bindR (getPtr out 0 0 0 0) (\<lambda>po.
     bindR (rram_calculate array' (hub c) pi po) (\<lambda>(h, cy).
     Inr (c\<lparr>hub := h\<rparr>, array', cycles + cy))))))))))))"

definition op_sign :: "core \<Rightarrow> string \<Rightarrow> string \<Rightarrow> (core \<times> int) res" where
  "op_sign c inN outN =
     bindR (getMemory (hub c) inN) (\<lambda>inm. bindR (getMemory (hub c) outN) (\<lambda>out.
     bindR (getPtr inm 0 0 0 0) (\<lambda>pi. bindR (getPtr out 0 0 0 0) (\<lambda>po.
     bindR (rram_sign (hub c) pi po) (\<lambda>(h, cy). Inr (c\<lparr>hub := h\<rparr>, cy))))))"

section \<open>The chip\<close>

record rchip =
  rtickPerCycle :: int
  rmem1 :: fptr
  rmem2 :: fptr
  rmem3 :: fptr
  rfinished :: bool
  rcounter :: byte
  rcore :: core
  array :: rram
  load_once :: bool
  weight_loaded :: bool

text \<open>\<open>j1\<close>, \<open>j2\<close>, \<open>j3\<close>: the indeterminate contents of the memories; \<open>arr\<close>:
  those of the array, whose noise \<open>stddev\<close> determines.\<close>

definition RChip_new :: "(nat \<Rightarrow> f32) \<Rightarrow> (nat \<Rightarrow> f32) \<Rightarrow> (nat \<Rightarrow> f32) \<Rightarrow> rram \<Rightarrow> bool \<Rightarrow> rchip res" where
  "RChip_new j1 j2 j3 arr once =
     bindR (addMemory j1 ''activation_mem1'' 1024 1 1 1 \<lparr>heap = [], memories = Map.empty\<rparr>) (\<lambda>h1.
     bindR (addMemory j2 ''activation_mem2'' 1024 1 1 1 h1) (\<lambda>h2.
     bindR (addMemory j3 ''weight_and_bias_mem'' 802816 1 1 1 h2) (\<lambda>h3.
     bindR (getMemory h3 ''activation_mem1'') (\<lambda>m1. bindR (getPtr m1 0 0 0 0) (\<lambda>p1.
     bindR (getMemory h3 ''activation_mem2'') (\<lambda>m2. bindR (getPtr m2 0 0 0 0) (\<lambda>p2.
     bindR (getMemory h3 ''weight_and_bias_mem'') (\<lambda>m3. bindR (getPtr m3 0 0 0 0) (\<lambda>p3.
     Inr \<lparr>rtickPerCycle = 1, rmem1 = p1, rmem2 = p2, rmem3 = p3, rfinished = False, rcounter = 0,
          rcore = \<lparr>hub = h3, outputIndex = - 1\<rparr>, array = arr, load_once = once, weight_loaded = False\<rparr>)))))))))"

definition RChip_run :: "rchip \<Rightarrow> (rchip \<times> int) res" where
  "RChip_run a =
     (let a0 = a\<lparr>rfinished := False\<rparr>; c = rcore a0; n = uint (rcounter a0) in
      bindR
       (if n = 0 then bindR (rop_init c) (\<lambda>(c', cy). Inr (a0\<lparr>rcore := c'\<rparr>, cy))
        else if n = 1 then bindR (rop_input c ''activation_mem2'' ''fc1/in'')
          (\<lambda>(c', cy). Inr (a0\<lparr>rcore := c'\<rparr>, cy))
        else if n = 2 then bindR (op_fc_calculate c ''fc1/in'' ''fc1/out|sign1/in'' ''model/fc1/weight'' ''model/bn1/var''
            ''model/bn1/mean'' ''model/bn1/weight'' ''model/bn1/bias'' (array a0) (\<not> load_once a0 \<or> \<not> weight_loaded a0))
          (\<lambda>(c', r, cy). Inr (a0\<lparr>rcore := c', array := r, weight_loaded := True\<rparr>, cy))
        else if n = 3 then bindR (op_sign c ''fc1/out|sign1/in'' ''sign1/out|fc2/in'')
          (\<lambda>(c', cy). Inr (a0\<lparr>rcore := c'\<rparr>, cy))
        else if n = 4 then bindR (op_fc_calculate c ''sign1/out|fc2/in'' ''fc2/out|sign2/in'' ''model/fc2/weight'' ''model/bn2/var''
            ''model/bn2/mean'' ''model/bn2/weight'' ''model/bn2/bias'' (array a0) (\<not> load_once a0))
          (\<lambda>(c', r, cy). Inr (a0\<lparr>rcore := c', array := r\<rparr>, cy))
        else if n = 5 then bindR (op_sign c ''fc2/out|sign2/in'' ''sign2/out|fc3/in'')
          (\<lambda>(c', cy). Inr (a0\<lparr>rcore := c'\<rparr>, cy))
        else if n = 6 then bindR (op_fc_calculate c ''sign2/out|fc3/in'' ''fc3/out'' ''model/fc3/weight'' ''model/bn3/var''
            ''model/bn3/mean'' ''model/bn3/weight'' ''model/bn3/bias'' (array a0) (\<not> load_once a0))
          (\<lambda>(c', r, cy). Inr (a0\<lparr>rcore := c', array := r\<rparr>, cy))
        else if n = 7 then bindR (rop_output c ''fc3/out'') (\<lambda>(c', cy).
          bindR (storeB (hub c') (rmem1 a0) 0 (word_of_int (outputIndex c')))
            (\<lambda>h. Inr (a0\<lparr>rcore := c'\<lparr>hub := h\<rparr>, rfinished := True\<rparr>, cy)))
        else Inr (a0, 0))
       (\<lambda>(a', cyclesUsed). bindR (int_mul cyclesUsed (rtickPerCycle a')) (\<lambda>t. Inr (a', t))))"

end
