(* ===== verification/Rram_Spec.thy ===== *)
theory Rram_Spec imports Rram begin

text \<open>
  What the operations of the RRAM array compute: loading writes one cell per weight and the
  four parameter vectors, calculating is a signed dot product and a batch normalisation per
  row, and the sign step maps floats to \<open>1\<close>, \<open>-1\<close> and \<open>0\<close>.
\<close>

section \<open>Ranges of a block\<close>

definition span :: "memhub \<Rightarrow> fptr \<Rightarrow> int \<Rightarrow> bool" where
  "span h p n \<longleftrightarrow> pblk p < length (heap h) \<and> 0 \<le> poff p \<and> poff p + n \<le> int (blen (heap h ! pblk p))"

lemma span_valid: "span h p n \<Longrightarrow> 0 \<le> k \<Longrightarrow> k < n \<Longrightarrow> ptr_valid h (ptr_add p k)"
  by (simp add: span_def ptr_valid_def ptr_add_def)

lemma span_layout: "same_layout h h' \<Longrightarrow> span h' p n = span h p n"
  using same_layout_length same_layout_blen by (auto simp: span_def)

lemma span_byte: "span h p n \<Longrightarrow> 0 \<le> k \<Longrightarrow> k < 4 * n \<Longrightarrow> ptr_valid h (ptr_add p (k div 4))"
  by (rule span_valid) (auto simp: div_less_iff_less_mult)

text \<open>The contents as functions of the index.\<close>

definition floats :: "memhub \<Rightarrow> fptr \<Rightarrow> int \<Rightarrow> f32" where
  "floats h p k = projr (loadF h (ptr_add p k))"

definition bytes :: "memhub \<Rightarrow> fptr \<Rightarrow> int \<Rightarrow> byte" where
  "bytes h p k = projr (loadB h p k)"

lemma floats_load: "span h p n \<Longrightarrow> 0 \<le> k \<Longrightarrow> k < n \<Longrightarrow> loadF h (ptr_add p k) = Inr (floats h p k)"
  using span_valid [of h p n k] by (simp add: floats_def loadF_def)

lemma bytes_load: "span h p n \<Longrightarrow> 0 \<le> k \<Longrightarrow> k < 4 * n \<Longrightarrow> loadB h p k = Inr (bytes h p k)"
  using loadB_ok [OF span_byte [of h p n k]] by (auto simp: bytes_def)

lemma floats_keep: "same_layout h h' \<Longrightarrow> heap h' ! pblk p = heap h ! pblk p \<Longrightarrow> floats h' p = floats h p"
  by (rule ext) (simp add: floats_def loadF_same_block ptr_add_def)

lemma bytes_keep: "same_layout h h' \<Longrightarrow> heap h' ! pblk p = heap h ! pblk p \<Longrightarrow> bytes h' p = bytes h p"
  by (rule ext) (simp add: bytes_def loadB_same_block)

section \<open>Loading the weights\<close>

definition cell_ok :: "(nat \<Rightarrow> f32) \<Rightarrow> byte \<Rightarrow> f32 \<Rightarrow> f32 \<Rightarrow> bool" where
  "cell_ok ns b p n \<longleftrightarrow>
     (if 0 < sint b then (\<exists>k. p = ns k) \<and> n = 0 else if sint b < 0 then p = 0 \<and> (\<exists>k. n = ns k) else p = 0 \<and> n = 0)"

lemma load_cell_ok:
  assumes "loadB h wt (i * 1024 + j) = Inr b"
  shows "\<exists>r'. load_cell h wt i j r = Inr r' \<and> noise r' = noise r \<and>
     cell_ok (noise r) b (weight_positive r' i j) (weight_negative r' i j) \<and>
     (\<forall>i' j'. (i', j') \<noteq> (i, j) \<longrightarrow> weight_positive r' i' j' = weight_positive r i' j' \<and>
        weight_negative r' i' j' = weight_negative r i' j')"
  using assms by (auto simp: load_cell_def Let_def cell_ok_def upd2_def)

lemma load_cells_ok:
  assumes "distinct es" and "\<And>i j. (i, j) \<in> set es \<Longrightarrow> loadB h wt (i * 1024 + j) = Inr (W i j)"
  shows "\<exists>r'. forR (\<lambda>(i, j). load_cell h wt i j) es r = Inr r' \<and> noise r' = noise r \<and>
     (\<forall>(i, j)\<in>set es. cell_ok (noise r) (W i j) (weight_positive r' i j) (weight_negative r' i j)) \<and>
     (\<forall>i j. (i, j) \<notin> set es \<longrightarrow> weight_positive r' i j = weight_positive r i j \<and>
        weight_negative r' i j = weight_negative r i j)"
  using assms
proof (induction es arbitrary: r)
  case Nil
  then show ?case by simp
next
  case (Cons e es)
  obtain i j where e: "e = (i, j)" by (cases e)
  have "loadB h wt (i * 1024 + j) = Inr (W i j)" using Cons.prems(2) e by simp
  then obtain r1 where r1: "load_cell h wt i j r = Inr r1" "noise r1 = noise r"
      "cell_ok (noise r) (W i j) (weight_positive r1 i j) (weight_negative r1 i j)"
      "\<forall>i' j'. (i', j') \<noteq> (i, j) \<longrightarrow> weight_positive r1 i' j' = weight_positive r i' j' \<and>
        weight_negative r1 i' j' = weight_negative r i' j'"
    using load_cell_ok by blast
  obtain r' where r': "forR (\<lambda>(i, j). load_cell h wt i j) es r1 = Inr r'" "noise r' = noise r1"
     "\<forall>(i, j)\<in>set es. cell_ok (noise r1) (W i j) (weight_positive r' i j) (weight_negative r' i j)"
     "\<forall>i j. (i, j) \<notin> set es \<longrightarrow> weight_positive r' i j = weight_positive r1 i j \<and>
        weight_negative r' i j = weight_negative r1 i j"
    using Cons.IH [of r1] Cons.prems by auto
  have "(i, j) \<notin> set es" using Cons.prems(1) e by simp
  then have "cell_ok (noise r) (W i j) (weight_positive r' i j) (weight_negative r' i j)"
    using r'(4) r1(3) by simp
  moreover have "weight_positive r' i' j' = weight_positive r i' j' \<and> weight_negative r' i' j' = weight_negative r i' j'"
    if "(i', j') \<notin> set (e # es)" for i' j'
    using that r'(4) r1(4) e by simp
  ultimately show ?case using r1(1,2) r'(1-3) e by (intro exI [of _ r']) auto
qed

lemma copy_floats_ok:
  assumes "span h src 1024"
  shows "\<exists>f. copy_floats h src dst = Inr f \<and> (\<forall>k. 0 \<le> k \<longrightarrow> k < 1024 \<longrightarrow> f k = floats h src k)"
proof -
  have "\<exists>f. forR (\<lambda>k f. bindR (loadF h (ptr_add src k)) (\<lambda>v. Inr (f(k := v)))) ks d = Inr f \<and>
      (\<forall>k\<in>set ks. f k = floats h src k) \<and> (\<forall>k. k \<notin> set ks \<longrightarrow> f k = d k)"
    if "\<forall>k\<in>set ks. 0 \<le> k \<and> k < 1024" for ks d
    using that
  proof (induction ks arbitrary: d)
    case (Cons k ks)
    have "\<forall>j\<in>set ks. 0 \<le> j \<and> j < 1024" using Cons.prems by simp
    note IH = Cons.IH [OF this, of "d(k := floats h src k)"]
    obtain f where "forR (\<lambda>k f. bindR (loadF h (ptr_add src k)) (\<lambda>v. Inr (f(k := v)))) ks (d(k := floats h src k)) = Inr f"
        "\<forall>j\<in>set ks. f j = floats h src j" "\<forall>j. j \<notin> set ks \<longrightarrow> f j = (d(k := floats h src k)) j"
      using IH by blast
    moreover have "forR (\<lambda>k f. bindR (loadF h (ptr_add src k)) (\<lambda>v. Inr (f(k := v)))) (k # ks) d =
        forR (\<lambda>k f. bindR (loadF h (ptr_add src k)) (\<lambda>v. Inr (f(k := v)))) ks (d(k := floats h src k))"
      using floats_load [OF assms, of k] Cons.prems by simp
    moreover have "f k = floats h src k" if "k \<notin> set ks" using that calculation(3) by simp
    ultimately have "forR (\<lambda>k f. bindR (loadF h (ptr_add src k)) (\<lambda>v. Inr (f(k := v)))) (k # ks) d = Inr f \<and>
       (\<forall>j\<in>set (k # ks). f j = floats h src j) \<and> (\<forall>j. j \<notin> set (k # ks) \<longrightarrow> f j = d j)"
      by (cases "k \<in> set ks") auto
    then show ?case by blast
  qed simp
  from this [of "idx 0 1024 1" dst] show ?thesis
    unfolding copy_floats_def by (auto simp: set_idx_1 simp del: fun_upd_apply)
qed

text \<open>\<open>holds r W m v w b\<close>: the array holds these weights and parameters.\<close>

definition holds :: "(nat \<Rightarrow> f32) \<Rightarrow> rram \<Rightarrow> (int \<Rightarrow> int \<Rightarrow> byte) \<Rightarrow> (int \<Rightarrow> f32) \<Rightarrow> (int \<Rightarrow> f32) \<Rightarrow> (int \<Rightarrow> f32) \<Rightarrow>
    (int \<Rightarrow> f32) \<Rightarrow> bool" where
  "holds ns r W m v w b \<longleftrightarrow>
     (\<forall>i\<in>{0..<1024}. \<forall>j\<in>{0..<1024}. cell_ok ns (W i j) (weight_positive r i j) (weight_negative r i j)) \<and>
     (\<forall>i\<in>{0..<1024}. batchnorm_mean r i = m i \<and> batchnorm_var r i = v i \<and> batchnorm_weight r i = w i \<and>
        batchnorm_bias r i = b i)"

lemma load_weight_ok:
  assumes "span h wt 262144" "span h m 1024" "span h v 1024" "span h w 1024" "span h b 1024"
  shows "\<exists>r'. load_weight h wt m v w b r = Inr (r', 100000) \<and> noise r' = noise r \<and>
     holds (noise r) r' (\<lambda>i j. bytes h wt (i * 1024 + j)) (floats h m) (floats h v) (floats h w) (floats h b)"
proof -
  let ?es = "List.product (idx 0 1024 1) (idx 0 1024 1)"
  have ld: "loadB h wt (i * 1024 + j) = Inr (bytes h wt (i * 1024 + j))" if "(i, j) \<in> set ?es" for i j
    by (rule bytes_load [OF assms(1)]) (use that in \<open>auto simp: set_idx_1\<close>)
  obtain r1 where r1: "forR (\<lambda>(i, j). load_cell h wt i j) ?es r = Inr r1" "noise r1 = noise r"
     "\<forall>(i, j)\<in>set ?es. cell_ok (noise r) (bytes h wt (i * 1024 + j)) (weight_positive r1 i j) (weight_negative r1 i j)"
    using load_cells_ok [of ?es h wt "\<lambda>i j. bytes h wt (i * 1024 + j)" r] ld
    by (auto simp: distinct_product distinct_idx)
  obtain m' where m': "copy_floats h m (batchnorm_mean r1) = Inr m'" "\<forall>k. 0 \<le> k \<longrightarrow> k < 1024 \<longrightarrow> m' k = floats h m k"
    using copy_floats_ok [OF assms(2)] by blast
  obtain v' where v': "copy_floats h v (batchnorm_var r1) = Inr v'" "\<forall>k. 0 \<le> k \<longrightarrow> k < 1024 \<longrightarrow> v' k = floats h v k"
    using copy_floats_ok [OF assms(3)] by blast
  obtain w' where w': "copy_floats h w (batchnorm_weight r1) = Inr w'" "\<forall>k. 0 \<le> k \<longrightarrow> k < 1024 \<longrightarrow> w' k = floats h w k"
    using copy_floats_ok [OF assms(4)] by blast
  obtain b' where b': "copy_floats h b (batchnorm_bias r1) = Inr b'" "\<forall>k. 0 \<le> k \<longrightarrow> k < 1024 \<longrightarrow> b' k = floats h b k"
    using copy_floats_ok [OF assms(5)] by blast
  have "forR (\<lambda>i. forR (\<lambda>j. load_cell h wt i j) (idx 0 1024 1)) (idx 0 1024 1) r = Inr r1"
    using r1(1) by (simp add: forR_product)
  then have run: "load_weight h wt m v w b r =
      Inr (r1\<lparr>batchnorm_mean := m', batchnorm_var := v', batchnorm_weight := w', batchnorm_bias := b'\<rparr>, 100000)"
    using m' v' w' b' by (simp add: load_weight_def)
  have "cell_ok (noise r) (bytes h wt (i * 1024 + j)) (weight_positive r1 i j) (weight_negative r1 i j)"
    if "i \<in> {0..<1024}" "j \<in> {0..<1024}" for i j
    using r1(3) that by (simp add: set_idx_1)
  then show ?thesis using run r1(2) m'(2) v'(2) w'(2) b'(2) by (simp add: holds_def)
qed

section \<open>Calculating\<close>

definition row_value :: "rram \<Rightarrow> (int \<Rightarrow> int) \<Rightarrow> int \<Rightarrow> f32" where
  "row_value r x i =
     (let js = idx 0 1024 1 in
      foldl (\<lambda>v j. f32_sub v (f32_mul (f32_of_int (x j)) (weight_negative r i j)))
        (foldl (\<lambda>v j. f32_add v (f32_mul (f32_of_int (x j)) (weight_positive r i j))) 0 js) js)"

definition fc_out :: "rram \<Rightarrow> (int \<Rightarrow> int) \<Rightarrow> int \<Rightarrow> f32" where
  "fc_out r x i = batch_norm r i (row_value r x i)"

lemma forR_foldl: "(\<And>j s. j \<in> set js \<Longrightarrow> body j s = Inr (f s j)) \<Longrightarrow> forR body js s = Inr (foldl f s js)"
  by (induction js arbitrary: s) auto

lemma row_sum_ok:
  assumes "span h inp 256"
  shows "row_sum r h inp i = Inr (row_value r (\<lambda>j. sint (bytes h inp j)) i)"
proof -
  have ld: "loadB h inp j = Inr (bytes h inp j)" if "j \<in> set (idx 0 1024 1)" for j
    by (rule bytes_load [OF assms]) (use that in \<open>auto simp: set_idx_1\<close>)
  show ?thesis
    unfolding row_sum_def row_value_def Let_def
    by (subst forR_foldl [where f = "\<lambda>v j. f32_add v (f32_mul (f32_of_int (sint (bytes h inp j))) (weight_positive r i j))"])
       (simp_all add: ld forR_foldl [where f = "\<lambda>v j. f32_sub v (f32_mul (f32_of_int (sint (bytes h inp j))) (weight_negative r i j))"])
qed

lemma only_block_row_sum: "pblk inp = a \<Longrightarrow> only_block a (\<lambda>h. row_sum r h inp i)"
  unfolding row_sum_def by (intro only_block_bind2 only_block_forR only_block_loadB only_block_const) auto

lemma calculate_ok:
  assumes "span h inp 256" and "span h outp 1024" and "pblk inp \<noteq> pblk outp"
  shows "\<exists>h'. rram_calculate r h inp outp = Inr (h', 100) \<and> same_layout h h' \<and>
     (\<forall>b. b \<noteq> pblk outp \<longrightarrow> heap h' ! b = heap h ! b) \<and>
     (\<forall>i. 0 \<le> i \<longrightarrow> i < 1024 \<longrightarrow> floats h' outp i = fc_out r (\<lambda>j. sint (bytes h inp j)) i)"
proof -
  let ?es = "idx 0 1024 1" and ?dp = "\<lambda>i. ptr_add outp i"
  let ?ld = "\<lambda>h i. bindR (row_sum r h inp i) (\<lambda>v. Inr (batch_norm r i v))"
  have inj: "inj_on ?dp (set ?es)" by (rule inj_onI) (auto simp: ptr_add_def dest: arg_cong [where f = poff])
  have pre: "only_block b (\<lambda>h. ?ld h i) \<and> (\<exists>v. ?ld h i = Inr v) \<and> ptr_valid h (?dp i) \<and> pblk (?dp i) \<noteq> b"
    if "i \<in> set ?es" "b = pblk inp" for i b
    using that span_valid [OF assms(2), of i] row_sum_ok [OF assms(1)] assms(3)
    by (auto simp: set_idx_1 ptr_add_def intro!: only_block_bind only_block_row_sum)
  obtain h' where h': "forR (\<lambda>i h. bindR (?ld h i) (storeF h (?dp i))) ?es h = Inr h'" "same_layout h h'"
      "\<forall>i\<in>set ?es. loadF h' (?dp i) = ?ld h i"
    using copy_loop [OF distinct_idx inj, of "pblk inp" ?ld h] pre by blast
  have blk: "heap h' ! b = heap h ! b" if "b \<noteq> pblk outp" for b
    by (rule forR_keeps [OF _ _ h'(1), where I = "\<lambda>s. heap s ! b = heap h ! b"])
       (use that in \<open>auto simp: bindR_eq_Inr ptr_add_def dest!: storeF_other\<close>)
  have eq: "forR (\<lambda>i h. bindR (?ld h i) (storeF h (?dp i))) ?es h =
      forR (\<lambda>i h. bindR (row_sum r h inp i) (\<lambda>v. storeF h (ptr_add outp i) (batch_norm r i v))) ?es h"
    by (rule forR_cong) (simp add: bindR_assoc)
  have "floats h' outp i = fc_out r (\<lambda>j. sint (bytes h inp j)) i" if "0 \<le> i" "i < 1024" for i
    using h'(3) that row_sum_ok [OF assms(1)] by (simp add: floats_def fc_out_def set_idx_1)
  then show ?thesis using h'(1,2) eq blk by (auto simp: rram_calculate_def)
qed

section \<open>Sign and input\<close>

lemma sign_ok:
  assumes "span h inp 1024" and "span h outp 256" and "pblk inp \<noteq> pblk outp"
  shows "\<exists>h'. rram_sign h inp outp = Inr (h', 1) \<and> same_layout h h' \<and>
     (\<forall>b. b \<noteq> pblk outp \<longrightarrow> heap h' ! b = heap h ! b) \<and>
     (\<forall>i. 0 \<le> i \<longrightarrow> i < 1024 \<longrightarrow> bytes h' outp i = sign_byte (floats h inp i))"
proof -
  let ?ld = "\<lambda>h i. bindR (loadF h (ptr_add inp i)) (\<lambda>x. Inr (sign_byte x))"
  have ld: "?ld h i = Inr (sign_byte (floats h inp i))" if "i \<in> set (idx 0 1024 1)" for i
    using that floats_load [OF assms(1), of i] by (simp add: set_idx_1)
  have pre: "only_block (pblk inp) (\<lambda>h. ?ld h i) \<and> (\<exists>v. ?ld h i = Inr v) \<and> ptr_valid h (ptr_add outp (i div 4))"
    if "i \<in> set (idx 0 1024 1)" for i
  proof (intro conjI)
    show "only_block (pblk inp) (\<lambda>h. ?ld h i)"
      by (intro only_block_bind only_block_loadF) (simp add: ptr_add_def)
    show "\<exists>v. ?ld h i = Inr v" using ld [OF that] by blast
    show "ptr_valid h (ptr_add outp (i div 4))"
      using that by (intro span_byte [OF assms(2)]) (simp_all add: set_idx_1)
  qed
  have ne: "pblk outp \<noteq> pblk inp" using assms(3) by simp
  obtain h' where h': "forR (\<lambda>e h. bindR (?ld h e) (storeB h outp e)) (idx 0 1024 1) h = Inr h'" "same_layout h h'"
      "\<forall>b. b \<noteq> pblk outp \<longrightarrow> heap h' ! b = heap h ! b"
      "\<forall>j. loadB h' outp j = (if j \<in> set (idx 0 1024 1) then ?ld h j else loadB h outp j)"
    using byte_loop [OF distinct_idx ne pre] by blast
  have "forR (\<lambda>e h. bindR (?ld h e) (storeB h outp e)) (idx 0 1024 1) h =
      forR (\<lambda>i h. bindR (loadF h (ptr_add inp i)) (\<lambda>x. storeB h outp i (sign_byte x))) (idx 0 1024 1) h"
    by (rule forR_cong) (simp add: bindR_assoc)
  then have "forR (\<lambda>i h. bindR (loadF h (ptr_add inp i)) (\<lambda>x. storeB h outp i (sign_byte x))) (idx 0 1024 1) h = Inr h'"
    using h'(1) by (rule subst)
  then have run: "rram_sign h inp outp = Inr (h', 1)" by (simp add: rram_sign_def)
  have "bytes h' outp i = sign_byte (floats h inp i)" if "0 \<le> i" "i < 1024" for i
    using h'(4) ld [of i] that by (simp add: bytes_def set_idx_1)
  then show ?thesis using run h'(2,3) by blast
qed

lemma input_ok:
  assumes "span h from 196" and "span h to 196" and "pblk from \<noteq> pblk to"
  shows "\<exists>h'. forR (\<lambda>i h. bindR (loadB h from i) (\<lambda>b. storeB h to i (if 0 < uint b then 1 else 0))) (idx 0 784 1) h = Inr h' \<and>
     same_layout h h' \<and> (\<forall>b. b \<noteq> pblk to \<longrightarrow> heap h' ! b = heap h ! b) \<and>
     (\<forall>i. bytes h' to i = (if 0 \<le> i \<and> i < 784 then if 0 < uint (bytes h from i) then 1 else 0 else bytes h to i))"
proof -
  let ?ld = "\<lambda>h i. bindR (loadB h from i) (\<lambda>b. Inr (if 0 < uint b then 1 else 0 :: byte))"
  have ld: "?ld h i = Inr (if 0 < uint (bytes h from i) then 1 else 0)" if "i \<in> set (idx 0 784 1)" for i
    using that bytes_load [OF assms(1), of i] by (simp add: set_idx_1)
  have pre: "only_block (pblk from) (\<lambda>h. ?ld h i) \<and> (\<exists>v. ?ld h i = Inr v) \<and> ptr_valid h (ptr_add to (i div 4))"
    if "i \<in> set (idx 0 784 1)" for i
  proof (intro conjI)
    show "only_block (pblk from) (\<lambda>h. ?ld h i)"
      by (intro only_block_bind only_block_loadB refl)
    show "\<exists>v. ?ld h i = Inr v" using ld [OF that] by blast
    show "ptr_valid h (ptr_add to (i div 4))"
      using that by (intro span_byte [OF assms(2)]) (simp_all add: set_idx_1)
  qed
  have ne: "pblk to \<noteq> pblk from" using assms(3) by simp
  obtain h' where h': "forR (\<lambda>e h. bindR (?ld h e) (storeB h to e)) (idx 0 784 1) h = Inr h'" "same_layout h h'"
      "\<forall>b. b \<noteq> pblk to \<longrightarrow> heap h' ! b = heap h ! b"
      "\<forall>j. loadB h' to j = (if j \<in> set (idx 0 784 1) then ?ld h j else loadB h to j)"
    using byte_loop [OF distinct_idx ne pre] by blast
  have "forR (\<lambda>e h. bindR (?ld h e) (storeB h to e)) (idx 0 784 1) h =
      forR (\<lambda>i h. bindR (loadB h from i) (\<lambda>b. storeB h to i (if 0 < uint b then 1 else 0))) (idx 0 784 1) h"
    by (rule forR_cong) (simp add: bindR_assoc)
  then have run: "forR (\<lambda>i h. bindR (loadB h from i) (\<lambda>b. storeB h to i (if 0 < uint b then 1 else 0))) (idx 0 784 1) h = Inr h'"
    using h'(1) by (rule subst)
  have "bytes h' to i = (if 0 \<le> i \<and> i < 784 then if 0 < uint (bytes h from i) then 1 else 0 else bytes h to i)" for i
    using h'(4) ld [of i] by (cases "0 \<le> i \<and> i < 784") (auto simp: bytes_def set_idx_1)
  then show ?thesis using run h'(2,3) by blast
qed

end
