(* ===== verification/Views.thy ===== *)
theory Views imports Memory_Hub begin

text \<open>
  Tables of named views: what \<open>op_init\<close> of either accelerator registers in the hub, and
  what registering them again changes.
\<close>

definition view :: "nat \<Rightarrow> int \<Rightarrow> int \<Rightarrow> int \<Rightarrow> int \<Rightarrow> int \<Rightarrow> memory" where
  "view b off x y z w = SharedMemory_new \<lparr>pblk = b, poff = off\<rparr> x y z w"

lemma view_sel [simp]:
  "mdata (view b off x y z w) = \<lparr>pblk = b, poff = off\<rparr>"
  "xLen (view b off x y z w) = x" "yLen (view b off x y z w) = y"
  "zLen (view b off x y z w) = z" "wLen (view b off x y z w) = w"
  "wzyxLen (view b off x y z w) = w * z * y * x"
  by (simp_all add: view_def SharedMemory_new_def Let_def)

lemma base_sel [simp]:
  "mdata (Memory_new p x y z w) = p" "wzyxLen (Memory_new p x y z w) = w * z * y * x"
  "xLen (Memory_new p x y z w) = x" "yLen (Memory_new p x y z w) = y"
  "zLen (Memory_new p x y z w) = z" "wLen (Memory_new p x y z w) = w"
  by (simp_all add: Memory_new_def Let_def)

lemma getPtr_base [simp]: "0 < wzyxLen m \<Longrightarrow> getPtr m 0 0 0 0 = Inr (mdata m)"
  by (simp add: getPtr_def ptr_add_def)

fun add_view :: "string \<times> memory \<Rightarrow> memhub \<Rightarrow> memhub" where
  "add_view (n, m) h = (case memories h n of Some _ \<Rightarrow> h | None \<Rightarrow> h\<lparr>memories := (memories h)(n \<mapsto> m)\<rparr>)"

lemma addSharedMemory_view: "addSharedMemory n \<lparr>pblk = b, poff = off\<rparr> x y z w h = add_view (n, view b off x y z w) h"
  by (simp add: addSharedMemory_def view_def)

lemma add_view_heap [simp]: "heap (add_view e h) = heap h"
  by (cases e) (auto split: option.splits)

lemma add_view_keep: "memories h n = Some m \<Longrightarrow> memories (add_view e h) n = Some m"
  by (cases e) (auto split: option.splits)

lemma add_view_same: "memories h n = Some m \<Longrightarrow> add_view (n, m') h = h"
  by simp

lemma fold_add_view_heap [simp]: "heap (fold add_view t h) = heap h"
  by (induction t arbitrary: h) simp_all

lemma fold_add_view_keep: "memories h n = Some m \<Longrightarrow> memories (fold add_view t h) n = Some m"
  by (induction t arbitrary: h) (simp_all add: add_view_keep)

lemma fold_add_view_get:
  assumes "distinct (map fst t)" and "\<forall>(n, m)\<in>set t. memories h n = None \<or> memories h n = Some m"
    and "(n, m) \<in> set t"
  shows "memories (fold add_view t h) n = Some m"
  using assms
proof (induction t arbitrary: h)
  case Nil
  then show ?case by simp
next
  case (Cons e t)
  obtain k v where e: "e = (k, v)" by (cases e)
  have k: "memories (add_view e h) k = Some v" using Cons.prems(2) e by (auto split: option.splits)
  have o: "memories (add_view e h) n' = memories h n'" if "n' \<noteq> k" for n'
    using that e by (auto split: option.splits)
  show ?case
  proof (cases "n = k")
    case True
    then have "m = v" using Cons.prems(1,3) e by (auto simp: image_iff)
    then show ?thesis using k True by (simp add: fold_add_view_keep)
  next
    case False
    have "\<forall>(n, m)\<in>set t. memories (add_view e h) n = None \<or> memories (add_view e h) n = Some m"
    proof (intro ballI, clarify)
      fix n' m' assume i: "(n', m') \<in> set t" and "\<not> memories (add_view e h) n' = Some m'"
      moreover have "n' \<noteq> k" using i Cons.prems(1) e by (force simp: image_iff)
      ultimately show "memories (add_view e h) n' = None" using Cons.prems(2) o i by auto
    qed
    then have "memories (fold add_view t (add_view e h)) n = Some m"
      using Cons.prems False e by (intro Cons.IH) auto
    then show ?thesis by simp
  qed
qed

lemma fold_add_view_same:
  "\<forall>(n, m)\<in>set t. memories h n = Some m \<Longrightarrow> fold add_view t h = h"
  by (induction t) auto

lemma view_nz [simp]: "wzLen (view b off x y z w) = w * z" "wzyLen (view b off x y z w) = w * z * y"
  by (simp_all add: view_def SharedMemory_new_def Let_def)


lemma fold_add_view_other: "n \<notin> fst ` set t \<Longrightarrow> memories (fold add_view t h) n = memories h n"
proof (induction t arbitrary: h)
  case (Cons e t)
  obtain k v where "e = (k, v)" by (cases e)
  then show ?case using Cons by (auto split: option.splits)
qed simp

text \<open>A view inside its block is a consistent memory.\<close>

lemma view_mem_ok:
  assumes "b < length (heap h)" "0 < x" "0 < y" "0 < z" "0 < w" "0 \<le> off"
    and "off + w * z * y * x \<le> int (blen (heap h ! b))"
  shows "mem_ok h (view b off x y z w)"
  using assms by (simp add: mem_ok_def view_def SharedMemory_new_def Let_def)

lemma getPtr_view [simp]: "0 < w * z * y * x \<Longrightarrow> getPtr (view b off x y z w) 0 0 0 0 = Inr \<lparr>pblk = b, poff = off\<rparr>"
  by (simp add: view_def getPtr_base SharedMemory_new_def Let_def)

end
