(* ===== verification/Cnn_Skip.thy ===== *)
theory Cnn_Skip imports Cnn_Core begin

text \<open>
  The zero-skipping loops of the modified core against the loops they replace: same
  results, same faults, never more cycles.  The one assumption is that the input
  activations are finite floats held in another block than the output, since
  \<open>0 * inf\<close> is a NaN.  The second part counts the cycles of the original loops.
\<close>

section \<open>One tap\<close>

definition acc_rel :: "Data \<times> int \<Rightarrow> Data \<times> int \<Rightarrow> bool" where
  "acc_rel s t \<longleftrightarrow> fst s = fst t \<and> snd s \<le> snd t \<and> data_all f32_sum_ok (fst s)"

lemma flag_zero_iff: "flag_zero w \<longleftrightarrow> data_all f32_is_zero w"
  by (simp add: flag_zero_def data_all_def f32_eq_zero_iff)

lemma acc_rel_init: "acc_rel (Data 0 0 0 0, a) (Data 0 0 0 0, b) \<longleftrightarrow> a \<le> b"
  by (simp add: acc_rel_def)

text \<open>The tap interface: what a skipping tap and its original owe the loops around them.\<close>

locale skip_tap =
  fixes tap tap_orig :: "'e \<Rightarrow> Data \<times> int \<Rightarrow> (Data \<times> int) res"
    and ready :: "'e \<Rightarrow> bool"
  assumes tap_rel: "ready e \<Longrightarrow> acc_rel s t \<Longrightarrow> res_rel acc_rel (tap e s) (tap_orig e t)"
begin

lemma tap_loop:
  "(\<And>i. i \<in> set is \<Longrightarrow> ready (f i)) \<Longrightarrow> acc_rel s t \<Longrightarrow>
   res_rel acc_rel (forR (\<lambda>i. tap (f i)) is s) (forR (\<lambda>i. tap_orig (f i)) is t)"
  by (rule forR_rel) (auto intro: tap_rel)

lemma tap_loop2:
  "(\<And>i j. i \<in> set is \<Longrightarrow> j \<in> set js \<Longrightarrow> ready (f i j)) \<Longrightarrow> acc_rel s t \<Longrightarrow>
   res_rel acc_rel (forR (\<lambda>i. forR (\<lambda>j. tap (f i j)) js) is s)
     (forR (\<lambda>i. forR (\<lambda>j. tap_orig (f i j)) js) is t)"
  by (rule forR_rel) (auto intro: tap_loop)

lemma tap_loop3:
  "(\<And>i j k. i \<in> set is \<Longrightarrow> j \<in> set js \<Longrightarrow> k \<in> set ks \<Longrightarrow> ready (f i j k)) \<Longrightarrow> acc_rel s t \<Longrightarrow>
   res_rel acc_rel (forR (\<lambda>i. forR (\<lambda>j. forR (\<lambda>k. tap (f i j k)) ks) js) is s)
     (forR (\<lambda>i. forR (\<lambda>j. forR (\<lambda>k. tap_orig (f i j k)) ks) js) is t)"
  by (rule forR_rel) (auto intro: tap_loop2)

end

text \<open>Skipping and multiplying by four zeros leave the same sum.\<close>

lemma mac_step_rel:
  assumes "acc_rel s t" and "f32_finite x"
  shows "res_rel acc_rel
     (if flag_zero w then Inr s else case mac (fst s) (Data x x x x) w of (acc, cy) \<Rightarrow> Inr (acc, snd s + cy))
     (case mac (fst t) (Data x x x x) w of (acc, cy) \<Rightarrow> Inr (acc, snd t + cy))"
proof -
  let ?r = "mac (fst t) (Data x x x x) w"
  have eq: "fst s = fst t" and le: "snd s \<le> snd t" and ok: "data_all f32_sum_ok (fst t)"
    using assms(1) by (auto simp: acc_rel_def)
  have r: "?r = (fst ?r, 1)" by (rule prod_eqI) simp_all
  have "flag_zero w \<Longrightarrow> fst ?r = fst t"
    using ok assms(2) by (simp add: flag_zero_iff mac_zero_weight)
  then show ?thesis
    using mac_sum_ok [OF ok, of "Data x x x x" w] le ok
    by (simp add: eq acc_rel_def case_prod_beta)
qed

type_synonym conv_env = "memhub \<times> memory \<times> memory \<times> int \<times> int \<times> int \<times> int \<times> int \<times> int"

definition conv_tap_env :: "tap \<Rightarrow> conv_env \<Rightarrow> Data \<times> int \<Rightarrow> (Data \<times> int) res" where
  "conv_tap_env tp e = (case e of (h, inm, weight, wX, wY, inX, inY, oc, ic) \<Rightarrow>
     tp h inm weight wX wY inX inY oc ic)"

definition conv_ready :: "conv_env \<Rightarrow> bool" where
  "conv_ready e = (case e of (h, inm, _) \<Rightarrow> block_finite h (pblk (mdata inm)))"

interpretation conv_skip: skip_tap "conv_tap_env conv_tap" "conv_tap_env conv_tap_orig" conv_ready
proof
  fix e :: conv_env and s t :: "Data \<times> int"
  assume r: "conv_ready e" and st: "acc_rel s t"
  obtain h inm weight wX wY inX inY oc ic where e: "e = (h, inm, weight, wX, wY, inX, inY, oc, ic)"
    by (cases e) auto
  have fin: "loadAt h inm inX inY ic 0 = Inr x \<Longrightarrow> f32_finite x" for x
    using r block_finite_loadAt by (simp add: e conv_ready_def)
  show "res_rel acc_rel (conv_tap_env conv_tap e s) (conv_tap_env conv_tap_orig e t)"
    unfolding e conv_tap_env_def conv_tap_def conv_tap_orig_def prod.case
    by (intro bindR_rel_same mac_step_rel st fin)
qed

type_synonym fc_env = "memhub \<times> memory \<times> memory \<times> int \<times> int \<times> int"

definition fc_tap_env :: "ftap \<Rightarrow> fc_env \<Rightarrow> Data \<times> int \<Rightarrow> (Data \<times> int) res" where
  "fc_tap_env tp e = (case e of (h, inm, weight, rend, oi, ii) \<Rightarrow> tp h inm weight rend oi ii)"

definition fc_ready :: "fc_env \<Rightarrow> bool" where
  "fc_ready e = (case e of (h, inm, _) \<Rightarrow> block_finite h (pblk (mdata inm)))"

lemma fc_load_in_finite:
  "block_finite h (pblk (mdata inm)) \<Longrightarrow> fc_load_in h inm ii = Inr x \<Longrightarrow> f32_finite x"
  using block_finite_load getPtr_block by (fastforce simp: fc_load_in_def bindR_eq_Inr ptr_add_def)

interpretation fc_skip: skip_tap "fc_tap_env fc_tap" "fc_tap_env fc_tap_orig" fc_ready
proof
  fix e :: fc_env and s t :: "Data \<times> int"
  assume r: "fc_ready e" and st: "acc_rel s t"
  obtain h inm weight rend oi ii where e: "e = (h, inm, weight, rend, oi, ii)"
    by (cases e) auto
  have fin: "fc_load_in h inm ii = Inr x \<Longrightarrow> f32_finite x" for x
    using r fc_load_in_finite by (simp add: e fc_ready_def)
  show "res_rel acc_rel (fc_tap_env fc_tap e s) (fc_tap_env fc_tap_orig e t)"
    unfolding e fc_tap_env_def fc_tap_def fc_tap_orig_def prod.case
    by (intro bindR_rel_same mac_step_rel st fin)
qed

lemma conv_acc_rel:
  assumes "block_finite h (pblk (mdata inm))" and "a \<le> b"
  shows "res_rel acc_rel (conv_acc conv_tap h inm w n fs st x y oc a) (conv_acc conv_tap_orig h inm w n fs st x y oc b)"
  using conv_skip.tap_loop3 [of "idx 0 fs 1" "idx 0 fs 1" "idx 0 n 1"
      "\<lambda>wX wY ic. (h, inm, w, wX, wY, x * st + wX, y * st + wY, oc, ic)"
      "(Data 0 0 0 0, a)" "(Data 0 0 0 0, b)"] assms
  by (simp add: conv_acc_def conv_tap_env_def conv_ready_def acc_rel_init)

lemma fc_acc_rel:
  assumes "block_finite h (pblk (mdata inm))" and "a \<le> b"
  shows "res_rel acc_rel (forR (fc_tap h inm w rend oi) (idx 0 n 1) (Data 0 0 0 0, a))
     (forR (fc_tap_orig h inm w rend oi) (idx 0 n 1) (Data 0 0 0 0, b))"
  using fc_skip.tap_loop [of "idx 0 n 1" "\<lambda>ii. (h, inm, w, rend, oi, ii)"
      "(Data 0 0 0 0, a)" "(Data 0 0 0 0, b)"] assms
  by (simp add: fc_tap_env_def fc_ready_def acc_rel_init)

section \<open>The output loops\<close>

definition out_rel :: "nat \<Rightarrow> memhub \<times> int \<Rightarrow> memhub \<times> int \<Rightarrow> bool" where
  "out_rel b s t \<longleftrightarrow> fst s = fst t \<and> snd s \<le> snd t \<and> block_finite (fst s) b"

lemma store4_z_finite:
  "store4_z h m x y z d = Inr h' \<Longrightarrow> b \<noteq> pblk (mdata m) \<Longrightarrow> block_finite h b \<Longrightarrow> block_finite h' b"
  by (cases d) (auto simp: bindR_eq_Inr dest: storeAt_finite_other)

lemma fc_store_finite:
  "fc_store h m oi rend d = Inr h' \<Longrightarrow> b \<noteq> pblk (mdata m) \<Longrightarrow> block_finite h b \<Longrightarrow> block_finite h' b"
  by (cases d) (auto simp: bindR_eq_Inr split: if_splits dest: storeAt_finite_other)

lemma conv_point_rel:
  assumes "pblk (mdata inm) \<noteq> pblk (mdata out)" and "out_rel (pblk (mdata inm)) s t"
  shows "res_rel (out_rel (pblk (mdata inm))) (conv_point conv_tap inm out w bi n fs st x y oc s)
     (conv_point conv_tap_orig inm out w bi n fs st x y oc t)"
proof -
  obtain h a where s: "s = (h, a)" by (cases s)
  obtain b where t: "t = (h, b)" using assms(2) s by (cases t) (simp add: out_rel_def)
  have f: "block_finite h (pblk (mdata inm))" and le: "a \<le> b" using assms(2) s t by (auto simp: out_rel_def)
  have fin: "store4_z h out i j k d = Inr h' \<Longrightarrow> block_finite h' (pblk (mdata inm))" for i j k d h'
    using store4_z_finite assms(1) f by blast
  show ?thesis
    unfolding s t conv_point_def prod.case
    by (rule bindR_rel [OF conv_acc_rel [OF f le]])
      (auto simp: acc_rel_def out_rel_def split: prod.splits intro!: bindR_rel_same fin)
qed

lemma fc_point_rel:
  assumes "pblk (mdata inm) \<noteq> pblk (mdata out)" and "out_rel (pblk (mdata inm)) s t"
  shows "res_rel (out_rel (pblk (mdata inm))) (fc_point fc_tap inm out w bi n rend oi s)
     (fc_point fc_tap_orig inm out w bi n rend oi t)"
proof -
  obtain h a where s: "s = (h, a)" by (cases s)
  obtain b where t: "t = (h, b)" using assms(2) s by (cases t) (simp add: out_rel_def)
  have f: "block_finite h (pblk (mdata inm))" and le: "a \<le> b" using assms(2) s t by (auto simp: out_rel_def)
  have fin: "fc_store h out i j d = Inr h' \<Longrightarrow> block_finite h' (pblk (mdata inm))" for i j d h'
    using fc_store_finite assms(1) f by blast
  show ?thesis
    unfolding s t fc_point_def prod.case
    by (rule bindR_rel [OF fc_acc_rel [OF f le]])
      (auto simp: acc_rel_def out_rel_def split: prod.splits intro!: bindR_rel_same fin)
qed

definition skip_result :: "core \<times> int \<Rightarrow> core \<times> int \<Rightarrow> bool" where
  "skip_result r r' \<longleftrightarrow> fst r = fst r' \<and> snd r \<le> snd r'"

lemma finish_rel:
  "out_rel b s t \<Longrightarrow> res_rel skip_result (case s of (h, n) \<Rightarrow> Inr (c\<lparr>hub := h\<rparr>, n div 64))
     (case t of (h, n) \<Rightarrow> Inr (c\<lparr>hub := h\<rparr>, n div 64))"
  by (auto simp: out_rel_def skip_result_def zdiv_mono1 split: prod.splits)

text \<open>C6: skipping the all-zero weight groups of a convolution changes no output and no
  fault, and never costs cycles.\<close>

theorem op_conv_skip:
  assumes "memories (hub c) inN = Some inm" and "memories (hub c) outN = Some out"
    and "pblk (mdata inm) \<noteq> pblk (mdata out)" and "block_finite (hub c) (pblk (mdata inm))"
  shows "res_rel skip_result (op_conv c inN outN wN bN n ocr xr yr fs st)
     (op_conv_orig c inN outN wN bN n ocr xr yr fs st)"
proof -
  have "out_rel (pblk (mdata inm)) (hub c, 0) (hub c, 0)"
    using assms(4) by (simp add: out_rel_def)
  then show ?thesis
    unfolding op_conv_def op_conv_orig_def conv_loops_def getMemory_def assms(1,2) option.case bindR_Inr
    by (intro bindR_rel_same bindR_rel [where R = "out_rel (pblk (mdata inm))"] finish_rel
        forR_rel [where R = "out_rel (pblk (mdata inm))"] conv_point_rel [OF assms(3)])
qed

theorem op_conv_skip_witness:
  "res_rel skip_result (op_conv demo_core ''in2'' ''out2'' ''w'' ''b'' 1 (0, 4) (0, 1) (0, 1) 1 1)
     (op_conv_orig demo_core ''in2'' ''out2'' ''w'' ''b'' 1 (0, 4) (0, 1) (0, 1) 1 1)"
  by (rule op_conv_skip [OF demo_memories(2,4)]) (simp_all add: demo_finite)

text \<open>C7: the same for the fully connected layers.\<close>

theorem op_fc_skip:
  assumes "memories (hub c) inN = Some inm" and "memories (hub c) outN = Some out"
    and "pblk (mdata inm) \<noteq> pblk (mdata out)" and "block_finite (hub c) (pblk (mdata inm))"
  shows "res_rel skip_result (op_fc c inN outN wN bN n rng) (op_fc_orig c inN outN wN bN n rng)"
proof -
  have "out_rel (pblk (mdata inm)) (hub c, 0) (hub c, 0)"
    using assms(4) by (simp add: out_rel_def)
  then show ?thesis
    unfolding op_fc_def op_fc_orig_def fc_loops_def getMemory_def assms(1,2) option.case bindR_Inr
    by (intro bindR_rel_same bindR_rel [where R = "out_rel (pblk (mdata inm))"] finish_rel
        forR_rel [where R = "out_rel (pblk (mdata inm))"] fc_point_rel [OF assms(3)])
qed

theorem op_fc_skip_witness:
  "res_rel skip_result (op_fc demo_core ''in'' ''out'' ''b'' ''b'' 4 (0, 4))
     (op_fc_orig demo_core ''in'' ''out'' ''b'' ''b'' 4 (0, 4))"
  by (rule op_fc_skip [OF demo_memories(1,3)]) (simp_all add: demo_finite)

end
