(* ===== verification/Cnn_Chip.thy ===== *)
theory Cnn_Chip imports Cnn_Core begin

text \<open>
  \<open>class AIChip\<close> of the CNN accelerator (vdev/SimpleCNN/ai_chip.h, ai_chip.cpp): the
  constructor that allocates the three memories, and \<open>run\<close>, which performs the network
  layer that the \<open>counter\<close> register selects.
\<close>

record aichip =
  tickPerCycle :: int
  mem1 :: fptr
  mem2 :: fptr
  mem3 :: fptr
  finished :: bool
  counter :: byte
  ccore :: core

text \<open>\<open>j1\<close>, \<open>j2\<close>, \<open>j3\<close>: the indeterminate contents of the three fresh arrays.\<close>

definition AIChip_new :: "(nat \<Rightarrow> f32) \<Rightarrow> (nat \<Rightarrow> f32) \<Rightarrow> (nat \<Rightarrow> f32) \<Rightarrow> aichip res" where
  "AIChip_new j1 j2 j3 =
     bindR (addMemory j1 ''activation_mem1'' (28 * 28 * 32) 1 1 1 \<lparr>heap = [], memories = Map.empty\<rparr>) (\<lambda>h1.
     bindR (addMemory j2 ''activation_mem2'' (28 * 28 * 32) 1 1 1 h1) (\<lambda>h2.
     bindR (addMemory j3 ''weight_and_bias_mem'' 1663371 1 1 1 h2) (\<lambda>h3.
     bindR (getMemory h3 ''activation_mem1'') (\<lambda>m1. bindR (getPtr m1 0 0 0 0) (\<lambda>p1.
     bindR (getMemory h3 ''activation_mem2'') (\<lambda>m2. bindR (getPtr m2 0 0 0 0) (\<lambda>p2.
     bindR (getMemory h3 ''weight_and_bias_mem'') (\<lambda>m3. bindR (getPtr m3 0 0 0 0) (\<lambda>p3.
     Inr \<lparr>tickPerCycle = 1, mem1 = p1, mem2 = p2, mem3 = p3, finished = False, counter = 0,
          ccore = \<lparr>hub = h3, outputIndex = - 1\<rparr>\<rparr>)))))))))"

definition AIChip_run :: "aichip \<Rightarrow> (aichip \<times> int) res" where
  "AIChip_run a =
     (let a0 = a\<lparr>finished := False\<rparr>; c = ccore a0; n = uint (counter a0) in
      bindR
       (if n = 0 then bindR (op_init c) (\<lambda>(c', cy). Inr (a0\<lparr>ccore := c'\<rparr>, cy))
        else if n = 1 then bindR (op_input c ''activation_mem2'' ''data/padding/in'')
          (\<lambda>(c', cy). Inr (a0\<lparr>ccore := c'\<rparr>, cy))
        else if n = 2 then bindR (op_padding c ''data/padding/in'' ''data/padding/out|conv2d/in'' 2 28 28 1 1)
          (\<lambda>(c', cy). Inr (a0\<lparr>ccore := c'\<rparr>, cy))
        else if n = 3 then bindR (op_conv c ''data/padding/out|conv2d/in'' ''data/conv2d/out|pool/in''
            ''model/conv2d/kernel'' ''model/conv2d/bias'' 1 (0, 32) (0, 28) (0, 28) 5 1)
          (\<lambda>(c', cy). Inr (a0\<lparr>ccore := c'\<rparr>, cy))
        else if n = 4 then bindR (op_pool c ''data/conv2d/out|pool/in'' ''data/pool/out|padding_1/in''
            (0, 32) (0, 14) (0, 14) 2 2)
          (\<lambda>(c', cy). Inr (a0\<lparr>ccore := c'\<rparr>, cy))
        else if n = 5 then bindR (op_padding c ''data/pool/out|padding_1/in''
            ''data/padding_1/out|conv2d_1/in'' 2 14 14 32 1)
          (\<lambda>(c', cy). Inr (a0\<lparr>ccore := c'\<rparr>, cy))
        else if n = 6 then bindR (op_conv c ''data/padding_1/out|conv2d_1/in'' ''data/conv2d_1/out|pool_1/in''
            ''model/conv2d_1/kernel'' ''model/conv2d_1/bias'' 32 (0, 64) (0, 14) (0, 14) 5 1)
          (\<lambda>(c', cy). Inr (a0\<lparr>ccore := c'\<rparr>, cy))
        else if n = 7 then bindR (op_pool c ''data/conv2d_1/out|pool_1/in'' ''data/pool_1/out|dense/in''
            (0, 64) (0, 7) (0, 7) 2 2)
          (\<lambda>(c', cy). Inr (a0\<lparr>ccore := c'\<rparr>, cy))
        else if n = 8 then bindR (op_fc c ''data/pool_1/out|dense/in'' ''data/dense/out|dense_1/in''
            ''model/dense/kernel'' ''model/dense/bias'' (7 * 7 * 64) (0, 512))
          (\<lambda>(c', cy). Inr (a0\<lparr>ccore := c'\<rparr>, cy))
        else if n = 9 then bindR (op_fc c ''data/dense/out|dense_1/in'' ''data/dense_1/out''
            ''model/dense_1/kernel'' ''model/dense_1/bias'' 512 (0, 10))
          (\<lambda>(c', cy). Inr (a0\<lparr>ccore := c'\<rparr>, cy))
        else if n = 10 then bindR (op_output c ''data/dense_1/out'') (\<lambda>(c', cy).
          bindR (storeB (hub c') (mem1 a0) 0 (word_of_int (outputIndex c')))
            (\<lambda>h. Inr (a0\<lparr>ccore := c'\<lparr>hub := h\<rparr>, finished := True\<rparr>, cy)))
        else Inr (a0, 0))
       (\<lambda>(a', cyclesUsed). bindR (int_mul cyclesUsed (tickPerCycle a')) (\<lambda>t. Inr (a', t))))"

end
