(* ===== verification/Cnn_Total.thy ===== *)
theory Cnn_Total imports Cnn_Skip Cnn_Chip begin

text \<open>
  The operations of the CNN core return, without a fault, whenever the shapes of their
  memories fit the ranges they are called with; they keep the layout of the hub; and the
  cycles they report are bounded by the operations the loops can perform.
\<close>

section \<open>Loading and storing groups of four\<close>

lemma load4_w_ok:
  "mem_ok h m \<Longrightarrow> in_shape m x y z wi \<Longrightarrow> wi + 3 < wLen m \<Longrightarrow> \<exists>d. load4_w h m x y z wi = Inr d"
  using loadAt_ok [of h m x y z wi] loadAt_ok [of h m x y z "wi + 1"]
    loadAt_ok [of h m x y z "wi + 2"] loadAt_ok [of h m x y z "wi + 3"]
  by (auto simp: load4_w_def in_shape_def)

lemma load4_z_ok:
  "mem_ok h m \<Longrightarrow> in_shape m x y z 0 \<Longrightarrow> z + 3 < zLen m \<Longrightarrow> \<exists>d. load4_z h m x y z = Inr d"
  using loadAt_ok [of h m x y z 0] loadAt_ok [of h m x y "z + 1" 0]
    loadAt_ok [of h m x y "z + 2" 0] loadAt_ok [of h m x y "z + 3" 0]
  by (auto simp: load4_z_def in_shape_def)

lemma load4_x_ok:
  "mem_ok h m \<Longrightarrow> in_shape m x 0 0 0 \<Longrightarrow> x + 3 < xLen m \<Longrightarrow> \<exists>d. load4_x h m x = Inr d"
  using loadAt_ok [of h m x 0 0 0] loadAt_ok [of h m "x + 1" 0 0 0]
    loadAt_ok [of h m "x + 2" 0 0 0] loadAt_ok [of h m "x + 3" 0 0 0]
  by (auto simp: load4_x_def in_shape_def)

lemma storeAt_step:
  assumes "same_layout h0 h" and "mem_ok h0 m" and "in_shape m x y z w"
    and "\<And>h'. same_layout h0 h' \<Longrightarrow> \<exists>r. k h' = Inr r \<and> same_layout h0 r"
  shows "\<exists>r. bindR (storeAt h m x y z w v) k = Inr r \<and> same_layout h0 r"
proof -
  have "mem_ok h m" using assms(1,2) by (simp add: mem_ok_layout)
  then obtain h' where h': "storeAt h m x y z w v = Inr h'" "same_layout h h'"
    using storeAt_ok [OF _ assms(3)] by blast
  have "same_layout h0 h'" using assms(1) h'(2) by (rule same_layout_trans)
  then show ?thesis using assms(4) h'(1) by simp
qed

lemma storeAt_last:
  assumes "same_layout h0 h" and "mem_ok h0 m" and "in_shape m x y z w"
  shows "\<exists>r. storeAt h m x y z w v = Inr r \<and> same_layout h0 r"
  using storeAt_step [OF assms, of Inr v] by (auto simp: bindR_eq_Inr)

lemma store4_z_ok:
  assumes "same_layout h0 h" and "mem_ok h0 m" and "in_shape m x y z 0" and "z + 3 < zLen m"
  shows "\<exists>h'. store4_z h m x y z d = Inr h' \<and> same_layout h0 h'"
  using assms
  by (cases d) (auto simp: in_shape_def intro!: storeAt_step storeAt_last)

section \<open>Convolution\<close>

definition conv_fits :: "memhub \<Rightarrow> memory \<Rightarrow> memory \<Rightarrow> memory \<Rightarrow> memory \<Rightarrow> int \<Rightarrow>
    int \<times> int \<Rightarrow> int \<times> int \<Rightarrow> int \<times> int \<Rightarrow> int \<Rightarrow> int \<Rightarrow> bool" where
  "conv_fits h inm out w b n ocr xr yr fs st \<longleftrightarrow>
     mem_ok h inm \<and> mem_ok h out \<and> mem_ok h w \<and> mem_ok h b \<and> 0 \<le> st \<and> 0 \<le> fs \<and> 0 \<le> n \<and>
     0 \<le> fst xr \<and> (snd xr - 1) * st + fs \<le> xLen inm \<and> snd xr \<le> xLen out \<and>
     0 \<le> fst yr \<and> (snd yr - 1) * st + fs \<le> yLen inm \<and> snd yr \<le> yLen out \<and>
     n \<le> zLen inm \<and> fs \<le> xLen w \<and> fs \<le> yLen w \<and> n \<le> zLen w \<and>
     0 \<le> fst ocr \<and> 4 dvd (snd ocr - fst ocr) \<and>
     snd ocr \<le> wLen w \<and> snd ocr \<le> xLen b \<and> snd ocr \<le> zLen out"

lemma group_of_four:
  assumes "i \<in> set (idx lo hi 4)" and "4 dvd (hi - lo)"
  shows "i + 3 < hi"
proof -
  have i: "lo \<le> i" "i < hi" "4 dvd (i - lo)" using idx_set [OF assms(1)] by auto
  have "4 dvd (hi - lo) - (i - lo)" using assms(2) i(3) by (rule dvd_diff)
  then have "4 \<le> hi - i" using i(2) by (intro zdvd_imp_le) auto
  then show ?thesis by simp
qed

lemma window_bound:
  assumes "0 \<le> lo" "x \<in> set (idx lo hi 1)" "0 \<le> st" "(hi - 1) * st + fs \<le> n" "0 \<le> k" "k < (fs :: int)"
  shows "0 \<le> x * st + k \<and> x * st + k < n"
proof -
  have x: "lo \<le> x" "x \<le> hi - 1" using assms(2) by (auto simp: set_idx_1)
  then have "x * st \<le> (hi - 1) * st" using assms(3) by (intro mult_right_mono)
  moreover have "0 \<le> x * st" using x assms(1,3) by simp
  ultimately show ?thesis using assms(4-6) by linarith
qed

lemma conv_tap_ok:
  assumes "conv_fits h inm out w b n ocr xr yr fs st"
    and "x \<in> set (idx (fst xr) (snd xr) 1)" "y \<in> set (idx (fst yr) (snd yr) 1)"
    and "oc \<in> set (idx (fst ocr) (snd ocr) 4)"
    and "wX \<in> set (idx 0 fs 1)" "wY \<in> set (idx 0 fs 1)" "ic \<in> set (idx 0 n 1)"
  shows "\<exists>r. conv_tap h inm w wX wY (x * st + wX) (y * st + wY) oc ic s = Inr r \<and>
     snd s \<le> snd r \<and> snd r \<le> snd s + 1"
proof -
  note f = assms(1) [unfolded conv_fits_def]
  have X: "0 \<le> x * st + wX \<and> x * st + wX < xLen inm"
    by (rule window_bound [OF _ assms(2)]) (use f assms(5) in \<open>auto simp: set_idx_1\<close>)
  have Y: "0 \<le> y * st + wY \<and> y * st + wY < yLen inm"
    by (rule window_bound [OF _ assms(3)]) (use f assms(6) in \<open>auto simp: set_idx_1\<close>)
  have oc: "0 \<le> oc" "oc + 3 < snd ocr"
    using group_of_four [OF assms(4)] idx_set [OF assms(4)] f by auto
  have "in_shape inm (x * st + wX) (y * st + wY) ic 0"
    using X Y f assms(7) by (auto simp: in_shape_def set_idx_1 mem_ok_def)
  then obtain v where v: "loadAt h inm (x * st + wX) (y * st + wY) ic 0 = Inr v"
    using loadAt_ok f by blast
  have "in_shape w wX wY ic oc" using oc f assms(5-7) by (auto simp: in_shape_def set_idx_1)
  then obtain d where d: "load4_w h w wX wY ic oc = Inr d"
    using load4_w_ok [of h w wX wY ic oc] f oc by auto
  show ?thesis
    by (cases s) (simp add: conv_tap_def v d case_prod_beta)
qed

lemma conv_acc_ok:
  assumes "conv_fits h inm out w b n ocr xr yr fs st"
    and "x \<in> set (idx (fst xr) (snd xr) 1)" "y \<in> set (idx (fst yr) (snd yr) 1)"
    and "oc \<in> set (idx (fst ocr) (snd ocr) 4)"
  shows "\<exists>r. conv_acc conv_tap h inm w n fs st x y oc cy = Inr r \<and> cy \<le> snd r \<and> snd r \<le> cy + n * fs * fs"
proof -
  have len: "int (length (idx 0 fs 1)) = fs" "int (length (idx 0 n 1)) = n"
    using assms(1) by (auto simp: length_idx_1 conv_fits_def)
  have 1: "\<exists>r. forR (\<lambda>ic. conv_tap h inm w wX wY (x * st + wX) (y * st + wY) oc ic) (idx 0 n 1) s = Inr r \<and>
      True \<and> snd s \<le> snd r \<and> snd r \<le> snd s + 1 * int (length (idx 0 n 1))"
    if "wX \<in> set (idx 0 fs 1)" "wY \<in> set (idx 0 fs 1)" for wX wY s
    by (rule forR_bounded) (use conv_tap_ok [OF assms that] in auto)
  have 2: "\<exists>r. forR (\<lambda>wY. forR (\<lambda>ic. conv_tap h inm w wX wY (x * st + wX) (y * st + wY) oc ic)
        (idx 0 n 1)) (idx 0 fs 1) s = Inr r \<and> True \<and> snd s \<le> snd r \<and>
      snd r \<le> snd s + n * int (length (idx 0 fs 1))"
    if "wX \<in> set (idx 0 fs 1)" for wX s
    by (rule forR_bounded) (use 1 [OF that] len in auto)
  have "\<exists>r. conv_acc conv_tap h inm w n fs st x y oc cy = Inr r \<and> True \<and>
      snd (Data 0 0 0 0, cy) \<le> snd r \<and>
      snd r \<le> snd (Data 0 0 0 0, cy) + n * fs * int (length (idx 0 fs 1))"
    unfolding conv_acc_def by (rule forR_bounded) (use 2 len in auto)
  then show ?thesis by (auto simp: len)
qed

lemma conv_fits_layout:
  "same_layout h h' \<Longrightarrow> conv_fits h' inm out w b n ocr xr yr fs st = conv_fits h inm out w b n ocr xr yr fs st"
  by (simp add: conv_fits_def mem_ok_layout)

lemma conv_point_ok:
  assumes f: "conv_fits h0 inm out w b n ocr xr yr fs st"
    and x: "x \<in> set (idx (fst xr) (snd xr) 1)" and y: "y \<in> set (idx (fst yr) (snd yr) 1)"
    and oc: "oc \<in> set (idx (fst ocr) (snd ocr) 4)"
    and l: "same_layout h0 (fst s)"
  shows "\<exists>r. conv_point conv_tap inm out w b n fs st x y oc s = Inr r \<and> same_layout h0 (fst r) \<and>
     snd s \<le> snd r \<and> snd r \<le> snd s + (n * fs * fs + 2)"
proof -
  obtain h cy where s: "s = (h, cy)" by (cases s)
  have lay: "same_layout h0 h" using l s by simp
  have fh: "conv_fits h inm out w b n ocr xr yr fs st" using f conv_fits_layout [OF lay] by simp
  obtain acc cy1 where a: "conv_acc conv_tap h inm w n fs st x y oc cy = Inr (acc, cy1)"
      "cy \<le> cy1" "cy1 \<le> cy + n * fs * fs"
    using conv_acc_ok [OF fh x y oc, of cy] by auto
  have o4: "0 \<le> oc" "oc + 3 < snd ocr"
    using group_of_four [OF oc] idx_set [OF oc] f by (auto simp: conv_fits_def)
  obtain bd where bd: "load4_x h b oc = Inr bd"
    using load4_x_ok [of h b oc] o4 fh by (auto simp: conv_fits_def in_shape_def mem_ok_def)
  define d where "d = fst (relu (fst (simd_add acc bd)))"
  have "in_shape out x y oc 0" "oc + 3 < zLen out"
    using o4 f x y by (auto simp: conv_fits_def in_shape_def set_idx_1 mem_ok_def)
  then obtain h' where h': "store4_z h out x y oc d = Inr h'" "same_layout h0 h'"
    using store4_z_ok [OF lay, of out x y oc d] f by (auto simp: conv_fits_def)
  show ?thesis
    using a h' by (simp add: s conv_point_def bd case_prod_beta d_def [symmetric])
qed

definition conv_cycle_bound :: "int \<Rightarrow> int \<times> int \<Rightarrow> int \<times> int \<Rightarrow> int \<times> int \<Rightarrow> int \<Rightarrow> int" where
  "conv_cycle_bound n ocr xr yr fs =
     (n * fs * fs + 2) * int (length (idx (fst ocr) (snd ocr) 4)) *
     int (length (idx (fst yr) (snd yr) 1)) * int (length (idx (fst xr) (snd xr) 1))"

text \<open>A convolution whose ranges fit the shapes of its four memories returns: no
  assertion fails, no access leaves a block, the layout is kept and the cycles it reports
  are at most a sixty-fourth of the taps, bias additions and ReLUs of the loops.\<close>

lemma op_conv_total:
  assumes "memories (hub c) inN = Some inm" "memories (hub c) outN = Some out"
    "memories (hub c) wN = Some w" "memories (hub c) bN = Some b"
    and f: "conv_fits (hub c) inm out w b n ocr xr yr fs st"
  shows "\<exists>h cy. op_conv c inN outN wN bN n ocr xr yr fs st = Inr (c\<lparr>hub := h\<rparr>, cy) \<and>
     same_layout (hub c) h \<and> 0 \<le> cy \<and> cy \<le> conv_cycle_bound n ocr xr yr fs div 64"
proof -
  let ?X = "idx (fst xr) (snd xr) 1" and ?Y = "idx (fst yr) (snd yr) 1" and ?O = "idx (fst ocr) (snd ocr) 4"
  let ?P = "\<lambda>s. same_layout (hub c) (fst s)"
  let ?p = "conv_point conv_tap inm out w b n fs st"
  let ?k = "n * fs * fs + 2"
  have 1: "\<exists>r. forR (?p x y) ?O s = Inr r \<and> ?P r \<and> snd s \<le> snd r \<and> snd r \<le> snd s + ?k * int (length ?O)"
    if "x \<in> set ?X" "y \<in> set ?Y" "?P s" for x y s
    by (rule forR_bounded) (use conv_point_ok [OF f that(1,2)] that(3) in auto)
  have 2: "\<exists>r. forR (\<lambda>y. forR (?p x y) ?O) ?Y s = Inr r \<and> ?P r \<and> snd s \<le> snd r \<and>
      snd r \<le> snd s + ?k * int (length ?O) * int (length ?Y)"
    if "x \<in> set ?X" "?P s" for x s
    by (rule forR_bounded) (use 1 [OF that(1)] that(2) in auto)
  have "\<exists>r. forR (\<lambda>x. forR (\<lambda>y. forR (?p x y) ?O) ?Y) ?X (hub c, 0) = Inr r \<and> ?P r \<and> snd (hub c, 0) \<le> snd r \<and>
      snd r \<le> snd (hub c, 0) + ?k * int (length ?O) * int (length ?Y) * int (length ?X)"
    by (rule forR_bounded) (use 2 in auto)
  then obtain h cy where r: "forR (\<lambda>x. forR (\<lambda>y. forR (?p x y) ?O) ?Y) ?X (hub c, 0) = Inr (h, cy)"
      "same_layout (hub c) h" "0 \<le> cy" "cy \<le> conv_cycle_bound n ocr xr yr fs"
    by (auto simp: conv_cycle_bound_def)
  have "op_conv c inN outN wN bN n ocr xr yr fs st = Inr (c\<lparr>hub := h\<rparr>, cy div 64)"
    using assms(1-4) r(1) by (simp add: op_conv_def conv_loops_def getMemory_def)
  moreover have "0 \<le> cy div 64" "cy div 64 \<le> conv_cycle_bound n ocr xr yr fs div 64"
    using r(3,4) by (simp_all add: zdiv_mono1)
  ultimately show ?thesis using r(2) by blast
qed


section \<open>Fully connected layers\<close>

definition fc_fits :: "memhub \<Rightarrow> memory \<Rightarrow> memory \<Rightarrow> memory \<Rightarrow> memory \<Rightarrow> int \<Rightarrow> int \<times> int \<Rightarrow> bool" where
  "fc_fits h inm out w b n rng \<longleftrightarrow>
     mem_ok h inm \<and> mem_ok h out \<and> mem_ok h w \<and> mem_ok h b \<and> 0 \<le> n \<and> n \<le> wzyxLen inm \<and>
     n \<le> xLen w \<and> 0 \<le> fst rng \<and> even (snd rng - fst rng) \<and>
     snd rng \<le> yLen w \<and> snd rng \<le> xLen b \<and> snd rng \<le> xLen out"

lemma fc_fits_layout:
  "same_layout h h' \<Longrightarrow> fc_fits h' inm out w b n rng = fc_fits h inm out w b n rng"
  by (simp add: fc_fits_def mem_ok_layout)

lemma pair_bound:
  assumes "i \<in> set (idx lo hi 4)" and "even (hi - lo)"
  shows "lo \<le> i \<and> i + 1 < hi"
proof -
  have i: "lo \<le> i" "i < hi" "4 dvd (i - lo)" using idx_set [OF assms(1)] by auto
  have "even (i - lo)" using i(3) by presburger
  then have "even (hi - i)" using assms(2) by presburger
  then show ?thesis using i by presburger
qed

lemma fc_load_in_ok:
  assumes "mem_ok h m" and "0 \<le> i" and "i < wzyxLen m"
  shows "\<exists>v. fc_load_in h m i = Inr v"
proof -
  have "in_shape m 0 0 0 0" using assms(1) by (simp add: in_shape_def mem_ok_def)
  then have "0 < wzyxLen m" using index_bounds [OF assms(1), of 0 0 0 0] by simp
  moreover have "pblk (mdata m) < length (heap h)" "0 \<le> poff (mdata m)"
    "poff (mdata m) + wzyxLen m \<le> int (blen (heap h ! pblk (mdata m)))"
    using assms(1) unfolding mem_ok_def by blast+
  ultimately show ?thesis
    using assms(2,3) by (simp add: fc_load_in_def getPtr_def ptr_add_def loadF_def ptr_valid_def)
qed

lemma fc_load_w_ok:
  "mem_ok h m \<Longrightarrow> in_shape m i j 0 0 \<Longrightarrow> j + 1 < yLen m \<Longrightarrow> rend \<le> yLen m \<Longrightarrow>
   \<exists>d. fc_load_w h m i j rend = Inr d"
  using loadAt_ok [of h m i j 0 0] loadAt_ok [of h m i "j + 1" 0 0]
    loadAt_ok [of h m i "j + 2" 0 0] loadAt_ok [of h m i "j + 3" 0 0]
  by (auto simp: fc_load_w_def in_shape_def)

lemma fc_load_b_ok:
  "mem_ok h m \<Longrightarrow> in_shape m i 0 0 0 \<Longrightarrow> i + 1 < xLen m \<Longrightarrow> rend \<le> xLen m \<Longrightarrow>
   \<exists>d. fc_load_b h m i rend = Inr d"
  using loadAt_ok [of h m i 0 0 0] loadAt_ok [of h m "i + 1" 0 0 0]
    loadAt_ok [of h m "i + 2" 0 0 0] loadAt_ok [of h m "i + 3" 0 0 0]
  by (auto simp: fc_load_b_def in_shape_def)

lemma fc_store_ok:
  assumes "same_layout h0 h" and "mem_ok h0 m" and "in_shape m i 0 0 0"
    and "i + 1 < xLen m" and "rend \<le> xLen m"
  shows "\<exists>h'. fc_store h m i rend d = Inr h' \<and> same_layout h0 h'"
  using assms
  by (cases d) (auto simp: in_shape_def intro!: storeAt_step storeAt_last)

lemma fc_point_ok:
  assumes f: "fc_fits h0 inm out w b n rng"
    and oi: "oi \<in> set (idx (fst rng) (snd rng) 4)"
    and l: "same_layout h0 (fst s)"
  shows "\<exists>r. fc_point fc_tap inm out w b n (snd rng) oi s = Inr r \<and> same_layout h0 (fst r) \<and>
     snd s \<le> snd r \<and> snd r \<le> snd s + (n + 2)"
proof -
  obtain h cy where s: "s = (h, cy)" by (cases s)
  have lay: "same_layout h0 h" using l s by simp
  note fh = f [folded fc_fits_layout [OF lay], unfolded fc_fits_def]
  have o2: "0 \<le> oi" "oi + 1 < snd rng" using pair_bound [OF oi] fh by auto
  have tap: "\<exists>r. fc_tap h inm w (snd rng) oi ii t = Inr r \<and> True \<and> snd t \<le> snd r \<and> snd r \<le> snd t + 1"
    if ii: "ii \<in> set (idx 0 n 1)" for ii t
  proof -
    obtain v where v: "fc_load_in h inm ii = Inr v"
      using fc_load_in_ok [of h inm ii] ii fh by (auto simp: set_idx_1)
    have "in_shape w ii oi 0 0" using ii o2 fh by (auto simp: in_shape_def set_idx_1 mem_ok_def)
    then obtain d where d: "fc_load_w h w ii oi (snd rng) = Inr d"
      using fc_load_w_ok [of h w ii oi "snd rng"] o2 fh by auto
    show ?thesis by (cases t) (simp add: fc_tap_def v d case_prod_beta)
  qed
  have "\<exists>r. forR (fc_tap h inm w (snd rng) oi) (idx 0 n 1) (Data 0 0 0 0, cy) = Inr r \<and> True \<and>
      snd (Data 0 0 0 0, cy) \<le> snd r \<and> snd r \<le> snd (Data 0 0 0 0, cy) + 1 * int (length (idx 0 n 1))"
    by (rule forR_bounded) (use tap in auto)
  then obtain acc cy1 where a: "forR (fc_tap h inm w (snd rng) oi) (idx 0 n 1) (Data 0 0 0 0, cy) = Inr (acc, cy1)"
      "cy \<le> cy1" "cy1 \<le> cy + n"
    using fh by (auto simp: length_idx_1)
  obtain bd where bd: "fc_load_b h b oi (snd rng) = Inr bd"
    using fc_load_b_ok [of h b oi "snd rng"] o2 fh by (auto simp: in_shape_def mem_ok_def)
  define d where "d = fst (relu (fst (simd_add acc bd)))"
  have "in_shape out oi 0 0 0" "oi + 1 < xLen out" "snd rng \<le> xLen out"
    using o2 fh by (auto simp: in_shape_def mem_ok_def)
  then obtain h' where h': "fc_store h out oi (snd rng) d = Inr h'" "same_layout h0 h'"
    using fc_store_ok [OF lay, of out oi "snd rng" d] f by (auto simp: fc_fits_def)
  show ?thesis
    using a h' by (simp add: s fc_point_def bd case_prod_beta d_def [symmetric])
qed

text \<open>A fully connected layer over an even number of outputs returns without a fault,
  the last group of a range that is not a multiple of four included.\<close>

lemma op_fc_total:
  assumes "memories (hub c) inN = Some inm" "memories (hub c) outN = Some out"
    "memories (hub c) wN = Some w" "memories (hub c) bN = Some b"
    and f: "fc_fits (hub c) inm out w b n rng"
  shows "\<exists>h cy. op_fc c inN outN wN bN n rng = Inr (c\<lparr>hub := h\<rparr>, cy) \<and> same_layout (hub c) h \<and>
     0 \<le> cy \<and> cy \<le> (n + 2) * int (length (idx (fst rng) (snd rng) 4)) div 64"
proof -
  let ?I = "idx (fst rng) (snd rng) 4"
  let ?p = "fc_point fc_tap inm out w b n (snd rng)"
  have "\<exists>r. forR ?p ?I (hub c, 0) = Inr r \<and> same_layout (hub c) (fst r) \<and> snd (hub c, 0) \<le> snd r \<and>
      snd r \<le> snd (hub c, 0) + (n + 2) * int (length ?I)"
    by (rule forR_bounded) (use fc_point_ok [OF f] in auto)
  then obtain h cy where r: "forR ?p ?I (hub c, 0) = Inr (h, cy)" "same_layout (hub c) h" "0 \<le> cy"
      "cy \<le> (n + 2) * int (length ?I)"
    by auto
  have "op_fc c inN outN wN bN n rng = Inr (c\<lparr>hub := h\<rparr>, cy div 64)"
    using assms(1-4) r(1) by (simp add: op_fc_def fc_loops_def getMemory_def)
  moreover have "0 \<le> cy div 64" "cy div 64 \<le> (n + 2) * int (length ?I) div 64"
    using r(3,4) by (simp_all add: zdiv_mono1)
  ultimately show ?thesis using r(2) by blast
qed

section \<open>Pooling\<close>

definition pool_fits :: "memhub \<Rightarrow> memory \<Rightarrow> memory \<Rightarrow> int \<times> int \<Rightarrow> int \<times> int \<Rightarrow> int \<times> int \<Rightarrow> int \<Rightarrow> int \<Rightarrow> bool" where
  "pool_fits h inm out ocr xr yr fs st \<longleftrightarrow>
     mem_ok h inm \<and> mem_ok h out \<and> 0 \<le> st \<and> 0 \<le> fs \<and>
     0 \<le> fst xr \<and> (snd xr - 1) * st + fs \<le> xLen inm \<and> snd xr \<le> xLen out \<and>
     0 \<le> fst yr \<and> (snd yr - 1) * st + fs \<le> yLen inm \<and> snd yr \<le> yLen out \<and>
     0 \<le> fst ocr \<and> 4 dvd (snd ocr - fst ocr) \<and> snd ocr \<le> zLen inm \<and> snd ocr \<le> zLen out"

lemma pool_fits_layout:
  "same_layout h h' \<Longrightarrow> pool_fits h' inm out ocr xr yr fs st = pool_fits h inm out ocr xr yr fs st"
  by (simp add: pool_fits_def mem_ok_layout)

lemma idx_shift: "i \<in> set (idx a (a + fs) 1) \<Longrightarrow> 0 \<le> i - a \<and> i - a < fs"
  by (auto simp: set_idx_1)

lemma pool_window_ok:
  assumes "pool_fits h inm out ocr xr yr fs st"
    and "x \<in> set (idx (fst xr) (snd xr) 1)" "y \<in> set (idx (fst yr) (snd yr) 1)"
    and "z \<in> set (idx (fst ocr) (snd ocr) 4)"
  shows "\<exists>r. pool_window h inm fs st x y z cy = Inr r \<and> cy \<le> snd r \<and> snd r \<le> cy + fs * fs"
proof -
  note f = assms(1) [unfolded pool_fits_def]
  have z: "0 \<le> z" "z + 3 < zLen inm"
    using group_of_four [OF assms(4)] idx_set [OF assms(4)] f by auto
  have ld: "\<exists>d. load4_z h inm u v z = Inr d"
    if u: "u \<in> set (idx (x * st) (x * st + fs) 1)" and v: "v \<in> set (idx (y * st) (y * st + fs) 1)" for u v
  proof -
    have U: "0 \<le> x * st + (u - x * st) \<and> x * st + (u - x * st) < xLen inm"
      by (rule window_bound [OF _ assms(2)]) (use f idx_shift [OF u] in auto)
    have V: "0 \<le> y * st + (v - y * st) \<and> y * st + (v - y * st) < yLen inm"
      by (rule window_bound [OF _ assms(3)]) (use f idx_shift [OF v] in auto)
    show ?thesis
      by (rule load4_z_ok) (use U V f z in \<open>auto simp: in_shape_def mem_ok_def\<close>)
  qed
  let ?b = "\<lambda>u v s. bindR (load4_z h inm u v z) (\<lambda>i. case simd_max (fst s) i of (m, k) \<Rightarrow> Inr (m, snd s + k))"
  have len: "int (length (idx a (a + fs) 1)) = fs" for a using f by (simp add: length_idx_1)
  have 1: "\<exists>r. forR (?b u) (idx (y * st) (y * st + fs) 1) s = Inr r \<and> True \<and> snd s \<le> snd r \<and>
      snd r \<le> snd s + 1 * int (length (idx (y * st) (y * st + fs) 1))"
    if u: "u \<in> set (idx (x * st) (x * st + fs) 1)" for u s
  proof (rule forR_bounded)
    fix v t assume "v \<in> set (idx (y * st) (y * st + fs) 1)"
    then obtain d where "load4_z h inm u v z = Inr d" using ld [OF u] by blast
    then show "\<exists>r. ?b u v t = Inr r \<and> True \<and> snd t \<le> snd r \<and> snd r \<le> snd t + 1"
      by (simp add: case_prod_beta)
  qed simp
  have "\<exists>r. pool_window h inm fs st x y z cy = Inr r \<and> True \<and>
      snd (Data f32_min f32_min f32_min f32_min, cy) \<le> snd r \<and>
      snd r \<le> snd (Data f32_min f32_min f32_min f32_min, cy) + fs * int (length (idx (x * st) (x * st + fs) 1))"
    unfolding pool_window_def by (rule forR_bounded) (use 1 len in auto)
  then show ?thesis by (auto simp: len)
qed

text \<open>Pooling over ranges that fit returns without a fault, keeps the layout and
  reports at most a sixty-fourth of the window maxima it takes.\<close>

lemma op_pool_total:
  assumes "memories (hub c) inN = Some inm" "memories (hub c) outN = Some out"
    and f: "pool_fits (hub c) inm out ocr xr yr fs st"
  shows "\<exists>h cy. op_pool c inN outN ocr xr yr fs st = Inr (c\<lparr>hub := h\<rparr>, cy) \<and> same_layout (hub c) h \<and>
     0 \<le> cy \<and> cy \<le> fs * fs * int (length (idx (fst ocr) (snd ocr) 4)) *
       int (length (idx (fst yr) (snd yr) 1)) * int (length (idx (fst xr) (snd xr) 1)) div 64"
proof -
  let ?X = "idx (fst xr) (snd xr) 1" and ?Y = "idx (fst yr) (snd yr) 1" and ?O = "idx (fst ocr) (snd ocr) 4"
  let ?P = "\<lambda>s. same_layout (hub c) (fst s)"
  let ?b = "\<lambda>x y z s. bindR (pool_window (fst s) inm fs st x y z (snd s)) (\<lambda>(m, k).
      bindR (store4_z (fst s) out x y z m) (\<lambda>h. Inr (h, k)))"
  have 0: "\<exists>r. ?b x y z s = Inr r \<and> ?P r \<and> snd s \<le> snd r \<and> snd r \<le> snd s + fs * fs"
    if x: "x \<in> set ?X" and y: "y \<in> set ?Y" and z: "z \<in> set ?O" and l: "?P s" for x y z s
  proof -
    have fs: "pool_fits (fst s) inm out ocr xr yr fs st" using f pool_fits_layout [OF l] by simp
    obtain m k where m: "pool_window (fst s) inm fs st x y z (snd s) = Inr (m, k)" "snd s \<le> k" "k \<le> snd s + fs * fs"
      using pool_window_ok [OF fs x y z, of "snd s"] by auto
    have "0 \<le> z" "z + 3 < snd ocr"
      using group_of_four [OF z] idx_set [OF z] f by (auto simp: pool_fits_def)
    then have "in_shape out x y z 0" "z + 3 < zLen out"
      using f x y by (auto simp: pool_fits_def in_shape_def set_idx_1 mem_ok_def)
    then obtain h' where "store4_z (fst s) out x y z m = Inr h'" "same_layout (hub c) h'"
      using store4_z_ok [OF l, of out x y z m] f by (auto simp: pool_fits_def)
    with m show ?thesis by simp
  qed
  have 1: "\<exists>r. forR (?b x y) ?O s = Inr r \<and> ?P r \<and> snd s \<le> snd r \<and> snd r \<le> snd s + fs * fs * int (length ?O)"
    if "x \<in> set ?X" "y \<in> set ?Y" "?P s" for x y s
    by (rule forR_bounded) (use 0 that in auto)
  have 2: "\<exists>r. forR (\<lambda>y. forR (?b x y) ?O) ?Y s = Inr r \<and> ?P r \<and> snd s \<le> snd r \<and>
      snd r \<le> snd s + fs * fs * int (length ?O) * int (length ?Y)"
    if "x \<in> set ?X" "?P s" for x s
    by (rule forR_bounded) (use 1 [OF that(1)] that(2) in auto)
  have "\<exists>r. forR (\<lambda>x. forR (\<lambda>y. forR (?b x y) ?O) ?Y) ?X (hub c, 0) = Inr r \<and> ?P r \<and> snd (hub c, 0) \<le> snd r \<and>
      snd r \<le> snd (hub c, 0) + fs * fs * int (length ?O) * int (length ?Y) * int (length ?X)"
    by (rule forR_bounded) (use 2 in auto)
  then obtain h cy where r: "forR (\<lambda>x. forR (\<lambda>y. forR (?b x y) ?O) ?Y) ?X (hub c, 0) = Inr (h, cy)"
      "same_layout (hub c) h" "0 \<le> cy" "cy \<le> fs * fs * int (length ?O) * int (length ?Y) * int (length ?X)"
    by auto
  have "op_pool c inN outN ocr xr yr fs st = Inr (c\<lparr>hub := h\<rparr>, cy div 64)"
    using assms(1,2) r(1) by (simp add: op_pool_def getMemory_def)
  moreover have "0 \<le> cy div 64"
    "cy div 64 \<le> fs * fs * int (length ?O) * int (length ?Y) * int (length ?X) div 64"
    using r(3,4) by (simp_all add: zdiv_mono1)
  ultimately show ?thesis using r(2) by blast
qed

end
