(* ===== verification/Cnn_Layers.thy ===== *)
theory Cnn_Layers imports Cnn_Core Copy_Loops begin

text \<open>
  What the data-moving operations of the CNN core compute: padding, input conversion,
  pooling and the selection of the output index.
\<close>

section \<open>Padding\<close>

lemma memset0_ok:
  assumes "mem_ok h m" and "getPtr m 0 0 0 0 = Inr p"
  shows "\<exists>h'. memset0 h p (getMemSizeByByte m div 4) = Inr h' \<and> same_layout h h' \<and>
    (\<forall>b. b \<noteq> pblk p \<longrightarrow> heap h' ! b = heap h ! b) \<and>
    (\<forall>x y z w. in_shape m x y z w \<longrightarrow> loadAt h' m x y z w = Inr 0)"
proof -
  have n: "getMemSizeByByte m div 4 = wzyxLen m" by (simp add: getMemSizeByByte_def)
  have s0: "in_shape m 0 0 0 0" using assms(1) by (simp add: in_shape_def mem_ok_def)
  have pos: "0 < wzyxLen m" using index_bounds [OF assms(1) s0] by simp
  have p: "p = mdata m" using assms(2) by (simp add: getPtr_def ptr_add_def split: if_splits)
  have fit: "pblk (mdata m) < length (heap h)" "0 \<le> poff (mdata m)"
    "poff (mdata m) + wzyxLen m \<le> int (blen (heap h ! pblk (mdata m)))"
    using assms(1) unfolding mem_ok_def by blast+
  obtain h' where h': "memset0 h p (wzyxLen m) = Inr h'" using fit pos by (simp add: memset0_def p)
  have lay: "same_layout h h'" by (rule memset0_layout [OF h'])
  have cell: "loadAt h' m x y z w = Inr 0" if s: "in_shape m x y z w" for x y z w
  proof -
    let ?i = "w + z * wLen m + y * wzLen m + x * wzyLen m"
    have i: "0 \<le> ?i" "?i < wzyxLen m" using index_bounds [OF assms(1) s] by auto
    have "ptr_valid h' (ptr_add (mdata m) ?i)"
      unfolding ptr_valid_layout [OF lay] using i fit by (simp add: ptr_valid_def ptr_add_def)
    then show ?thesis
      using h' i fit pos by (auto simp: loadAt_def getPtr_def Let_def loadF_def memset0_def p ptr_add_def split: if_splits)
  qed
  have "heap h' ! b = heap h ! b" if "b \<noteq> pblk p" for b
    using h' that by (auto simp: memset0_def split: if_splits)
  then show ?thesis using h' lay cell n by auto
qed

definition pad_spec :: "memhub \<Rightarrow> memory \<Rightarrow> int \<Rightarrow> int \<Rightarrow> int \<Rightarrow> int \<Rightarrow> int \<Rightarrow> int \<Rightarrow> int \<Rightarrow> int \<Rightarrow> int \<Rightarrow> f32 res" where
  "pad_spec h inm p X Y Z W x y z w =
     (if p \<le> x \<and> x < p + X \<and> p \<le> y \<and> y < p + Y \<and> 0 \<le> z \<and> z < Z \<and> 0 \<le> w \<and> w < W
      then loadAt h inm (x - p) (y - p) z w else Inr 0)"

definition pad_fits :: "memhub \<Rightarrow> memory \<Rightarrow> memory \<Rightarrow> int \<Rightarrow> int \<Rightarrow> int \<Rightarrow> int \<Rightarrow> int \<Rightarrow> bool" where
  "pad_fits h inm out p X Y Z W \<longleftrightarrow>
     mem_ok h inm \<and> mem_ok h out \<and> pblk (mdata inm) \<noteq> pblk (mdata out) \<and> 0 \<le> p \<and>
     X \<le> xLen inm \<and> Y \<le> yLen inm \<and> Z \<le> zLen inm \<and> W \<le> wLen inm \<and>
     X + p \<le> xLen out \<and> Y + p \<le> yLen out \<and> Z \<le> zLen out \<and> W \<le> wLen out"

definition dst_ptr :: "memory \<Rightarrow> int \<Rightarrow> int \<times> int \<times> int \<times> int \<Rightarrow> fptr" where
  "dst_ptr m p e = (case e of (x, y, z, w) \<Rightarrow> projr (getPtr m (x + p) (y + p) z w))"

lemma forR_product4:
  "forR (\<lambda>x. forR (\<lambda>y. forR (\<lambda>z. forR (body x y z) ws) zs) ys) xs s =
   forR (\<lambda>(x, y, z, w). body x y z w) (List.product xs (List.product ys (List.product zs ws))) s"
proof -
  have 1: "forR (\<lambda>z. forR (body x y z) ws) zs = forR (\<lambda>(z, w). body x y z w) (List.product zs ws)" for x y
    by (rule ext) (rule forR_product)
  have 2: "forR (\<lambda>y. forR (\<lambda>(z, w). body x y z w) zws) ys =
      forR (\<lambda>(y, z, w). body x y z w) (List.product ys zws)" for x zws
    by (rule ext) (rule forR_product)
  show ?thesis unfolding 1 2 by (rule forR_product)
qed

lemma op_padding_copy:
  assumes "memories (hub c) inN = Some inm" and "memories (hub c) outN = Some out"
    and f: "pad_fits (hub c) inm out p X Y Z W"
  shows "\<exists>h. op_padding c inN outN p X Y Z W = Inr (c\<lparr>hub := h\<rparr>, 1) \<and> same_layout (hub c) h \<and>
     (\<forall>x y z w. in_shape out x y z w \<longrightarrow> loadAt h out x y z w = pad_spec (hub c) inm p X Y Z W x y z w)"
proof -
  note f' = f [unfolded pad_fits_def]
  have ok: "mem_ok (hub c) inm" "mem_ok (hub c) out" using f' by auto
  have "in_shape out 0 0 0 0" using ok(2) by (simp add: in_shape_def mem_ok_def)
  then obtain po where po: "getPtr out 0 0 0 0 = Inr po" using getPtr_in_shape [OF ok(2)] by blast
  obtain h0 where h0: "memset0 (hub c) po (getMemSizeByByte out div 4) = Inr h0" "same_layout (hub c) h0"
      "\<forall>b. b \<noteq> pblk po \<longrightarrow> heap h0 ! b = heap (hub c) ! b"
      "\<forall>x y z w. in_shape out x y z w \<longrightarrow> loadAt h0 out x y z w = Inr 0"
    using memset0_ok [OF ok(2) po] by blast
  define es where "es = List.product (idx 0 X 1) (List.product (idx 0 Y 1) (List.product (idx 0 Z 1) (idx 0 W 1)))"
  let ?dp = "dst_ptr out p"
  let ?ld = "\<lambda>h (x, y, z, w). loadAt h inm x y z w"
  let ?a = "pblk (mdata inm)"
  have mem: "e \<in> set es \<longleftrightarrow> (case e of (x, y, z, w) \<Rightarrow> 0 \<le> x \<and> x < X \<and> 0 \<le> y \<and> y < Y \<and> 0 \<le> z \<and> z < Z \<and> 0 \<le> w \<and> w < W)" for e
    by (auto simp: es_def set_idx_1)
  have sh: "in_shape out (x + p) (y + p) z w" "in_shape inm x y z w" if "(x, y, z, w) \<in> set es" for x y z w
    using that f' by (auto simp: mem in_shape_def)
  have gp: "getPtr out (x + p) (y + p) z w = Inr (?dp (x, y, z, w)) \<and> ptr_valid h0 (?dp (x, y, z, w)) \<and>
      pblk (?dp (x, y, z, w)) = pblk (mdata out)" if "(x, y, z, w) \<in> set es" for x y z w
    using getPtr_in_shape [OF ok(2) sh(1) [OF that]] getPtr_block ptr_valid_layout [OF h0(2)]
    by (auto simp: dst_ptr_def)
  have inj: "inj_on ?dp (set es)"
  proof (rule inj_onI)
    fix d e assume "d \<in> set es" "e \<in> set es" "?dp d = ?dp e"
    moreover obtain x y z w x' y' z' w' where "d = (x, y, z, w)" "e = (x', y', z', w')" by (cases d; cases e) auto
    ultimately show "d = e" using getPtr_inj [OF ok(2) sh(1) sh(1)] gp by fastforce
  qed
  have dis: "distinct es" by (auto simp: es_def distinct_product distinct_idx)
  have a0: "heap h0 ! ?a = heap (hub c) ! ?a" using h0(3) po f' getPtr_block by metis
  have ld0: "?ld h0 e = ?ld (hub c) e" for e
    using only_blockD [OF only_block_loadAt [OF refl] h0(2) a0] by (auto split: prod.splits)
  have pre: "only_block ?a (\<lambda>h. ?ld h e) \<and> (\<exists>v. ?ld h0 e = Inr v) \<and> ptr_valid h0 (?dp e) \<and> pblk (?dp e) \<noteq> ?a"
    if "e \<in> set es" for e
  proof -
    obtain x y z w where e: "e = (x, y, z, w)" by (cases e)
    then have i: "(x, y, z, w) \<in> set es" using that by simp
    obtain v where "loadAt (hub c) inm x y z w = Inr v" using loadAt_ok [OF ok(1) sh(2) [OF i]] by blast
    then have "?ld h0 e = Inr v" using ld0 [of e] e by simp
    moreover have "only_block ?a (\<lambda>h. ?ld h e)" using e by (simp add: only_block_loadAt)
    ultimately show ?thesis using gp [OF i] f' e by auto
  qed
  obtain h where h: "forR (\<lambda>e h. bindR (?ld h e) (storeF h (?dp e))) es h0 = Inr h" "same_layout h0 h"
      "\<forall>e\<in>set es. loadF h (?dp e) = ?ld h0 e" "\<forall>q. q \<notin> ?dp ` set es \<longrightarrow> loadF h q = loadF h0 q"
    using copy_loop [OF dis inj pre] by blast
  have eq: "forR (\<lambda>e h. bindR (?ld h e) (storeF h (?dp e))) es h0 =
     forR (\<lambda>(x, y, z, w) h. bindR (loadAt h inm x y z w) (\<lambda>v. storeAt h out (x + p) (y + p) z w v)) es h0"
    by (rule forR_cong) (auto simp: storeAt_def gp)
  have run: "op_padding c inN outN p X Y Z W = Inr (c\<lparr>hub := h\<rparr>, 1)"
    using h(1) [unfolded eq] po h0(1) assms(1,2)
    by (simp add: op_padding_def getMemory_def forR_product4 es_def)
  have "loadAt h out x y z w = pad_spec (hub c) inm p X Y Z W x y z w" if s: "in_shape out x y z w" for x y z w
  proof (cases "(x - p, y - p, z, w) \<in> set es")
    case True
    then have "loadAt h out x y z w = ?ld h0 (x - p, y - p, z, w)"
      using gp [OF True] h(3) by (simp add: loadAt_def)
    then show ?thesis using True ld0 by (simp add: pad_spec_def mem)
  next
    case False
    obtain q where q: "getPtr out x y z w = Inr q" using getPtr_in_shape [OF ok(2) s] by blast
    have "q \<notin> ?dp ` set es"
    proof
      assume "q \<in> ?dp ` set es"
      then obtain x' y' z' w' where e: "(x', y', z', w') \<in> set es" "q = ?dp (x', y', z', w')" by auto
      have "x = x' + p \<and> y = y' + p \<and> z = z' \<and> w = w'"
        using getPtr_inj [OF ok(2) s sh(1) [OF e(1)] q] gp [OF e(1)] e(2) by simp
      with e(1) False show False by simp
    qed
    then have "loadAt h out x y z w = loadAt h0 out x y z w" using h(4) q by (simp add: loadAt_def)
    then have "loadAt h out x y z w = Inr 0" using h0(4) s by simp
    then show ?thesis using False by (auto simp: pad_spec_def mem)
  qed
  then show ?thesis using run same_layout_trans [OF h0(2) h(2)] by blast
qed

text \<open>C10: \<open>op_padding\<close> writes a zero border around a copy of its input: every cell of the
  output memory afterwards holds the shifted input cell, or zero outside the copied box.\<close>

theorem op_padding_spec:
  assumes "memories (hub c) inN = Some inm" and "memories (hub c) outN = Some out"
    and f: "pad_fits (hub c) inm out p X Y Z W"
  shows "\<exists>h. op_padding c inN outN p X Y Z W = Inr (c\<lparr>hub := h\<rparr>, 1) \<and> same_layout (hub c) h \<and>
     (\<forall>x y z w. in_shape out x y z w \<longrightarrow> loadAt h out x y z w = pad_spec (hub c) inm p X Y Z W x y z w)"
  using assms by (rule op_padding_copy)

theorem op_padding_spec_witness:
  "\<exists>h. op_padding demo_core ''in2'' ''out2'' 1 2 2 4 1 = Inr (demo_core\<lparr>hub := h\<rparr>, 1) \<and>
     loadAt h (SharedMemory_new \<lparr>pblk = 1, poff = 0\<rparr> 4 4 4 1) 0 0 0 0 = Inr 0 \<and>
     loadAt h (SharedMemory_new \<lparr>pblk = 1, poff = 0\<rparr> 4 4 4 1) 1 1 3 0 = Inr 0x40000000"
proof -
  have f: "pad_fits (hub demo_core) (SharedMemory_new \<lparr>pblk = 0, poff = 0\<rparr> 2 2 4 1)
      (SharedMemory_new \<lparr>pblk = 1, poff = 0\<rparr> 4 4 4 1) 1 2 2 4 1"
    by (simp add: pad_fits_def demo_ok del: One_nat_def) (simp add: SharedMemory_new_def Let_def)
  obtain h where h: "op_padding demo_core ''in2'' ''out2'' 1 2 2 4 1 = Inr (demo_core\<lparr>hub := h\<rparr>, 1)"
    "\<forall>x y z w. in_shape (SharedMemory_new \<lparr>pblk = 1, poff = 0\<rparr> 4 4 4 1) x y z w \<longrightarrow>
       loadAt h (SharedMemory_new \<lparr>pblk = 1, poff = 0\<rparr> 4 4 4 1) x y z w =
       pad_spec (hub demo_core) (SharedMemory_new \<lparr>pblk = 0, poff = 0\<rparr> 2 2 4 1) 1 2 2 4 1 x y z w"
    using op_padding_spec [OF demo_memories(2,4) f] by blast
  have "in_shape (SharedMemory_new \<lparr>pblk = 1, poff = 0\<rparr> 4 4 4 1) 0 0 0 0"
    "in_shape (SharedMemory_new \<lparr>pblk = 1, poff = 0\<rparr> 4 4 4 1) 1 1 3 0"
    by (simp_all add: in_shape_def SharedMemory_new_def Let_def)
  moreover have "pad_spec (hub demo_core) (SharedMemory_new \<lparr>pblk = 0, poff = 0\<rparr> 2 2 4 1) 1 2 2 4 1 0 0 0 0 = Inr 0"
    "pad_spec (hub demo_core) (SharedMemory_new \<lparr>pblk = 0, poff = 0\<rparr> 2 2 4 1) 1 2 2 4 1 1 1 3 0 = Inr 0x40000000"
    by (simp_all add: pad_spec_def loadAt_def getPtr_def SharedMemory_new_def Let_def ptr_add_def loadF_def ptr_valid_def)
  ultimately show ?thesis using h by metis
qed


section \<open>Input conversion\<close>

definition norm_pixel :: "byte \<Rightarrow> f32" where
  "norm_pixel b = f32_sub (f32_div (f32_of_int (uint b)) (f32_of_int 255)) 0x3f000000"

lemma op_input_copy:
  assumes "memories (hub c) fromN = Some fm" and "memories (hub c) toN = Some tm"
    and ok: "mem_ok (hub c) fm" "mem_ok (hub c) tm" and "pblk (mdata fm) \<noteq> pblk (mdata tm)"
    and size: "196 \<le> wzyxLen fm" "784 \<le> wzyxLen tm"
  shows "\<exists>h. op_input c fromN toN = Inr (c\<lparr>hub := h\<rparr>, 10) \<and> same_layout (hub c) h \<and>
     (\<forall>k. 0 \<le> k \<longrightarrow> k < 784 \<longrightarrow>
        loadF h (ptr_add (mdata tm) k) = bindR (loadB (hub c) (mdata fm) k) (\<lambda>b. Inr (norm_pixel b)))"
proof -
  let ?h = "hub c"
  define es where "es = List.product (idx 0 28 1) (idx 0 28 1)"
  let ?k = "\<lambda>(x, y). x * 28 + y :: int"
  let ?dp = "\<lambda>e. ptr_add (mdata tm) (?k e)"
  let ?ld = "\<lambda>h e. bindR (loadB h (mdata fm) (?k e)) (\<lambda>b. Inr (norm_pixel b))"
  have p0: "getPtr m 0 0 0 0 = Inr (mdata m)" if "0 < wzyxLen m" for m
    using that by (simp add: getPtr_def ptr_add_def)
  have fit: "pblk (mdata m) < length (heap ?h)" "0 \<le> poff (mdata m)"
    "poff (mdata m) + wzyxLen m \<le> int (blen (heap ?h ! pblk (mdata m)))" if "mem_ok ?h m" for m
    using that unfolding mem_ok_def by blast+
  have valid: "ptr_valid ?h (ptr_add (mdata m) i)" if "mem_ok ?h m" "0 \<le> i" "i < wzyxLen m" for m i
    using fit [OF that(1)] that by (simp add: ptr_valid_def ptr_add_def)
  have mem: "e \<in> set es \<longleftrightarrow> (case e of (x, y) \<Rightarrow> 0 \<le> x \<and> x < 28 \<and> 0 \<le> y \<and> y < 28)" for e
    by (auto simp: es_def set_idx_1)
  have rng: "0 \<le> ?k e \<and> ?k e < 784" if "e \<in> set es" for e using that by (auto simp: mem)
  have inj: "inj_on ?dp (set es)"
  proof (rule inj_onI)
    fix d e assume de: "d \<in> set es" "e \<in> set es" "?dp d = ?dp e"
    obtain x y x' y' where p: "d = (x, y)" "e = (x', y')" by (cases d; cases e)
    have "y + 28 * x = y' + 28 * x'" using de(3) p by (auto simp: ptr_add_def dest: arg_cong [where f = poff])
    moreover have "0 \<le> y \<and> y < 28 \<and> 0 \<le> y' \<and> y' < 28" using de(1,2) p by (auto simp: mem)
    ultimately have "y = y' \<and> x = x'" by (intro digit_inj) auto
    then show "d = e" using p by simp
  qed
  have pre: "only_block (pblk (mdata fm)) (\<lambda>h. ?ld h e) \<and> (\<exists>v. ?ld ?h e = Inr v) \<and> ptr_valid ?h (?dp e) \<and>
      pblk (?dp e) \<noteq> pblk (mdata fm)" if "e \<in> set es" for e
  proof -
    have r: "0 \<le> ?k e" "?k e < 784" using rng [OF that] by auto
    have "ptr_valid ?h (ptr_add (mdata fm) (?k e div 4))"
      by (rule valid [OF ok(1)]) (use r size in \<open>auto simp: div_less_iff_less_mult\<close>)
    then obtain b where "loadB ?h (mdata fm) (?k e) = Inr b" using loadB_ok by blast
    moreover have "ptr_valid ?h (?dp e)" by (rule valid [OF ok(2)]) (use r size in auto)
    moreover have "only_block (pblk (mdata fm)) (\<lambda>h. ?ld h e)" by (intro only_block_bind only_block_loadB refl)
    ultimately show ?thesis using assms(5) by (simp add: ptr_add_def)
  qed
  have dis: "distinct es" by (auto simp: es_def distinct_product distinct_idx)
  obtain h where h: "forR (\<lambda>e h. bindR (?ld h e) (storeF h (?dp e))) es ?h = Inr h" "same_layout ?h h"
      "\<forall>e\<in>set es. loadF h (?dp e) = ?ld ?h e"
    using copy_loop [OF dis inj pre] by blast
  have eq: "forR (\<lambda>e h. bindR (?ld h e) (storeF h (?dp e))) es ?h =
     forR (\<lambda>(x, y) h. bindR (loadB h (mdata fm) (x * 28 + y)) (\<lambda>b.
        storeF h (ptr_add (mdata tm) (x * 28 + y)) (norm_pixel b))) es ?h"
    by (rule forR_cong) (auto simp: bindR_assoc)
  have run: "op_input c fromN toN = Inr (c\<lparr>hub := h\<rparr>, 10)"
    using h(1) [unfolded eq] assms(1,2) size
    by (simp add: op_input_def getMemory_def p0 forR_product es_def norm_pixel_def)
  have cell: "loadF h (ptr_add (mdata tm) k) = bindR (loadB ?h (mdata fm) k) (\<lambda>b. Inr (norm_pixel b))"
    if "0 \<le> k" "k < 784" for k
  proof -
    have "(k div 28, k mod 28) \<in> set es" using that by (auto simp: mem div_less_iff_less_mult)
    then show ?thesis using h(3) by fastforce
  qed
  then show ?thesis using run h(2) by blast
qed

text \<open>C11: \<open>op_input\<close> turns the 784 bytes at the start of one memory into 784 floats
  \<open>b / 255 - 1/2\<close> at the start of another and keeps every shape and size.\<close>

theorem op_input_spec:
  assumes "memories (hub c) fromN = Some fm" and "memories (hub c) toN = Some tm"
    and ok: "mem_ok (hub c) fm" "mem_ok (hub c) tm" and "pblk (mdata fm) \<noteq> pblk (mdata tm)"
    and size: "196 \<le> wzyxLen fm" "784 \<le> wzyxLen tm"
  shows "\<exists>h. op_input c fromN toN = Inr (c\<lparr>hub := h\<rparr>, 10) \<and> same_layout (hub c) h \<and>
     (\<forall>k. 0 \<le> k \<longrightarrow> k < 784 \<longrightarrow>
        loadF h (ptr_add (mdata tm) k) = bindR (loadB (hub c) (mdata fm) k) (\<lambda>b. Inr (norm_pixel b)))"
  using assms by (rule op_input_copy)

theorem op_input_spec_witness:
  "\<exists>h. op_input demo_core ''in'' ''out'' = Inr (demo_core\<lparr>hub := h\<rparr>, 10) \<and>
     loadF h \<lparr>pblk = 1, poff = 2\<rparr> = Inr (norm_pixel 128)"
proof -
  obtain h where h: "op_input demo_core ''in'' ''out'' = Inr (demo_core\<lparr>hub := h\<rparr>, 10)"
    "\<forall>k. 0 \<le> k \<longrightarrow> k < 784 \<longrightarrow> loadF h (ptr_add \<lparr>pblk = 1, poff = 0\<rparr> k) =
       bindR (loadB (hub demo_core) \<lparr>pblk = 0, poff = 0\<rparr> k) (\<lambda>b. Inr (norm_pixel b))"
    using op_input_spec [OF demo_memories(1,3) demo_ok(1,3)] by (auto simp: SharedMemory_new_def Let_def)
  have "loadB (hub demo_core) \<lparr>pblk = 0, poff = 0\<rparr> 2 = Inr 128"
    by (simp add: loadB_def loadF_def ptr_valid_def ptr_add_def byte_of_def)
  then show ?thesis using h(1) h(2) [rule_format, of 2] by (auto simp: ptr_add_def)
qed

section \<open>Output index\<close>

text \<open>Over a list without NaNs, the chosen position is the first one of a maximum.\<close>

lemma max_element_first:
  assumes "at < length ys" and "\<forall>y\<in>set (ys @ xs). \<not> f32_nan y"
    and "\<forall>j<length ys. \<not> f32_lt (ys ! at) (ys ! j)" and "\<forall>j<at. f32_lt (ys ! j) (ys ! at)"
  shows "\<exists>r<length (ys @ xs). max_element (ys ! at) (int at) (int (length ys)) xs = int r \<and>
     (\<forall>j<length (ys @ xs). \<not> f32_lt ((ys @ xs) ! r) ((ys @ xs) ! j)) \<and>
     (\<forall>j<r. f32_lt ((ys @ xs) ! j) ((ys @ xs) ! r))"
  using assms
proof (induction xs arbitrary: ys at)
  case Nil
  then show ?case by auto
next
  case (Cons x xs)
  have nan: "\<not> f32_nan (ys ! at)" "\<not> f32_nan x" using Cons.prems(1,2) by auto
  show ?case
  proof (cases "f32_lt (ys ! at) x")
    case True
    have "f32_lt (ys ! j) x" if "j < length ys" for j
    proof -
      have "\<not> f32_nan (ys ! j)" using Cons.prems(2) that by simp
      then show ?thesis
        using Cons.prems(3) that True nan f32_lt_linear [of "ys ! j" x] f32_lt_trans [of "ys ! at" x "ys ! j"]
          f32_lt_trans [of "ys ! at" "ys ! j" x]
        by (auto simp: f32_eq_def feq_def f32_lt_def flt_def)
    qed
    then have "\<exists>r<length ((ys @ [x]) @ xs).
        max_element ((ys @ [x]) ! length ys) (int (length ys)) (int (length (ys @ [x]))) xs = int r \<and>
       (\<forall>j<length ((ys @ [x]) @ xs). \<not> f32_lt (((ys @ [x]) @ xs) ! r) (((ys @ [x]) @ xs) ! j)) \<and>
       (\<forall>j<r. f32_lt (((ys @ [x]) @ xs) ! j) (((ys @ [x]) @ xs) ! r))"
      using Cons.prems(2) by (intro Cons.IH) (auto simp: nth_append less_Suc_eq dest: f32_lt_asym)
    then show ?thesis using True by (simp add: add.commute)
  next
    case False
    have "\<exists>r<length ((ys @ [x]) @ xs).
        max_element ((ys @ [x]) ! at) (int at) (int (length (ys @ [x]))) xs = int r \<and>
       (\<forall>j<length ((ys @ [x]) @ xs). \<not> f32_lt (((ys @ [x]) @ xs) ! r) (((ys @ [x]) @ xs) ! j)) \<and>
       (\<forall>j<r. f32_lt (((ys @ [x]) @ xs) ! j) (((ys @ [x]) @ xs) ! r))"
      using Cons.prems False by (intro Cons.IH) (auto simp: nth_append less_Suc_eq)
    then show ?thesis using False Cons.prems(1) by (simp add: nth_append add.commute)
  qed
qed

lemma forR_loads:
  assumes "\<And>i. i \<in> set is \<Longrightarrow> ld i = Inr (f i)"
  shows "forR (\<lambda>i xs. bindR (ld i) (\<lambda>v. Inr (xs @ [v]))) is xs = Inr (xs @ map f is)"
  using assms by (induction "is" arbitrary: xs) auto

text \<open>C12: \<open>op_output\<close> selects the first of the ten scores that no other score exceeds.\<close>

theorem op_output_argmax:
  assumes "memories (hub c) N = Some m" and "0 < wzyxLen m"
    and "\<And>i. 0 \<le> i \<Longrightarrow> i < 10 \<Longrightarrow> loadF (hub c) (ptr_add (mdata m) i) = Inr (score i)"
    and "\<And>i. 0 \<le> i \<Longrightarrow> i < 10 \<Longrightarrow> \<not> f32_nan (score i)"
  shows "\<exists>r. op_output c N = Inr (c\<lparr>outputIndex := r\<rparr>, 10) \<and> 0 \<le> r \<and> r < 10 \<and>
     (\<forall>i. 0 \<le> i \<and> i < 10 \<longrightarrow> \<not> f32_lt (score r) (score i)) \<and> (\<forall>i. 0 \<le> i \<and> i < r \<longrightarrow> f32_lt (score i) (score r))"
proof -
  have tens: "idx 0 10 1 = 0 # idx 1 10 1" by (subst idx.simps) simp
  let ?xs = "map score (idx 1 10 1)"
  have all: "[score 0] @ ?xs = map score (idx 0 10 1)" by (simp add: tens)
  have i10: "idx 0 10 1 = map int [0..<10]" by (simp add: idx.simps upt_rec)
  have nth: "map score (idx 0 10 1) ! j = score (int j)" if "j < 10" for j
    using that by (simp add: i10 nth_map)
  have len: "length (map score (idx 0 10 1)) = 10" by (simp add: i10)
  have "\<exists>r<length ([score 0] @ ?xs). max_element ([score 0] ! 0) (int 0) (int (length [score 0])) ?xs = int r \<and>
     (\<forall>j<length ([score 0] @ ?xs). \<not> f32_lt (([score 0] @ ?xs) ! r) (([score 0] @ ?xs) ! j)) \<and>
     (\<forall>j<r. f32_lt (([score 0] @ ?xs) ! j) (([score 0] @ ?xs) ! r))"
    by (rule max_element_first) (use assms(4) in \<open>auto dest!: idx_set\<close>)
  then obtain r where r: "r < 10" "max_element (score 0) 0 1 ?xs = int r"
      "\<forall>j<10. \<not> f32_lt (score (int r)) (score (int j))" "\<forall>j<r. f32_lt (score (int j)) (score (int r))"
    unfolding all len using nth by auto
  have ld: "loadF (hub c) (mdata m) = Inr (score 0)"
    using assms(3) [of 0] by (simp add: ptr_add_def)
  have "forR (\<lambda>i xs. bindR (loadF (hub c) (ptr_add (mdata m) i)) (\<lambda>v. Inr (xs @ [v]))) (idx 1 10 1) []
      = Inr ([] @ ?xs)"
    by (rule forR_loads) (use assms(3) in \<open>auto dest!: idx_set\<close>)
  then have run: "op_output c N = Inr (c\<lparr>outputIndex := int r\<rparr>, 10)"
    using assms(1,2) ld r(2) by (simp add: op_output_def getMemory_def getPtr_def ptr_add_def)
  have "\<not> f32_lt (score (int r)) (score i)" if "0 \<le> i" "i < 10" for i
    using r(3) that by (metis nat_int nat_less_iff of_nat_numeral int_nat_eq)
  moreover have "f32_lt (score i) (score (int r))" if "0 \<le> i" "i < int r" for i
    using r(4) that by (metis nat_less_iff int_nat_eq)
  ultimately show ?thesis using run r(1) by (intro exI [of _ "int r"]) auto
qed

theorem op_output_argmax_witness:
  "\<exists>r. op_output demo_core ''in'' = Inr (demo_core\<lparr>outputIndex := r\<rparr>, 10) \<and> r = 3"
proof -
  let ?s = "\<lambda>i :: int. if i = 3 then 0x40000000 else 0x3f800000 :: f32"
  have "\<exists>r. op_output demo_core ''in'' = Inr (demo_core\<lparr>outputIndex := r\<rparr>, 10) \<and> 0 \<le> r \<and> r < 10 \<and>
     (\<forall>i. 0 \<le> i \<and> i < 10 \<longrightarrow> \<not> f32_lt (?s r) (?s i)) \<and> (\<forall>i. 0 \<le> i \<and> i < r \<longrightarrow> f32_lt (?s i) (?s r))"
    by (rule op_output_argmax [OF demo_memories(1)])
      (auto simp: SharedMemory_new_def Let_def loadF_def ptr_valid_def ptr_add_def float_defs)
  then obtain r where r: "op_output demo_core ''in'' = Inr (demo_core\<lparr>outputIndex := r\<rparr>, 10)"
    "\<forall>i. 0 \<le> i \<and> i < 10 \<longrightarrow> \<not> f32_lt (?s r) (?s i)" by blast
  have "r = 3" using spec [OF r(2), of 3] by (cases "r = 3") (simp_all add: float_defs)
  then show ?thesis using r(1) by blast
qed

section \<open>Pooling\<close>

text \<open>
  A pooled lane is the maximum of the window's lanes and the start value.  The start
  value is the least positive normal float, so a pooled value is never below it: where
  the whole window is zero (a common case after ReLU) the layer stores \<open>2 ^ -126\<close>.
\<close>

definition lane :: "Data \<Rightarrow> nat \<Rightarrow> f32" where
  "lane d k = data_list d ! k"

lemma lane_simd_max: "k < 4 \<Longrightarrow> lane (fst (simd_max a b)) k = std_max (lane a k) (lane b k)"
  by (cases a; cases b) (auto simp: lane_def less_Suc_eq numeral_eq_Suc)

lemma f32_min_not_nan: "\<not> f32_nan f32_min"
  by (simp add: f32_nan_def fis_nan_def fmag_F32 infbits_F32)

definition pool_inv :: "(int \<times> int) set \<Rightarrow> (int \<times> int \<Rightarrow> Data) \<Rightarrow> nat \<Rightarrow> Data \<Rightarrow> bool" where
  "pool_inv W dat k m \<longleftrightarrow> \<not> f32_nan (lane m k) \<and> \<not> f32_lt (lane m k) f32_min \<and>
     (lane m k = f32_min \<or> (\<exists>e\<in>W. lane m k = lane (dat e) k)) \<and>
     (\<forall>e\<in>W. \<not> f32_lt (lane m k) (lane (dat e) k))"

lemma pool_inv_step:
  assumes "pool_inv W dat k m" and "k < 4" and "\<not> f32_nan (lane (dat e) k)"
  shows "pool_inv (insert e W) dat k (fst (simd_max m (dat e)))"
  using assms f32_not_lt_trans [of "lane m k" "lane (dat e) k"] f32_lt_not_nan
  unfolding pool_inv_def lane_simd_max [OF assms(2)] std_max_def
  by (auto intro: f32_lt_trans dest: f32_lt_asym f32_lt_trans)

lemma pool_fold:
  assumes "\<And>e. e \<in> set es \<Longrightarrow> ld e = Inr (dat e) \<and> \<not> f32_nan (lane (dat e) k)" and "k < 4"
    and "pool_inv W dat k (fst s)"
  shows "\<exists>r. forR (\<lambda>e s. bindR (ld e) (\<lambda>i. case simd_max (fst s) i of (m, cy) \<Rightarrow> Inr (m, snd s + cy))) es s = Inr r \<and>
     pool_inv (W \<union> set es) dat k (fst r)"
  using assms
proof (induction es arbitrary: s W)
  case Nil
  then show ?case by simp
next
  case (Cons e es)
  let ?s = "(fst (simd_max (fst s) (dat e)), snd s + 1)"
  have "pool_inv (insert e W) dat k (fst ?s)"
    using pool_inv_step [OF Cons.prems(3,2)] Cons.prems(1) [of e] by simp
  then have "\<exists>r. forR (\<lambda>e s. bindR (ld e) (\<lambda>i. case simd_max (fst s) i of (m, cy) \<Rightarrow> Inr (m, snd s + cy))) es ?s = Inr r \<and>
     pool_inv (insert e W \<union> set es) dat k (fst r)"
    by (intro Cons.IH) (use Cons.prems in auto)
  then show ?case using Cons.prems(1) [of e] by (simp add: case_prod_beta)
qed

text \<open>C13: a pooled lane bounds every value of its window, and is one of them or the start
  value \<open>numeric_limits<float>::min()\<close>, which it is never below.\<close>

theorem pool_window_max:
  assumes "\<And>u v. u \<in> {x * st ..< x * st + fs} \<Longrightarrow> v \<in> {y * st ..< y * st + fs} \<Longrightarrow>
      load4_z h inm u v z = Inr (dat (u, v)) \<and> \<not> f32_nan (lane (dat (u, v)) k)" and "k < 4"
  shows "\<exists>m cy'. pool_window h inm fs st x y z cy = Inr (m, cy') \<and>
     (\<forall>u\<in>{x * st ..< x * st + fs}. \<forall>v\<in>{y * st ..< y * st + fs}. \<not> f32_lt (lane m k) (lane (dat (u, v)) k)) \<and>
     (lane m k = f32_min \<or> (\<exists>u\<in>{x * st ..< x * st + fs}. \<exists>v\<in>{y * st ..< y * st + fs}. lane m k = lane (dat (u, v)) k)) \<and>
     \<not> f32_lt (lane m k) f32_min"
proof -
  let ?es = "List.product (idx (x * st) (x * st + fs) 1) (idx (y * st) (y * st + fs) 1)"
  let ?m = "Data f32_min f32_min f32_min f32_min"
  have "lane ?m k = f32_min" using assms(2) by (auto simp: lane_def less_Suc_eq numeral_eq_Suc)
  then have i: "pool_inv {} dat k (fst (?m, cy))" by (simp add: pool_inv_def f32_min_not_nan)
  have "\<exists>r. forR (\<lambda>e s. bindR ((\<lambda>(u, v). load4_z h inm u v z) e) (\<lambda>i. case simd_max (fst s) i of (m, cy) \<Rightarrow> Inr (m, snd s + cy)))
      ?es (?m, cy) = Inr r \<and> pool_inv ({} \<union> set ?es) dat k (fst r)"
    by (rule pool_fold [OF _ assms(2) i]) (use assms(1) in \<open>auto simp: set_idx_1\<close>)
  then obtain r where r: "forR (\<lambda>e s. bindR ((\<lambda>(u, v). load4_z h inm u v z) e)
        (\<lambda>i. case simd_max (fst s) i of (m, cy) \<Rightarrow> Inr (m, snd s + cy))) ?es (?m, cy) = Inr r"
      "pool_inv (set ?es) dat k (fst r)" by auto
  have "pool_window h inm fs st x y z cy = Inr r"
    using r(1) by (simp add: pool_window_def forR_product case_prod_beta')
  then show ?thesis
    using r(2) by (cases r) (auto simp: pool_inv_def set_idx_1)
qed

theorem pool_window_max_witness:
  "\<exists>m cy. pool_window (hub demo_core) (SharedMemory_new \<lparr>pblk = 1, poff = 0\<rparr> 4 4 4 1) 2 2 0 0 0 7 = Inr (m, cy) \<and>
     lane m 1 = f32_min"
proof -
  let ?h = "hub demo_core" and ?m = "SharedMemory_new \<lparr>pblk = 1, poff = 0\<rparr> 4 4 4 1"
  have l: "load4_z ?h ?m u v 0 = Inr (Data 0 0 0 0)" if "u \<in> {0..<2}" "v \<in> {0..<2}" for u v
  proof -
    have "u = 0 \<or> u = 1" "v = 0 \<or> v = 1" using that by auto
    then show ?thesis
      by (auto simp: load4_z_def loadAt_def getPtr_def SharedMemory_new_def Let_def ptr_add_def loadF_def ptr_valid_def)
  qed
  have z: "lane (Data 0 0 0 0) 1 = 0" by (simp add: lane_def)
  have "\<exists>m cy'. pool_window ?h ?m 2 2 0 0 0 7 = Inr (m, cy') \<and>
     (\<forall>u\<in>{0 * 2 ..< 0 * 2 + 2 :: int}. \<forall>v\<in>{0 * 2 ..< 0 * 2 + 2 :: int}. \<not> f32_lt (lane m 1) (lane (Data 0 0 0 0) 1)) \<and>
     (lane m 1 = f32_min \<or> (\<exists>u\<in>{0 * 2 ..< 0 * 2 + 2 :: int}. \<exists>v\<in>{0 * 2 ..< 0 * 2 + 2 :: int}. lane m 1 = lane (Data 0 0 0 0) 1)) \<and>
     \<not> f32_lt (lane m 1) f32_min"
    by (rule pool_window_max [where dat = "\<lambda>_. Data 0 0 0 0"]) (use l z in \<open>auto simp: float_defs\<close>)
  then show ?thesis using z by (auto simp: float_defs)
qed

end
