(* ===== verification/Cnn_Safe.thy ===== *)
theory Cnn_Safe imports Cnn_Total Cnn_Layers Views begin

text \<open>
  The whole CNN accelerator: after construction and initialisation, whatever layer the
  \<open>counter\<close> register selects, \<open>AIChip::run\<close> returns.  No assertion fails, no lookup
  misses, no load or store leaves its array, and the cycles are bounded by a constant.
\<close>

section \<open>The memory map\<close>

definition blk_sizes :: "memhub \<Rightarrow> bool" where
  "blk_sizes h \<longleftrightarrow> map blen (heap h) = [25088, 25088, 1663371]"

text \<open>The three owning memories of the constructor, and the seventeen views of \<open>op_init\<close>.\<close>

definition base_map :: "memhub \<Rightarrow> bool" where
  "base_map h \<longleftrightarrow> blk_sizes h \<and>
     memories h ''activation_mem1'' = Some (Memory_new \<lparr>pblk = 0, poff = 0\<rparr> 25088 1 1 1) \<and>
     memories h ''activation_mem2'' = Some (Memory_new \<lparr>pblk = 1, poff = 0\<rparr> 25088 1 1 1) \<and>
     memories h ''weight_and_bias_mem'' = Some (Memory_new \<lparr>pblk = 2, poff = 0\<rparr> 1663371 1 1 1)"

definition view_table :: "(string \<times> memory) list" where
  "view_table =
    [(''model/conv2d/kernel'', view 2 0 5 5 1 32), (''model/conv2d/bias'', view 2 800 32 1 1 1),
     (''model/conv2d_1/kernel'', view 2 832 5 5 32 64), (''model/conv2d_1/bias'', view 2 52032 64 1 1 1),
     (''model/dense/kernel'', view 2 52096 3136 512 1 1), (''model/dense/bias'', view 2 1657728 512 1 1 1),
     (''model/dense_1/kernel'', view 2 1658240 512 10 1 1), (''model/dense_1/bias'', view 2 1663360 10 1 1 1),
     (''data/padding/in'', view 0 0 28 28 1 1), (''data/padding/out|conv2d/in'', view 1 0 32 32 1 1),
     (''data/conv2d/out|pool/in'', view 0 0 28 28 32 1), (''data/pool/out|padding_1/in'', view 1 0 14 14 32 1),
     (''data/padding_1/out|conv2d_1/in'', view 0 0 18 18 32 1), (''data/conv2d_1/out|pool_1/in'', view 1 0 14 14 64 1),
     (''data/pool_1/out|dense/in'', view 0 0 7 7 64 1), (''data/dense/out|dense_1/in'', view 1 0 512 1 1 1),
     (''data/dense_1/out'', view 0 0 10 1 1 1)]"

definition full_map :: "memhub \<Rightarrow> bool" where
  "full_map h \<longleftrightarrow> base_map h \<and> (\<forall>(n, m)\<in>set view_table. memories h n = Some m)"

lemma full_map_layout: "same_layout h h' \<Longrightarrow> full_map h \<Longrightarrow> full_map h'"
  by (simp add: full_map_def base_map_def blk_sizes_def same_layout_def)

lemma blk_sizesD:
  assumes "blk_sizes h"
  shows "length (heap h) = 3" "blen (heap h ! 0) = 25088" "blen (heap h ! Suc 0) = 25088"
    "blen (heap h ! 2) = 1663371"
proof -
  have m: "map blen (heap h) = [25088, 25088, 1663371]" using assms by (simp add: blk_sizes_def)
  show l: "length (heap h) = 3" using arg_cong [OF m, of length] by simp
  show "blen (heap h ! 0) = 25088" "blen (heap h ! Suc 0) = 25088" "blen (heap h ! 2) = 1663371"
    using arg_cong [OF m, of "\<lambda>xs. xs ! 0"] arg_cong [OF m, of "\<lambda>xs. xs ! Suc 0"]
      arg_cong [OF m, of "\<lambda>xs. xs ! 2"] l by simp_all
qed

lemma view_ok:
  assumes "blk_sizes h" and "0 < x" "0 < y" "0 < z" "0 < w" "0 \<le> off"
    and "b = 0 \<and> off + w * z * y * x \<le> 25088 \<or> b = Suc 0 \<and> off + w * z * y * x \<le> 25088 \<or>
         b = 2 \<and> off + w * z * y * x \<le> 1663371"
  shows "mem_ok h (view b off x y z w)"
  using assms(2-) blk_sizesD [OF assms(1)]
  by (auto simp: mem_ok_def view_def SharedMemory_new_def Let_def)

lemma full_map_views:
  assumes "full_map h"
  shows "(n, m) \<in> set view_table \<Longrightarrow> memories h n = Some m" "blk_sizes h"
  using assms by (auto simp: full_map_def base_map_def)

lemma view_table_names: "distinct (map fst view_table)"
  by (simp add: view_table_def)

text \<open>\<open>op_init\<close> registers exactly the views of the table, in order.\<close>

lemma op_init_views:
  assumes "base_map (hub c)"
  shows "op_init c = Inr (c\<lparr>hub := fold add_view view_table (hub c)\<rparr>, 1)"
proof -
  let ?b = "\<lambda>i. \<lparr>pblk = i, poff = 0\<rparr>"
  have g: "getMemory (fold add_view t (hub c)) ''activation_mem1'' = Inr (Memory_new (?b 0) 25088 1 1 1)"
    "getMemory (fold add_view t (hub c)) ''activation_mem2'' = Inr (Memory_new (?b 1) 25088 1 1 1)"
    "getMemory (hub c) ''weight_and_bias_mem'' = Inr (Memory_new (?b 2) 1663371 1 1 1)" for t
    using assms fold_add_view_keep by (auto simp: getMemory_def base_map_def)
  note add_view.simps [simp del]
  show ?thesis
    using g(1) [of "take 8 view_table"] g(2) [of "take 8 view_table"] g(3)
    by (simp add: op_init_def Let_def addSharedMemory_view ptr_add_def view_table_def numeral_eq_Suc)
qed

lemma op_init_map:
  assumes "base_map (hub c)"
    and "\<forall>(n, m)\<in>set view_table. memories (hub c) n = None \<or> memories (hub c) n = Some m"
  shows "\<exists>h. op_init c = Inr (c\<lparr>hub := h\<rparr>, 1) \<and> full_map h \<and> heap h = heap (hub c)"
proof -
  let ?h = "fold add_view view_table (hub c)"
  have "full_map ?h"
    using assms fold_add_view_get [OF view_table_names assms(2)]
    by (auto simp: full_map_def base_map_def blk_sizes_def fold_add_view_keep)
  then show ?thesis using op_init_views [OF assms(1)] by auto
qed

lemma op_init_again: "full_map (hub c) \<Longrightarrow> op_init c = Inr (c, 1)"
  using op_init_views [of c] fold_add_view_same [of view_table "hub c"] by (simp add: full_map_def)

section \<open>The layers\<close>

definition chip_ready :: "aichip \<Rightarrow> bool" where
  "chip_ready a \<longleftrightarrow> full_map (hub (ccore a)) \<and> mem1 a = \<lparr>pblk = 0, poff = 0\<rparr> \<and>
     mem2 a = \<lparr>pblk = 1, poff = 0\<rparr> \<and> mem3 a = \<lparr>pblk = 2, poff = 0\<rparr>"

definition layer_ok :: "core \<Rightarrow> (core \<times> int) res \<Rightarrow> bool" where
  "layer_ok c r \<longleftrightarrow> (\<exists>c' cy. r = Inr (c', cy) \<and> same_layout (hub c) (hub c') \<and> 0 \<le> cy \<and> cy \<le> 39298)"

lemma layer_okI: "r = Inr (c', cy) \<Longrightarrow> same_layout (hub c) (hub c') \<Longrightarrow> 0 \<le> cy \<Longrightarrow> cy \<le> 39298 \<Longrightarrow> layer_ok c r"
  by (auto simp: layer_ok_def)

lemma length_idx_4: "0 < n \<Longrightarrow> int (length (idx 0 (4 * n) 4)) = n"
proof -
  assume n: "0 < n"
  have "set (idx 0 (4 * n) 4) = (\<lambda>k. 4 * k) ` {0..<n}"
    by (auto dest!: idx_set intro!: idx_mem elim!: dvdE)
  then have "card (set (idx 0 (4 * n) 4)) = card {0..<n}"
    by (simp add: card_image inj_on_def)
  then show ?thesis using distinct_card [OF distinct_idx [of 0 "4 * n" 4]] n by simp
qed

lemma idx4_lengths:
  "int (length (idx 0 32 4)) = 8" "int (length (idx 0 64 4)) = 16" "int (length (idx 0 512 4)) = 128"
  "length (idx 0 10 4) = 3"
  using length_idx_4 [of 8] length_idx_4 [of 16] length_idx_4 [of 128] by (simp_all add: idx.simps)

lemma conv_layer_ok:
  assumes "memories (hub c) inN = Some inm" "memories (hub c) outN = Some out"
    "memories (hub c) wN = Some w" "memories (hub c) bN = Some b"
    "conv_fits (hub c) inm out w b n ocr xr yr fs st" "conv_cycle_bound n ocr xr yr fs div 64 \<le> 39298"
  shows "layer_ok c (op_conv c inN outN wN bN n ocr xr yr fs st)"
  using op_conv_total [OF assms(1-5)] assms(6) by (fastforce intro: layer_okI)


text \<open>The table's entries, one fact per name, and their shapes.\<close>

lemma table_views:
  assumes "full_map h"
  shows
    "memories h ''model/conv2d/kernel'' = Some (view 2 0 5 5 1 32)"
    "memories h ''model/conv2d/bias'' = Some (view 2 800 32 1 1 1)"
    "memories h ''model/conv2d_1/kernel'' = Some (view 2 832 5 5 32 64)"
    "memories h ''model/conv2d_1/bias'' = Some (view 2 52032 64 1 1 1)"
    "memories h ''model/dense/kernel'' = Some (view 2 52096 3136 512 1 1)"
    "memories h ''model/dense/bias'' = Some (view 2 1657728 512 1 1 1)"
    "memories h ''model/dense_1/kernel'' = Some (view 2 1658240 512 10 1 1)"
    "memories h ''model/dense_1/bias'' = Some (view 2 1663360 10 1 1 1)"
    "memories h ''data/padding/in'' = Some (view 0 0 28 28 1 1)"
    "memories h ''data/padding/out|conv2d/in'' = Some (view 1 0 32 32 1 1)"
    "memories h ''data/conv2d/out|pool/in'' = Some (view 0 0 28 28 32 1)"
    "memories h ''data/pool/out|padding_1/in'' = Some (view 1 0 14 14 32 1)"
    "memories h ''data/padding_1/out|conv2d_1/in'' = Some (view 0 0 18 18 32 1)"
    "memories h ''data/conv2d_1/out|pool_1/in'' = Some (view 1 0 14 14 64 1)"
    "memories h ''data/pool_1/out|dense/in'' = Some (view 0 0 7 7 64 1)"
    "memories h ''data/dense/out|dense_1/in'' = Some (view 1 0 512 1 1 1)"
    "memories h ''data/dense_1/out'' = Some (view 0 0 10 1 1 1)"
  by (rule full_map_views(1) [OF assms]; simp add: view_table_def)+

lemma fc_layer_ok:
  assumes "memories (hub c) inN = Some inm" "memories (hub c) outN = Some out"
    "memories (hub c) wN = Some w" "memories (hub c) bN = Some b"
    "fc_fits (hub c) inm out w b n rng" "(n + 2) * int (length (idx (fst rng) (snd rng) 4)) div 64 \<le> 39298"
  shows "layer_ok c (op_fc c inN outN wN bN n rng)"
  using op_fc_total [OF assms(1-5)] assms(6) by (fastforce intro: layer_okI)

lemma pool_layer_ok:
  assumes "memories (hub c) inN = Some inm" "memories (hub c) outN = Some out"
    "pool_fits (hub c) inm out ocr xr yr fs st"
    "fs * fs * int (length (idx (fst ocr) (snd ocr) 4)) *
       int (length (idx (fst yr) (snd yr) 1)) * int (length (idx (fst xr) (snd xr) 1)) div 64 \<le> 39298"
  shows "layer_ok c (op_pool c inN outN ocr xr yr fs st)"
  using op_pool_total [OF assms(1-3)] assms(4) by (fastforce intro: layer_okI)

lemma padding_layer_ok:
  assumes "memories (hub c) inN = Some inm" "memories (hub c) outN = Some out"
    "pad_fits (hub c) inm out p X Y Z W"
  shows "layer_ok c (op_padding c inN outN p X Y Z W)"
  using op_padding_copy [OF assms] by (fastforce intro: layer_okI)

lemma input_layer_ok:
  assumes "memories (hub c) fromN = Some fm" "memories (hub c) toN = Some tm"
    "mem_ok (hub c) fm" "mem_ok (hub c) tm" "pblk (mdata fm) \<noteq> pblk (mdata tm)"
    "196 \<le> wzyxLen fm" "784 \<le> wzyxLen tm"
  shows "layer_ok c (op_input c fromN toN)"
  using op_input_copy [OF assms] by (fastforce intro: layer_okI)

lemma base_ok:
  assumes "blk_sizes h"
  shows "mem_ok h (Memory_new \<lparr>pblk = 0, poff = 0\<rparr> 25088 1 1 1)"
    "mem_ok h (Memory_new \<lparr>pblk = Suc 0, poff = 0\<rparr> 25088 1 1 1)"
  using blk_sizesD [OF assms] by (auto simp: mem_ok_def Memory_new_def Let_def)


lemma max_element_range: "at \<le> i \<Longrightarrow> at \<le> max_element b at i xs \<and> max_element b at i xs \<le> i + int (length xs)"
proof (induction xs arbitrary: b at i)
  case (Cons x xs)
  show ?case using Cons.IH [of i "i + 1" x] Cons.IH [of at "i + 1" b] Cons.prems by auto
qed simp

lemma op_output_ok:
  assumes "memories (hub c) N = Some m" and "mem_ok (hub c) m" and "10 \<le> wzyxLen m"
  shows "\<exists>r. op_output c N = Inr (c\<lparr>outputIndex := r\<rparr>, 10)"
proof -
  have fit: "pblk (mdata m) < length (heap (hub c))" "0 \<le> poff (mdata m)"
    "poff (mdata m) + wzyxLen m \<le> int (blen (heap (hub c) ! pblk (mdata m)))"
    using assms(2) unfolding mem_ok_def by blast+
  have "\<exists>v. loadF (hub c) (ptr_add (mdata m) i) = Inr v" if "0 \<le> i" "i < 10" for i
    using that fit assms(3) by (simp add: loadF_def ptr_valid_def ptr_add_def)
  then obtain sc where sc: "\<And>i. 0 \<le> i \<Longrightarrow> i < 10 \<Longrightarrow> loadF (hub c) (ptr_add (mdata m) i) = Inr (sc i)"
    by metis
  have "forR (\<lambda>i xs. bindR (loadF (hub c) (ptr_add (mdata m) i)) (\<lambda>v. Inr (xs @ [v]))) (idx 1 10 1) []
      = Inr ([] @ map sc (idx 1 10 1))"
    by (rule forR_loads) (use sc in \<open>auto dest!: idx_set\<close>)
  moreover have "loadF (hub c) (mdata m) = Inr (sc 0)" using sc [of 0] by (simp add: ptr_add_def)
  ultimately have "op_output c N = Inr (c\<lparr>outputIndex := max_element (sc 0) 0 1 (map sc (idx 1 10 1))\<rparr>, 10)"
    using assms(1,3) by (simp add: op_output_def getMemory_def getPtr_def ptr_add_def)
  then show ?thesis by blast
qed

section \<open>The chip\<close>

lemma chip_new_ready:
  "\<exists>a. AIChip_new j1 j2 j3 = Inr a \<and> base_map (hub (ccore a)) \<and>
     (\<forall>(n, m)\<in>set view_table. memories (hub (ccore a)) n = None) \<and> counter a = 0 \<and> tickPerCycle a = 1 \<and>
     mem1 a = \<lparr>pblk = 0, poff = 0\<rparr> \<and> mem2 a = \<lparr>pblk = 1, poff = 0\<rparr> \<and> mem3 a = \<lparr>pblk = 2, poff = 0\<rparr>"
  by (simp add: AIChip_new_def addMemory_def Let_def getMemory_def base_map_def blk_sizes_def view_table_def
      numeral_2_eq_2)

definition run_ok :: "aichip \<Rightarrow> bool" where
  "run_ok a \<longleftrightarrow> (\<exists>a' t. AIChip_run a = Inr (a', t) \<and> chip_ready a' \<and> counter a' = counter a \<and>
     tickPerCycle a' = tickPerCycle a \<and> finished a' = (uint (counter a) = 10) \<and>
     0 \<le> t \<and> t \<le> 39298 * tickPerCycle a)"

text \<open>The largest period for which the tick count of a layer fits an \<open>int\<close>.\<close>

definition max_period :: int where
  "max_period = 54645"

lemma scaled:
  assumes "0 \<le> cy" "cy \<le> 39298" "0 \<le> k" "k \<le> max_period"
  shows "int_mul cy k = Inr (cy * k) \<and> 0 \<le> cy * k \<and> cy * k \<le> 39298 * k"
proof -
  have a: "0 \<le> cy * k" "cy * k \<le> 39298 * k" using assms by (simp_all add: mult_right_mono)
  then have "cy * k < 2 ^ 31" using assms(4) by (simp add: max_period_def)
  then show ?thesis using a by (simp add: int_mul_def)
qed

lemma run_layer:
  assumes "chip_ready a" and "0 \<le> tickPerCycle a" and "tickPerCycle a \<le> max_period" and "uint (counter a) \<noteq> 10"
    and "AIChip_run a = bindR (bindR l (\<lambda>(c', cy). Inr (a\<lparr>finished := False, ccore := c'\<rparr>, cy)))
      (\<lambda>(a', cy). bindR (int_mul cy (tickPerCycle a')) (\<lambda>t. Inr (a', t)))"
    and "layer_ok (ccore a) l"
  shows "run_ok a"
proof -
  obtain c' cy where l: "l = Inr (c', cy)" "same_layout (hub (ccore a)) (hub c')" "0 \<le> cy" "cy \<le> 39298"
    using assms(6) by (auto simp: layer_ok_def)
  have "full_map (hub c')" using assms(1) full_map_layout [OF l(2)] by (simp add: chip_ready_def)
  then show ?thesis
    using assms(1,4,5) l(1) scaled [OF l(3,4) assms(2,3)] by (simp add: run_ok_def chip_ready_def)
qed


lemma run_init:
  assumes "base_map (hub (ccore a))" and "counter a = 0" and t: "0 \<le> tickPerCycle a" "tickPerCycle a \<le> max_period"
    and "\<forall>(n, m)\<in>set view_table. memories (hub (ccore a)) n = None \<or> memories (hub (ccore a)) n = Some m"
    and "mem1 a = \<lparr>pblk = 0, poff = 0\<rparr>" "mem2 a = \<lparr>pblk = 1, poff = 0\<rparr>" "mem3 a = \<lparr>pblk = 2, poff = 0\<rparr>"
  shows "run_ok a"
proof -
  obtain h where h: "op_init (ccore a) = Inr ((ccore a)\<lparr>hub := h\<rparr>, 1)" "full_map h"
    using op_init_map [OF assms(1,5)] by blast
  then show ?thesis
    using assms scaled [of 1 "tickPerCycle a"] by (simp add: run_ok_def AIChip_run_def Let_def chip_ready_def)
qed

text \<open>The layers of the network fit the views, and their cycle bounds are at most 39298.\<close>

lemma chip_layers:
  assumes "full_map (hub c)"
  shows
    "layer_ok c (op_input c ''activation_mem2'' ''data/padding/in'')"
    "layer_ok c (op_padding c ''data/padding/in'' ''data/padding/out|conv2d/in'' 2 28 28 1 1)"
    "layer_ok c (op_conv c ''data/padding/out|conv2d/in'' ''data/conv2d/out|pool/in''
       ''model/conv2d/kernel'' ''model/conv2d/bias'' 1 (0, 32) (0, 28) (0, 28) 5 1)"
    "layer_ok c (op_pool c ''data/conv2d/out|pool/in'' ''data/pool/out|padding_1/in'' (0, 32) (0, 14) (0, 14) 2 2)"
    "layer_ok c (op_padding c ''data/pool/out|padding_1/in'' ''data/padding_1/out|conv2d_1/in'' 2 14 14 32 1)"
    "layer_ok c (op_conv c ''data/padding_1/out|conv2d_1/in'' ''data/conv2d_1/out|pool_1/in''
       ''model/conv2d_1/kernel'' ''model/conv2d_1/bias'' 32 (0, 64) (0, 14) (0, 14) 5 1)"
    "layer_ok c (op_pool c ''data/conv2d_1/out|pool_1/in'' ''data/pool_1/out|dense/in'' (0, 64) (0, 7) (0, 7) 2 2)"
    "layer_ok c (op_fc c ''data/pool_1/out|dense/in'' ''data/dense/out|dense_1/in''
       ''model/dense/kernel'' ''model/dense/bias'' (7 * 7 * 64) (0, 512))"
    "layer_ok c (op_fc c ''data/dense/out|dense_1/in'' ''data/dense_1/out''
       ''model/dense_1/kernel'' ''model/dense_1/bias'' 512 (0, 10))"
proof -
  note t = table_views [OF assms]
  have b: "blk_sizes (hub c)" using full_map_views(2) [OF assms] .
  have a2: "memories (hub c) ''activation_mem2'' = Some (Memory_new \<lparr>pblk = Suc 0, poff = 0\<rparr> 25088 1 1 1)"
    using assms by (simp add: full_map_def base_map_def)
  note v = view_ok [OF b]
  note cb = conv_cycle_bound_def length_idx_1 idx4_lengths
  show "layer_ok c (op_input c ''activation_mem2'' ''data/padding/in'')"
    by (rule input_layer_ok [OF a2 t(9)]) (simp_all add: base_ok [OF b] v)
  show "layer_ok c (op_padding c ''data/padding/in'' ''data/padding/out|conv2d/in'' 2 28 28 1 1)"
    by (rule padding_layer_ok [OF t(9,10)]) (simp add: pad_fits_def v)
  show "layer_ok c (op_conv c ''data/padding/out|conv2d/in'' ''data/conv2d/out|pool/in''
       ''model/conv2d/kernel'' ''model/conv2d/bias'' 1 (0, 32) (0, 28) (0, 28) 5 1)"
    by (rule conv_layer_ok [OF t(10,11,1,2)]) (simp_all add: conv_fits_def v cb)
  show "layer_ok c (op_pool c ''data/conv2d/out|pool/in'' ''data/pool/out|padding_1/in'' (0, 32) (0, 14) (0, 14) 2 2)"
    by (rule pool_layer_ok [OF t(11,12)]) (simp_all add: pool_fits_def v cb)
  show "layer_ok c (op_padding c ''data/pool/out|padding_1/in'' ''data/padding_1/out|conv2d_1/in'' 2 14 14 32 1)"
    by (rule padding_layer_ok [OF t(12,13)]) (simp add: pad_fits_def v)
  show "layer_ok c (op_conv c ''data/padding_1/out|conv2d_1/in'' ''data/conv2d_1/out|pool_1/in''
       ''model/conv2d_1/kernel'' ''model/conv2d_1/bias'' 32 (0, 64) (0, 14) (0, 14) 5 1)"
    by (rule conv_layer_ok [OF t(13,14,3,4)]) (simp_all add: conv_fits_def v cb)
  show "layer_ok c (op_pool c ''data/conv2d_1/out|pool_1/in'' ''data/pool_1/out|dense/in'' (0, 64) (0, 7) (0, 7) 2 2)"
    by (rule pool_layer_ok [OF t(14,15)]) (simp_all add: pool_fits_def v cb)
  show "layer_ok c (op_fc c ''data/pool_1/out|dense/in'' ''data/dense/out|dense_1/in''
       ''model/dense/kernel'' ''model/dense/bias'' (7 * 7 * 64) (0, 512))"
    by (rule fc_layer_ok [OF t(15,16,5,6)]) (simp_all add: fc_fits_def v cb)
  show "layer_ok c (op_fc c ''data/dense/out|dense_1/in'' ''data/dense_1/out''
       ''model/dense_1/kernel'' ''model/dense_1/bias'' 512 (0, 10))"
    by (rule fc_layer_ok [OF t(16,17,7,8)]) (simp_all add: fc_fits_def v cb)
qed


lemma run_output:
  assumes r: "chip_ready a" and t: "0 \<le> tickPerCycle a" "tickPerCycle a \<le> max_period" and n: "uint (counter a) = 10"
  shows "run_ok a"
proof -
  let ?c = "ccore a"
  have f: "full_map (hub ?c)" and b: "blk_sizes (hub ?c)"
    using r full_map_views(2) by (auto simp: chip_ready_def)
  obtain k where k: "op_output ?c ''data/dense_1/out'' = Inr (?c\<lparr>outputIndex := k\<rparr>, 10)"
    using op_output_ok [OF table_views(17) [OF f]] view_ok [OF b] by auto
  have v: "ptr_valid (hub ?c) (ptr_add (mem1 a) 0)"
    using r blk_sizesD [OF b] by (simp add: chip_ready_def ptr_valid_def ptr_add_def)
  obtain h where h: "storeB (hub ?c) (mem1 a) 0 (word_of_int k) = Inr h" "same_layout (hub ?c) h"
    using storeF_ok [OF v] v by (auto simp: storeB_def loadF_def)
  show ?thesis
    using k h r n full_map_layout [OF h(2) f] scaled [of 10 "tickPerCycle a"] t
    by (simp add: run_ok_def AIChip_run_def Let_def chip_ready_def)
qed

lemma upto_10:
  fixes n :: int
  assumes "0 \<le> n"
  shows "n \<in> {0, 1, 2, 3, 4, 5, 6, 7, 8, 9, 10} \<union> {10 <..}"
  using assms by simp presburger

lemma run_ready:
  assumes r: "chip_ready a" and t: "0 \<le> tickPerCycle a" "tickPerCycle a \<le> max_period"
  shows "run_ok a"
proof -
  have f: "full_map (hub (ccore a))" using r by (simp add: chip_ready_def)
  note L = chip_layers [OF f]
  note run = run_layer [OF r t]
  let ?n = "uint (counter a)"
  have bound: "0 \<le> ?n" by simp
  consider "?n = 0" | "?n = 1" | "?n = 2" | "?n = 3" | "?n = 4" | "?n = 5" | "?n = 6" | "?n = 7" | "?n = 8"
    | "?n = 9" | "?n = 10" | "10 < ?n"
    using upto_10 [OF bound] by auto
  then show ?thesis
  proof cases
    case 1
    have "layer_ok (ccore a) (op_init (ccore a))"
      using op_init_again [OF f] by (rule layer_okI) simp_all
    then show ?thesis using 1 by (intro run) (simp_all add: AIChip_run_def Let_def)
  next
    case 11
    then show ?thesis by (rule run_output [OF r t])
  next
    case 12
    then have "AIChip_run a = Inr (a\<lparr>finished := False\<rparr>, 0)" by (simp add: AIChip_run_def Let_def int_mul_def)
    then show ?thesis using 12 r t by (simp add: run_ok_def chip_ready_def)
  qed (use L in \<open>auto simp: AIChip_run_def Let_def intro: run\<close>)
qed

lemma cnn_boot:
  assumes "0 \<le> p" and "p \<le> max_period"
  shows "\<exists>a b t. AIChip_new j1 j2 j3 = Inr a \<and> AIChip_run (a\<lparr>tickPerCycle := p, counter := 0\<rparr>) = Inr (b, t) \<and>
     chip_ready b \<and> tickPerCycle b = p \<and> 0 \<le> t \<and> t \<le> 39298 * p"
proof -
  obtain a where a: "AIChip_new j1 j2 j3 = Inr a" "base_map (hub (ccore a))"
      "\<forall>(n, m)\<in>set view_table. memories (hub (ccore a)) n = None" "counter a = 0"
      "mem1 a = \<lparr>pblk = 0, poff = 0\<rparr>" "mem2 a = \<lparr>pblk = 1, poff = 0\<rparr>" "mem3 a = \<lparr>pblk = 2, poff = 0\<rparr>"
    using chip_new_ready [of j1 j2 j3] by blast
  have "run_ok (a\<lparr>tickPerCycle := p, counter := 0\<rparr>)" by (rule run_init) (use a assms in auto)
  then show ?thesis using a(1) by (auto simp: run_ok_def)
qed

text \<open>\<open>run_seq\<close>: the runs a host asks for, one per value it writes to \<open>counter\<close>, and the
  ticks they take.\<close>

fun run_seq :: "byte list \<Rightarrow> aichip \<Rightarrow> (aichip \<times> int list) res" where
  "run_seq [] a = Inr (a, [])"
| "run_seq (n # ns) a =
     bindR (AIChip_run (a\<lparr>counter := n\<rparr>)) (\<lambda>(a', t). bindR (run_seq ns a') (\<lambda>(a'', ts). Inr (a'', t # ts)))"

lemma run_seq_ready:
  assumes "chip_ready a" and "tickPerCycle a = p" and "0 \<le> p" "p \<le> max_period"
  shows "\<exists>a' ts. run_seq ns a = Inr (a', ts) \<and> chip_ready a' \<and> length ts = length ns \<and>
     (\<forall>t\<in>set ts. 0 \<le> t \<and> t \<le> 39298 * p)"
  using assms(1,2)
proof (induction ns arbitrary: a)
  case Nil
  then show ?case by simp
next
  case (Cons n ns)
  have "run_ok (a\<lparr>counter := n\<rparr>)" by (rule run_ready) (use Cons.prems assms(3,4) in \<open>simp_all add: chip_ready_def\<close>)
  then obtain b t where b: "AIChip_run (a\<lparr>counter := n\<rparr>) = Inr (b, t)" "chip_ready b" "tickPerCycle b = p"
      "0 \<le> t" "t \<le> 39298 * p"
    using Cons.prems(2) by (auto simp: run_ok_def)
  then show ?case using Cons.IH [OF b(2,3)] by auto
qed

text \<open>C8: a freshly constructed chip, clocked with a period of at most 54645 ticks, that is
  initialised once performs every later sequence of layer requests, in any order and with any
  value of the \<open>counter\<close> register: no assertion fails, no name is missing, no access
  leaves its array, the \<open>int\<close> product of cycles and period does not overflow, and no
  request takes more than 39298 periods.\<close>

theorem AIChip_any_requests:
  assumes "0 \<le> p" and "p \<le> max_period"
  shows "\<exists>a a' ts. AIChip_new j1 j2 j3 = Inr a \<and> run_seq (0 # ns) (a\<lparr>tickPerCycle := p\<rparr>) = Inr (a', ts) \<and>
     chip_ready a' \<and> length ts = Suc (length ns) \<and> list_all (\<lambda>t. 0 \<le> t \<and> t \<le> 39298 * p) ts"
proof -
  obtain a b t where a: "AIChip_new j1 j2 j3 = Inr a"
    and b: "AIChip_run (a\<lparr>tickPerCycle := p, counter := 0\<rparr>) = Inr (b, t)" "chip_ready b" "tickPerCycle b = p"
      "0 \<le> t" "t \<le> 39298 * p"
    using cnn_boot [OF assms, of j1 j2 j3] by blast
  obtain a' ts where s: "run_seq ns b = Inr (a', ts)" "chip_ready a'" "length ts = length ns"
      "\<forall>t\<in>set ts. 0 \<le> t \<and> t \<le> 39298 * p"
    using run_seq_ready [OF b(2,3) assms] by blast
  have "run_seq (0 # ns) (a\<lparr>tickPerCycle := p\<rparr>) = Inr (a', t # ts)" using b(1) s(1) by simp
  then show ?thesis using a s b(4,5) by (auto simp: list_all_iff)
qed

theorem AIChip_any_requests_witness:
  "\<exists>a a' ts. AIChip_new (\<lambda>_. 0) (\<lambda>_. 0) (\<lambda>_. 0) = Inr a \<and>
     run_seq [0, 1, 2, 200] (a\<lparr>tickPerCycle := 333\<rparr>) = Inr (a', ts) \<and> length ts = 4"
  using AIChip_any_requests [of 333 "\<lambda>_. 0" "\<lambda>_. 0" "\<lambda>_. 0" "[1, 2, 200]"] by (force simp: max_period_def)

end
