(* ===== verification/Rram_Net.thy ===== *)
theory Rram_Net imports Rram_Spec Views Cnn_Safe begin

text \<open>
  The whole RRAM accelerator: its memory map, what each request does to a chip that has been
  initialised, and the classification of one image as a function of the memories.
\<close>

section \<open>The memory map\<close>

definition mem :: "nat \<Rightarrow> int \<Rightarrow> fptr" where
  "mem b off = \<lparr>pblk = b, poff = off\<rparr>"

lemma mem_sel [simp]: "pblk (mem b off) = b" "poff (mem b off) = off"
  by (simp_all add: mem_def)

definition rbase_map :: "memhub \<Rightarrow> bool" where
  "rbase_map h \<longleftrightarrow> map blen (heap h) = [1024, 1024, 802816] \<and>
     memories h ''activation_mem1'' = Some (Memory_new (mem 0 0) 1024 1 1 1) \<and>
     memories h ''activation_mem2'' = Some (Memory_new (mem 1 0) 1024 1 1 1) \<and>
     memories h ''weight_and_bias_mem'' = Some (Memory_new (mem 2 0) 802816 1 1 1)"

definition rparam_table :: "(string \<times> memory) list" where
  "rparam_table =
    [(''model/fc1/weight'', view 2 0 262144 1 1 1), (''model/bn1/bias'', view 2 262144 1024 1 1 1),
     (''model/bn1/weight'', view 2 263168 1024 1 1 1), (''model/bn1/var'', view 2 264192 1024 1 1 1),
     (''model/bn1/mean'', view 2 265216 1024 1 1 1),
     (''model/fc2/weight'', view 2 266240 262144 1 1 1), (''model/bn2/bias'', view 2 528384 1024 1 1 1),
     (''model/bn2/weight'', view 2 529408 1024 1 1 1), (''model/bn2/var'', view 2 530432 1024 1 1 1),
     (''model/bn2/mean'', view 2 531456 1024 1 1 1),
     (''model/fc3/weight'', view 2 532480 262144 1 1 1), (''model/bn3/bias'', view 2 794624 1024 1 1 1),
     (''model/bn3/weight'', view 2 795648 1024 1 1 1), (''model/bn3/var'', view 2 796672 1024 1 1 1),
     (''model/bn3/mean'', view 2 797696 1024 1 1 1)]"

definition rdata_table :: "(string \<times> memory) list" where
  "rdata_table =
    [(''fc1/in'', view 0 0 1024 1 1 1), (''fc1/out|sign1/in'', view 1 0 1024 1 1 1),
     (''sign1/out|fc2/in'', view 0 0 1024 1 1 1), (''fc2/out|sign2/in'', view 1 0 1024 1 1 1),
     (''sign2/out|fc3/in'', view 0 0 1024 1 1 1), (''fc3/out'', view 1 0 1024 1 1 1)]"

definition rview_table :: "(string \<times> memory) list" where
  "rview_table = rparam_table @ rdata_table"

definition rfull_map :: "memhub \<Rightarrow> bool" where
  "rfull_map h \<longleftrightarrow> rbase_map h \<and> (\<forall>(n, m)\<in>set rview_table. memories h n = Some m)"

lemma rfull_map_layout: "same_layout h h' \<Longrightarrow> rfull_map h \<Longrightarrow> rfull_map h'"
  by (simp add: rfull_map_def rbase_map_def same_layout_def)

lemma rbase_spans:
  assumes "map blen (heap h) = [1024, 1024, 802816]"
  shows "span h (mem 0 0) 1024" "span h (mem 1 0) 1024" "0 \<le> off \<Longrightarrow> off + n \<le> 802816 \<Longrightarrow> span h (mem 2 off) n"
proof -
  have l: "length (heap h) = 3" using arg_cong [OF assms, of length] by simp
  have "blen (heap h ! 0) = 1024" "blen (heap h ! Suc 0) = 1024" "blen (heap h ! 2) = 802816"
    using arg_cong [OF assms, of "\<lambda>xs. xs ! 0"] arg_cong [OF assms, of "\<lambda>xs. xs ! Suc 0"]
      arg_cong [OF assms, of "\<lambda>xs. xs ! 2"] l by simp_all
  then show "span h (mem 0 0) 1024" "span h (mem 1 0) 1024" "0 \<le> off \<Longrightarrow> off + n \<le> 802816 \<Longrightarrow> span h (mem 2 off) n"
    using l by (simp_all add: span_def)
qed

lemma span_less: "span h p n \<Longrightarrow> m \<le> n \<Longrightarrow> span h p m"
  by (auto simp: span_def)

lemma rview_names: "distinct (map fst rview_table)"
  by (simp add: rview_table_def rparam_table_def rdata_table_def)

lemma add_row_views:
  "add_row (mem b off) t h = fold add_view (snd (fold (\<lambda>(n, len) (o', vs). (o' + len, vs @ [(n, view b o' len 1 1 1)])) t (off, []))) h"
proof -
  let ?f = "\<lambda>(n, len) (o', vs). (o' + len, vs @ [(n, view b o' len 1 1 1)])"
  have "fold add_view (snd (fold ?f t (off, vs))) h =
      add_row (mem b off) t (fold add_view vs h)" for off vs
  proof (induction t arbitrary: off vs)
    case (Cons e t)
    obtain n len where e: "e = (n, len)" by (cases e)
    show ?case
      using Cons [of "off + len" "vs @ [(n, view b off len 1 1 1)]"] e
      by (simp add: addSharedMemory_view mem_def ptr_add_def)
  qed simp
  from this [of off "[]"] show ?thesis by simp
qed

lemma rop_init_views:
  assumes "rbase_map (hub c)"
  shows "rop_init c = Inr (c\<lparr>hub := fold add_view rview_table (hub c)\<rparr>, 1)"
proof -
  note add_view.simps [simp del] add_row.simps [simp del]
  have g: "getMemory (fold add_view t (hub c)) ''activation_mem1'' = Inr (Memory_new (mem 0 0) 1024 1 1 1)"
    "getMemory (fold add_view t (hub c)) ''activation_mem2'' = Inr (Memory_new (mem 1 0) 1024 1 1 1)" for t
    using assms fold_add_view_keep by (auto simp: getMemory_def rbase_map_def)
  have w: "getMemory (hub c) ''weight_and_bias_mem'' = Inr (Memory_new (mem 2 0) 802816 1 1 1)"
    using assms by (simp add: getMemory_def rbase_map_def)
  have p: "add_row (mem 2 0)
          [(''model/fc1/weight'', 262144), (''model/bn1/bias'', 1024), (''model/bn1/weight'', 1024),
           (''model/bn1/var'', 1024), (''model/bn1/mean'', 1024),
           (''model/fc2/weight'', 262144), (''model/bn2/bias'', 1024), (''model/bn2/weight'', 1024),
           (''model/bn2/var'', 1024), (''model/bn2/mean'', 1024),
           (''model/fc3/weight'', 262144), (''model/bn3/bias'', 1024), (''model/bn3/weight'', 1024),
           (''model/bn3/var'', 1024), (''model/bn3/mean'', 1024)] (hub c) = fold add_view rparam_table (hub c)"
    unfolding add_row_views by (simp add: rparam_table_def)
  show ?thesis
    by (simp add: rop_init_def Let_def w p g addSharedMemory_view [folded mem_def])
       (simp add: rview_table_def rdata_table_def)
qed

lemma rop_init_map:
  assumes "rbase_map (hub c)"
    and "\<forall>(n, m)\<in>set rview_table. memories (hub c) n = None \<or> memories (hub c) n = Some m"
  shows "\<exists>h. rop_init c = Inr (c\<lparr>hub := h\<rparr>, 1) \<and> rfull_map h \<and> heap h = heap (hub c)"
proof -
  let ?h = "fold add_view rview_table (hub c)"
  have "rfull_map ?h"
    using assms fold_add_view_get [OF rview_names assms(2)]
    by (auto simp: rfull_map_def rbase_map_def fold_add_view_keep)
  then show ?thesis using rop_init_views [OF assms(1)] by auto
qed

lemma rop_init_again: "rfull_map (hub c) \<Longrightarrow> rop_init c = Inr (c, 1)"
  using rop_init_views [of c] fold_add_view_same [of rview_table "hub c"] by (simp add: rfull_map_def)

lemma rview_get:
  assumes "rfull_map h"
  shows "(n, m) \<in> set rview_table \<Longrightarrow> getMemory h n = Inr m"
  using assms by (auto simp: rfull_map_def getMemory_def)


section \<open>Requests to an initialised chip\<close>

definition rready :: "rchip \<Rightarrow> bool" where
  "rready a \<longleftrightarrow> rfull_map (hub (rcore a)) \<and> rmem1 a = mem 0 0 \<and> rmem2 a = mem 1 0 \<and> rmem3 a = mem 2 0"

definition layer_holds :: "rram \<Rightarrow> memhub \<Rightarrow> int \<Rightarrow> (nat \<Rightarrow> f32) \<Rightarrow> bool" where
  "layer_holds r h off ns \<longleftrightarrow>
     holds ns r (\<lambda>i j. bytes h (mem 2 off) (i * 1024 + j)) (floats h (mem 2 (off + 265216)))
       (floats h (mem 2 (off + 264192))) (floats h (mem 2 (off + 263168))) (floats h (mem 2 (off + 262144)))"

definition act :: "memhub \<Rightarrow> int \<Rightarrow> int" where
  "act h j = sint (bytes h (mem 0 0) j)"

lemma fc_calculate_ok:
  assumes f: "rfull_map (hub c)"
    and n: "getMemory (hub c) inN = Inr (view 0 0 1024 1 1 1)" "getMemory (hub c) outN = Inr (view 1 0 1024 1 1 1)"
      "getMemory (hub c) wN = Inr (view 2 off 262144 1 1 1)" "getMemory (hub c) varN = Inr (view 2 (off + 264192) 1024 1 1 1)"
      "getMemory (hub c) meanN = Inr (view 2 (off + 265216) 1024 1 1 1)"
      "getMemory (hub c) bwN = Inr (view 2 (off + 263168) 1024 1 1 1)"
      "getMemory (hub c) biasN = Inr (view 2 (off + 262144) 1024 1 1 1)"
    and o: "0 \<le> off" "off + 266240 \<le> 802816"
  shows "\<exists>h r'. op_fc_calculate c inN outN wN varN meanN bwN biasN r ld = Inr (c\<lparr>hub := h\<rparr>, r', if ld then 100100 else 100) \<and>
     same_layout (hub c) h \<and> (\<forall>b. b \<noteq> 1 \<longrightarrow> heap h ! b = heap (hub c) ! b) \<and> noise r' = noise r \<and>
     (if ld then layer_holds r' (hub c) off (noise r) else r' = r) \<and>
     (\<forall>i. 0 \<le> i \<longrightarrow> i < 1024 \<longrightarrow> floats h (mem 1 0) i = fc_out r' (act (hub c)) i)"
proof -
  have b: "map blen (heap (hub c)) = [1024, 1024, 802816]" using f by (simp add: rfull_map_def rbase_map_def)
  note sp = rbase_spans [OF b]
  have s256: "span (hub c) (mem 0 0) 256" by (rule span_less [OF sp(1)]) simp
  have "\<exists>r'. (if ld then load_weight (hub c) (mem 2 off) (mem 2 (off + 265216)) (mem 2 (off + 264192)) (mem 2 (off + 263168))
        (mem 2 (off + 262144)) r else Inr (r, 0)) = Inr (r', if ld then 100000 else 0) \<and> noise r' = noise r \<and>
      (if ld then layer_holds r' (hub c) off (noise r) else r' = r)"
    using load_weight_ok [OF sp(3) [of off 262144] sp(3) [of "off + 265216" 1024] sp(3) [of "off + 264192" 1024]
        sp(3) [of "off + 263168" 1024] sp(3) [of "off + 262144" 1024], of r] o
    by (auto simp: layer_holds_def)
  then obtain r' where r': "(if ld then load_weight (hub c) (mem 2 off) (mem 2 (off + 265216)) (mem 2 (off + 264192))
        (mem 2 (off + 263168)) (mem 2 (off + 262144)) r else Inr (r, 0)) = Inr (r', if ld then 100000 else 0)"
      "noise r' = noise r" "if ld then layer_holds r' (hub c) off (noise r) else r' = r" by blast
  obtain h where h: "rram_calculate r' (hub c) (mem 0 0) (mem 1 0) = Inr (h, 100)" "same_layout (hub c) h"
      "\<forall>b. b \<noteq> 1 \<longrightarrow> heap h ! b = heap (hub c) ! b"
      "\<forall>i. 0 \<le> i \<longrightarrow> i < 1024 \<longrightarrow> floats h (mem 1 0) i = fc_out r' (act (hub c)) i"
    using calculate_ok [OF s256 sp(2), of r'] unfolding act_def by auto
  have "op_fc_calculate c inN outN wN varN meanN bwN biasN r ld = Inr (c\<lparr>hub := h\<rparr>, r', if ld then 100100 else 100)"
    using r'(1) h(1) n by (cases ld) (simp_all add: op_fc_calculate_def mem_def)
  then show ?thesis using r'(2,3) h by blast
qed

lemma op_sign_ok:
  assumes f: "rfull_map (hub c)"
    and n: "getMemory (hub c) inN = Inr (view 1 0 1024 1 1 1)" "getMemory (hub c) outN = Inr (view 0 0 1024 1 1 1)"
  shows "\<exists>h. op_sign c inN outN = Inr (c\<lparr>hub := h\<rparr>, 1) \<and> same_layout (hub c) h \<and>
     (\<forall>b. b \<noteq> 0 \<longrightarrow> heap h ! b = heap (hub c) ! b) \<and>
     (\<forall>i. 0 \<le> i \<longrightarrow> i < 1024 \<longrightarrow> act h i = sint (sign_byte (floats (hub c) (mem 1 0) i)))"
proof -
  have b: "map blen (heap (hub c)) = [1024, 1024, 802816]" using f by (simp add: rfull_map_def rbase_map_def)
  note sp = rbase_spans [OF b]
  have s256: "span (hub c) (mem 0 0) 256" by (rule span_less [OF sp(1)]) simp
  obtain h where h: "rram_sign (hub c) (mem 1 0) (mem 0 0) = Inr (h, 1)" "same_layout (hub c) h"
      "\<forall>b. b \<noteq> 0 \<longrightarrow> heap h ! b = heap (hub c) ! b"
      "\<forall>i. 0 \<le> i \<longrightarrow> i < 1024 \<longrightarrow> bytes h (mem 0 0) i = sign_byte (floats (hub c) (mem 1 0) i)"
    using sign_ok [OF sp(2) s256] by auto
  have "op_sign c inN outN = Inr (c\<lparr>hub := h\<rparr>, 1)" using h(1) n by (simp add: op_sign_def mem_def)
  then show ?thesis using h by (auto simp: act_def)
qed

text \<open>What every request keeps, and the bound on the ticks it takes.\<close>

definition max_rperiod :: int where
  "max_rperiod = 21453"

definition rkeeps :: "rchip \<Rightarrow> rchip \<Rightarrow> int \<Rightarrow> bool" where
  "rkeeps a a' t \<longleftrightarrow> rready a' \<and> rtickPerCycle a' = rtickPerCycle a \<and> load_once a' = load_once a \<and>
     noise (array a') = noise (array a) \<and> heap (hub (rcore a')) ! 2 = heap (hub (rcore a)) ! 2 \<and>
     same_layout (hub (rcore a)) (hub (rcore a')) \<and> rcounter a' = rcounter a \<and>
     (rfinished a' \<longleftrightarrow> uint (rcounter a) = 7) \<and> 0 \<le> t \<and> t \<le> 100100 * rtickPerCycle a"

lemma rscaled:
  assumes "0 \<le> cy" "cy \<le> 100100" "0 \<le> k" "k \<le> max_rperiod"
  shows "int_mul cy k = Inr (cy * k) \<and> 0 \<le> cy * k \<and> cy * k \<le> 100100 * k"
proof -
  have a: "0 \<le> cy * k" "cy * k \<le> 100100 * k" using assms by (simp_all add: mult_right_mono)
  then have "cy * k < 2 ^ 31" using assms(4) by (simp add: max_rperiod_def)
  then show ?thesis using a by (simp add: int_mul_def)
qed

lemma rready_sp:
  assumes "rready a"
  shows "rfull_map (hub (rcore a))" "span (hub (rcore a)) (mem 0 0) 1024" "span (hub (rcore a)) (mem 1 0) 1024"
  using assms rbase_spans [of "hub (rcore a)"] by (auto simp: rready_def rfull_map_def rbase_map_def)

lemma run_input:
  assumes r: "rready a" and n: "uint (rcounter a) = 1" and t: "0 \<le> rtickPerCycle a" "rtickPerCycle a \<le> max_rperiod"
  shows "\<exists>a' t. RChip_run a = Inr (a', t) \<and> rkeeps a a' t \<and> array a' = array a \<and> weight_loaded a' = weight_loaded a \<and>
     (\<forall>i. 0 \<le> i \<longrightarrow> i < 784 \<longrightarrow> act (hub (rcore a')) i = (if 0 < uint (bytes (hub (rcore a)) (mem 1 0) i) then 1 else 0))"
proof -
  let ?h = "hub (rcore a)"
  note s = rready_sp [OF r]
  have g: "getMemory ?h ''activation_mem2'' = Inr (Memory_new (mem 1 0) 1024 1 1 1)"
      "getMemory ?h ''fc1/in'' = Inr (view 0 0 1024 1 1 1)"
    using s(1) by (simp_all add: rfull_map_def rbase_map_def getMemory_def rview_table_def rdata_table_def)
  obtain h where h: "forR (\<lambda>i h. bindR (loadB h (mem 1 0) i) (\<lambda>b. storeB h (mem 0 0) i (if 0 < uint b then 1 else 0))) (idx 0 784 1) ?h = Inr h"
     "same_layout ?h h" "\<forall>b. b \<noteq> 0 \<longrightarrow> heap h ! b = heap ?h ! b"
     "\<forall>i. bytes h (mem 0 0) i = (if 0 \<le> i \<and> i < 784 then if 0 < uint (bytes ?h (mem 1 0) i) then 1 else 0 else bytes ?h (mem 0 0) i)"
    using input_ok [OF span_less [OF s(3)] span_less [OF s(2)]] by auto
  have "RChip_run a = Inr (a\<lparr>rfinished := False, rcore := (rcore a)\<lparr>hub := h\<rparr>\<rparr>, 10 * rtickPerCycle a)"
    using h(1) g n rscaled [of 10, OF _ _ t] by (simp add: RChip_run_def Let_def rop_input_def mem_def)
  moreover have "rkeeps a (a\<lparr>rfinished := False, rcore := (rcore a)\<lparr>hub := h\<rparr>\<rparr>) (10 * rtickPerCycle a)"
    using r h(2,3) rfull_map_layout [OF h(2)] n t by (simp add: rkeeps_def rready_def)
  ultimately show ?thesis using h(4) by (auto simp: act_def)
qed

definition layer_off :: "int \<Rightarrow> int" where
  "layer_off n = (n - 2) div 2 * 266240"

lemma run_fc:
  assumes r: "rready a" and n: "uint (rcounter a) \<in> {2, 4, 6}" and t: "0 \<le> rtickPerCycle a" "rtickPerCycle a \<le> max_rperiod"
    and ld: "ld \<longleftrightarrow> \<not> load_once a \<or> uint (rcounter a) = 2 \<and> \<not> weight_loaded a"
  shows "\<exists>a' t. RChip_run a = Inr (a', t) \<and> rkeeps a a' t \<and>
     (weight_loaded a' \<longleftrightarrow> weight_loaded a \<or> uint (rcounter a) = 2) \<and>
     (if ld then layer_holds (array a') (hub (rcore a)) (layer_off (uint (rcounter a))) (noise (array a)) else array a' = array a) \<and>
     (\<forall>i. 0 \<le> i \<longrightarrow> i < 1024 \<longrightarrow> floats (hub (rcore a')) (mem 1 0) i = fc_out (array a') (act (hub (rcore a))) i)"
proof -
  let ?h = "hub (rcore a)" and ?c = "rcore a" and ?n = "uint (rcounter a)"
  note s = rready_sp [OF r]
  have tab: "(x, m) \<in> set rview_table \<Longrightarrow> getMemory ?h x = Inr m" for x m by (rule rview_get [OF s(1)])
  note tabs = rview_table_def rparam_table_def rdata_table_def
  have "\<exists>h r'. (if ?n = 2 then op_fc_calculate ?c ''fc1/in'' ''fc1/out|sign1/in'' ''model/fc1/weight'' ''model/bn1/var''
            ''model/bn1/mean'' ''model/bn1/weight'' ''model/bn1/bias'' (array a) ld
         else if ?n = 4 then op_fc_calculate ?c ''sign1/out|fc2/in'' ''fc2/out|sign2/in'' ''model/fc2/weight'' ''model/bn2/var''
            ''model/bn2/mean'' ''model/bn2/weight'' ''model/bn2/bias'' (array a) ld
         else op_fc_calculate ?c ''sign2/out|fc3/in'' ''fc3/out'' ''model/fc3/weight'' ''model/bn3/var''
            ''model/bn3/mean'' ''model/bn3/weight'' ''model/bn3/bias'' (array a) ld)
       = Inr (?c\<lparr>hub := h\<rparr>, r', if ld then 100100 else 100) \<and>
     same_layout ?h h \<and> (\<forall>b. b \<noteq> 1 \<longrightarrow> heap h ! b = heap ?h ! b) \<and> noise r' = noise (array a) \<and>
     (if ld then layer_holds r' ?h (layer_off ?n) (noise (array a)) else r' = array a) \<and>
     (\<forall>i. 0 \<le> i \<longrightarrow> i < 1024 \<longrightarrow> floats h (mem 1 0) i = fc_out r' (act ?h) i)"
  proof -
    consider "?n = 2" | "?n = 4" | "?n = 6" using n by auto
    then show ?thesis
    proof cases
      case 1
      show ?thesis using 1 fc_calculate_ok [OF s(1), of "''fc1/in''" "''fc1/out|sign1/in''" "''model/fc1/weight''" 0
          "''model/bn1/var''" "''model/bn1/mean''" "''model/bn1/weight''" "''model/bn1/bias''" "array a" ld]
        by (simp add: tab tabs layer_off_def split del: if_split cong: if_cong)
    next
      case 2
      show ?thesis using 2 fc_calculate_ok [OF s(1), of "''sign1/out|fc2/in''" "''fc2/out|sign2/in''" "''model/fc2/weight''" 266240
          "''model/bn2/var''" "''model/bn2/mean''" "''model/bn2/weight''" "''model/bn2/bias''" "array a" ld]
        by (simp add: tab tabs layer_off_def split del: if_split cong: if_cong)
    next
      case 3
      show ?thesis using 3 fc_calculate_ok [OF s(1), of "''sign2/out|fc3/in''" "''fc3/out''" "''model/fc3/weight''" 532480
          "''model/bn3/var''" "''model/bn3/mean''" "''model/bn3/weight''" "''model/bn3/bias''" "array a" ld]
        by (simp add: tab tabs layer_off_def split del: if_split cong: if_cong)
    qed
  qed
  then obtain h r' where h: "(if ?n = 2 then op_fc_calculate ?c ''fc1/in'' ''fc1/out|sign1/in'' ''model/fc1/weight'' ''model/bn1/var''
            ''model/bn1/mean'' ''model/bn1/weight'' ''model/bn1/bias'' (array a) ld
         else if ?n = 4 then op_fc_calculate ?c ''sign1/out|fc2/in'' ''fc2/out|sign2/in'' ''model/fc2/weight'' ''model/bn2/var''
            ''model/bn2/mean'' ''model/bn2/weight'' ''model/bn2/bias'' (array a) ld
         else op_fc_calculate ?c ''sign2/out|fc3/in'' ''fc3/out'' ''model/fc3/weight'' ''model/bn3/var''
            ''model/bn3/mean'' ''model/bn3/weight'' ''model/bn3/bias'' (array a) ld)
       = Inr (?c\<lparr>hub := h\<rparr>, r', if ld then 100100 else 100)" "same_layout ?h h" "\<forall>b. b \<noteq> 1 \<longrightarrow> heap h ! b = heap ?h ! b"
     "noise r' = noise (array a)" "if ld then layer_holds r' ?h (layer_off ?n) (noise (array a)) else r' = array a"
     "\<forall>i. 0 \<le> i \<longrightarrow> i < 1024 \<longrightarrow> floats h (mem 1 0) i = fc_out r' (act ?h) i" by blast
  let ?cy = "if ld then 100100 else 100 :: int"
  let ?a = "a\<lparr>rfinished := False, rcore := ?c\<lparr>hub := h\<rparr>, array := r', weight_loaded := weight_loaded a \<or> ?n = 2\<rparr>"
  have m: "int_mul ?cy (rtickPerCycle a) = Inr (?cy * rtickPerCycle a)" using rscaled [OF _ _ t, of ?cy] by simp
  have up: "a\<lparr>rfinished := f, rcore := k, array := x\<rparr> = a\<lparr>rfinished := f, rcore := k, array := x, weight_loaded := weight_loaded a\<rparr>" for f k x
    by simp
  have "RChip_run a = Inr (?a, ?cy * rtickPerCycle a)"
  proof -
    consider "?n = 2" | "?n = 4" | "?n = 6" using n by auto
    then show ?thesis
      by cases (use h(1) ld m up in \<open>simp_all add: RChip_run_def Let_def\<close>)
  qed
  moreover have "rkeeps a ?a (?cy * rtickPerCycle a)"
    using r h(2-4) rfull_map_layout [OF h(2)] n t rscaled [OF _ _ t, of ?cy] by (auto simp: rkeeps_def rready_def)
  ultimately show ?thesis using h(5,6) by (intro exI [of _ ?a] exI [of _ "?cy * rtickPerCycle a"]) simp
qed

lemma run_sign:
  assumes r: "rready a" and n: "uint (rcounter a) \<in> {3, 5}" and t: "0 \<le> rtickPerCycle a" "rtickPerCycle a \<le> max_rperiod"
  shows "\<exists>a' t. RChip_run a = Inr (a', t) \<and> rkeeps a a' t \<and> array a' = array a \<and> weight_loaded a' = weight_loaded a \<and>
     (\<forall>i. 0 \<le> i \<longrightarrow> i < 1024 \<longrightarrow> act (hub (rcore a')) i = sint (sign_byte (floats (hub (rcore a)) (mem 1 0) i)))"
proof -
  let ?c = "rcore a"
  note s = rready_sp [OF r]
  have tab: "(x, m) \<in> set rview_table \<Longrightarrow> getMemory (hub ?c) x = Inr m" for x m by (rule rview_get [OF s(1)])
  note tabs = rview_table_def rparam_table_def rdata_table_def
  let ?i = "if uint (rcounter a) = 3 then ''fc1/out|sign1/in'' else ''fc2/out|sign2/in''"
  let ?o = "if uint (rcounter a) = 3 then ''sign1/out|fc2/in'' else ''sign2/out|fc3/in''"
  have g: "getMemory (hub ?c) ?i = Inr (view 1 0 1024 1 1 1)" "getMemory (hub ?c) ?o = Inr (view 0 0 1024 1 1 1)"
    using tab by (simp_all add: tabs)
  obtain h where h: "op_sign ?c ?i ?o = Inr (?c\<lparr>hub := h\<rparr>, 1)" "same_layout (hub ?c) h"
     "\<forall>b. b \<noteq> 0 \<longrightarrow> heap h ! b = heap (hub ?c) ! b"
     "\<forall>i. 0 \<le> i \<longrightarrow> i < 1024 \<longrightarrow> act h i = sint (sign_byte (floats (hub ?c) (mem 1 0) i))"
    using op_sign_ok [OF s(1) g] by blast
  let ?a = "a\<lparr>rfinished := False, rcore := ?c\<lparr>hub := h\<rparr>\<rparr>"
  have "RChip_run a = Inr (?a, 1 * rtickPerCycle a)"
    using n h(1) rscaled [of 1, OF _ _ t] by (auto simp: RChip_run_def Let_def)
  moreover have "rkeeps a ?a (1 * rtickPerCycle a)"
    using r h(2,3) rfull_map_layout [OF h(2)] n t by (auto simp: rkeeps_def rready_def)
  ultimately show ?thesis using h(4) by (intro exI [of _ ?a] exI [of _ "1 * rtickPerCycle a"]) simp
qed

lemma run_result:
  assumes r: "rready a" and n: "uint (rcounter a) = 7" and t: "0 \<le> rtickPerCycle a" "rtickPerCycle a \<le> max_rperiod"
  shows "\<exists>a' t. RChip_run a = Inr (a', t) \<and> rkeeps a a' t \<and> array a' = array a \<and> weight_loaded a' = weight_loaded a \<and>
     outputIndex (rcore a') = max_element (floats (hub (rcore a)) (mem 1 0) 0) 0 1
       (map (floats (hub (rcore a)) (mem 1 0)) (idx 1 10 1)) \<and>
     loadB (hub (rcore a')) (mem 0 0) 0 = Inr (word_of_int (outputIndex (rcore a')))"
proof -
  let ?c = "rcore a" let ?h = "hub ?c" let ?f = "floats ?h (mem 1 0)"
  note s = rready_sp [OF r]
  have g: "getMemory ?h ''fc3/out'' = Inr (view 1 0 1024 1 1 1)"
    using rview_get [OF s(1)] by (simp add: rview_table_def rdata_table_def)
  define k where "k = max_element (?f 0) 0 1 (map ?f (idx 1 10 1))"
  have ld: "loadF ?h (ptr_add (mem 1 0) i) = Inr (?f i)" if "0 \<le> i" "i < 10" for i
    using floats_load [OF s(3), of i] that by simp
  have "forR (\<lambda>i xs. bindR (loadF ?h (ptr_add (mem 1 0) i)) (\<lambda>v. Inr (xs @ [v]))) (idx 1 10 1) [] = Inr ([] @ map ?f (idx 1 10 1))"
    by (rule forR_loads) (use ld in \<open>auto dest!: idx_set\<close>)
  moreover have "loadF ?h (mem 1 0) = Inr (?f 0)" using ld [of 0] by simp
  ultimately have out: "rop_output ?c ''fc3/out'' = Inr (?c\<lparr>outputIndex := k\<rparr>, 10)"
    using g by (simp add: rop_output_def k_def mem_def)
  obtain h where h: "storeB ?h (mem 0 0) 0 (word_of_int k) = Inr h" "same_layout ?h h"
    using storeB_ok [OF span_byte [OF s(2)], of 0] by auto
  have b: "heap h ! 2 = heap ?h ! 2" using storeB_other [OF h(1)] by simp
  let ?a = "a\<lparr>rfinished := True, rcore := ?c\<lparr>outputIndex := k, hub := h\<rparr>\<rparr>"
  have "RChip_run a = Inr (?a, 10 * rtickPerCycle a)"
    using n out h(1) r rscaled [of 10, OF _ _ t] by (simp add: RChip_run_def Let_def rready_def)
  moreover have "rkeeps a ?a (10 * rtickPerCycle a)"
    using r h(2) b rfull_map_layout [OF h(2)] n t by (simp add: rkeeps_def rready_def)
  moreover have "loadB h (mem 0 0) 0 = Inr (word_of_int k)" using loadB_storeB_base [OF h(1), of 0] by simp
  ultimately show ?thesis
    by (intro exI [of _ ?a] exI [of _ "10 * rtickPerCycle a"]) (simp add: k_def)
qed

end
