(* ===== verification/Rram_Once.thy ===== *)
theory Rram_Once imports Rram_Net begin

text \<open>
  Classifying an image: seven requests compute a three-layer network, and a chip that loads
  one merged weight matrix once computes the same class as one that loads the three
  matrices for every image.
\<close>

section \<open>The network\<close>

definition sgn_out :: "(int \<Rightarrow> f32) \<Rightarrow> int \<Rightarrow> int" where
  "sgn_out f i = sint (sign_byte (f i))"

definition net_out :: "rram \<Rightarrow> rram \<Rightarrow> rram \<Rightarrow> (int \<Rightarrow> int) \<Rightarrow> int \<Rightarrow> f32" where
  "net_out A1 A2 A3 x = fc_out A3 (sgn_out (fc_out A2 (sgn_out (fc_out A1 x))))"

definition class_of :: "(int \<Rightarrow> f32) \<Rightarrow> int" where
  "class_of y = max_element (y 0) 0 1 (map y (idx 1 10 1))"

lemma foldl_term_cong:
  assumes op: "\<And>s z. f32_sum_ok s \<Longrightarrow> f32_sum_ok (op s z)"
      "\<And>s x w. f32_sum_ok s \<Longrightarrow> f32_finite x \<Longrightarrow> f32_is_zero w \<Longrightarrow> op s (f32_mul x w) = s"
    and eq: "\<And>j. j \<in> set js \<Longrightarrow> u j = v j \<and> f32_finite (x j) \<and> f32_finite (y j) \<and> (x j = y j \<or> f32_is_zero (u j))"
    and "f32_sum_ok s"
  shows "foldl (\<lambda>s j. op s (f32_mul (x j) (u j))) s js = foldl (\<lambda>s j. op s (f32_mul (y j) (v j))) s js \<and>
    f32_sum_ok (foldl (\<lambda>s j. op s (f32_mul (x j) (u j))) s js)"
  using eq assms(4)
proof (induction js arbitrary: s)
  case (Cons j js)
  have "op s (f32_mul (x j) (u j)) = op s (f32_mul (y j) (v j))"
    using op(2) [OF Cons.prems(2)] Cons.prems(1) [of j] by auto
  moreover have "foldl (\<lambda>s j. op s (f32_mul (x j) (u j))) (op s (f32_mul (x j) (u j))) js =
      foldl (\<lambda>s j. op s (f32_mul (y j) (v j))) (op s (f32_mul (x j) (u j))) js \<and>
      f32_sum_ok (foldl (\<lambda>s j. op s (f32_mul (x j) (u j))) (op s (f32_mul (x j) (u j))) js)"
    by (rule Cons.IH [OF Cons.prems(1) op(1) [OF Cons.prems(2)]]) simp
  ultimately show ?case unfolding foldl_Cons by metis
qed simp

lemma row_value_cong:
  assumes "\<And>j. 0 \<le> j \<Longrightarrow> j < 1024 \<Longrightarrow> weight_positive r i j = weight_positive s i j \<and>
      weight_negative r i j = weight_negative s i j \<and> \<bar>x j\<bar> < 2 ^ 24 \<and> \<bar>y j\<bar> < 2 ^ 24 \<and>
      (x j = y j \<or> f32_is_zero (weight_positive r i j) \<and> f32_is_zero (weight_negative r i j))"
  shows "row_value r x i = row_value s y i"
proof -
  let ?js = "idx 0 1024 1"
  let ?p = "\<lambda>r x. foldl (\<lambda>v j. f32_add v (f32_mul (f32_of_int (x j)) (weight_positive r i j))) 0 ?js"
  have j: "weight_positive r i j = weight_positive s i j" "weight_negative r i j = weight_negative s i j"
      "f32_finite (f32_of_int (x j))" "f32_finite (f32_of_int (y j))"
      "f32_of_int (x j) = f32_of_int (y j) \<or> f32_is_zero (weight_positive r i j) \<and> f32_is_zero (weight_negative r i j)"
    if "j \<in> set ?js" for j
  proof -
    have b: "0 \<le> j" "j < 1024" using that by (simp_all add: set_idx_1)
    note a = assms [OF b]
    show "weight_positive r i j = weight_positive s i j" "weight_negative r i j = weight_negative s i j"
      using a by blast+
    show "f32_finite (f32_of_int (x j))" "f32_finite (f32_of_int (y j))" using a f32_of_int_finite by blast+
    show "f32_of_int (x j) = f32_of_int (y j) \<or> f32_is_zero (weight_positive r i j) \<and> f32_is_zero (weight_negative r i j)"
      using a by metis
  qed
  have jp: "weight_positive r i j = weight_positive s i j \<and> f32_finite (f32_of_int (x j)) \<and> f32_finite (f32_of_int (y j)) \<and>
      (f32_of_int (x j) = f32_of_int (y j) \<or> f32_is_zero (weight_positive r i j))" if "j \<in> set ?js" for j
    using j [OF that] by blast
  have jn: "weight_negative r i j = weight_negative s i j \<and> f32_finite (f32_of_int (x j)) \<and> f32_finite (f32_of_int (y j)) \<and>
      (f32_of_int (x j) = f32_of_int (y j) \<or> f32_is_zero (weight_negative r i j))" if "j \<in> set ?js" for j
    using j [OF that] by blast
  have 1: "?p r x = ?p s y \<and> f32_sum_ok (?p r x)"
    by (rule foldl_term_cong [OF _ _ jp]) (auto simp: f32_add_sum_ok f32_mac_zero)
  then have ok: "f32_sum_ok (?p r x)" by (rule conjunct2)
  have "foldl (\<lambda>v j. f32_sub v (f32_mul (f32_of_int (x j)) (weight_negative r i j))) (?p r x) ?js =
      foldl (\<lambda>v j. f32_sub v (f32_mul (f32_of_int (y j)) (weight_negative s i j))) (?p r x) ?js \<and>
      f32_sum_ok (foldl (\<lambda>v j. f32_sub v (f32_mul (f32_of_int (x j)) (weight_negative r i j))) (?p r x) ?js)"
    by (rule foldl_term_cong [OF _ _ jn ok]) (auto simp: f32_sub_sum_ok f32_msub_zero)
  then show ?thesis using 1 by (simp add: row_value_def Let_def)
qed

definition same_bn :: "rram \<Rightarrow> rram \<Rightarrow> int \<Rightarrow> bool" where
  "same_bn r s i \<longleftrightarrow> batchnorm_mean r i = batchnorm_mean s i \<and> batchnorm_var r i = batchnorm_var s i \<and>
     batchnorm_weight r i = batchnorm_weight s i \<and> batchnorm_bias r i = batchnorm_bias s i"

lemma fc_out_cong: "row_value r x i = row_value s y i \<Longrightarrow> same_bn r s i \<Longrightarrow> fc_out r x i = fc_out s y i"
  by (simp add: fc_out_def batch_norm_def same_bn_def)

lemma fc_out_same: 
  assumes "\<And>j. 0 \<le> j \<Longrightarrow> j < 1024 \<Longrightarrow> x j = y j"
  shows "fc_out r x i = fc_out r y i"
proof -
  have "foldl f a (idx 0 1024 1) = foldl g a (idx 0 1024 1)"
    if "\<And>j s. 0 \<le> j \<Longrightarrow> j < 1024 \<Longrightarrow> f s j = g s j" for f g :: "f32 \<Rightarrow> int \<Rightarrow> f32" and a
    by (rule foldl_cong) (use that in \<open>auto simp: set_idx_1\<close>)
  from this [of "\<lambda>v j. f32_add v (f32_mul (f32_of_int (x j)) (weight_positive r i j))"
      "\<lambda>v j. f32_add v (f32_mul (f32_of_int (y j)) (weight_positive r i j))"]
    this [of "\<lambda>v j. f32_sub v (f32_mul (f32_of_int (x j)) (weight_negative r i j))"
      "\<lambda>v j. f32_sub v (f32_mul (f32_of_int (y j)) (weight_negative r i j))"] assms
  show ?thesis by (simp add: fc_out_def row_value_def Let_def)
qed

lemma sint_byte_bound: "\<bar>sint (b :: byte)\<bar> < 16777216"
  using sint_range_size [of b] by (simp add: word_size abs_if)

lemma sgn_bound: "\<bar>sgn_out f j\<bar> < 16777216"
  by (simp only: sgn_out_def sint_byte_bound)

section \<open>One merged matrix against three\<close>

text \<open>On the rows of a layer, two arrays hold the same weights and parameters, and weights
  outside the layer's columns are zero.\<close>

definition agree :: "int set \<Rightarrow> int set \<Rightarrow> rram \<Rightarrow> rram \<Rightarrow> bool" where
  "agree R C r s \<longleftrightarrow> (\<forall>i\<in>R. same_bn r s i \<and> (\<forall>j\<in>{0..<1024}.
     weight_positive r i j = weight_positive s i j \<and> weight_negative r i j = weight_negative s i j \<and>
     (j \<notin> C \<longrightarrow> f32_is_zero (weight_positive r i j) \<and> f32_is_zero (weight_negative r i j))))"

lemma agree_fc:
  assumes "agree R C r s" and "i \<in> R" and "\<And>j. j \<in> C \<Longrightarrow> x j = y j"
    and "\<And>j. \<bar>x j\<bar> < 2 ^ 24" "\<And>j. \<bar>y j\<bar> < 2 ^ 24"
  shows "fc_out r x i = fc_out s y i"
proof (rule fc_out_cong)
  show "same_bn r s i" using assms(1,2) by (simp add: agree_def)
  show "row_value r x i = row_value s y i"
  proof (rule row_value_cong)
    fix j :: int assume "0 \<le> j" "j < 1024"
    then have "weight_positive r i j = weight_positive s i j \<and> weight_negative r i j = weight_negative s i j \<and>
        (j \<notin> C \<longrightarrow> f32_is_zero (weight_positive r i j) \<and> f32_is_zero (weight_negative r i j))"
      using assms(1,2) unfolding agree_def by (metis atLeastLessThan_iff)
    then show "weight_positive r i j = weight_positive s i j \<and> weight_negative r i j = weight_negative s i j \<and>
        \<bar>x j\<bar> < 2 ^ 24 \<and> \<bar>y j\<bar> < 2 ^ 24 \<and>
        (x j = y j \<or> f32_is_zero (weight_positive r i j) \<and> f32_is_zero (weight_negative r i j))"
      using assms(3-5) by blast
  qed
qed

lemma net_out_agree:
  assumes "agree {10..<74} {0..<784} A A1" "agree {768..<1024} {10..<74} A A2" "agree {0..<10} {768..<1024} A A3"
    and x: "\<And>j. 0 \<le> j \<Longrightarrow> j < 784 \<Longrightarrow> x j = y j" and b: "\<And>j. \<bar>x j\<bar> < 2 ^ 24" "\<And>j. \<bar>y j\<bar> < 2 ^ 24"
    and i: "0 \<le> i" "i < 10"
  shows "net_out A A A x i = net_out A1 A2 A3 y i"
proof -
  have 1: "fc_out A x k = fc_out A1 y k" if "k \<in> {10..<74}" for k
    by (rule agree_fc [OF assms(1) that]) (use x b in auto)
  have 2: "fc_out A (sgn_out (fc_out A x)) k = fc_out A2 (sgn_out (fc_out A1 y)) k" if "k \<in> {768..<1024}" for k
    by (rule agree_fc [OF assms(2) that]) (use 1 in \<open>auto simp: sgn_bound sgn_out_def [of "fc_out A x"] sgn_out_def [of "fc_out A1 y"] sint_byte_bound\<close>)
  show ?thesis
    unfolding net_out_def
    by (rule agree_fc [OF assms(3)]) (use i 2 in \<open>auto simp: sint_byte_bound sgn_out_def [of "fc_out A (sgn_out (fc_out A x))"]
          sgn_out_def [of "fc_out A2 (sgn_out (fc_out A1 y))"]\<close>)
qed

section \<open>Seven requests\<close>

fun rrun_seq :: "byte list \<Rightarrow> rchip \<Rightarrow> (rchip \<times> int list) res" where
  "rrun_seq [] a = Inr (a, [])"
| "rrun_seq (n # ns) a =
     bindR (RChip_run (a\<lparr>rcounter := n\<rparr>)) (\<lambda>(a', t). bindR (rrun_seq ns a') (\<lambda>(a'', ts). Inr (a'', t # ts)))"

lemma rready_counter [simp]: "rready (a\<lparr>rcounter := n\<rparr>) = rready a"
  by (simp add: rready_def)

lemma layer_holds_keep:
  assumes "same_layout h h'" and "heap h' ! 2 = heap h ! 2"
  shows "layer_holds r h' off ns = layer_holds r h off ns"
  using bytes_keep [OF assms(1), of "mem 2 off"] floats_keep [OF assms(1), of "mem 2 _"] assms(2)
  by (simp add: layer_holds_def)

text \<open>The chip is ready, and if its array is marked as loaded it holds the first layer's
  slot of the weight memory.\<close>

definition rsteady :: "rchip \<Rightarrow> bool" where
  "rsteady a \<longleftrightarrow> rready a \<and> 0 \<le> rtickPerCycle a \<and> rtickPerCycle a \<le> max_rperiod \<and>
     (load_once a \<and> weight_loaded a \<longrightarrow> layer_holds (array a) (hub (rcore a)) 0 (noise (array a)))"

lemma classify:
  assumes "rsteady a"
  shows "\<exists>a' ts A1 A2 A3 x. rrun_seq [1, 2, 3, 4, 5, 6, 7] a = Inr (a', ts) \<and> rsteady a' \<and>
     load_once a' = load_once a \<and> noise (array a') = noise (array a) \<and>
     layer_holds A1 (hub (rcore a)) 0 (noise (array a)) \<and>
     (if load_once a then A2 = A1 \<and> A3 = A1
      else layer_holds A2 (hub (rcore a)) 266240 (noise (array a)) \<and> layer_holds A3 (hub (rcore a)) 532480 (noise (array a))) \<and>
     (\<forall>j. 0 \<le> j \<longrightarrow> j < 784 \<longrightarrow> x j = (if 0 < uint (bytes (hub (rcore a)) (mem 1 0) j) then 1 else 0)) \<and>
     (\<forall>j. \<bar>x j\<bar> < 2 ^ 24) \<and> outputIndex (rcore a') = class_of (net_out A1 A2 A3 x) \<and>
     loadB (hub (rcore a')) (mem 0 0) 0 = Inr (word_of_int (outputIndex (rcore a'))) \<and> rfinished a' \<and>
     same_layout (hub (rcore a)) (hub (rcore a')) \<and> heap (hub (rcore a')) ! 2 = heap (hub (rcore a)) ! 2"
proof -
  let ?ns = "noise (array a)" and ?h = "hub (rcore a)"
  have r0: "rready (a\<lparr>rcounter := 1\<rparr>)" and t: "0 \<le> rtickPerCycle a" "rtickPerCycle a \<le> max_rperiod"
    using assms by (simp_all add: rsteady_def)
  obtain a1 t1 where a1: "RChip_run (a\<lparr>rcounter := 1\<rparr>) = Inr (a1, t1)" "rkeeps (a\<lparr>rcounter := 1\<rparr>) a1 t1"
      "array a1 = array a" "weight_loaded a1 = weight_loaded a"
      "\<forall>i. 0 \<le> i \<longrightarrow> i < 784 \<longrightarrow> act (hub (rcore a1)) i = (if 0 < uint (bytes ?h (mem 1 0) i) then 1 else 0)"
    using run_input [OF r0] t by auto
  note k1 = a1(2) [unfolded rkeeps_def]
  have S1: "same_layout ?h (hub (rcore a1))" using k1 by simp
  have L1: "layer_holds r (hub (rcore a1)) off ns = layer_holds r ?h off ns" for r off ns
    using k1 by (intro layer_holds_keep) auto
  have r1: "rready (a1\<lparr>rcounter := 2\<rparr>)" using k1 by simp
  let ?l2 = "\<not> load_once a \<or> \<not> weight_loaded a"
  obtain a2 t2 where a2: "RChip_run (a1\<lparr>rcounter := 2\<rparr>) = Inr (a2, t2)" "rkeeps (a1\<lparr>rcounter := 2\<rparr>) a2 t2" "weight_loaded a2"
      "if ?l2 then layer_holds (array a2) ?h 0 ?ns else array a2 = array a"
      "\<forall>i. 0 \<le> i \<longrightarrow> i < 1024 \<longrightarrow> floats (hub (rcore a2)) (mem 1 0) i = fc_out (array a2) (act (hub (rcore a1))) i"
    using run_fc [OF r1, of ?l2] t k1 a1(3,4) L1 by (auto simp: layer_off_def split del: if_split cong: if_cong)
  note k2 = a2(2) [unfolded rkeeps_def]
  have S2: "same_layout ?h (hub (rcore a2))" by (rule same_layout_trans [OF S1]) (use k2 in simp)
  have r2: "rready (a2\<lparr>rcounter := 3\<rparr>)" using k2 by simp
  have H2: "layer_holds (array a2) ?h 0 ?ns" using a2(4) assms by (auto simp: rsteady_def split: if_splits)
  obtain a3 t3 where a3: "RChip_run (a2\<lparr>rcounter := 3\<rparr>) = Inr (a3, t3)" "rkeeps (a2\<lparr>rcounter := 3\<rparr>) a3 t3"
      "array a3 = array a2" "weight_loaded a3"
      "\<forall>i. 0 \<le> i \<longrightarrow> i < 1024 \<longrightarrow> act (hub (rcore a3)) i = sint (sign_byte (floats (hub (rcore a2)) (mem 1 0) i))"
    using run_sign [OF r2] t k1 k2 a2(3) by auto
  note k3 = a3(2) [unfolded rkeeps_def]
  have S3: "same_layout ?h (hub (rcore a3))" by (rule same_layout_trans [OF S2]) (use k3 in simp)
  have L3: "layer_holds r (hub (rcore a3)) off ns = layer_holds r ?h off ns" for r off ns
    by (rule layer_holds_keep [OF S3]) (use k1 k2 k3 in simp)
  have r3: "rready (a3\<lparr>rcounter := 4\<rparr>)" using k3 by simp
  obtain a4 t4 where a4: "RChip_run (a3\<lparr>rcounter := 4\<rparr>) = Inr (a4, t4)" "rkeeps (a3\<lparr>rcounter := 4\<rparr>) a4 t4" "weight_loaded a4"
      "if \<not> load_once a then layer_holds (array a4) ?h 266240 ?ns else array a4 = array a2"
      "\<forall>i. 0 \<le> i \<longrightarrow> i < 1024 \<longrightarrow> floats (hub (rcore a4)) (mem 1 0) i = fc_out (array a4) (act (hub (rcore a3))) i"
    using run_fc [OF r3, of "\<not> load_once a"] t k1 k2 k3 a3(3,4) L3
    by (auto simp: layer_off_def a1(3) split del: if_split cong: if_cong)
  note k4 = a4(2) [unfolded rkeeps_def]
  have S4: "same_layout ?h (hub (rcore a4))" by (rule same_layout_trans [OF S3]) (use k4 in simp)
  have r4: "rready (a4\<lparr>rcounter := 5\<rparr>)" using k4 by simp
  obtain a5 t5 where a5: "RChip_run (a4\<lparr>rcounter := 5\<rparr>) = Inr (a5, t5)" "rkeeps (a4\<lparr>rcounter := 5\<rparr>) a5 t5"
      "array a5 = array a4" "weight_loaded a5"
      "\<forall>i. 0 \<le> i \<longrightarrow> i < 1024 \<longrightarrow> act (hub (rcore a5)) i = sint (sign_byte (floats (hub (rcore a4)) (mem 1 0) i))"
    using run_sign [OF r4] t k1 k2 k3 k4 a4(3) by auto
  note k5 = a5(2) [unfolded rkeeps_def]
  have S5: "same_layout ?h (hub (rcore a5))" by (rule same_layout_trans [OF S4]) (use k5 in simp)
  have L5: "layer_holds r (hub (rcore a5)) off ns = layer_holds r ?h off ns" for r off ns
    by (rule layer_holds_keep [OF S5]) (use k1 k2 k3 k4 k5 in simp)
  have r5: "rready (a5\<lparr>rcounter := 6\<rparr>)" using k5 by simp
  obtain a6 t6 where a6: "RChip_run (a5\<lparr>rcounter := 6\<rparr>) = Inr (a6, t6)" "rkeeps (a5\<lparr>rcounter := 6\<rparr>) a6 t6" "weight_loaded a6"
      "if \<not> load_once a then layer_holds (array a6) ?h 532480 ?ns else array a6 = array a4"
      "\<forall>i. 0 \<le> i \<longrightarrow> i < 1024 \<longrightarrow> floats (hub (rcore a6)) (mem 1 0) i = fc_out (array a6) (act (hub (rcore a5))) i"
    using run_fc [OF r5, of "\<not> load_once a"] t k1 k2 k3 k4 k5 a5(3,4) L5
    by (auto simp: layer_off_def a1(3) split del: if_split cong: if_cong)
  note k6 = a6(2) [unfolded rkeeps_def]
  have S6: "same_layout ?h (hub (rcore a6))" by (rule same_layout_trans [OF S5]) (use k6 in simp)
  have r6: "rready (a6\<lparr>rcounter := 7\<rparr>)" using k6 by simp
  obtain a7 t7 where a7: "RChip_run (a6\<lparr>rcounter := 7\<rparr>) = Inr (a7, t7)" "rkeeps (a6\<lparr>rcounter := 7\<rparr>) a7 t7"
      "array a7 = array a6" "weight_loaded a7"
      "outputIndex (rcore a7) = class_of (floats (hub (rcore a6)) (mem 1 0))"
      "loadB (hub (rcore a7)) (mem 0 0) 0 = Inr (word_of_int (outputIndex (rcore a7)))"
    using run_result [OF r6] t k1 k2 k3 k4 k5 k6 a6(3) by (auto simp: class_of_def)
  note k7 = a7(2) [unfolded rkeeps_def]
  have S7: "same_layout ?h (hub (rcore a7))" by (rule same_layout_trans [OF S6]) (use k7 in simp)
  note K = k1 k2 k3 k4 k5 k6 k7
  have run: "rrun_seq [1, 2, 3, 4, 5, 6, 7] a = Inr (a7, [t1, t2, t3, t4, t5, t6, t7])"
    by (simp add: a1(1) a2(1) a3(1) a4(1) a5(1) a6(1) a7(1))
  define x where "x = act (hub (rcore a1))"
  have 4: "act (hub (rcore a3)) j = sgn_out (fc_out (array a2) x) j" if "0 \<le> j" "j < 1024" for j
    using that a3(5) a2(5) by (simp add: sgn_out_def x_def)
  have e4: "fc_out (array a4) (act (hub (rcore a3))) i = fc_out (array a4) (sgn_out (fc_out (array a2) x)) i" for i
    by (rule fc_out_same) (rule 4)
  have 5: "act (hub (rcore a5)) j = sgn_out (fc_out (array a4) (sgn_out (fc_out (array a2) x))) j"
    if "0 \<le> j" "j < 1024" for j
    using that a5(5) a4(5) e4 by (simp add: sgn_out_def [of "fc_out (array a4) _"])
  have e6: "fc_out (array a6) (act (hub (rcore a5))) i =
      fc_out (array a6) (sgn_out (fc_out (array a4) (sgn_out (fc_out (array a2) x)))) i" for i
    by (rule fc_out_same) (rule 5)
  have 6: "floats (hub (rcore a6)) (mem 1 0) i = net_out (array a2) (array a4) (array a6) x i" if "0 \<le> i" "i < 1024" for i
    using that a6(5) e6 by (simp add: net_out_def)
  have out: "outputIndex (rcore a7) = class_of (net_out (array a2) (array a4) (array a6) x)"
    unfolding a7(5) class_of_def using 6 by (auto intro!: arg_cong2 [where f = "\<lambda>u v. max_element u 0 1 v"] simp: set_idx_1)
  have L7: "layer_holds r (hub (rcore a7)) off ns = layer_holds r ?h off ns" for r off ns
    by (rule layer_holds_keep [OF S7]) (use K in simp)
  have "rsteady a7" using K t L7 H2 a4(4) a6(4) a7(3) a1(3) by (auto simp: rsteady_def split: if_splits)
  moreover have "\<forall>j. \<bar>x j\<bar> < 2 ^ 24" by (simp add: x_def act_def sint_byte_bound)
  moreover have "load_once a7 = load_once a" "noise (array a7) = ?ns" "rfinished a7"
      "heap (hub (rcore a7)) ! 2 = heap ?h ! 2" using K a1(3) by simp_all
  ultimately show ?thesis
    using run H2 a4(4) a6(4) a1(5) out a7(6) S7
    by (intro exI [of _ a7] exI [of _ "[t1, t2, t3, t4, t5, t6, t7]"] exI [of _ "array a2"] exI [of _ "array a4"]
        exI [of _ "array a6"] exI [of _ x]) (auto simp: x_def)
qed

section \<open>Once or three times\<close>

text \<open>\<open>part h g off R C\<close>: on the rows \<open>R\<close>, the first layer's slot of \<open>h\<close> holds
  the layer that \<open>g\<close> has at \<open>off\<close>, whose columns are \<open>C\<close>.\<close>

definition part :: "memhub \<Rightarrow> memhub \<Rightarrow> int \<Rightarrow> int set \<Rightarrow> int set \<Rightarrow> bool" where
  "part h g off R C \<longleftrightarrow> (\<forall>i\<in>R.
     (\<forall>j\<in>{0..<1024}. bytes h (mem 2 0) (i * 1024 + j) = bytes g (mem 2 off) (i * 1024 + j) \<and>
        (j \<notin> C \<longrightarrow> bytes h (mem 2 0) (i * 1024 + j) = 0)) \<and>
     (\<forall>k\<in>{262144, 263168, 264192, 265216}. floats h (mem 2 k) i = floats g (mem 2 (off + k)) i))"

definition merged :: "memhub \<Rightarrow> memhub \<Rightarrow> bool" where
  "merged h g \<longleftrightarrow> part h g 0 {10..<74} {0..<784} \<and> part h g 266240 {768..<1024} {10..<74} \<and>
     part h g 532480 {0..<10} {768..<1024}"

definition same_image :: "memhub \<Rightarrow> memhub \<Rightarrow> bool" where
  "same_image h g \<longleftrightarrow> (\<forall>j\<in>{0..<784}. bytes h (mem 1 0) j = bytes g (mem 1 0) j)"

lemma cell_const:
  assumes "cell_ok (\<lambda>_. c) b p n" "cell_ok (\<lambda>_. c) b p' n'"
  shows "p = p' \<and> n = n' \<and> (b = 0 \<longrightarrow> f32_is_zero p \<and> f32_is_zero n)"
  using assms by (auto simp: cell_ok_def f32_is_zero_def split: if_splits)

lemma part_agree:
  assumes p: "part h g off R C" and R: "R \<subseteq> {0..<1024}"
    and r: "layer_holds r h 0 (\<lambda>_. c)" and s: "layer_holds s g off (\<lambda>_. c)"
  shows "agree R C r s"
  unfolding agree_def
proof (intro ballI conjI)
  fix i assume i: "i \<in> R"
  then have iR: "i \<in> {0..<1024}" using R by blast
  have bn: "\<forall>k\<in>{262144, 263168, 264192, 265216}. floats h (mem 2 k) i = floats g (mem 2 (off + k)) i"
    using p i by (simp add: part_def)
  show "same_bn r s i"
    using r s iR bn by (simp add: same_bn_def layer_holds_def holds_def)
  fix j :: int assume j: "j \<in> {0..<1024}"
  have b: "bytes h (mem 2 0) (i * 1024 + j) = bytes g (mem 2 off) (i * 1024 + j)"
      "j \<notin> C \<longrightarrow> bytes h (mem 2 0) (i * 1024 + j) = 0"
    using p i j unfolding part_def by blast+
  have "cell_ok (\<lambda>_. c) (bytes h (mem 2 0) (i * 1024 + j)) (weight_positive r i j) (weight_negative r i j)"
    using r iR j unfolding layer_holds_def holds_def by blast
  moreover have "cell_ok (\<lambda>_. c) (bytes h (mem 2 0) (i * 1024 + j)) (weight_positive s i j) (weight_negative s i j)"
    using s iR j b(1) unfolding layer_holds_def holds_def by metis
  ultimately show "weight_positive r i j = weight_positive s i j" "weight_negative r i j = weight_negative s i j"
      "j \<notin> C \<longrightarrow> f32_is_zero (weight_positive r i j) \<and> f32_is_zero (weight_negative r i j)"
    using cell_const b(2) by blast+
qed

lemma part_keep:
  assumes "same_layout h h'" "heap h' ! 2 = heap h ! 2" "same_layout g g'" "heap g' ! 2 = heap g ! 2"
  shows "part h' g' off R C = part h g off R C"
  using bytes_keep [OF assms(1), of "mem 2 _"] floats_keep [OF assms(1), of "mem 2 _"]
    bytes_keep [OF assms(3), of "mem 2 _"] floats_keep [OF assms(3), of "mem 2 _"] assms(2,4)
  by (simp add: part_def)

lemma class_of_cong: "(\<And>i. 0 \<le> i \<Longrightarrow> i < 10 \<Longrightarrow> y i = z i) \<Longrightarrow> class_of y = class_of z"
  unfolding class_of_def by (auto intro!: arg_cong2 [where f = "\<lambda>u v. max_element u 0 1 v"] simp: set_idx_1)

lemma load_once_classes:
  assumes "rsteady a" "rsteady b" and "load_once a" "\<not> load_once b"
    and "noise (array a) = (\<lambda>_. c)" "noise (array b) = (\<lambda>_. c)"
    and "merged (hub (rcore a)) (hub (rcore b))" and "same_image (hub (rcore a)) (hub (rcore b))"
  shows "\<exists>a' b' ta tb. rrun_seq [1, 2, 3, 4, 5, 6, 7] a = Inr (a', ta) \<and> rrun_seq [1, 2, 3, 4, 5, 6, 7] b = Inr (b', tb) \<and>
     outputIndex (rcore a') = outputIndex (rcore b') \<and>
     loadB (hub (rcore a')) (mem 0 0) 0 = loadB (hub (rcore b')) (mem 0 0) 0 \<and> rfinished a' \<and> rfinished b' \<and>
     rsteady a' \<and> rsteady b' \<and> load_once a' \<and> \<not> load_once b' \<and> merged (hub (rcore a')) (hub (rcore b')) \<and>
     noise (array a') = (\<lambda>_. c) \<and> noise (array b') = (\<lambda>_. c)"
proof -
  let ?h = "hub (rcore a)" and ?g = "hub (rcore b)"
  obtain a' ta A x where a: "rrun_seq [1, 2, 3, 4, 5, 6, 7] a = Inr (a', ta)" "rsteady a'" "load_once a'"
      "layer_holds A ?h 0 (\<lambda>_. c)" "\<forall>j. 0 \<le> j \<longrightarrow> j < 784 \<longrightarrow> x j = (if 0 < uint (bytes ?h (mem 1 0) j) then 1 else 0)"
      "\<forall>j. \<bar>x j\<bar> < 2 ^ 24" "outputIndex (rcore a') = class_of (net_out A A A x)"
      "loadB (hub (rcore a')) (mem 0 0) 0 = Inr (word_of_int (outputIndex (rcore a')))" "rfinished a'"
      "same_layout ?h (hub (rcore a'))" "heap (hub (rcore a')) ! 2 = heap ?h ! 2" "noise (array a') = (\<lambda>_. c)"
    using classify [OF assms(1)] assms(3,5) by auto
  obtain b' tb A1 A2 A3 y where b: "rrun_seq [1, 2, 3, 4, 5, 6, 7] b = Inr (b', tb)" "rsteady b'" "\<not> load_once b'"
      "layer_holds A1 ?g 0 (\<lambda>_. c)" "layer_holds A2 ?g 266240 (\<lambda>_. c)" "layer_holds A3 ?g 532480 (\<lambda>_. c)"
      "\<forall>j. 0 \<le> j \<longrightarrow> j < 784 \<longrightarrow> y j = (if 0 < uint (bytes ?g (mem 1 0) j) then 1 else 0)"
      "\<forall>j. \<bar>y j\<bar> < 2 ^ 24" "outputIndex (rcore b') = class_of (net_out A1 A2 A3 y)"
      "loadB (hub (rcore b')) (mem 0 0) 0 = Inr (word_of_int (outputIndex (rcore b')))" "rfinished b'"
      "same_layout ?g (hub (rcore b'))" "heap (hub (rcore b')) ! 2 = heap ?g ! 2" "noise (array b') = (\<lambda>_. c)"
    using classify [OF assms(2)] assms(4,6) by auto
  have xy: "x j = y j" if "0 \<le> j" "j < 784" for j
    using that a(5) b(7) assms(8) by (simp add: same_image_def)
  have "agree {10..<74} {0..<784} A A1" "agree {768..<1024} {10..<74} A A2" "agree {0..<10} {768..<1024} A A3"
    using assms(7) a(4) b(4-6) unfolding merged_def by (auto intro!: part_agree)
  then have "net_out A A A x i = net_out A1 A2 A3 y i" if "0 \<le> i" "i < 10" for i
    by (rule net_out_agree) (use xy a(6) b(8) that in blast)+
  then have "class_of (net_out A A A x) = class_of (net_out A1 A2 A3 y)" by (rule class_of_cong)
  moreover have "merged (hub (rcore a')) (hub (rcore b'))"
    using assms(7) part_keep [OF a(10,11) b(12,13)] by (simp add: merged_def)
  ultimately show ?thesis using a b by auto
qed

text \<open>C2: with the same device noise in every cell, a chip whose array is loaded once from
  one matrix that holds the three layers in disjoint rows and columns classifies every image
  as the chip that loads the three layers for each image: both finish, with the same class
  in their result byte, and both are ready for the next image with their weights as they
  were.\<close>

theorem load_once_equiv:
  assumes "rsteady a" "rsteady b" and "load_once a" "\<not> load_once b"
    and "noise (array a) = (\<lambda>_. c)" "noise (array b) = (\<lambda>_. c)"
    and "merged (hub (rcore a)) (hub (rcore b))" and "same_image (hub (rcore a)) (hub (rcore b))"
  shows "\<exists>a' b' ta tb. rrun_seq [1, 2, 3, 4, 5, 6, 7] a = Inr (a', ta) \<and> rrun_seq [1, 2, 3, 4, 5, 6, 7] b = Inr (b', tb) \<and>
     outputIndex (rcore a') = outputIndex (rcore b') \<and>
     loadB (hub (rcore a')) (mem 0 0) 0 = loadB (hub (rcore b')) (mem 0 0) 0 \<and> rfinished a' \<and> rfinished b' \<and>
     rsteady a' \<and> rsteady b' \<and> load_once a' \<and> \<not> load_once b' \<and> merged (hub (rcore a')) (hub (rcore b'))"
  using load_once_classes [OF assms] by blast

end
