(* ===== verification/Host_Weights.thy ===== *)
theory Host_Weights imports Host_Run Rram_Once begin

text \<open>
  What the host program's files become: the arrays that \<open>load_weights\<close> fills, and the
  weight memory after the arrays have been written, in which the merged matrix agrees with the
  three separate ones.
\<close>

section \<open>Reading and merging\<close>

definition cells :: "int \<Rightarrow> int \<Rightarrow> int \<Rightarrow> int \<Rightarrow> (int \<times> int) list" where
  "cells r nr c nc = List.product (idx r (r + nr) 1) (idx c (c + nc) 1)"

lemma fold_product: "fold (\<lambda>i. fold (g i) js) is st = fold (\<lambda>(i, j). g i j) (List.product is js) st"
proof (induction "is" arbitrary: st)
  case (Cons i "is")
  have "fold (\<lambda>(i, j). g i j) (map (Pair i) js) st = fold (g i) js st" for st by (induction js arbitrary: st) simp_all
  then show ?case using Cons by simp
qed simp

lemma set_cells: "(i, j) \<in> set (cells r nr c nc) \<longleftrightarrow> r \<le> i \<and> i < r + nr \<and> c \<le> j \<and> j < c + nc"
  by (auto simp: cells_def set_idx_1)

lemma distinct_cells: "distinct (cells r nr c nc)"
  by (simp add: cells_def distinct_product distinct_idx)

lemma upd_matrix_apply: "upd_matrix f i j v a b = (if a = i \<and> b = j then v else f a b)"
  by (simp add: upd_matrix_def)

text \<open>The scan stores the values of the file in the cells in order, and stops at its end.\<close>

lemma scan_cells:
  assumes "distinct ps" and "fold (\<lambda>(i, j). scan_cell i j) ps (vs, f) = (vs', f')"
  shows "(\<forall>k < length ps. f' (fst (ps ! k)) (snd (ps ! k)) = (if k < length vs then vs ! k else f (fst (ps ! k)) (snd (ps ! k)))) \<and>
     (\<forall>i j. (i, j) \<notin> set ps \<longrightarrow> f' i j = f i j)"
  using assms
proof (induction ps arbitrary: vs f)
  case (Cons p ps)
  obtain i j where p: "p = (i, j)" by (cases p)
  define vs1 f1 where "vs1 = (case vs of [] \<Rightarrow> [] | v # r \<Rightarrow> r)" "f1 = (case vs of [] \<Rightarrow> f | v # r \<Rightarrow> upd_matrix f i j v)"
  have "scan_cell i j (vs, f) = (vs1, f1)" by (simp add: scan_cell_def vs1_f1_def split: list.split)
  then have "fold (\<lambda>(i, j). scan_cell i j) ps (vs1, f1) = (vs', f')" using Cons.prems(2) p by simp
  then have ih: "\<forall>k < length ps. f' (fst (ps ! k)) (snd (ps ! k)) = (if k < length vs1 then vs1 ! k else f1 (fst (ps ! k)) (snd (ps ! k)))"
      "\<forall>a b. (a, b) \<notin> set ps \<longrightarrow> f' a b = f1 a b"
    using Cons.IH [of vs1 f1] Cons.prems(1) by auto
  have n: "(i, j) \<notin> set ps" using Cons.prems(1) p by simp
  have f1: "f1 a b = (if vs \<noteq> [] \<and> (a, b) = (i, j) then hd vs else f a b)" for a b
    by (auto simp: vs1_f1_def upd_matrix_apply split: list.split)
  have o: "(fst (ps ! k), snd (ps ! k)) \<noteq> (i, j)" if "k < length ps" for k
    using n nth_mem [OF that] by auto
  have "f' (fst ((p # ps) ! k)) (snd ((p # ps) ! k)) =
      (if k < length vs then vs ! k else f (fst ((p # ps) ! k)) (snd ((p # ps) ! k)))" if "k < length (p # ps)" for k
  proof (cases k)
    case 0
    then show ?thesis using ih(2) n f1 p by (cases vs) auto
  next
    case (Suc m)
    then have "f' (fst (ps ! m)) (snd (ps ! m)) = (if m < length vs1 then vs1 ! m else f1 (fst (ps ! m)) (snd (ps ! m)))"
      using ih(1) that by simp
    then show ?thesis using Suc f1 o [of m] that by (cases vs) (auto simp: vs1_f1_def)
  qed
  then show ?case using ih(2) f1 p by auto
qed simp

lemma read_fc_ok:
  assumes "read_fc fs name r nr c nc f = Inr f'"
  shows "\<exists>vs. int_file fs name = Some vs \<and>
     (\<forall>k < length (cells r nr c nc). f' (fst (cells r nr c nc ! k)) (snd (cells r nr c nc ! k)) =
        (if k < length vs then vs ! k else f (fst (cells r nr c nc ! k)) (snd (cells r nr c nc ! k)))) \<and>
     (\<forall>i j. \<not> (r \<le> i \<and> i < r + nr \<and> c \<le> j \<and> j < c + nc) \<longrightarrow> f' i j = f i j)"
proof -
  obtain vs where vs: "int_file fs name = Some vs"
      "f' = snd (fold (\<lambda>i. fold (scan_cell i) (idx c (c + nc) 1)) (idx r (r + nr) 1) (vs, f))"
    using assms by (auto simp: read_fc_def fopen_def split: option.splits)
  obtain vs' where "fold (\<lambda>(i, j). scan_cell i j) (cells r nr c nc) (vs, f) = (vs', f')"
    using vs(2) unfolding fold_product cells_def [symmetric] by (metis prod.collapse)
  then show ?thesis using scan_cells [OF distinct_cells, of r nr c nc vs f] vs(1) by (simp add: set_cells)
qed

lemma copy_fc_apply:
  "copy_fc r nr c nc src dst i j = (if r \<le> i \<and> i < r + nr \<and> c \<le> j \<and> j < c + nc then src i j else dst i j)"
proof -
  have "fold (\<lambda>(i, j) f. upd_matrix f i j (src i j)) ps dst i j = (if (i, j) \<in> set ps then src i j else dst i j)" for ps
    by (induction ps arbitrary: dst) (auto simp: upd_matrix_apply split: if_splits)
  from this [of "cells r nr c nc"] show ?thesis
    unfolding copy_fc_def fold_product cells_def [symmetric] by (simp add: set_cells)
qed

lemma copy_bn_apply:
  "fc_wt (copy_bn r nr src dst) = fc_wt dst"
  "bn_b (copy_bn r nr src dst) i = (if r \<le> i \<and> i < r + nr then bn_b src i else bn_b dst i)"
  "bn_w (copy_bn r nr src dst) i = (if r \<le> i \<and> i < r + nr then bn_w src i else bn_w dst i)"
  "bn_var (copy_bn r nr src dst) i = (if r \<le> i \<and> i < r + nr then bn_var src i else bn_var dst i)"
  "bn_mean (copy_bn r nr src dst) i = (if r \<le> i \<and> i < r + nr then bn_mean src i else bn_mean dst i)"
proof -
  let ?g = "\<lambda>i d. d\<lparr>bn_b := (bn_b d)(i := bn_b src i), bn_w := (bn_w d)(i := bn_w src i),
                  bn_var := (bn_var d)(i := bn_var src i), bn_mean := (bn_mean d)(i := bn_mean src i)\<rparr>"
  have "fc_wt (fold ?g is dst) = fc_wt dst \<and> bn_b (fold ?g is dst) i = (if i \<in> set is then bn_b src i else bn_b dst i) \<and>
     bn_w (fold ?g is dst) i = (if i \<in> set is then bn_w src i else bn_w dst i) \<and>
     bn_var (fold ?g is dst) i = (if i \<in> set is then bn_var src i else bn_var dst i) \<and>
     bn_mean (fold ?g is dst) i = (if i \<in> set is then bn_mean src i else bn_mean dst i)" for "is"
    by (induction "is" arbitrary: dst) auto
  from this [of "idx r (r + nr) 1"]
  show "fc_wt (copy_bn r nr src dst) = fc_wt dst"
    "bn_b (copy_bn r nr src dst) i = (if r \<le> i \<and> i < r + nr then bn_b src i else bn_b dst i)"
    "bn_w (copy_bn r nr src dst) i = (if r \<le> i \<and> i < r + nr then bn_w src i else bn_w dst i)"
    "bn_var (copy_bn r nr src dst) i = (if r \<le> i \<and> i < r + nr then bn_var src i else bn_var dst i)"
    "bn_mean (copy_bn r nr src dst) i = (if r \<le> i \<and> i < r + nr then bn_mean src i else bn_mean dst i)"
    by (simp_all add: copy_bn_def set_idx_1)
qed

text \<open>Two layers agree on the rows \<open>R\<close>, and outside the columns \<open>C\<close> their weights are zero.\<close>

definition rows_agree :: "int set \<Rightarrow> int set \<Rightarrow> layer \<Rightarrow> layer \<Rightarrow> bool" where
  "rows_agree R C l m \<longleftrightarrow> (\<forall>i\<in>R. bn_b l i = bn_b m i \<and> bn_w l i = bn_w m i \<and> bn_var l i = bn_var m i \<and> bn_mean l i = bn_mean m i \<and>
     (\<forall>j. fc_wt l i j = fc_wt m i j \<and> (j \<notin> C \<longrightarrow> fc_wt l i j = 0)))"

definition merged_weights :: "weights \<Rightarrow> bool" where
  "merged_weights w \<longleftrightarrow> rows_agree {10..<74} {0..<784} (overall w) (layer1 w) \<and>
     rows_agree {768..<1024} {10..<74} (overall w) (layer2 w) \<and> rows_agree {0..<10} {768..<1024} (overall w) (layer3 w)"

lemma read_bns_fc: "read_bns fs b w v m r nr l = Inr l' \<Longrightarrow> fc_wt l' = fc_wt l"
  by (auto simp: read_bns_def bindR_eq_Inr)

lemma load_weights_blocks:
  assumes "load_weights fs zero_weights = Inr w"
  shows "\<exists>v. w = merge_weights v \<and> overall v = zero_layer \<and>
     read_fc fs ''data/fc1_weight.txt'' 10 64 0 784 (\<lambda>i j. 0) = Inr (fc_wt (layer1 v)) \<and>
     read_fc fs ''data/fc2_weight.txt'' 768 256 10 64 (\<lambda>i j. 0) = Inr (fc_wt (layer2 v)) \<and>
     read_fc fs ''data/fc3_weight.txt'' 0 10 768 256 (\<lambda>i j. 0) = Inr (fc_wt (layer3 v))"
  using assms
  by (auto simp: load_weights_def read_weights_def bindR_eq_Inr zero_weights_def zero_layer_def dest!: read_bns_fc)

lemma load_weights_merged:
  assumes "load_weights fs zero_weights = Inr w"
  shows "merged_weights w"
proof -
  obtain v where v: "w = merge_weights v" "overall v = zero_layer"
     "read_fc fs ''data/fc1_weight.txt'' 10 64 0 784 (\<lambda>i j. 0) = Inr (fc_wt (layer1 v))"
     "read_fc fs ''data/fc2_weight.txt'' 768 256 10 64 (\<lambda>i j. 0) = Inr (fc_wt (layer2 v))"
     "read_fc fs ''data/fc3_weight.txt'' 0 10 768 256 (\<lambda>i j. 0) = Inr (fc_wt (layer3 v))"
    using load_weights_blocks [OF assms] by blast
  have z: "\<forall>i j. \<not> (10 \<le> i \<and> i < 74 \<and> 0 \<le> j \<and> j < 784) \<longrightarrow> fc_wt (layer1 v) i j = 0"
     "\<forall>i j. \<not> (768 \<le> i \<and> i < 1024 \<and> 10 \<le> j \<and> j < 74) \<longrightarrow> fc_wt (layer2 v) i j = 0"
     "\<forall>i j. \<not> (0 \<le> i \<and> i < 10 \<and> 768 \<le> j \<and> j < 1024) \<longrightarrow> fc_wt (layer3 v) i j = 0"
    using read_fc_ok [OF v(3)] read_fc_ok [OF v(4)] read_fc_ok [OF v(5)] by auto
  show ?thesis
    using z unfolding v(1) merged_weights_def rows_agree_def
    by (auto simp: merge_weights_def Let_def copy_bn_apply copy_fc_apply v(2) zero_layer_def)
qed

section \<open>The weight memory\<close>

definition layers_in :: "memhub \<Rightarrow> layer list \<Rightarrow> bool" where
  "layers_in h ls \<longleftrightarrow> (\<forall>k < 1064960 * length ls. bytes h (mem 2 0) (int k) = concat (map layer_bytes ls) ! k)"

lemma nth_layers:
  "n < length ls \<Longrightarrow> k < 1064960 \<Longrightarrow> concat (map layer_bytes ls) ! (1064960 * n + k) = layer_bytes (ls ! n) ! k"
proof (induction ls arbitrary: n)
  case (Cons l ls)
  show ?case
  proof (cases n)
    case 0
    then show ?thesis using Cons.prems by (simp add: nth_append)
  next
    case (Suc m)
    then have "1064960 * n + k = length (layer_bytes l) + (1064960 * m + k)" by simp
    then have "concat (map layer_bytes (l # ls)) ! (1064960 * n + k) = concat (map layer_bytes ls) ! (1064960 * m + k)"
      by (simp only: list.map concat.simps nth_append_length_plus)
    then show ?thesis using Cons.IH [of m] Cons.prems Suc by simp
  qed
qed simp

lemma bytes_shift: "bytes h (mem 2 off) k = bytes h (mem 2 0) (4 * off + k)"
proof -
  have "(4 * off + k) div 4 = off + k div 4" "(4 * off + k) mod 4 = k mod 4" by (simp_all add: add.commute)
  then have "loadB h (mem 2 off) k = loadB h (mem 2 0) (4 * off + k)"
    by (simp only: loadB_def) (simp add: ptr_add_def mem_def)
  then show ?thesis by (simp only: bytes_def)
qed

lemma byte_of_inj:
  fixes x y :: f32
  assumes "\<And>c. c < 4 \<Longrightarrow> byte_of x c = byte_of y c"
  shows "x = y"
proof (rule bit_word_eqI)
  fix n assume n: "n < LENGTH(32)"
  have b: "bit z n = bit (byte_of z (n div 8)) (n mod 8)" for z :: f32
    using n by (simp add: byte_of_def bit_simps)
  have "n div 8 < 4" using n by (simp add: less_mult_imp_div_less)
  then show "bit x n = bit y n" using b [of x] b [of y] assms by simp
qed

lemma byte_of_floats:
  assumes "span h p n" "0 \<le> i" "i < n" "c < 4"
  shows "byte_of (floats h p i) c = bytes h p (4 * i + int c)"
proof -
  have "(4 * i + int c) div 4 = i" "(4 * i + int c) mod 4 = int c" using assms(4) by simp_all
  then show ?thesis using floats_load [OF assms(1-3)] by (simp add: bytes_def loadB_def)
qed

lemma floats_from_bytes:
  assumes "span h p 1024" "0 \<le> i" "i < 1024"
    and "\<And>k. k < 4096 \<Longrightarrow> bytes h p (int k) = vector_bytes v ! k"
  shows "floats h p i = v i"
proof (rule byte_of_inj)
  fix c :: nat assume c: "c < 4"
  have k: "4 * nat i + c < 4096" "int (4 * nat i + c) = 4 * i + int c" using assms(2,3) c by auto
  have "(4 * nat i + c) div 4 = nat i" "(4 * nat i + c) mod 4 = c" using c by simp_all
  then have "vector_bytes v ! (4 * nat i + c) = byte_of (v i) c"
    using k(1) assms(2) by (simp add: vector_bytes_def)
  then show "byte_of (floats h p i) c = byte_of (v i) c"
    using byte_of_floats [OF assms(1-3) c] assms(4) [OF k(1)] k(2) by simp
qed

text \<open>The slots of layer \<open>n\<close>.\<close>

lemma layer_slots:
  assumes l: "layers_in h ls" and n: "n < length ls" and k: "k < 1064960"
  shows "bytes h (mem 2 (266240 * int n)) (int k) = layer_bytes (ls ! n) ! k"
proof -
  have "1064960 * Suc n \<le> 1064960 * length ls" using n by (intro mult_le_mono2) simp
  then have "1064960 * n + k < 1064960 * length ls" using k by simp
  then have "bytes h (mem 2 0) (int (1064960 * n + k)) = concat (map layer_bytes ls) ! (1064960 * n + k)"
    using l by (simp only: layers_in_def)
  then have "bytes h (mem 2 0) (int (1064960 * n + k)) = layer_bytes (ls ! n) ! k"
    by (simp only: nth_layers [OF n k])
  then show ?thesis using bytes_shift [of h "266240 * int n" "int k"] by simp
qed

lemma layer_weight:
  assumes "layers_in h ls" "n < length ls" "0 \<le> i" "i < 1024" "0 \<le> j" "j < 1024"
  shows "bytes h (mem 2 (266240 * int n)) (i * 1024 + j) = fc_wt (ls ! n) i j"
proof -
  let ?k = "nat i * 1024 + nat j"
  have k: "?k < 1048576" "int ?k = i * 1024 + j" using assms(3-6) by auto
  have "?k div 1024 = nat i" "?k mod 1024 = nat j" using assms(5,6) by simp_all
  then have "matrix_bytes (fc_wt (ls ! n)) ! ?k = fc_wt (ls ! n) i j" using k(1) assms(3,5) by (simp add: matrix_bytes_def)
  moreover have "layer_bytes (ls ! n) ! ?k = matrix_bytes (fc_wt (ls ! n)) ! ?k"
    unfolding layer_bytes_def by (rule nth_append_left) (simp only: length_bytes k(1))
  ultimately show ?thesis using layer_slots [OF assms(1,2), of ?k] k by simp
qed

lemma layer_params:
  assumes l: "layers_in h ls" "n < length ls" "n < 3" and i: "0 \<le> i" "i < 1024" and b: "map blen (heap h) = [1024, 1024, 802816]"
  shows "floats h (mem 2 (266240 * int n + 262144)) i = bn_b (ls ! n) i"
    "floats h (mem 2 (266240 * int n + 263168)) i = bn_w (ls ! n) i"
    "floats h (mem 2 (266240 * int n + 264192)) i = bn_var (ls ! n) i"
    "floats h (mem 2 (266240 * int n + 265216)) i = bn_mean (ls ! n) i"
proof -
  let ?l = "ls ! n"
  have sp: "span h (mem 2 (266240 * int n + off)) 1024" if "0 \<le> off" "off \<le> 265216" for off
    by (rule rbase_spans(3) [OF b]) (use that l(3) in auto)
  have slot: "bytes h (mem 2 (266240 * int n + off)) (int k) = layer_bytes ?l ! (4 * nat off + k)"
    if "k < 4096" "0 \<le> off" "off \<le> 265216" for off k
  proof -
    have "4 * nat off + k < 1064960" "int (4 * nat off + k) = 4 * off + int k" using that by auto
    then show ?thesis
      using layer_slots [OF l(1,2), of "4 * nat off + k"] bytes_shift [of h "266240 * int n + off" "int k"]
        bytes_shift [of h "266240 * int n" "4 * off + int k"] by (simp add: algebra_simps)
  qed
  let ?m = "matrix_bytes (fc_wt ?l)" and ?b = "vector_bytes (bn_b ?l)" and ?w = "vector_bytes (bn_w ?l)"
    and ?v = "vector_bytes (bn_var ?l)" and ?n = "vector_bytes (bn_mean ?l)"
  have split: "layer_bytes ?l ! (4 * nat 262144 + k) = ?b ! k" "layer_bytes ?l ! (4 * nat 263168 + k) = ?w ! k"
     "layer_bytes ?l ! (4 * nat 264192 + k) = ?v ! k" "layer_bytes ?l ! (4 * nat 265216 + k) = ?n ! k" if "k < 4096" for k
    using that by (simp_all add: layer_bytes_def nth_append)
  have param: "floats h (mem 2 (266240 * int n + off)) i = v i"
    if "0 \<le> off" "off \<le> 265216" "\<And>k. k < 4096 \<Longrightarrow> layer_bytes ?l ! (4 * nat off + k) = vector_bytes v ! k" for off v
    by (rule floats_from_bytes [OF sp [OF that(1,2)] i]) (simp only: slot that)
  show "floats h (mem 2 (266240 * int n + 262144)) i = bn_b ?l i" by (rule param [OF _ _ split(1)]) simp_all
  show "floats h (mem 2 (266240 * int n + 263168)) i = bn_w ?l i" by (rule param [OF _ _ split(2)]) simp_all
  show "floats h (mem 2 (266240 * int n + 264192)) i = bn_var ?l i" by (rule param [OF _ _ split(3)]) simp_all
  show "floats h (mem 2 (266240 * int n + 265216)) i = bn_mean ?l i" by (rule param [OF _ _ split(4)]) simp_all
qed

lemma rows_part:
  assumes a: "rows_agree R C l m" and R: "R \<subseteq> {0..<1024}"
    and h: "layers_in h [l]" "map blen (heap h) = [1024, 1024, 802816]"
    and g: "layers_in g ls" "n < length ls" "n < 3" "ls ! n = m" "map blen (heap g) = [1024, 1024, 802816]"
  shows "part h g (266240 * int n) R C"
  unfolding part_def
proof (intro ballI conjI impI)
  fix i assume i: "i \<in> R"
  then have ib: "0 \<le> i" "i < 1024" using R by auto
  note A = a [unfolded rows_agree_def, rule_format, OF i]
  fix j :: int assume j: "j \<in> {0..<1024}"
  have w: "bytes h (mem 2 0) (i * 1024 + j) = fc_wt l i j" using layer_weight [OF h(1), of 0 i j] ib j by simp
  show "bytes h (mem 2 0) (i * 1024 + j) = bytes g (mem 2 (266240 * int n)) (i * 1024 + j)"
    using w layer_weight [OF g(1,2) ib, of j] g(4) A j by simp
  show "bytes h (mem 2 0) (i * 1024 + j) = 0" if "j \<notin> C" unfolding w using A that by blast
next
  fix i k assume i: "i \<in> R" and k: "k \<in> {262144, 263168, 264192, 265216 :: int}"
  then have ib: "0 \<le> i" "i < 1024" using R by auto
  note A = a [unfolded rows_agree_def, rule_format, OF i]
  show "floats h (mem 2 k) i = floats g (mem 2 (266240 * int n + k)) i"
    using layer_params [OF h(1) _ _ ib h(2), of 0] layer_params [OF g(1,2,3) ib g(5)] g(4) A k by auto
qed

lemma weights_merged:
  assumes w: "merged_weights w" and h: "layers_in h (layers_sent True w)" "map blen (heap h) = [1024, 1024, 802816]"
    and g: "layers_in g (layers_sent False w)" "map blen (heap g) = [1024, 1024, 802816]"
  shows "merged h g"
proof -
  have h1: "layers_in h [overall w]" using h(1) by (simp add: layers_sent_def)
  have g1: "layers_in g [layer1 w, layer2 w, layer3 w]" using g(1) by (simp add: layers_sent_def)
  note M = w [unfolded merged_weights_def]
  have "part h g 0 {10..<74} {0..<784}"
    using rows_part [OF _ _ h1 h(2) g1, of "{10..<74}" "{0..<784}" "layer1 w" 0] M g(2) by auto
  moreover have "part h g 266240 {768..<1024} {10..<74}"
    using rows_part [OF _ _ h1 h(2) g1, of "{768..<1024}" "{10..<74}" "layer2 w" 1] M g(2) by auto
  moreover have "part h g 532480 {0..<10} {768..<1024}"
    using rows_part [OF _ _ h1 h(2) g1, of "{0..<10}" "{768..<1024}" "layer3 w" 2] M g(2) by auto
  ultimately show ?thesis by (simp add: merged_def)
qed

end
