(* ===== verification/Rram_Safe.thy ===== *)
theory Rram_Safe imports Rram_Once begin

text \<open>
  The RRAM chip under any sequence of requests, and the initialised chips on which the
  equivalence of the two loading modes is exercised.
\<close>

section \<open>Construction and initialisation\<close>

lemma rchip_new:
  "\<exists>a. RChip_new j1 j2 j3 arr once = Inr a \<and> rbase_map (hub (rcore a)) \<and>
     heap (hub (rcore a)) = [\<lparr>blen = 1024, bdat = j1\<rparr>, \<lparr>blen = 1024, bdat = j2\<rparr>, \<lparr>blen = 802816, bdat = j3\<rparr>] \<and>
     (\<forall>(n, m)\<in>set rview_table. memories (hub (rcore a)) n = None) \<and> rcounter a = 0 \<and> array a = arr \<and>
     load_once a = once \<and> \<not> weight_loaded a \<and> rmem1 a = mem 0 0 \<and> rmem2 a = mem 1 0 \<and> rmem3 a = mem 2 0"
  by (simp add: RChip_new_def addMemory_def Let_def getMemory_def rbase_map_def rview_table_def rparam_table_def
      rdata_table_def numeral_2_eq_2 mem_def Memory_new_def)

definition rrun_ok :: "rchip \<Rightarrow> bool" where
  "rrun_ok a \<longleftrightarrow> (\<exists>a' t. RChip_run a = Inr (a', t) \<and> rready a' \<and> rtickPerCycle a' = rtickPerCycle a \<and>
     (rfinished a' \<longleftrightarrow> uint (rcounter a) = 7) \<and> 0 \<le> t \<and> t \<le> 100100 * rtickPerCycle a)"

lemma rrun_init:
  assumes "rbase_map (hub (rcore a))" and "rcounter a = 0" and t: "0 \<le> rtickPerCycle a" "rtickPerCycle a \<le> max_rperiod"
    and "\<forall>(n, m)\<in>set rview_table. memories (hub (rcore a)) n = None \<or> memories (hub (rcore a)) n = Some m"
    and "rmem1 a = mem 0 0" "rmem2 a = mem 1 0" "rmem3 a = mem 2 0"
  shows "\<exists>h. RChip_run a = Inr (a\<lparr>rfinished := False, rcore := (rcore a)\<lparr>hub := h\<rparr>\<rparr>, rtickPerCycle a) \<and> rfull_map h \<and>
     heap h = heap (hub (rcore a))"
proof -
  obtain h where h: "rop_init (rcore a) = Inr ((rcore a)\<lparr>hub := h\<rparr>, 1)" "rfull_map h" "heap h = heap (hub (rcore a))"
    using rop_init_map [OF assms(1,5)] by blast
  then show ?thesis
    using assms rscaled [of 1 "rtickPerCycle a"] by (intro exI [of _ h]) (simp add: RChip_run_def Let_def)
qed

lemma rkeeps_ok: "RChip_run a = Inr (a', t) \<Longrightarrow> rkeeps a a' t \<Longrightarrow> rrun_ok a"
  by (auto simp: rrun_ok_def rkeeps_def)

lemma upto_7:
  fixes n :: int
  assumes "0 \<le> n"
  shows "n = 0 \<or> n = 1 \<or> n \<in> {2, 4, 6} \<or> n \<in> {3, 5} \<or> n = 7 \<or> 7 < n"
  using assms by simp presburger

lemma rrun_ready:
  assumes r: "rready a" and t: "0 \<le> rtickPerCycle a" "rtickPerCycle a \<le> max_rperiod"
  shows "rrun_ok a"
proof -
  let ?n = "uint (rcounter a)"
  have "0 \<le> ?n" by simp
  then consider "?n = 0" | "?n = 1" | "?n \<in> {2, 4, 6}" | "?n \<in> {3, 5}" | "?n = 7" | "7 < ?n"
    using upto_7 by metis
  then show ?thesis
  proof cases
    case 1
    have i: "rop_init (rcore a) = Inr (rcore a, 1)" by (rule rop_init_again) (use r in \<open>simp add: rready_def\<close>)
    then have "RChip_run a = Inr (a\<lparr>rfinished := False\<rparr>, rtickPerCycle a)"
      using 1 rscaled [of 1, OF _ _ t] by (simp add: RChip_run_def Let_def)
    then show ?thesis using 1 r t by (simp add: rrun_ok_def rready_def)
  next
    case 2 then show ?thesis using run_input [OF r _ t] rkeeps_ok by blast
  next
    case 3 then show ?thesis using run_fc [OF r _ t refl] rkeeps_ok by blast
  next
    case 4 then show ?thesis using run_sign [OF r _ t] rkeeps_ok by blast
  next
    case 5 then show ?thesis using run_result [OF r _ t] rkeeps_ok by blast
  next
    case 6
    then have "RChip_run a = Inr (a\<lparr>rfinished := False\<rparr>, 0)" by (simp add: RChip_run_def Let_def int_mul_def)
    then show ?thesis using 6 r t by (simp add: rrun_ok_def rready_def)
  qed
qed

lemma rrun_seq_ready:
  assumes "rready a" and "rtickPerCycle a = p" and "0 \<le> p" "p \<le> max_rperiod"
  shows "\<exists>a' ts. rrun_seq ns a = Inr (a', ts) \<and> rready a' \<and> length ts = length ns \<and>
     (\<forall>t\<in>set ts. 0 \<le> t \<and> t \<le> 100100 * p)"
  using assms(1,2)
proof (induction ns arbitrary: a)
  case Nil
  then show ?case by simp
next
  case (Cons n ns)
  have "rrun_ok (a\<lparr>rcounter := n\<rparr>)" by (rule rrun_ready) (use Cons.prems assms(3,4) in simp_all)
  then obtain b t where b: "RChip_run (a\<lparr>rcounter := n\<rparr>) = Inr (b, t)" "rready b" "rtickPerCycle b = p"
      "0 \<le> t" "t \<le> 100100 * p"
    using Cons.prems(2) by (auto simp: rrun_ok_def)
  then show ?case using Cons.IH [OF b(2,3)] by auto
qed

lemma rchip_boot:
  assumes "0 \<le> p" "p \<le> max_rperiod"
  shows "\<exists>a b. RChip_new j1 j2 j3 arr once = Inr a \<and> RChip_run (a\<lparr>rtickPerCycle := p\<rparr>) = Inr (b, p) \<and> rsteady b \<and>
     rcounter a = 0 \<and> array b = arr \<and> load_once b = once \<and> rtickPerCycle b = p \<and>
     heap (hub (rcore b)) = [\<lparr>blen = 1024, bdat = j1\<rparr>, \<lparr>blen = 1024, bdat = j2\<rparr>, \<lparr>blen = 802816, bdat = j3\<rparr>]"
proof -
  obtain a where a: "RChip_new j1 j2 j3 arr once = Inr a" "rbase_map (hub (rcore a))"
     "heap (hub (rcore a)) = [\<lparr>blen = 1024, bdat = j1\<rparr>, \<lparr>blen = 1024, bdat = j2\<rparr>, \<lparr>blen = 802816, bdat = j3\<rparr>]"
     "\<forall>(n, m)\<in>set rview_table. memories (hub (rcore a)) n = None" "rcounter a = 0" "array a = arr"
     "load_once a = once" "\<not> weight_loaded a" "rmem1 a = mem 0 0" "rmem2 a = mem 1 0" "rmem3 a = mem 2 0"
    using rchip_new [of j1 j2 j3 arr once] by blast
  have "\<exists>h. RChip_run (a\<lparr>rtickPerCycle := p\<rparr>) =
      Inr (a\<lparr>rtickPerCycle := p, rfinished := False, rcore := (rcore a)\<lparr>hub := h\<rparr>\<rparr>, p) \<and> rfull_map h \<and> heap h = heap (hub (rcore a))"
    using rrun_init [of "a\<lparr>rtickPerCycle := p\<rparr>"] a assms by auto
  then show ?thesis using a assms by (force simp: rsteady_def rready_def)
qed

text \<open>C9: a freshly constructed chip, in either loading mode and with any array contents and
  noise, clocked with a period of at most 21453 ticks, that is initialised once performs every
  later sequence of requests, whatever the values of the \<open>counter\<close> register: no assertion
  fails, no name is missing, no access leaves its memory, the tick count does not overflow an
  \<open>int\<close>, and no request takes more than 100100 periods.\<close>

theorem RChip_any_requests:
  assumes "0 \<le> p" and "p \<le> max_rperiod"
  shows "\<exists>a a' ts. RChip_new j1 j2 j3 arr once = Inr a \<and> rrun_seq (0 # ns) (a\<lparr>rtickPerCycle := p\<rparr>) = Inr (a', ts) \<and>
     rready a' \<and> length ts = Suc (length ns) \<and> list_all (\<lambda>t. 0 \<le> t \<and> t \<le> 100100 * p) ts"
proof -
  obtain a b where b: "RChip_new j1 j2 j3 arr once = Inr a" "RChip_run (a\<lparr>rtickPerCycle := p\<rparr>) = Inr (b, p)" "rsteady b"
      "rcounter a = 0" "rtickPerCycle b = p"
    using rchip_boot [OF assms] by blast
  have r: "rready b" using b(3) by (simp add: rsteady_def)
  obtain a' ts where s: "rrun_seq ns b = Inr (a', ts)" "rready a'" "length ts = length ns"
      "\<forall>t\<in>set ts. 0 \<le> t \<and> t \<le> 100100 * p"
    using rrun_seq_ready [OF r b(5) assms] by blast
  have "a\<lparr>rtickPerCycle := p, rcounter := 0\<rparr> = a\<lparr>rtickPerCycle := p\<rparr>" using b(4) by simp
  then have "rrun_seq (0 # ns) (a\<lparr>rtickPerCycle := p\<rparr>) = Inr (a', p # ts)" using b(2) s(1) by simp
  then show ?thesis using b(1) s assms by (auto simp: list_all_iff)
qed

definition blank_array :: "f32 \<Rightarrow> rram" where
  "blank_array c = \<lparr>weight_positive = (\<lambda>_ _. 0), weight_negative = (\<lambda>_ _. 0), batchnorm_mean = (\<lambda>_. 0),
     batchnorm_var = (\<lambda>_. 0), batchnorm_weight = (\<lambda>_. 0), batchnorm_bias = (\<lambda>_. 0), noise = (\<lambda>_. c), drawn = 0\<rparr>"

theorem RChip_any_requests_witness:
  "\<exists>a a' ts. RChip_new (\<lambda>_. 0) (\<lambda>_. 0) (\<lambda>_. 0) (blank_array 0x3F800000) True = Inr a \<and>
     rrun_seq [0, 1, 2, 200] (a\<lparr>rtickPerCycle := 333\<rparr>) = Inr (a', ts) \<and> length ts = 4"
  using RChip_any_requests [of 333 "\<lambda>_. 0" "\<lambda>_. 0" "\<lambda>_. 0" "blank_array 0x3F800000" True "[1, 2, 200]"]
  by (force simp: max_rperiod_def)

section \<open>An instance of the two loading modes\<close>

text \<open>A weight memory with four weights of the first layer set and every other weight zero.\<close>

definition demo_weights :: "nat \<Rightarrow> f32" where
  "demo_weights k = (if k = 2560 then 0x01010101 else if k mod 266240 < 262144 then 0 else 0x3F800000)"

lemma demo_slot:
  assumes "n < 266240"
  shows "demo_weights (a * 266240 + n) = (if a = 0 \<and> n = 2560 then 0x01010101 else if n < 262144 then 0 else 0x3F800000)"
proof -
  have "a * 266240 + n = 2560 \<longleftrightarrow> a = 0 \<and> n = 2560" by (cases a) auto
  then show ?thesis using assms by (simp add: demo_weights_def)
qed

lemma slots: "off \<in> {0, 266240, 532480} \<Longrightarrow> \<exists>a. off = int (a * 266240) \<and> (off = 0 \<longleftrightarrow> a = 0)"
  by (auto intro: exI [of _ 0] exI [of _ 1] exI [of _ 2])

lemma demo_byte:
  assumes "heap h ! 2 = \<lparr>blen = 802816, bdat = demo_weights\<rparr>" "length (heap h) = 3"
    and "off \<in> {0, 266240, 532480}" "0 \<le> k" "k < 1048576"
  shows "bytes h (mem 2 off) k = (if off = 0 \<and> k div 4 = 2560 then 1 else 0)"
proof -
  have q: "0 \<le> k div 4" "k div 4 < 262144" using assms(4,5) by simp_all
  obtain n where n: "k div 4 = int n" "n < 262144" using q zero_le_imp_eq_int [OF q(1)] by auto
  have m: "k mod 4 \<in> {0, 1, 2, 3}" by auto
  obtain a where a: "off = int (a * 266240)" "off = 0 \<longleftrightarrow> a = 0" using slots [OF assms(3)] by blast
  have "nat (off + int n) = a * 266240 + n" using a(1) by simp
  then have dv: "demo_weights (nat (off + int n)) = (if off = 0 \<and> n = 2560 then 0x01010101 else 0)"
    using demo_slot [of n a] n(2) a(2) by simp
  have b: "byte_of 0x01010101 (nat (k mod 4)) = 1" "byte_of 0 (nat (k mod 4)) = 0"
    using m by (auto simp: byte_of_def)
  have "loadF h (ptr_add (mem 2 off) (k div 4)) = Inr (demo_weights (nat (off + int n)))"
    using assms(1-3) n by (auto simp: loadF_def ptr_valid_def ptr_add_def)
  then show ?thesis using b n dv by (auto simp: bytes_def loadB_def)
qed

lemma demo_float:
  assumes "heap h ! 2 = \<lparr>blen = 802816, bdat = demo_weights\<rparr>" "length (heap h) = 3"
    and "off \<in> {0, 266240, 532480}" "k \<in> {262144, 263168, 264192, 265216}" "0 \<le> i" "i < 1024"
  shows "floats h (mem 2 (off + k)) i = 0x3F800000"
proof -
  obtain n where n: "i = int n" "n < 1024" using assms(5,6) zero_le_imp_eq_int by auto
  obtain a where a: "off = int (a * 266240)" using slots [OF assms(3)] by blast
  have "nat (off + k + int n) = a * 266240 + (nat k + n)" using a assms(4) by auto
  moreover have "nat k + n < 266240" "262144 \<le> nat k + n" using assms(4) n(2) by auto
  ultimately have "demo_weights (nat (off + k + int n)) = 0x3F800000" using demo_slot [of "nat k + n" a] by simp
  then show ?thesis using assms n by (auto simp: floats_def loadF_def ptr_valid_def ptr_add_def)
qed

lemma word_of_cell:
  fixes i j :: int
  assumes "0 \<le> j" "j < 1024"
  shows "(i * 1024 + j) div 4 = 2560 \<longleftrightarrow> i = 10 \<and> j \<in> {0, 1, 2, 3}"
proof -
  have "(i * 1024 + j) div 4 = i * 256 + j div 4" by simp
  moreover have "0 \<le> j div 4" "j div 4 < 256" using assms by simp_all
  ultimately have "(i * 1024 + j) div 4 = 2560 \<longleftrightarrow> i = 10 \<and> j div 4 = 0" by presburger
  then show ?thesis using assms(1) by auto
qed

lemma demo_merged:
  assumes "heap h ! 2 = \<lparr>blen = 802816, bdat = demo_weights\<rparr>" "length (heap h) = 3"
    and "heap g ! 2 = \<lparr>blen = 802816, bdat = demo_weights\<rparr>" "length (heap g) = 3"
  shows "merged h g"
proof -
  have p: "part h g off R C"
    if "off \<in> {0, 266240, 532480}" "R \<subseteq> {0..<1024}" "off = 0 \<or> 10 \<notin> R" "{0, 1, 2, 3} \<subseteq> C \<or> 10 \<notin> R" for off R C
    unfolding part_def
  proof (intro ballI conjI impI)
    fix i assume i: "i \<in> R"
    then have i1: "0 \<le> i" "i < 1024" using that(2) by auto
    {
      fix j :: int assume j: "j \<in> {0..<1024}"
      have k: "0 \<le> i * 1024 + j" "i * 1024 + j < 1048576" using i1 j by auto
      have j1: "0 \<le> j" "j < 1024" using j by simp_all
      have d: "(i * 1024 + j) div 4 = 2560 \<longleftrightarrow> i = 10 \<and> j \<in> {0, 1, 2, 3}" using word_of_cell [OF j1] .
      show "bytes h (mem 2 0) (i * 1024 + j) = bytes g (mem 2 off) (i * 1024 + j)"
      proof (cases "off = 0")
        case False
        then have "(i * 1024 + j) div 4 \<noteq> 2560" using d that(3) i by blast
        then show ?thesis
          using demo_byte [OF assms(1,2) _ k, of 0] demo_byte [OF assms(3,4) that(1) k] by simp
      qed (use demo_byte [OF assms(1,2) _ k, of 0] demo_byte [OF assms(3,4) that(1) k] in simp)
      assume "j \<notin> C"
      then have "\<not> (i = 10 \<and> j \<in> {0, 1, 2, 3})" using that(4) i by blast
      then show "bytes h (mem 2 0) (i * 1024 + j) = 0"
        using demo_byte [OF assms(1,2) _ k, of 0] d by simp
    }
    fix k :: int assume "k \<in> {262144, 263168, 264192, 265216}"
    then show "floats h (mem 2 k) i = floats g (mem 2 (off + k)) i"
      using demo_float [OF assms(1,2), of 0 k i] demo_float [OF assms(3,4) that(1), of k i] i1 by simp
  qed
  show ?thesis unfolding merged_def by (intro conjI p) auto
qed

theorem load_once_equiv_witness:
  "\<exists>a b a' b' ta tb. load_once a \<and> \<not> load_once b \<and> rrun_seq [1, 2, 3, 4, 5, 6, 7] a = Inr (a', ta) \<and>
     rrun_seq [1, 2, 3, 4, 5, 6, 7] b = Inr (b', tb) \<and> outputIndex (rcore a') = outputIndex (rcore b')"
proof -
  have t: "(0::int) \<le> 333" "333 \<le> max_rperiod" by (simp_all add: max_rperiod_def)
  let ?c = "0x3F800000 :: f32"
  obtain a where a: "rsteady a" "array a = blank_array ?c" "load_once a"
     "heap (hub (rcore a)) = [\<lparr>blen = 1024, bdat = \<lambda>_. 0\<rparr>, \<lparr>blen = 1024, bdat = \<lambda>_. 0xFF\<rparr>, \<lparr>blen = 802816, bdat = demo_weights\<rparr>]"
    using rchip_boot [OF t, of "\<lambda>_. 0" "\<lambda>_. 0xFF" demo_weights "blank_array ?c" True] by auto
  obtain b where b: "rsteady b" "array b = blank_array ?c" "\<not> load_once b"
     "heap (hub (rcore b)) = [\<lparr>blen = 1024, bdat = \<lambda>_. 0\<rparr>, \<lparr>blen = 1024, bdat = \<lambda>_. 0xFF\<rparr>, \<lparr>blen = 802816, bdat = demo_weights\<rparr>]"
    using rchip_boot [OF t, of "\<lambda>_. 0" "\<lambda>_. 0xFF" demo_weights "blank_array ?c" False] by auto
  have n: "noise (array a) = (\<lambda>_. ?c)" "noise (array b) = (\<lambda>_. ?c)" using a(2) b(2) by (simp_all add: blank_array_def)
  have m: "merged (hub (rcore a)) (hub (rcore b))" by (rule demo_merged) (use a(4) b(4) in simp_all)
  have i: "same_image (hub (rcore a)) (hub (rcore b))"
    using a(4) b(4) by (simp add: same_image_def bytes_def loadB_def loadF_def ptr_valid_def)
  show ?thesis using load_once_equiv [OF a(1) b(1) a(3) b(3) n m i] a(3) b(3) by blast
qed

end
