(* ===== verification/Vdev_Chips.thy ===== *)
theory Vdev_Chips imports Vdev_Live Cnn_Safe Rram_Safe begin

text \<open>
  The CNN chip and the RRAM chip as the accelerators of a virtual device: both keep the
  contract of \<open>Vdev_Inv\<close>, so the system of CPU, event queue and devices is safe with either.
\<close>

section \<open>The two instances\<close>

definition cnn_mem :: "aichip \<Rightarrow> nat \<Rightarrow> fptr" where
  "cnn_mem a k = (if k = 1 then mem1 a else if k = 2 then mem2 a else mem3 a)"

definition cnn_accel :: "aichip accel" where
  "cnn_accel = \<lparr>acc_run = AIChip_run, acc_finished = finished, acc_counter = counter,
     acc_set_counter = (\<lambda>n a. a\<lparr>counter := n\<rparr>), acc_set_period = (\<lambda>p a. a\<lparr>tickPerCycle := p\<rparr>),
     acc_load = (\<lambda>a k j. loadB (hub (ccore a)) (cnn_mem a k) j),
     acc_store = (\<lambda>a k j b. bindR (storeB (hub (ccore a)) (cnn_mem a k) j b)
       (\<lambda>h. Inr (a\<lparr>ccore := (ccore a)\<lparr>hub := h\<rparr>\<rparr>)))\<rparr>"

definition rram_mem :: "rchip \<Rightarrow> nat \<Rightarrow> fptr" where
  "rram_mem a k = (if k = 1 then rmem1 a else if k = 2 then rmem2 a else rmem3 a)"

definition rram_accel :: "rchip accel" where
  "rram_accel = \<lparr>acc_run = RChip_run, acc_finished = rfinished, acc_counter = rcounter,
     acc_set_counter = (\<lambda>n a. a\<lparr>rcounter := n\<rparr>), acc_set_period = (\<lambda>p a. a\<lparr>rtickPerCycle := p\<rparr>),
     acc_load = (\<lambda>a k j. loadB (hub (rcore a)) (rram_mem a k) j),
     acc_store = (\<lambda>a k j b. bindR (storeB (hub (rcore a)) (rram_mem a k) j b)
       (\<lambda>h. Inr (a\<lparr>rcore := (rcore a)\<lparr>hub := h\<rparr>\<rparr>)))\<rparr>"

section \<open>The contract\<close>

definition cnn_ready :: "aichip \<Rightarrow> bool" where
  "cnn_ready a \<longleftrightarrow> chip_ready a \<and> 0 \<le> tickPerCycle a \<and> tickPerCycle a \<le> max_period"

definition cnn_size :: "nat \<Rightarrow> int" where
  "cnn_size m = (if m = 3 then 6653484 else 100352)"

definition rram_ready :: "rchip \<Rightarrow> bool" where
  "rram_ready a \<longleftrightarrow> rready a \<and> 0 \<le> rtickPerCycle a \<and> rtickPerCycle a \<le> max_rperiod"

definition rram_size :: "nat \<Rightarrow> int" where
  "rram_size m = (if m = 3 then 3211264 else 4096)"

text \<open>Three memories that each own one block, accessed by byte.\<close>

definition banks :: "memhub \<Rightarrow> (nat \<Rightarrow> fptr) \<Rightarrow> (nat \<Rightarrow> int) \<Rightarrow> bool" where
  "banks h M sz \<longleftrightarrow> (\<forall>m\<in>{1, 2, 3}. M m = \<lparr>pblk = m - 1, poff = 0\<rparr> \<and> m - 1 < length (heap h) \<and>
     sz m = 4 * int (blen (heap h ! (m - 1))))"

lemma banks_valid:
  assumes "banks h M sz" "m \<in> {1, 2, 3}" "0 \<le> k" "k < sz m"
  shows "ptr_valid h (ptr_add (M m) (k div 4))"
proof -
  have "M m = \<lparr>pblk = m - 1, poff = 0\<rparr>" "m - 1 < length (heap h)" "sz m = 4 * int (blen (heap h ! (m - 1)))"
    using assms(1,2) unfolding banks_def by blast+
  moreover from this have "0 \<le> k div 4 \<and> k div 4 < int (blen (heap h ! (m - 1)))" using assms(3,4) by simp linarith
  ultimately show ?thesis by (simp add: ptr_valid_def ptr_add_def)
qed

lemma banks_load: "banks h M sz \<Longrightarrow> m \<in> {1, 2, 3} \<Longrightarrow> 0 \<le> k \<Longrightarrow> k < sz m \<Longrightarrow> okR (loadB h (M m) k)"
  using loadB_ok [OF banks_valid [of h M sz m k]] by (auto simp: okR_iff)

lemma banks_store:
  assumes "banks h M sz" "m \<in> {1, 2, 3}" "0 \<le> k" "k < sz m"
  shows "\<exists>h'. storeB h (M m) k b = Inr h' \<and> same_layout h h' \<and>
     (\<forall>m'\<in>{1, 2, 3}. \<forall>k'. 0 \<le> k' \<longrightarrow> k' < sz m' \<longrightarrow>
        loadB h' (M m') k' = (if m' = m \<and> k' = k then Inr b else loadB h (M m') k'))"
proof -
  obtain h' where h: "storeB h (M m) k b = Inr h'" "same_layout h h'"
    using storeB_ok [OF banks_valid [OF assms]] by blast
  have "loadB h' (M m') k' = loadB h (M m') k'" if "m' \<in> {1, 2, 3}" "m' \<noteq> m" for m' k'
  proof (rule loadB_same_block [OF h(2)])
    have "pblk (M m') = m' - 1" "pblk (M m) = m - 1" using assms(1,2) that(1) unfolding banks_def by force+
    then have "pblk (M m') \<noteq> pblk (M m)" using assms(2) that by auto
    then show "heap h' ! pblk (M m') = heap h ! pblk (M m')" by (rule storeB_other [OF h(1)])
  qed
  then have "loadB h' (M m') k' = (if m' = m \<and> k' = k then Inr b else loadB h (M m') k')" if "m' \<in> {1, 2, 3}" for m' k'
    using that loadB_storeB_base [OF h(1), of k'] by (cases "m' = m") simp_all
  then show ?thesis using h by blast
qed

lemma cnn_banks: "cnn_ready a \<Longrightarrow> banks (hub (ccore a)) (cnn_mem a) cnn_size"
  using full_map_views(2) [of "hub (ccore a)"] blk_sizesD [of "hub (ccore a)"]
  by (simp add: banks_def cnn_ready_def chip_ready_def cnn_mem_def cnn_size_def numeral_2_eq_2)

lemma rram_banks:
  assumes "rram_ready a"
  shows "banks (hub (rcore a)) (rram_mem a) rram_size"
proof -
  have m: "map blen (heap (hub (rcore a))) = [1024, 1024, 802816]"
    using assms by (simp add: rram_ready_def rready_def rfull_map_def rbase_map_def)
  have l: "length (heap (hub (rcore a))) = 3" using arg_cong [OF m, of length] by simp
  show ?thesis
    using assms l arg_cong [OF m, of "\<lambda>xs. xs ! 0"] arg_cong [OF m, of "\<lambda>xs. xs ! Suc 0"]
      arg_cong [OF m, of "\<lambda>xs. xs ! 2"]
    by (simp add: banks_def rram_ready_def rready_def rram_mem_def rram_size_def mem_def)
qed

interpretation cnn: accelerator cnn_accel cnn_ready cnn_size
proof
  fix a :: aichip and n :: byte and m :: nat and k :: int and b :: byte
  show "acc_counter cnn_accel (acc_set_counter cnn_accel n a) = n" by (simp add: cnn_accel_def)
  assume r: "cnn_ready a"
  have c: "chip_ready a" and t: "0 \<le> tickPerCycle a" "tickPerCycle a \<le> max_period"
    using r by (simp_all add: cnn_ready_def)
  obtain a' t' where "AIChip_run a = Inr (a', t')" "chip_ready a'" "tickPerCycle a' = tickPerCycle a"
      "0 \<le> t'" "t' \<le> 39298 * tickPerCycle a"
    using run_ready [OF c t] by (auto simp: run_ok_def)
  then show "\<exists>a' t. acc_run cnn_accel a = Inr (a', t) \<and> cnn_ready a' \<and> 0 \<le> t \<and> t \<le> int max_delay"
    using t by (simp add: cnn_accel_def cnn_ready_def max_delay_def max_period_def)
  show "cnn_ready (acc_set_counter cnn_accel n a)" using r by (simp add: cnn_accel_def cnn_ready_def chip_ready_def)
  assume mk: "m \<in> {1, 2, 3}" "0 \<le> k" "k < cnn_size m"
  show "okR (acc_load cnn_accel a m k)" using banks_load [OF cnn_banks [OF r] mk] by (simp add: cnn_accel_def)
  obtain h where h: "storeB (hub (ccore a)) (cnn_mem a m) k b = Inr h" "same_layout (hub (ccore a)) h"
     "\<forall>m'\<in>{1, 2, 3}. \<forall>k'. 0 \<le> k' \<longrightarrow> k' < cnn_size m' \<longrightarrow>
        loadB h (cnn_mem a m') k' = (if m' = m \<and> k' = k then Inr b else loadB (hub (ccore a)) (cnn_mem a m') k')"
    using banks_store [OF cnn_banks [OF r] mk] by blast
  have "cnn_ready (a\<lparr>ccore := (ccore a)\<lparr>hub := h\<rparr>\<rparr>)"
    using r full_map_layout [OF h(2)] by (simp add: cnn_ready_def chip_ready_def)
  then show "\<exists>a'. acc_store cnn_accel a m k b = Inr a' \<and> cnn_ready a' \<and>
        (\<forall>m'\<in>{1, 2, 3}. \<forall>k'. 0 \<le> k' \<longrightarrow> k' < cnn_size m' \<longrightarrow>
           acc_load cnn_accel a' m' k' = (if m' = m \<and> k' = k then Inr b else acc_load cnn_accel a m' k'))"
    using h by (simp add: cnn_accel_def cnn_mem_def)
qed

interpretation rram: accelerator rram_accel rram_ready rram_size
proof
  fix a :: rchip and n :: byte and m :: nat and k :: int and b :: byte
  show "acc_counter rram_accel (acc_set_counter rram_accel n a) = n" by (simp add: rram_accel_def)
  assume r: "rram_ready a"
  have c: "rready a" and t: "0 \<le> rtickPerCycle a" "rtickPerCycle a \<le> max_rperiod"
    using r by (simp_all add: rram_ready_def)
  obtain a' t' where "RChip_run a = Inr (a', t')" "rready a'" "rtickPerCycle a' = rtickPerCycle a"
      "0 \<le> t'" "t' \<le> 100100 * rtickPerCycle a"
    using rrun_ready [OF c t] by (auto simp: rrun_ok_def)
  then show "\<exists>a' t. acc_run rram_accel a = Inr (a', t) \<and> rram_ready a' \<and> 0 \<le> t \<and> t \<le> int max_delay"
    using t by (simp add: rram_accel_def rram_ready_def max_delay_def max_rperiod_def)
  show "rram_ready (acc_set_counter rram_accel n a)" using r by (simp add: rram_accel_def rram_ready_def rready_def)
  assume mk: "m \<in> {1, 2, 3}" "0 \<le> k" "k < rram_size m"
  show "okR (acc_load rram_accel a m k)" using banks_load [OF rram_banks [OF r] mk] by (simp add: rram_accel_def)
  obtain h where h: "storeB (hub (rcore a)) (rram_mem a m) k b = Inr h" "same_layout (hub (rcore a)) h"
     "\<forall>m'\<in>{1, 2, 3}. \<forall>k'. 0 \<le> k' \<longrightarrow> k' < rram_size m' \<longrightarrow>
        loadB h (rram_mem a m') k' = (if m' = m \<and> k' = k then Inr b else loadB (hub (rcore a)) (rram_mem a m') k')"
    using banks_store [OF rram_banks [OF r] mk] by blast
  have "rram_ready (a\<lparr>rcore := (rcore a)\<lparr>hub := h\<rparr>\<rparr>)"
    using r rfull_map_layout [OF h(2)] by (simp add: rram_ready_def rready_def)
  then show "\<exists>a'. acc_store rram_accel a m k b = Inr a' \<and> rram_ready a' \<and>
        (\<forall>m'\<in>{1, 2, 3}. \<forall>k'. 0 \<le> k' \<longrightarrow> k' < rram_size m' \<longrightarrow>
           acc_load rram_accel a' m' k' = (if m' = m \<and> k' = k then Inr b else acc_load rram_accel a m' k'))"
    using h by (simp add: rram_accel_def rram_mem_def)
qed

end
