(* ===== verification/Host_Twin.thy ===== *)
theory Host_Twin imports Host_Weights Vdev_Chips begin

text \<open>
  Two RRAM chips under the host program, one that loads the merged matrix once and one that
  loads the three layers for every image: they stay in step over any number of images.
\<close>

section \<open>Writes to the chip's memories\<close>

definition with_hub :: "rchip \<Rightarrow> memhub \<Rightarrow> rchip" where
  "with_hub a h = a\<lparr>rcore := (rcore a)\<lparr>hub := h\<rparr>\<rparr>"

lemma with_hub_sel [simp]:
  "hub (rcore (with_hub a h)) = h" "array (with_hub a h) = array a" "load_once (with_hub a h) = load_once a"
  "weight_loaded (with_hub a h) = weight_loaded a" "rtickPerCycle (with_hub a h) = rtickPerCycle a"
  "rmem1 (with_hub a h) = rmem1 a" "rmem2 (with_hub a h) = rmem2 a" "rmem3 (with_hub a h) = rmem3 a"
  "rcounter (with_hub a h) = rcounter a"
  by (simp_all add: with_hub_def)

lemma rram_mem_hub [simp]: "rram_mem (with_hub a h) = rram_mem a"
  by (rule ext) (simp add: rram_mem_def)

lemma with_hub_again [simp]: "with_hub (with_hub a h) h' = with_hub a h'"
  by (simp add: with_hub_def)

lemma with_hub_same [simp]: "with_hub a (hub (rcore a)) = a"
  by (simp add: with_hub_def)

lemma write_keeps:
  assumes "write_bytes rram_accel m k bs a = Inr a'"
  shows "\<exists>h. a' = with_hub a h \<and> same_layout (hub (rcore a)) h \<and>
     (\<forall>b. b \<noteq> pblk (rram_mem a m) \<longrightarrow> heap h ! b = heap (hub (rcore a)) ! b)"
  using assms
proof (induction bs arbitrary: k a)
  case Nil
  then show ?case by (intro exI [of _ "hub (rcore a)"]) simp
next
  case (Cons x bs)
  obtain h1 where h1: "storeB (hub (rcore a)) (rram_mem a m) k x = Inr h1"
      "write_bytes rram_accel m (k + 1) bs (with_hub a h1) = Inr a'"
    using Cons.prems by (auto simp: bindR_eq_Inr rram_accel_def with_hub_def)
  have l: "same_layout (hub (rcore a)) h1" using h1(1) by (auto simp: storeB_def bindR_eq_Inr dest: storeF_layout)
  obtain h where h: "a' = with_hub (with_hub a h1) h" "same_layout h1 h"
      "\<forall>b. b \<noteq> pblk (rram_mem a m) \<longrightarrow> heap h ! b = heap h1 ! b"
    using Cons.IH [OF h1(2)] by auto
  show ?case
    using h storeB_other [OF h1(1)] same_layout_trans [OF l h(2)] by (intro exI [of _ h]) auto
qed

lemma rready_hub: "rready a \<Longrightarrow> same_layout (hub (rcore a)) h \<Longrightarrow> rready (with_hub a h)"
  using rfull_map_layout by (simp add: rready_def)

lemma rready_blocks: "rready a \<Longrightarrow> map blen (heap (hub (rcore a))) = [1024, 1024, 802816]"
  by (simp add: rready_def rfull_map_def rbase_map_def)

lemma rready_mem: "rready a \<Longrightarrow> m \<in> {1, 2, 3} \<Longrightarrow> rram_mem a m = mem (m - 1) 0"
  by (auto simp: rready_def rram_mem_def numeral_2_eq_2)

lemma rsteady_ready: "rsteady a \<Longrightarrow> rram_ready a"
  by (simp add: rsteady_def rram_ready_def)

text \<open>An image is written to the second memory.\<close>

lemma write_image:
  assumes r: "rsteady a" and l: "length img = 784"
  shows "\<exists>h. write_bytes rram_accel 2 0 img a = Inr (with_hub a h) \<and> rsteady (with_hub a h) \<and> same_layout (hub (rcore a)) h \<and>
     heap h ! 2 = heap (hub (rcore a)) ! 2 \<and> (\<forall>j\<in>{0..<784}. bytes h (mem 1 0) j = img ! nat j)"
proof -
  have rd: "rready a" using r by (simp add: rsteady_def)
  obtain a' where a': "write_bytes rram_accel 2 0 img a = Inr a'"
     "\<forall>m'\<in>{1, 2, 3}. \<forall>j. 0 \<le> j \<longrightarrow> j < rram_size m' \<longrightarrow>
        acc_load rram_accel a' m' j = (if m' = 2 \<and> 0 \<le> j \<and> j < 0 + int (length img) then Inr (img ! nat (j - 0)) else acc_load rram_accel a m' j)"
    using rram.write_bytes_ok [OF rsteady_ready [OF r], of 2 0 img] l by (auto simp: rram_size_def)
  obtain h where h: "a' = with_hub a h" "same_layout (hub (rcore a)) h" "\<forall>b. b \<noteq> 1 \<longrightarrow> heap h ! b = heap (hub (rcore a)) ! b"
    using write_keeps [OF a'(1)] rready_mem [OF rd, of 2] by auto
  have "bytes h (mem 1 0) j = img ! nat j" if "j \<in> {0..<784}" for j
  proof -
    have "acc_load rram_accel a' 2 j = Inr (img ! nat j)" using a'(2) that l by (auto simp: rram_size_def)
    then have "loadB h (mem 1 0) j = Inr (img ! nat j)" using h(1) rready_mem [OF rd, of 2] by (simp add: rram_accel_def)
    then show ?thesis by (simp add: bytes_def)
  qed
  moreover have k: "heap h ! 2 = heap (hub (rcore a)) ! 2" using h(3) by simp
  moreover have "rsteady (with_hub a h)"
    using r rready_hub [OF rd h(2)] layer_holds_keep [OF h(2) k] by (simp add: rsteady_def)
  ultimately show ?thesis using a'(1) h(1,2) by blast
qed

text \<open>The weights go to the third memory, before the array is loaded.\<close>

definition rnew :: "f32 \<Rightarrow> bool \<Rightarrow> rchip \<Rightarrow> bool" where
  "rnew c once a \<longleftrightarrow> rready a \<and> 0 \<le> rtickPerCycle a \<and> rtickPerCycle a \<le> max_rperiod \<and> load_once a = once \<and>
     \<not> weight_loaded a \<and> noise (array a) = (\<lambda>_. c)"

lemma length_layers: "length (concat (map layer_bytes ls)) = 1064960 * length ls"
  by (induction ls) simp_all

lemma write_weights:
  assumes r: "rnew c once a" and l: "length ls \<le> 3"
  shows "\<exists>h. write_bytes rram_accel 3 0 (concat (map layer_bytes ls)) a = Inr (with_hub a h) \<and> rsteady (with_hub a h) \<and>
     layers_in h ls \<and> map blen (heap h) = [1024, 1024, 802816]"
proof -
  let ?bs = "concat (map layer_bytes ls)"
  have rd: "rready a" "rram_ready a" using r by (simp_all add: rnew_def rram_ready_def)
  have len: "length ?bs = 1064960 * length ls" by (rule length_layers)
  have fit: "1064960 * length ls \<le> 3194880" using l by simp
  obtain a' where a': "write_bytes rram_accel 3 0 ?bs a = Inr a'"
     "\<forall>m'\<in>{1, 2, 3}. \<forall>j. 0 \<le> j \<longrightarrow> j < rram_size m' \<longrightarrow>
        acc_load rram_accel a' m' j = (if m' = 3 \<and> 0 \<le> j \<and> j < 0 + int (length ?bs) then Inr (?bs ! nat (j - 0)) else acc_load rram_accel a m' j)"
    using rram.write_bytes_ok [OF rd(2), of 3 0 ?bs] len fit by (auto simp: rram_size_def)
  obtain h where h: "a' = with_hub a h" "same_layout (hub (rcore a)) h" using write_keeps [OF a'(1)] by blast
  have "bytes h (mem 2 0) (int k) = ?bs ! k" if "k < 1064960 * length ls" for k
  proof -
    have "int k < rram_size 3" using that fit by (simp add: rram_size_def)
    then have "acc_load rram_accel a' 3 (int k) = Inr (?bs ! k)" using a'(2) that len by simp
    then have "loadB h (mem 2 0) (int k) = Inr (?bs ! k)" using h(1) rready_mem [OF rd(1), of 3] by (simp add: rram_accel_def)
    then show ?thesis by (simp add: bytes_def)
  qed
  then have "layers_in h ls" by (simp add: layers_in_def)
  moreover have rd': "rready (with_hub a h)" by (rule rready_hub [OF rd(1) h(2)])
  then have "rsteady (with_hub a h)" using r by (simp add: rsteady_def rnew_def)
  ultimately show ?thesis using a'(1) h(1) rready_blocks [OF rd'] by auto
qed

section \<open>Two chips in step\<close>

definition twins :: "f32 \<Rightarrow> rchip \<Rightarrow> rchip \<Rightarrow> bool" where
  "twins c a b \<longleftrightarrow> rsteady a \<and> rsteady b \<and> load_once a \<and> \<not> load_once b \<and> noise (array a) = (\<lambda>_. c) \<and> noise (array b) = (\<lambda>_. c) \<and>
     merged (hub (rcore a)) (hub (rcore b))"

lemma acc_seq_rram: "rrun_seq ns a = Inr (a', ts) \<Longrightarrow> acc_seq rram_accel ns a = Inr a'"
proof (induction ns arbitrary: a ts)
  case (Cons n ns)
  then show ?case by (fastforce simp: bindR_eq_Inr rram_accel_def)
qed simp

lemma twins_image:
  assumes t: "twins c a b" and l: "length img = 784"
  shows "\<exists>a' b' v. acc_image rram_accel img a = Inr (a', v) \<and> acc_image rram_accel img b = Inr (b', v) \<and> twins c a' b'"
proof -
  note T = t [unfolded twins_def]
  obtain h where h: "write_bytes rram_accel 2 0 img a = Inr (with_hub a h)" "rsteady (with_hub a h)" "same_layout (hub (rcore a)) h"
     "heap h ! 2 = heap (hub (rcore a)) ! 2" "\<forall>j\<in>{0..<784}. bytes h (mem 1 0) j = img ! nat j"
    using write_image [OF _ l] T by blast
  obtain g where g: "write_bytes rram_accel 2 0 img b = Inr (with_hub b g)" "rsteady (with_hub b g)" "same_layout (hub (rcore b)) g"
     "heap g ! 2 = heap (hub (rcore b)) ! 2" "\<forall>j\<in>{0..<784}. bytes g (mem 1 0) j = img ! nat j"
    using write_image [OF _ l] T by blast
  have m: "merged (hub (rcore (with_hub a h))) (hub (rcore (with_hub b g)))"
    using T part_keep [OF h(3,4) g(3,4)] by (simp add: merged_def)
  have im: "same_image (hub (rcore (with_hub a h))) (hub (rcore (with_hub b g)))" using h(5) g(5) by (simp add: same_image_def)
  have o: "load_once (with_hub a h)" "\<not> load_once (with_hub b g)" "noise (array (with_hub a h)) = (\<lambda>_. c)"
      "noise (array (with_hub b g)) = (\<lambda>_. c)" using T by simp_all
  obtain a' b' ta tb where r: "rrun_seq [1, 2, 3, 4, 5, 6, 7] (with_hub a h) = Inr (a', ta)"
      "rrun_seq [1, 2, 3, 4, 5, 6, 7] (with_hub b g) = Inr (b', tb)"
      "loadB (hub (rcore a')) (mem 0 0) 0 = loadB (hub (rcore b')) (mem 0 0) 0" and tw: "twins c a' b'"
    using load_once_classes [OF h(2) g(2) o m im] unfolding twins_def by blast
  have rd: "rready a'" "rready b'" using tw by (simp_all add: twins_def rsteady_def)
  have ld: "acc_load rram_accel x 1 0 = loadB (hub (rcore x)) (mem 0 0) 0" if "rready x" for x
    using rready_mem [OF that, of 1] by (simp add: rram_accel_def)
  have "okR (acc_load rram_accel a' 1 0)"
    using rram.load_ok [OF rsteady_ready, of a' 1 0] tw by (simp add: twins_def rram_size_def)
  then obtain v where v: "acc_load rram_accel a' 1 0 = Inr v" by (auto simp: okR_iff)
  then have "acc_load rram_accel b' 1 0 = Inr v" using ld [OF rd(1)] ld [OF rd(2)] r(3) by simp
  then show ?thesis using h(1) g(1) v acc_seq_rram [OF r(1)] acc_seq_rram [OF r(2)] tw by (auto simp: acc_image_def)
qed

lemma twins_images:
  assumes "twins c a b" and "\<forall>img\<in>set imgs. length img = 784"
  shows "\<exists>a' b' bs. acc_images rram_accel imgs a = Inr (a', bs) \<and> acc_images rram_accel imgs b = Inr (b', bs) \<and> twins c a' b'"
  using assms
proof (induction imgs arbitrary: a b)
  case Nil
  then show ?case by simp
next
  case (Cons img imgs)
  have l: "length img = 784" "\<forall>img\<in>set imgs. length img = 784" using Cons.prems(2) by simp_all
  obtain a1 b1 v where 1: "acc_image rram_accel img a = Inr (a1, v)" "acc_image rram_accel img b = Inr (b1, v)" "twins c a1 b1"
    using twins_image [OF Cons.prems(1) l(1)] by blast
  obtain a' b' bs where 2: "acc_images rram_accel imgs a1 = Inr (a', bs)" "acc_images rram_accel imgs b1 = Inr (b', bs)" "twins c a' b'"
    using Cons.IH [OF 1(3) l(2)] by blast
  have "acc_images rram_accel (img # imgs) a = Inr (a', v # bs)" "acc_images rram_accel (img # imgs) b = Inr (b', v # bs)"
    by (simp_all add: 1(1,2) 2(1,2))
  then show ?case using 2(3) by blast
qed

lemma twins_main:
  assumes a: "rnew c True a" and b: "rnew c False b" and w: "merged_weights w" and i: "\<forall>img\<in>set imgs. length img = 784"
  shows "\<exists>a' b' bs. acc_main rram_accel (layers_sent True w) imgs a = Inr (a', bs) \<and>
     acc_main rram_accel (layers_sent False w) imgs b = Inr (b', bs) \<and> twins c a' b'"
proof -
  have l: "length (layers_sent once w) \<le> 3" for once by (simp add: layers_sent_def)
  obtain h where h: "write_bytes rram_accel 3 0 (concat (map layer_bytes (layers_sent True w))) a = Inr (with_hub a h)"
     "rsteady (with_hub a h)" "layers_in h (layers_sent True w)" "map blen (heap h) = [1024, 1024, 802816]"
    using write_weights [OF a l [of True]] by (elim exE conjE) (rule that)
  obtain g where g: "write_bytes rram_accel 3 0 (concat (map layer_bytes (layers_sent False w))) b = Inr (with_hub b g)"
     "rsteady (with_hub b g)" "layers_in g (layers_sent False w)" "map blen (heap g) = [1024, 1024, 802816]"
    using write_weights [OF b l [of False]] by (elim exE conjE) (rule that)
  have t: "twins c (with_hub a h) (with_hub b g)"
    using a b h(2) g(2) weights_merged [OF w h(3,4) g(3,4)] by (simp add: twins_def rnew_def)
  obtain a' b' bs where "acc_images rram_accel imgs (with_hub a h) = Inr (a', bs)"
      "acc_images rram_accel imgs (with_hub b g) = Inr (b', bs)" "twins c a' b'"
    using twins_images [OF t i] by blast
  then show ?thesis unfolding acc_main_def h(1) g(1) bindR_Inr by blast
qed

text \<open>Every chip finishes an image, by the code of the last request.\<close>

lemma run_7_finishes: "RChip_run a = Inr (a', t) \<Longrightarrow> uint (rcounter a) = 7 \<Longrightarrow> rfinished a'"
  by (auto simp: RChip_run_def Let_def bindR_eq_Inr)

lemma rram_answers: "answers rram_accel"
  by (auto simp: answers_def bindR_eq_Inr rram_accel_def dest!: run_7_finishes)

lemma images_784: "\<forall>img\<in>set (images_of junk f). length img = 784"
  by (induction junk f rule: images_of.induct) simp_all

end
