(* ===== verification/Host_Boot.thy ===== *)
theory Host_Boot imports Host_Sys Host_Twin begin

text \<open>
  The start-up request on a device with a freshly constructed RRAM chip.  Such a chip may
  only be asked for request 0, so it does not keep the contract of \<open>accelerator\<close>, which
  allows every counter; the guarded chip of this theory does, and the start-up request cannot
  tell the two apart.
\<close>

section \<open>Fresh chips\<close>

definition rfresh :: "rchip \<Rightarrow> bool" where
  "rfresh a \<longleftrightarrow> rbase_map (hub (rcore a)) \<and> (\<forall>(n, m)\<in>set rview_table. memories (hub (rcore a)) n = None) \<and>
     rcounter a = 0 \<and> rmem1 a = mem 0 0 \<and> rmem2 a = mem 1 0 \<and> rmem3 a = mem 2 0"

definition rperiod :: "rchip \<Rightarrow> bool" where
  "rperiod a \<longleftrightarrow> 0 \<le> rtickPerCycle a \<and> rtickPerCycle a \<le> max_rperiod"

definition rready0 :: "rchip \<Rightarrow> bool" where
  "rready0 a \<longleftrightarrow> (rready a \<or> rfresh a) \<and> rperiod a"

text \<open>A counter other than 0 would find the fresh chip initialised.\<close>

definition rboot :: "rchip \<Rightarrow> rchip" where
  "rboot a = fst (projr (RChip_run a))"

definition rram_accel0 :: "rchip accel" where
  "rram_accel0 = rram_accel\<lparr>acc_set_counter := (\<lambda>n a. if rfresh a \<and> n \<noteq> 0 then (rboot a)\<lparr>rcounter := n\<rparr> else a\<lparr>rcounter := n\<rparr>)\<rparr>"

lemma fresh_run:
  assumes "rfresh a" "rperiod a"
  shows "\<exists>h. RChip_run a = Inr (a\<lparr>rfinished := False, rcore := (rcore a)\<lparr>hub := h\<rparr>\<rparr>, rtickPerCycle a) \<and> rfull_map h \<and>
    heap h = heap (hub (rcore a))"
  by (rule rrun_init) (use assms in \<open>auto simp: rfresh_def rperiod_def\<close>)

lemma fresh_boot:
  assumes "rfresh a" "rperiod a"
  shows "rready (rboot a)" "rperiod (rboot a)"
proof -
  obtain h where "RChip_run a = Inr (a\<lparr>rfinished := False, rcore := (rcore a)\<lparr>hub := h\<rparr>\<rparr>, rtickPerCycle a)" "rfull_map h"
    using fresh_run [OF assms] by blast
  then show "rready (rboot a)" "rperiod (rboot a)"
    using assms by (simp_all add: rboot_def rready_def rfresh_def rperiod_def)
qed

lemma banks_base:
  assumes "rbase_map (hub (rcore a))" "rmem1 a = mem 0 0" "rmem2 a = mem 1 0" "rmem3 a = mem 2 0"
  shows "banks (hub (rcore a)) (rram_mem a) rram_size"
proof -
  have m: "map blen (heap (hub (rcore a))) = [1024, 1024, 802816]" using assms(1) by (simp add: rbase_map_def)
  have l: "length (heap (hub (rcore a))) = 3" using arg_cong [OF m, of length] by simp
  show ?thesis
    using assms l arg_cong [OF m, of "\<lambda>xs. xs ! 0"] arg_cong [OF m, of "\<lambda>xs. xs ! Suc 0"] arg_cong [OF m, of "\<lambda>xs. xs ! 2"]
    by (simp add: banks_def rram_mem_def rram_size_def mem_def)
qed

lemma banks_ready0: "rready0 a \<Longrightarrow> banks (hub (rcore a)) (rram_mem a) rram_size"
  by (rule banks_base) (auto simp: rready0_def rready_def rfresh_def rfull_map_def)

lemma rfresh_layout: "rfresh a \<Longrightarrow> same_layout (hub (rcore a)) h \<Longrightarrow> rfresh (with_hub a h)"
  by (simp add: rfresh_def rbase_map_def same_layout_def)

interpretation boot: accelerator rram_accel0 rready0 rram_size
proof
  fix a :: rchip and n :: byte and m :: nat and k :: int and b :: byte
  show "acc_counter rram_accel0 (acc_set_counter rram_accel0 n a) = n" by (simp add: rram_accel0_def rram_accel_def)
  assume r: "rready0 a"
  show "rready0 (acc_set_counter rram_accel0 n a)"
  proof (cases "rfresh a \<and> n \<noteq> 0")
    case True
    then show ?thesis using fresh_boot [of a] r by (simp add: rram_accel0_def rready0_def rperiod_def)
  next
    case False
    have "rfresh (a\<lparr>rcounter := 0\<rparr>)" if "rfresh a" using that by (simp add: rfresh_def)
    then show ?thesis using False r by (auto simp: rram_accel0_def rready0_def rperiod_def)
  qed
  show "\<exists>a' t. acc_run rram_accel0 a = Inr (a', t) \<and> rready0 a' \<and> 0 \<le> t \<and> t \<le> int max_delay"
  proof (cases "rready a")
    case True
    then obtain a' t where "acc_run rram_accel a = Inr (a', t)" "rram_ready a'" "0 \<le> t" "t \<le> int max_delay"
      using rram.run_ok [of a] r by (auto simp: rready0_def rram_ready_def rperiod_def)
    then show ?thesis by (auto simp: rram_accel0_def rready0_def rram_ready_def rperiod_def)
  next
    case False
    then have f: "rfresh a" "rperiod a" using r by (auto simp: rready0_def)
    obtain h where "RChip_run a = Inr (a\<lparr>rfinished := False, rcore := (rcore a)\<lparr>hub := h\<rparr>\<rparr>, rtickPerCycle a)" "rfull_map h"
      using fresh_run [OF f] by blast
    then show ?thesis
      using f by (simp add: rram_accel0_def rram_accel_def rready0_def rready_def rfresh_def rperiod_def max_delay_def max_rperiod_def)
  qed
  assume mk: "m \<in> {1, 2, 3}" "0 \<le> k" "k < rram_size m"
  show "okR (acc_load rram_accel0 a m k)" using banks_load [OF banks_ready0 [OF r] mk] by (simp add: rram_accel0_def rram_accel_def)
  obtain h where h: "storeB (hub (rcore a)) (rram_mem a m) k b = Inr h" "same_layout (hub (rcore a)) h"
     "\<forall>m'\<in>{1, 2, 3}. \<forall>k'. 0 \<le> k' \<longrightarrow> k' < rram_size m' \<longrightarrow>
        loadB h (rram_mem a m') k' = (if m' = m \<and> k' = k then Inr b else loadB (hub (rcore a)) (rram_mem a m') k')"
    using banks_store [OF banks_ready0 [OF r] mk] by blast
  have "rready0 (with_hub a h)"
    using r rready_hub [OF _ h(2)] rfresh_layout [OF _ h(2)] by (auto simp: rready0_def rperiod_def)
  then show "\<exists>a'. acc_store rram_accel0 a m k b = Inr a' \<and> rready0 a' \<and>
        (\<forall>m'\<in>{1, 2, 3}. \<forall>k'. 0 \<le> k' \<longrightarrow> k' < rram_size m' \<longrightarrow>
           acc_load rram_accel0 a' m' k' = (if m' = m \<and> k' = k then Inr b else acc_load rram_accel0 a m' k'))"
    using h by (simp add: rram_accel0_def rram_accel_def rram_mem_def with_hub_def)
qed

section \<open>The start-up request\<close>

lemma trigger_same: "triggerInterrupt rram_accel0 i s = triggerInterrupt rram_accel i s"
  by (simp add: triggerInterrupt_def rram_accel0_def)

lemma trigger_range:
  "triggerInterrupt A i s = Inr s' \<Longrightarrow> length (vdevs s) = 1 \<Longrightarrow>
   length (vdevs s') = 1 \<and> range_start (dev s') = range_start (dev s)"
  by (cases "i = 0") (auto simp: triggerInterrupt_def Let_def put_dev_def bindR_eq_Inr virtualDeviceInterrupt_def dev_def)

text \<open>The packets of the request: the counter 0, the command, and polls.\<close>

definition start_packet :: "64 word \<Rightarrow> packet \<Rightarrow> bool" where
  "start_packet lo pkt \<longleftrightarrow> pkt \<in> {WritePkt (lo + of_nat 1) [0], WritePkt (lo + of_nat 0) [VDEV_INIT], ReadPkt (lo + of_nat 0) [0]}"

lemma start_packet_same:
  assumes "start_packet lo pkt" "range_start (dev s) = lo"
  shows "vdev_access rram_accel0 0 pkt s = vdev_access rram_accel 0 pkt s"
  using assms by (auto simp: start_packet_def vdev_access_def Let_def rram_accel0_def rram_accel_def dev_def get_first_def start_request_def)

lemma forR_Nil: "forR body [] = Inr"
  by (rule ext) simp

lemma access_same:
  assumes "start_packet lo pkt" "range_start (dev s) = lo" "length (vdevs s) = 1"
  shows "cpu_access rram_accel0 it n pkt s = cpu_access rram_accel it n pkt s"
  using assms(2,3)
proof (induction n arbitrary: s)
  case (Suc n)
  have same: "vdev_access rram_accel0 0 pkt t = vdev_access rram_accel 0 pkt t" if "vdevs t = vdevs s" for t
    using start_packet_same [OF assms(1), of t] Suc.prems that by (simp add: dev_def)
  have send: "send_packets rram_accel0 [(0, pkt)] t = send_packets rram_accel [(0, pkt)] t" if "vdevs t = vdevs s" for t
    using same [OF that] by (simp add: send_packets_def recvAtomic_def forR_Nil)
  have tick: "sys_step rram_accel0 ([access_iter it pkt], False) s = sys_step rram_accel ([access_iter it pkt], False) s"
    by (auto simp: sys_step_def trigger_same cpu_tick_def access_iter_def send Let_def intro!: bindR_cong split: sysev.split prod.split)
  have int: "sys_step rram_accel0 ([], False) s = sys_step rram_accel ([], False) s"
    by (auto simp: sys_step_def trigger_same cpu_tick_def Let_def intro!: bindR_cong split: sysev.split prod.split)
  show ?case
  proof (cases "serviceOne (evq s)")
    case (Inr r)
    obtain e p q where r: "r = (e, p, q)" by (cases r)
    show ?thesis
    proof (cases "e = CpuTick \<and> p")
      case True
      then show ?thesis using Inr r same [of "at_tick q s"] tick by (simp add: at_tick_def)
    next
      case False
      have "length (vdevs s1) = 1 \<and> range_start (dev s1) = range_start (dev s)" if "sys_step rram_accel ([], False) s = Inr s1" for s1
        using that Inr r False Suc.prems(2) trigger_range [of rram_accel _ "s\<lparr>evq := q\<rparr>" s1]
        by (cases e) (auto simp: sys_step_def Let_def dev_def split: if_splits)
      then have "cpu_access rram_accel0 it n pkt s1 = cpu_access rram_accel it n pkt s1" if "sys_step rram_accel ([], False) s = Inr s1" for s1
        using that Suc.IH [of s1] Suc.prems(1) by simp
      then show ?thesis using Inr r False int by (auto intro!: bindR_cong)
    qed
  qed simp
qed simp

text \<open>The peripheral of the guarded chip and that of the real one do the same request.\<close>

definition one_at :: "64 word \<Rightarrow> 'a system \<Rightarrow> bool" where
  "one_at lo s \<longleftrightarrow> length (vdevs s) = 1 \<and> range_start (dev s) = lo"

lemma write_same:
  "one_at lo s \<Longrightarrow> start_packet lo (WritePkt (lo + of_nat off) [b]) \<Longrightarrow>
   p_write (sys_periph rram_accel0 it lo) off b s = p_write (sys_periph rram_accel it lo) off b s"
  using access_same [of lo "WritePkt (lo + of_nat off) [b]" s it] by (simp only: sys_periph_def periph.select_convs one_at_def)

lemma read_same:
  "one_at lo s \<Longrightarrow> p_read (sys_periph rram_accel0 it lo) 0 s = p_read (sys_periph rram_accel it lo) 0 s"
proof -
  assume o: "one_at lo s"
  have "start_packet lo (ReadPkt (lo + of_nat 0) [0])" by (simp add: start_packet_def)
  then have "cpu_access rram_accel0 it n (ReadPkt (lo + of_nat 0) [0]) s = cpu_access rram_accel it n (ReadPkt (lo + of_nat 0) [0]) s" for n
    by (rule access_same) (use o in \<open>simp_all add: one_at_def\<close>)
  then show ?thesis by (simp only: sys_periph_def periph.select_convs)
qed

interpretation boot_host: peripheral "sys_periph rram_accel0 it lo" rram_accel0 rram_size "sys_good rready0 it lo" sys_idle
    "\<lambda>s. aichip_of (dev s)" sys_fin "steps_left 0" max_polls
  for it lo
  by (rule boot.system_peripheral)

interpretation rram_host: peripheral "sys_periph rram_accel it lo" rram_accel rram_size "sys_good rram_ready it lo" sys_idle
    "\<lambda>s. aichip_of (dev s)" sys_fin "steps_left 0" max_polls
  for it lo
  by (rule accelerator.system_peripheral [OF rram.accelerator_axioms])

interpretation cnn_host: peripheral "sys_periph cnn_accel it lo" cnn_accel cnn_size "sys_good cnn_ready it lo" sys_idle
    "\<lambda>s. aichip_of (dev s)" sys_fin "steps_left 0" max_polls
  for it lo
  by (rule accelerator.system_peripheral [OF cnn.accelerator_axioms])

lemma good_at: "sys_good ready it lo n s \<Longrightarrow> one_at lo s"
  by (simp add: sys_good_def one_dev_def one_at_def)

lemma wait_same:
  "sys_good rready0 it lo (n + 2) s \<Longrightarrow> \<not> sys_idle s \<Longrightarrow>
   periWait (sys_periph rram_accel0 it lo) F s = periWait (sys_periph rram_accel it lo) F s"
proof (induction F arbitrary: s)
  case (Suc F)
  obtain s' v where r: "p_read (sys_periph rram_accel0 it lo) 0 s = Inr (s', v)"
     "if v AND VDEV_READY \<noteq> 0 then sys_good rready0 it lo n s' \<and> sys_idle s' \<and> sys_fin s' = acc_finished rram_accel0 (aichip_of (dev s))
      else sys_good rready0 it lo (n + 2) s' \<and> \<not> sys_idle s' \<and> steps_left 0 s' < steps_left 0 s"
    using boot_host.poll_busy [OF Suc.prems] by blast
  then have "p_read (sys_periph rram_accel it lo) 0 s = Inr (s', v)" using read_same [OF good_at [OF Suc.prems(1)]] by metis
  then show ?case using r Suc.IH [of s'] by (cases "v AND VDEV_READY = 0") simp_all
qed simp

text \<open>The request initialises the chip: its memories get their names, and nothing else changes.\<close>

lemma boot_init:
  assumes g: "sys_good rready0 it lo (n + 5) s" and i: "sys_idle s" and f: "rfresh (aichip_of (dev s))" and F: "max_polls < F"
  shows "\<exists>s'. periInit (sys_periph rram_accel it lo) F 0 s = Inr s' \<and> sys_good rram_ready it lo n s' \<and> sys_idle s' \<and>
     rready (aichip_of (dev s')) \<and> (\<exists>t. RChip_run (aichip_of (dev s)) = Inr (aichip_of (dev s'), t))"
proof -
  let ?G = "sys_periph rram_accel0 it lo" and ?Q = "sys_periph rram_accel it lo"
  have "sys_good rready0 it lo (Suc (n + 2 + 2)) s" using g by (simp add: eval_nat_numeral)
  then obtain s1 where s1: "p_write ?G 1 0 s = Inr s1" "sys_good rready0 it lo (n + 2 + 2) s1" "sys_idle s1"
      "aichip_of (dev s1) = acc_set_counter rram_accel0 0 (aichip_of (dev s))"
    using boot_host.counter_write i by blast
  obtain s2 t where s2: "p_write ?G 0 VDEV_INIT s1 = Inr s2" "sys_good rready0 it lo (n + 2) s2" "\<not> sys_idle s2"
      "acc_run rram_accel0 (aichip_of (dev s1)) = Inr (aichip_of (dev s2), t)"
    using boot_host.request [OF s1(2,3)] by blast
  have "steps_left 0 s2 < F" using boot_host.polls_limit [OF s2(2,3)] F by simp
  then obtain s3 where s3: "periWait ?G F s2 = Inr s3" "sys_good rready0 it lo n s3" "sys_idle s3"
      "aichip_of (dev s3) = aichip_of (dev s2)"
    using boot_host.wait_busy [OF s2(2,3)] by blast
  have "start_packet lo (WritePkt (lo + of_nat 1) [0])" "start_packet lo (WritePkt (lo + of_nat 0) [VDEV_INIT])"
    by (simp_all add: start_packet_def)
  then have "p_write ?Q 1 0 s = Inr s1" "p_write ?Q 0 VDEV_INIT s1 = Inr s2"
    using write_same [OF good_at [OF g]] write_same [OF good_at [OF s1(2)]] s1(1) s2(1) by metis+
  moreover have "periWait ?Q F s2 = Inr s3" using wait_same [OF s2(2,3)] s3(1) by simp
  ultimately have init: "periInit ?Q F 0 s = Inr s3" by (simp add: periInit_def)
  have c: "aichip_of (dev s1) = aichip_of (dev s)" using s1(4) f by (simp add: rram_accel0_def rfresh_def)
  have "dev_inv rready0 (evq s) (scpu s) 0 (dev s)"
    using g by (auto simp: sys_good_def one_dev_def run_good_def sys_inv_def dev_def)
  then have p: "rperiod (aichip_of (dev s))" by (simp add: dev_inv_def rready0_def)
  obtain h where h: "RChip_run (aichip_of (dev s)) = Inr ((aichip_of (dev s))\<lparr>rfinished := False, rcore := (rcore (aichip_of (dev s)))\<lparr>hub := h\<rparr>\<rparr>,
      rtickPerCycle (aichip_of (dev s)))" "rfull_map h"
    using fresh_run [OF f p] by blast
  have e: "RChip_run (aichip_of (dev s)) = Inr (aichip_of (dev s3), t)" using s2(4) c s3(4) by (simp add: rram_accel0_def rram_accel_def)
  then have c3: "aichip_of (dev s3) = (aichip_of (dev s))\<lparr>rfinished := False, rcore := (rcore (aichip_of (dev s)))\<lparr>hub := h\<rparr>\<rparr>"
    using h(1) by simp
  have r: "rready (aichip_of (dev s3))" "rperiod (aichip_of (dev s3))"
    unfolding c3 using h(2) f p by (simp_all add: rready_def rfresh_def rperiod_def)
  have "sys_good rram_ready it lo n s3"
    using s3(2) r by (auto simp: sys_good_def run_good_def sys_inv_def one_dev_def dev_inv_def rram_ready_def rperiod_def dev_def)
  then show ?thesis using init s3(3) r(1) e by blast
qed

lemma good_more: "sys_good ready it lo (Suc n) s \<Longrightarrow> sys_good ready it lo n s"
proof -
  assume g: "sys_good ready it lo (Suc n) s"
  have "T + (n + 3) * step_room 1 < 2 ^ 63" if "T + (Suc n + 3) * step_room 1 < 2 ^ 63" for T :: nat
    using that by (simp add: algebra_simps)
  then show "sys_good ready it lo n s" using g unfolding sys_good_def by blast
qed

lemma good_weaken: "sys_good ready it lo n s \<Longrightarrow> (\<And>a. ready a \<Longrightarrow> ready' a) \<Longrightarrow> sys_good ready' it lo n s"
  by (auto simp: sys_good_def run_good_def sys_inv_def dev_inv_def)

end
