(* ===== verification/Vdev_Props.thy ===== *)
theory Vdev_Props imports Vdev_Chips begin

text \<open>
  What the system of CPU, event queue and virtual devices guarantees, and where it faults.
\<close>

section \<open>Example systems\<close>

definition demo_vdev :: "'a \<Rightarrow> byte \<Rightarrow> 'a vdev" where
  "demo_vdev a p = \<lparr>vid = 0, aichip_of = a, range_start = 0x10000000, range_end = 0x10400000, delay_set = 200,
     delay_self = 0, delay_cpu_interrupt = 300, data_bandwidth = 0x3FF0000000000000,
     execution_state = (if bit p 1 then STATE_ACTIVE else STATE_IDLE), pmem = p\<rparr>"

definition demo_sys :: "'a \<Rightarrow> bool \<Rightarrow> 'a system" where
  "demo_sys a busy =
     \<lparr>evq = \<lparr>bins = (if busy then [[CpuTick], [VdevInt 0]] else [[CpuTick]]), curTick = 0,
        evs = (\<lambda>e. case e of CpuTick \<Rightarrow> \<lparr>ewhen = 1000, eprio = 50, escheduled = True, esquashed = False\<rparr>
                 | VdevInt i \<Rightarrow> \<lparr>ewhen = 5000, eprio = 0, escheduled = busy \<and> i = 0, esquashed = False\<rparr>)\<rparr>,
      scpu = \<lparr>lat_vdev = [1], status_vdev = [busy], vdev_set = False, vdev_set_latency = 0, in_interrupt = False,
        cpu_idle = False, cpu_period = 1000, sim_inst_stalls = False, sim_data_stalls = True\<rparr>,
      vdevs = [demo_vdev a (if busy then 2 else 12)]\<rparr>"

lemma demo_sys_good:
  assumes "ready a"
  shows "run_good ready 5000 (demo_sys a busy)"
proof -
  have b: "bit (12 :: byte) 1 = False" "bit (12 :: byte) 2" "bit (2 :: byte) 1" "bit (2 :: byte) 2 = False"
    by (simp_all add: bit_numeral_rec numeral_eq_Suc)
  have "q_ok (evq (demo_sys a busy))"
    by (auto simp: demo_sys_def q_ok_def bin_ok_def ev_lt_def ev_eq_def split: sysev.splits)
  then show ?thesis
    using assms b
    by (auto simp: run_good_def sys_inv_def dev_inv_def within_time_def demo_sys_def demo_vdev_def max_delay_def
        split: sysev.splits)
qed

lemma demo_transfer: "transfer_delay (demo_vdev a p) 4 = Inr 4"
  by (simp add: transfer_delay_def demo_vdev_def float_defs)

text \<open>A tick that reads the word after the two registers of the device.\<close>

definition demo_iter :: iter where
  "demo_iter = \<lparr>it_idle = False, it_fetch_ok = True, it_icache = True, it_icache_latency = 10,
     it_pkts = [(0, ReadPkt 0x10000004 [0, 0, 0, 0])], it_dcache = True, it_dcache_latency = 20, it_suspends = False\<rparr>"

lemma demo_packets:
  assumes "4096 \<le> msize 1"
  shows "packet_ok msize (demo_vdev a p) (ReadPkt 0x10000004 [0, 0, 0, 0])"
    "packet_ok msize (demo_vdev a p) (WritePkt 0x10000004 [1, 2, 3, 4])"
proof -
  have r: "range_start (demo_vdev a p) = 0x10000000" by (simp add: demo_vdev_def)
  have l: "length [0, 0, 0, 0 :: byte] = 4" "length [1, 2, 3, 4 :: byte] = 4" by simp_all
  show "packet_ok msize (demo_vdev a p) (ReadPkt 0x10000004 [0, 0, 0, 0])"
    "packet_ok msize (demo_vdev a p) (WritePkt 0x10000004 [1, 2, 3, 4])"
    using assms demo_transfer [of a p] unfolding packet_ok_def packet.case r l
    by (simp_all add: window_def max_delay_def)
qed

lemma demo_work:
  assumes "4096 \<le> msize 1"
  shows "work_ok msize 1 (vdevs (demo_sys a busy)) ([demo_iter], False)"
  using demo_packets(1) [where msize = msize and 'a = 'a, OF assms]
  by (simp add: work_ok_def iter_ok_def demo_iter_def demo_sys_def max_delay_def)

section \<open>Safety and progress\<close>







section \<open>Requests and faults\<close>

text \<open>requesting twice is requesting once: when a write of SET to the status register of a
  device has gone through, a second one before the interrupt changes nothing of the device, the
  CPU or the event queue.\<close>

theorem vdev_request_idempotent:
  assumes "i < length (vdevs s)" and "b AND VDEV_SET \<noteq> 0"
    and "vdev_access A i (WritePkt (range_start (vdevs s ! i)) (b # bs)) s = Inr (s1, p)"
  shows "vdev_access A i (WritePkt (range_start (vdevs s ! i)) (b # bs)) s1 = Inr (s1, p)"
proof -
  let ?d = "vdevs s ! i"
  have st: "start_request A i s = Inr s1" and p: "p = WritePkt (range_start ?d) (b # bs)"
    using assms(2,3) by (auto simp: vdev_access_def Let_def get_first_def bindR_eq_Inr)
  have "range_start (vdevs s1 ! i) = range_start ?d \<and> pmem (vdevs s1 ! i) AND VDEV_WORK \<noteq> 0"
  proof (cases "pmem ?d AND VDEV_WORK \<noteq> 0")
    case True
    then show ?thesis using st by (simp add: start_request_def Let_def)
  next
    case False
    then show ?thesis
      using st assms(1) request_bits(1) [of "pmem ?d"]
      by (auto simp: start_request_def Let_def bindR_eq_Inr put_dev_def flag_bits simp del: One_nat_def)
  qed
  then show ?thesis using assms(2) p by (simp add: vdev_access_def Let_def get_first_def start_request_def)
qed

theorem vdev_request_idempotent_witness:
  "\<exists>a s1 p. cnn_ready a \<and> vdev_access cnn_accel 0 (WritePkt 0x10000000 [1]) (demo_sys a False) = Inr (s1, p) \<and>
     vdev_access cnn_accel 0 (WritePkt 0x10000000 [1]) s1 = Inr (s1, p)"
proof -
  have t: "(0::int) \<le> 333" "333 \<le> max_period" by (simp_all add: max_period_def)
  obtain b where b: "chip_ready b" "tickPerCycle b = 333"
    using cnn_boot [OF t, of "\<lambda>_. 0" "\<lambda>_. 0" "\<lambda>_. 0"] by blast
  then have r: "cnn_ready b" by (simp add: cnn_ready_def max_period_def)
  have d: "vdevs (demo_sys b False) = [demo_vdev b 12]" by (simp add: demo_sys_def)
  have g: "sys_inv cnn_ready (demo_sys b False)" "within_time (2 ^ 40) (demo_sys b False)"
    using demo_sys_good [where ready = cnn_ready, OF r, of False] by (auto simp: run_good_def within_time_def)
  have c: "curTick (evq (demo_sys b False)) = 0" by (simp add: demo_sys_def)
  have room: "unat (curTick (evq (demo_sys b False))) + 2 * max_delay \<le> 2 ^ 40" "(2::nat) ^ 40 < 2 ^ 63"
    unfolding c by (simp_all add: max_delay_def)
  have i: "0 < length (vdevs (demo_sys b False))" using d by simp
  obtain s1 where s1: "start_request cnn_accel 0 (demo_sys b False) = Inr s1"
    using cnn.start_request_ok [OF g(1) i g(2) room] by blast
  have r0: "range_start (vdevs (demo_sys b False) ! 0) = 0x10000000" using d by (simp add: demo_vdev_def)
  have set: "(1 :: byte) AND VDEV_SET \<noteq> 0" by (simp add: VDEV_SET_def)
  have acc: "vdev_access cnn_accel 0 (WritePkt 0x10000000 [1]) (demo_sys b False) = Inr (s1, WritePkt 0x10000000 [1])"
    using s1 r0 set by (simp add: vdev_access_def Let_def get_first_def)
  show ?thesis
    using vdev_request_idempotent [of 0 "demo_sys b False" 1 cnn_accel "[]" s1 "WritePkt 0x10000000 [1]"] acc i r0 set r
    by auto
qed

lemma guard_same: "bindR (guardR b e) (\<lambda>_. Inl e) = Inl e"
  by (cases b) simp_all

text \<open>C32: an interrupt that comes while the CPU's tick is not scheduled - the CPU has been
  suspended - stops the simulator on an assertion of \<open>reschedule\<close>: the delay is applied to
  a tick event that must be on the queue.\<close>

theorem vdev_interrupt_suspended:
  assumes "pmem (vdevs s ! i) AND VDEV_WORK \<noteq> 0" and "\<not> escheduled (evs (evq s) CpuTick)"
    and "cpu_period (scpu s) \<noteq> 0"
  shows "triggerInterrupt A i s = Inl AssertFail"
  using assms by (simp add: triggerInterrupt_def Let_def virtualDeviceInterrupt_def virtualDeviceDelay_def
      reschedule_def put_dev_def guard_same)

definition suspend :: "'a system \<Rightarrow> 'a system" where
  "suspend s = s\<lparr>evq := (evq s)\<lparr>bins := [[VdevInt 0]],
     evs := (evs (evq s))(CpuTick := (evs (evq s) CpuTick)\<lparr>escheduled := False\<rparr>)\<rparr>\<rparr>"

theorem vdev_interrupt_suspended_witness:
  "\<forall>a. triggerInterrupt cnn_accel 0 (suspend (demo_sys a True)) = Inl AssertFail"
  by (intro allI vdev_interrupt_suspended) (simp_all add: suspend_def demo_sys_def demo_vdev_def VDEV_WORK_def)

text \<open>C33: the port checks no bound: a read in the first memory window of a device with an
  initialised RRAM chip, but beyond the 4096 bytes of that memory, leaves the array.\<close>

theorem vdev_window_unchecked:
  assumes "rram_ready (aichip_of (vdevs s ! i))" and "addr = range_start (vdevs s ! i) + word_of_int (2 + k)"
    and "4096 \<le> k" "k < 1048576"
  shows "vdev_access rram_accel i (ReadPkt addr (b # buf)) s = Inl OutOfBounds"
proof -
  let ?a = "aichip_of (vdevs s ! i)"
  have o: "addr - range_start (vdevs s ! i) = word_of_int (2 + k)" using assms(2) by simp
  have u: "uint (word_of_int (2 + k) :: 64 word) = 2 + k"
    unfolding uint_word_of_int using assms(3,4) by simp
  have n: "(word_of_int (2 + k) :: 64 word) \<noteq> 0" "(word_of_int (2 + k) :: 64 word) \<noteq> 1"
    using u assms(3) by (auto simp: word_uint_eq_iff)
  have w: "window (word_of_int (2 + k)) = (1, k)" using u assms(4) by (simp add: window_def word_less_def)
  have "M = \<lparr>pblk = 0, poff = 0\<rparr> \<and> blen (heap (hub (rcore ?a)) ! 0) = 1024" if "M = rram_mem ?a 1" for M
    using rram_banks [OF assms(1)] that by (simp add: banks_def rram_size_def)
  then have "loadB (hub (rcore ?a)) (rram_mem ?a 1) k = Inl OutOfBounds"
    using assms(3) zdiv_mono1 [OF assms(3), of 4] by (simp add: loadB_def loadF_def ptr_valid_def ptr_add_def)
  then have "read_bytes rram_accel ?a 1 k (length (b # buf)) = Inl OutOfBounds" by (simp add: rram_accel_def)
  then show ?thesis unfolding vdev_access_def Let_def packet.case o using n w by (simp only: if_False fst_conv snd_conv bindR_Inl)
qed

theorem vdev_window_unchecked_witness:
  "\<exists>a. rram_ready a \<and> vdev_access rram_accel 0 (ReadPkt 0x10001002 [0]) (demo_sys a False) = Inl OutOfBounds"
proof -
  have t: "(0::int) \<le> 333" "333 \<le> max_rperiod" by (simp_all add: max_rperiod_def)
  obtain b where "rsteady b"
    using rchip_boot [OF t, of "\<lambda>_. 0" "\<lambda>_. 0" "\<lambda>_. 0" "blank_array 0" True] by blast
  then have r: "rram_ready b" by (simp add: rsteady_def rram_ready_def)
  have d: "vdevs (demo_sys b False) = [demo_vdev b 12]" by (simp add: demo_sys_def)
  show ?thesis
    using vdev_window_unchecked [of "demo_sys b False" 0 "0x10001002" 4096 0 "[]"] r d by (auto simp: demo_vdev_def)
qed

end
