(* ===== verification/Host_Props.thy ===== *)
theory Host_Props imports Host_Boot Vdev_Props begin

text \<open>
  The host program, the simulated CPU and event queue, the virtual device and the RRAM chip
  together: requests return, and the program computes the same results in both weight
  loading modes.
\<close>

section \<open>The whole program\<close>

definition main_rounds :: "junk \<Rightarrow> nat" where
  "main_rounds junk = layer_rounds * 3 + image_rounds * length junk + 5"

text \<open>A system whose only device contains \<open>a\<close> and is idle, with time for \<open>n\<close> rounds.\<close>

definition holds_chip :: "iter \<Rightarrow> 64 word \<Rightarrow> nat \<Rightarrow> 'a \<Rightarrow> 'a system \<Rightarrow> bool" where
  "holds_chip it lo n a s \<longleftrightarrow> sys_good (\<lambda>x. x = a) it lo n s \<and> sys_idle s"

lemma holds_chip_is: "holds_chip it lo n a s \<Longrightarrow> aichip_of (dev s) = a"
  by (auto simp: holds_chip_def sys_good_def one_dev_def run_good_def sys_inv_def dev_inv_def dev_def)

lemma main_started:
  assumes s: "holds_chip it lo (main_rounds junk) a s" and a: "RChip_new j1 j2 j3 arr once = Inr a0" "a = a0\<lparr>rtickPerCycle := p\<rparr>"
    and p: "0 \<le> p" "p \<le> max_rperiod" and n: "noise arr = (\<lambda>_. c)" and F: "max_polls < F"
  shows "\<exists>s1. periInit (sys_periph rram_accel it lo) F 0 s = Inr s1 \<and> sys_idle s1 \<and> rnew c once (aichip_of (dev s1)) \<and>
     sys_good rram_ready it lo (layer_rounds * 3 + image_rounds * length junk) s1"
proof -
  have c: "aichip_of (dev s) = a" by (rule holds_chip_is [OF s])
  have f: "rfresh a" "rperiod a" "\<not> weight_loaded a" "load_once a = once" "array a = arr"
    using rchip_new [of j1 j2 j3 arr once] a p by (auto simp: rfresh_def rperiod_def)
  have "sys_good rready0 it lo (layer_rounds * 3 + image_rounds * length junk + 5) s"
    using s f(1,2) good_weaken [where ready' = rready0] by (auto simp: holds_chip_def main_rounds_def rready0_def)
  then obtain s1 t where s1: "periInit (sys_periph rram_accel it lo) F 0 s = Inr s1" "sys_idle s1"
      "sys_good rram_ready it lo (layer_rounds * 3 + image_rounds * length junk) s1" "rready (aichip_of (dev s1))"
      "RChip_run a = Inr (aichip_of (dev s1), t)"
    using boot_init [OF _ _ _ F] s f(1) c unfolding holds_chip_def by metis
  obtain h where "RChip_run a = Inr (a\<lparr>rfinished := False, rcore := (rcore a)\<lparr>hub := h\<rparr>\<rparr>, rtickPerCycle a)"
    using fresh_run [OF f(1,2)] by blast
  then have "aichip_of (dev s1) = a\<lparr>rfinished := False, rcore := (rcore a)\<lparr>hub := h\<rparr>\<rparr>" using s1(5) by simp
  then have "rnew c once (aichip_of (dev s1))" using s1(4) f n by (simp add: rnew_def rperiod_def)
  then show ?thesis using s1(1-3) by blast
qed

lemma main_runs:
  assumes s: "holds_chip it lo (main_rounds junk) a s" and a: "RChip_new j1 j2 j3 arr once = Inr a0" "a = a0\<lparr>rtickPerCycle := p\<rparr>"
    and p: "0 \<le> p" "p \<le> max_rperiod" and n: "noise arr = (\<lambda>_. c)" and F: "max_polls < F"
    and w: "load_weights fs zero_weights = Inr w" and im: "bin_file fs ''data/images-mnist-test-01347'' = Some imgs"
    and la: "bin_file fs ''data/labels-mnist-test-01347'' = Some labels"
  shows "\<exists>x. rnew c once x \<and> (\<forall>y bs. acc_main rram_accel (layers_sent once w) (images_of junk imgs) x = Inr (y, bs) \<longrightarrow>
     (\<exists>s'. host_main (sys_periph rram_accel it lo) F fs once junk tbuf s =
        Inr (s', results junk bs, count_correct (results junk bs) (fst (fread (length junk) tbuf labels)))))"
proof -
  obtain s1 where s1: "periInit (sys_periph rram_accel it lo) F 0 s = Inr s1" "sys_idle s1" "rnew c once (aichip_of (dev s1))"
     "sys_good rram_ready it lo (layer_rounds * 3 + image_rounds * length junk) s1"
    using main_started [OF s a p n F] by blast
  have sz: "784 \<le> rram_size 2" "1 \<le> rram_size 1" "3194880 \<le> rram_size 3" by (simp_all add: rram_size_def)
  obtain s' bs where "main_body (sys_periph rram_accel it lo) F fs once junk tbuf s1 = Inr (s', results junk bs,
        count_correct (results junk bs) (fst (fread (length junk) tbuf labels)))"
     "acc_main rram_accel (layers_sent once w) (images_of junk imgs) (aichip_of (dev s1)) = Inr (aichip_of (dev s'), bs)"
    using rram_host.main_body_ok [OF s1(4,2) sz F good_more rram_answers w im la] by blast
  then show ?thesis using s1(1,3) by (intro exI [of _ "aichip_of (dev s1)"]) (simp add: host_main_def)
qed


text \<open>\<open>periRead\<close> sets one byte of an \<open>int\<close> that nothing has initialised: if one of the other
  bytes is not zero, the result is never counted as correct, whatever the class.\<close>

lemma junk_never_correct:
  assumes "drop_bit 8 r0 \<noteq> 0"
  shows "sint (with_byte r0 0 b) \<noteq> uint (t :: byte)"
proof
  assume e: "sint (with_byte r0 0 b) = uint t"
  obtain n where n: "bit r0 (8 + n)" using assms by (auto simp: bit_eq_iff bit_simps)
  then have "bit (with_byte r0 0 b) (8 + n)" using bit_imp_le_length [OF n]
    by (simp add: with_byte_def bit_simps)
  then have "bit (sint (with_byte r0 0 b)) (8 + n)" using bit_imp_le_length [OF n] by (simp add: bit_sint_iff min_def)
  then show False unfolding e using bit_imp_le_length [of t "8 + n"] by (simp add: bit_uint_iff)
qed

section \<open>A concrete run\<close>

lemma demo_holds:
  assumes "n \<le> 4000000"
  shows "holds_chip demo_iter 0x10000000 n a (demo_sys a False)"
proof -
  let ?s = "demo_sys a False"
  have "run_good (\<lambda>x. x = a) (5000 + step_room 1) ?s"
    using demo_sys_good [where ready = "\<lambda>x. x = a" and a = a, OF refl, of False]
    by (auto simp: run_good_def within_time_def intro: trans_le_add1)
  moreover have "(n + 3) * step_room 1 \<le> 4000003 * step_room 1" using assms by (intro mult_le_mono1) simp
  then have "5000 + (n + 3) * step_room 1 < 2 ^ 63" by (simp add: step_room_def max_delay_def)
  moreover have "\<not> bit (12 :: byte) 1" by (simp add: bit_numeral_rec numeral_eq_Suc)
  moreover have "one_dev 0x10000000 ?s"
  proof -
    have "transfer_delay (dev ?s) 1 = Inr 1" by (simp add: transfer_delay_def dev_def demo_sys_def demo_vdev_def float_defs)
    then show ?thesis by (auto simp: one_dev_def max_delay_def) (simp_all add: dev_def demo_sys_def demo_vdev_def)
  qed
  moreover have "iter_times demo_iter" by (simp add: iter_times_def demo_iter_def max_delay_def)
  moreover have "pmem (dev ?s) = 12" by (simp add: dev_def demo_sys_def demo_vdev_def)
  ultimately show ?thesis unfolding holds_chip_def sys_good_def sys_idle_def by auto
qed

definition empty_files :: files where
  "empty_files = \<lparr>int_file = (\<lambda>_. Some []), float_file = (\<lambda>_. Some []), bin_file = (\<lambda>_. Some [])\<rparr>"

lemma empty_weights: "okR (load_weights empty_files zero_weights)"
  by (simp add: load_weights_def read_weights_def read_fc_def read_bns_def read_bn_def fopen_def empty_files_def)


text \<open>C5: the driver's request returns: on every state of the system of CPU, event queue and
  one device with a CNN chip in which the device is idle and there is time for five more
  rounds of the event queue, \<open>periInit\<close> with any counter ends within \<open>max_polls\<close> polls of the
  status register, the accelerator has run once with that counter, and the device is idle
  again with the FINISH flag of that run.\<close>

theorem host_request_returns:
  assumes "sys_good cnn_ready it lo (n + 5) s" and "sys_idle s" and "max_polls < F"
  shows "\<exists>s' t. periInit (sys_periph cnn_accel it lo) F c s = Inr s' \<and> sys_good cnn_ready it lo n s' \<and> sys_idle s' \<and>
     AIChip_run ((aichip_of (dev s))\<lparr>counter := c\<rparr>) = Inr (aichip_of (dev s'), t) \<and> sys_fin s' = finished (aichip_of (dev s'))"
  using cnn_host.init_ok [OF assms, of c] by (simp add: cnn_accel_def)

theorem host_request_returns_witness:
  "\<exists>a s'. cnn_ready a \<and> periInit (sys_periph cnn_accel demo_iter 0x10000000) (Suc max_polls) 3 (demo_sys a False) = Inr s' \<and> sys_idle s'"
proof -
  have t: "(0::int) \<le> 333" "333 \<le> max_period" by (simp_all add: max_period_def)
  obtain b where b: "chip_ready b" "tickPerCycle b = 333"
    using cnn_boot [OF t, of "\<lambda>_. 0" "\<lambda>_. 0" "\<lambda>_. 0"] by blast
  have r: "cnn_ready b" using b by (simp add: cnn_ready_def max_period_def)
  have h: "holds_chip demo_iter 0x10000000 (0 + 5) b (demo_sys b False)" by (rule demo_holds) simp
  then have g: "sys_good cnn_ready demo_iter 0x10000000 (0 + 5) (demo_sys b False)" "sys_idle (demo_sys b False)"
    using good_weaken [where ready' = cnn_ready] r by (auto simp: holds_chip_def)
  show ?thesis using host_request_returns [OF g lessI, of 3] r by blast
qed

end
