(* ===== verification/Sat_Counter.thy ===== *)
theory Sat_Counter imports Intmath begin

text \<open>
  Saturating counters (cpu/pred/sat_counter.hh), the tables of them the branch predictors
  keep, and the interface a direction predictor offers to the prediction unit.
\<close>

unbundle bit_operations_syntax

type_synonym u32 = "32 word"
type_synonym addr = "64 word"

section \<open>The counter\<close>

record satctr =
  initialVal :: byte
  maxVal :: byte
  satval :: byte

text \<open>\<open>(1 << bits) - 1\<close> on \<open>int\<close>, stored in a byte.\<close>

definition max_of :: "u32 \<Rightarrow> byte res" where
  "max_of nb = (if nb < 31 then Inr (word_of_int (2 ^ unat nb - 1)) else Inl Undefined)"

text \<open>The default constructor leaves \<open>maxVal\<close> as it finds it.\<close>

definition SatCounter_default :: "byte \<Rightarrow> satctr" where
  "SatCounter_default junk = \<lparr>initialVal = 0, maxVal = junk, satval = 0\<rparr>"

definition SatCounter_bits :: "u32 \<Rightarrow> satctr res" where
  "SatCounter_bits nb = bindR (max_of nb) (\<lambda>m. Inr \<lparr>initialVal = 0, maxVal = m, satval = 0\<rparr>)"

definition SatCounter_init :: "u32 \<Rightarrow> byte \<Rightarrow> satctr res" where
  "SatCounter_init nb v =
     bindR (max_of nb) (\<lambda>m. if m < v then Inl FatalError else Inr \<lparr>initialVal = v, maxVal = m, satval = v\<rparr>)"

definition setBits :: "u32 \<Rightarrow> satctr \<Rightarrow> satctr res" where
  "setBits nb c = bindR (max_of nb) (\<lambda>m. Inr (c\<lparr>maxVal := m\<rparr>))"

definition sat_reset :: "satctr \<Rightarrow> satctr" where
  "sat_reset c = c\<lparr>satval := initialVal c\<rparr>"

definition increment :: "satctr \<Rightarrow> satctr" where
  "increment c = (if satval c < maxVal c then c\<lparr>satval := satval c + 1\<rparr> else c)"

definition decrement :: "satctr \<Rightarrow> satctr" where
  "decrement c = (if 0 < satval c then c\<lparr>satval := satval c - 1\<rparr> else c)"

definition sat_read :: "satctr \<Rightarrow> byte" where
  "sat_read c = satval c"

section \<open>Tables of counters\<close>

definition at_idx :: "'x list \<Rightarrow> u32 \<Rightarrow> 'x res" where
  "at_idx xs i = (if unat i < length xs then Inr (xs ! unat i) else Inl OutOfBounds)"

definition upd_idx :: "u32 \<Rightarrow> ('x \<Rightarrow> 'x) \<Rightarrow> 'x list \<Rightarrow> 'x list res" where
  "upd_idx i f xs = (if unat i < length xs then Inr (xs[unat i := f (xs ! unat i)]) else Inl OutOfBounds)"

text \<open>\<open>resize\<close> and the loop that sets the width of every counter.\<close>

fun mapR :: "('x \<Rightarrow> 'y res) \<Rightarrow> 'x list \<Rightarrow> 'y list res" where
  "mapR f [] = Inr []"
| "mapR f (x # xs) = bindR (f x) (\<lambda>y. bindR (mapR f xs) (\<lambda>ys. Inr (y # ys)))"

definition ctr_table :: "u32 \<Rightarrow> u32 \<Rightarrow> byte \<Rightarrow> satctr list res" where
  "ctr_table n nb junk = mapR (setBits nb) (replicate (unat n) (SatCounter_default junk))"

text \<open>One step of training, and the outcome of comparing with a threshold of half the range.\<close>

definition train :: "bool \<Rightarrow> satctr \<Rightarrow> satctr" where
  "train taken = (if taken then increment else decrement)"

definition threshold_of :: "u32 \<Rightarrow> u32 res" where
  "threshold_of nb =
     (if 1 \<le> nb \<and> nb \<le> 64 then Inr (ucast (push_bit (unat (nb - 1)) (1 :: 64 word) - 1)) else Inl Undefined)"

definition above :: "u32 \<Rightarrow> satctr \<Rightarrow> bool" where
  "above t c \<longleftrightarrow> t < ucast (sat_read c)"

text \<open>\<open>(branch_addr >> instShiftAmt) ^ x & m\<close>, narrowed to \<open>unsigned\<close>.\<close>

definition pc_index :: "u32 \<Rightarrow> addr \<Rightarrow> u32 \<Rightarrow> u32 \<Rightarrow> u32 res" where
  "pc_index shift a x m =
     (if shift < 64 then Inr (ucast ((drop_bit (unat shift) a XOR ucast x) AND ucast m)) else Inl Undefined)"

section \<open>The interface of a direction predictor\<close>

text \<open>What \<open>BPredUnit\<close> calls of its subclasses.  The history pointer a prediction leaves is an
  option: \<open>None\<close> is the null pointer.\<close>

record ('p, 'h) bp_ops =
  bp_lookup :: "addr \<Rightarrow> 'p \<Rightarrow> (bool \<times> 'h option \<times> 'p) res"
  bp_uncond :: "addr \<Rightarrow> 'p \<Rightarrow> ('h option \<times> 'p) res"
  bp_btb :: "addr \<Rightarrow> 'h option \<Rightarrow> 'p \<Rightarrow> 'p res"
  bp_update :: "addr \<Rightarrow> bool \<Rightarrow> 'h option \<Rightarrow> bool \<Rightarrow> 'p \<Rightarrow> 'p res"
  bp_squash :: "'h option \<Rightarrow> 'p \<Rightarrow> 'p res"
  bp_retire :: "'h option \<Rightarrow> 'p \<Rightarrow> 'p res"

text \<open>The contract: an invariant of the predictor's state and a condition on the histories it
  hands out under which no operation fails.\<close>

locale direction_predictor =
  fixes P :: "('p, 'h) bp_ops"
    and inv :: "'p \<Rightarrow> bool"
    and hok :: "'h option \<Rightarrow> bool"
  assumes lookup_keeps: "inv p \<Longrightarrow> \<exists>b h p'. bp_lookup P a p = Inr (b, h, p') \<and> hok h \<and> inv p'"
    and uncond_keeps: "inv p \<Longrightarrow> \<exists>h p'. bp_uncond P a p = Inr (h, p') \<and> hok h \<and> inv p'"
    and btb_keeps: "inv p \<Longrightarrow> hok h \<Longrightarrow> \<exists>p'. bp_btb P a h p = Inr p' \<and> inv p'"
    and update_keeps: "inv p \<Longrightarrow> hok h \<Longrightarrow> \<exists>p'. bp_update P a t h sq p = Inr p' \<and> inv p'"
    and squash_keeps: "inv p \<Longrightarrow> hok h \<Longrightarrow> \<exists>p'. bp_squash P h p = Inr p' \<and> inv p'"
    and retire_keeps: "inv p \<Longrightarrow> hok h \<Longrightarrow> \<exists>p'. bp_retire P h p = Inr p' \<and> inv p'"

section \<open>Facts\<close>

definition sat_ok :: "byte \<Rightarrow> satctr \<Rightarrow> bool" where
  "sat_ok m c \<longleftrightarrow> maxVal c = m \<and> satval c \<le> m"

lemma dec_value: "0 < x \<Longrightarrow> unat (x - 1) = unat x - 1" for x :: "'a::len word"
  by (rule unat_minus_one) (simp add: word_gt_0)

lemma inc_value: "x < m \<Longrightarrow> unat (x + 1) = unat x + 1" for x :: "'a::len word"
proof -
  assume "x < m"
  then have "unat x < unat m" by (simp add: word_less_nat_alt)
  moreover have "unat m < 2 ^ LENGTH('a)" by (rule unsigned_less)
  ultimately have "unat x + 1 < 2 ^ LENGTH('a)" by linarith
  then show ?thesis using unat_add_lem [of x 1] by simp
qed

lemma sat_inc: "sat_ok m c \<Longrightarrow> sat_ok m (increment c)"
  using inc_value [of "satval c" m] by (auto simp: sat_ok_def increment_def word_le_nat_alt word_less_nat_alt)

lemma sat_dec: "sat_ok m c \<Longrightarrow> sat_ok m (decrement c)"
  using dec_value [of "satval c"] by (auto simp: sat_ok_def decrement_def word_le_nat_alt)

lemma sat_train: "sat_ok m c \<Longrightarrow> sat_ok m (train t c)"
  by (simp add: train_def sat_inc sat_dec)

text \<open>The value of a counter as a number, which moves by one inside its range.\<close>

lemma increment_value: "sat_ok m c \<Longrightarrow> unat (satval (increment c)) = min (unat m) (unat (satval c) + 1)"
  using inc_value [of "satval c" m] by (auto simp: sat_ok_def increment_def word_less_nat_alt word_le_nat_alt)

lemma decrement_value: "unat (satval (decrement c)) = unat (satval c) - 1"
  using dec_value [of "satval c"] by (auto simp: decrement_def word_gt_0)

lemma max_of_value: "nb \<le> 8 \<Longrightarrow> \<exists>m. max_of nb = Inr m \<and> unat m = 2 ^ unat nb - 1"
proof -
  assume b: "nb \<le> 8"
  then have u: "unat nb \<le> 8" by (simp add: word_le_nat_alt)
  have "(2::nat) ^ unat nb \<le> 2 ^ 8" using u by (intro power_increasing) simp_all
  then have "int ((2::nat) ^ unat nb) \<le> int (2 ^ 8)" by (simp only: of_nat_le_iff)
  then have r: "(0::int) \<le> 2 ^ unat nb - 1" "(2::int) ^ unat nb - 1 < 256" by simp_all
  then have "uint (word_of_int (2 ^ unat nb - 1) :: byte) = 2 ^ unat nb - 1"
    unfolding uint_word_of_int by (intro mod_pos_pos_trivial) simp_all
  then have "unat (word_of_int (2 ^ unat nb - 1) :: byte) = nat (2 ^ unat nb - 1)" by (simp only: unat_eq_nat_uint)
  then have "unat (word_of_int (2 ^ unat nb - 1) :: byte) = 2 ^ unat nb - 1"
    by (simp only: nat_diff_distrib' zero_le_power zero_le_numeral nat_power_eq nat_numeral zero_le_one nat_1 One_nat_def)
  moreover have "nb < 31" using u by (simp add: word_less_nat_alt)
  ultimately show ?thesis by (simp add: max_of_def)
qed

lemma mapR_same: "(\<And>x. x \<in> set xs \<Longrightarrow> f x = Inr (g x)) \<Longrightarrow> mapR f xs = Inr (map g xs)"
  by (induction xs) simp_all

definition table_ok :: "u32 \<Rightarrow> byte \<Rightarrow> satctr list \<Rightarrow> bool" where
  "table_ok n m cs \<longleftrightarrow> length cs = unat n \<and> list_all (sat_ok m) cs"

lemma ctr_table_ok:
  assumes "max_of nb = Inr m"
  shows "ctr_table n nb junk = Inr (replicate (unat n) \<lparr>initialVal = 0, maxVal = m, satval = 0\<rparr>) \<and>
    table_ok n m (replicate (unat n) \<lparr>initialVal = 0, maxVal = m, satval = 0\<rparr>)"
proof -
  have "mapR (setBits nb) (replicate (unat n) (SatCounter_default junk)) =
     Inr (map (\<lambda>c. c\<lparr>maxVal := m\<rparr>) (replicate (unat n) (SatCounter_default junk)))"
    by (rule mapR_same) (simp add: setBits_def assms)
  then show ?thesis
    by (simp add: ctr_table_def SatCounter_default_def table_ok_def sat_ok_def list_all_iff)
qed

lemma at_idx_ok: "table_ok n m cs \<Longrightarrow> i < n \<Longrightarrow> at_idx cs i = Inr (cs ! unat i) \<and> sat_ok m (cs ! unat i)"
  by (simp add: table_ok_def at_idx_def word_less_nat_alt list_all_length)

lemma upd_idx_ok:
  assumes "table_ok n m cs" "i < n"
  shows "\<exists>cs'. upd_idx i (train t) cs = Inr cs' \<and> table_ok n m cs'"
  using assms by (auto simp: table_ok_def upd_idx_def word_less_nat_alt list_all_length nth_list_update sat_train)

lemma and_pred_less: "0 < n \<Longrightarrow> x AND (n - 1) < n" for n :: "'a::len word"
  by (metis word_and_le1 order_le_less_trans word_gt_0 word_less_nat_alt unat_minus_one diff_less unat_gt_0 zero_less_one)

lemma pc_index_less:
  assumes "shift < 64" "0 < n"
  shows "\<exists>i. pc_index shift a x (n - 1) = Inr i \<and> i < n"
proof -
  have "(ucast ((drop_bit (unat shift) a XOR ucast x) AND ucast (n - 1)) :: u32) =
     ucast (drop_bit (unat shift) a XOR ucast x :: addr) AND (n - 1)"
    by (rule bit_word_eqI) (auto simp: bit_simps)
  then show ?thesis using assms and_pred_less [OF assms(2)] by (simp add: pc_index_def)
qed

lemma byte_u32: "unat (ucast (x :: byte) :: u32) = unat x"
proof -
  have "unat x < 2 ^ LENGTH(8)" by (rule unsigned_less)
  then have "unat x < 2 ^ 32" by simp
  then show ?thesis by (simp add: unsigned_ucast_eq take_bit_nat_eq_self)
qed

lemma threshold_value: "1 \<le> nb \<Longrightarrow> nb \<le> 8 \<Longrightarrow> \<exists>t. threshold_of nb = Inr t \<and> unat t = 2 ^ (unat nb - 1) - 1"
proof -
  assume b: "1 \<le> nb" "nb \<le> 8"
  then have u: "unat nb \<le> 8" "1 \<le> unat nb" by (simp_all add: word_le_nat_alt)
  have n: "unat (nb - 1) = unat nb - 1" using b(1) by (simp add: unat_sub)
  have "push_bit (unat nb - 1) (1 :: 64 word) - 1 = mask (unat nb - 1)" by (simp add: mask_eq_decr_exp)
  moreover have "(ucast (mask (unat nb - 1) :: 64 word) :: u32) = mask (unat nb - 1)"
    by (rule bit_word_eqI) (auto simp: bit_simps)
  moreover have "unat (mask (unat nb - 1) :: u32) = 2 ^ (unat nb - 1) - 1"
  proof -
    have "uint (mask (unat nb - 1) :: u32) = mask (unat nb - 1)" using u by (simp add: uint_mask_eq min_def)
    then have "unat (mask (unat nb - 1) :: u32) = nat (2 ^ (unat nb - 1) - 1)"
      by (simp only: unat_eq_nat_uint mask_eq_exp_minus_1)
    then show ?thesis by (simp only: nat_diff_distrib' zero_le_power zero_le_numeral nat_power_eq nat_numeral zero_le_one nat_1 One_nat_def)
  qed
  moreover have "nb \<le> 64" using u by (simp add: word_le_nat_alt)
  ultimately show ?thesis using b(1) n by (simp add: threshold_of_def)
qed

end
