(* ===== verification/Btb_Ras.thy ===== *)
theory Btb_Ras imports Sat_Counter begin

text \<open>
  The branch target buffer (cpu/pred/btb.cc) and the return address stack (cpu/pred/ras.cc).
  Targets are of the instruction set's type \<open>PCState\<close>, here a type variable.
\<close>

unbundle bit_operations_syntax

section \<open>The branch target buffer\<close>

record 'pc btbentry =
  b_tag :: addr
  b_target :: 'pc
  b_tid :: int
  b_valid :: bool

record 'pc btb =
  btb_entries :: "'pc btbentry list"
  btb_num :: u32
  btb_idxMask :: u32
  btb_tagBits :: u32
  btb_tagMask :: u32
  btb_shift :: u32
  btb_tagShift :: u32

text \<open>\<open>zero\<close> is \<open>PCState(0)\<close>; the constructor of an entry leaves its thread as it finds it.\<close>

definition DefaultBTB_new :: "'pc \<Rightarrow> u32 \<Rightarrow> u32 \<Rightarrow> u32 \<Rightarrow> int \<Rightarrow> 'pc btb res" where
  "DefaultBTB_new zero n tagBits shift junk =
     bindR (guardR (isPowerOf2 n) FatalError) (\<lambda>_.
     bindR (guardR (tagBits < 31) Undefined) (\<lambda>_.
     bindR (floorLog2_32 n) (\<lambda>lg.
     Inr \<lparr>btb_entries = replicate (unat n) \<lparr>b_tag = 0, b_target = zero, b_tid = junk, b_valid = False\<rparr>,
          btb_num = n, btb_idxMask = n - 1, btb_tagBits = tagBits, btb_tagMask = push_bit (unat tagBits) 1 - 1,
          btb_shift = shift, btb_tagShift = shift + of_nat lg\<rparr>)))"

definition BTB_reset :: "'pc btb \<Rightarrow> 'pc btb" where
  "BTB_reset b = b\<lparr>btb_entries := map (\<lambda>e. e\<lparr>b_valid := False\<rparr>) (btb_entries b)\<rparr>"

definition getIndex :: "'pc btb \<Rightarrow> addr \<Rightarrow> u32 res" where
  "getIndex b pc = pc_index (btb_shift b) pc 0 (btb_idxMask b)"

definition getTag :: "'pc btb \<Rightarrow> addr \<Rightarrow> addr res" where
  "getTag b pc =
     (if btb_tagShift b < 64 then Inr (drop_bit (unat (btb_tagShift b)) pc AND ucast (btb_tagMask b)) else Inl Undefined)"

definition entry_hit :: "addr \<Rightarrow> int \<Rightarrow> 'pc btbentry \<Rightarrow> bool" where
  "entry_hit tag tid e \<longleftrightarrow> b_valid e \<and> tag = b_tag e \<and> b_tid e = tid"

definition BTB_valid :: "'pc btb \<Rightarrow> addr \<Rightarrow> int \<Rightarrow> bool res" where
  "BTB_valid b pc tid =
     bindR (getIndex b pc) (\<lambda>i. bindR (getTag b pc) (\<lambda>tag.
     bindR (guardR (i < btb_num b) AssertFail) (\<lambda>_.
     bindR (at_idx (btb_entries b) i) (\<lambda>e. Inr (entry_hit tag tid e)))))"

definition BTB_lookup :: "'pc \<Rightarrow> 'pc btb \<Rightarrow> addr \<Rightarrow> int \<Rightarrow> 'pc res" where
  "BTB_lookup zero b pc tid =
     bindR (getIndex b pc) (\<lambda>i. bindR (getTag b pc) (\<lambda>tag.
     bindR (guardR (i < btb_num b) AssertFail) (\<lambda>_.
     bindR (at_idx (btb_entries b) i) (\<lambda>e. Inr (if entry_hit tag tid e then b_target e else zero)))))"

definition BTB_update :: "addr \<Rightarrow> 'pc \<Rightarrow> int \<Rightarrow> 'pc btb \<Rightarrow> 'pc btb res" where
  "BTB_update pc target tid b =
     bindR (getIndex b pc) (\<lambda>i.
     bindR (guardR (i < btb_num b) AssertFail) (\<lambda>_.
     bindR (getTag b pc) (\<lambda>tag.
     bindR (upd_idx i (\<lambda>e. e\<lparr>b_tid := tid, b_valid := True, b_target := target, b_tag := tag\<rparr>) (btb_entries b)) (\<lambda>es.
     Inr (b\<lparr>btb_entries := es\<rparr>)))))"

subsection \<open>Refinement of a map\<close>

definition btb_ok :: "'pc btb \<Rightarrow> bool" where
  "btb_ok b \<longleftrightarrow> btb_shift b < 64 \<and> btb_tagShift b < 64 \<and> 0 < btb_num b \<and> btb_idxMask b = btb_num b - 1 \<and>
     length (btb_entries b) = unat (btb_num b)"

lemma btb_place:
  assumes "btb_ok b"
  shows "\<exists>i tag. getIndex b pc = Inr i \<and> i < btb_num b \<and> unat i < length (btb_entries b) \<and> getTag b pc = Inr tag"
  using assms pc_index_less [of "btb_shift b" "btb_num b" pc 0]
  by (auto simp: btb_ok_def getIndex_def getTag_def word_less_nat_alt)

text \<open>The last of a list of updates that went to the entry of \<open>pc\<close>.\<close>

fun last_update :: "'pc btb \<Rightarrow> addr \<Rightarrow> (addr \<times> 'pc \<times> int) list \<Rightarrow> (addr \<times> 'pc \<times> int) option" where
  "last_update b pc [] = None"
| "last_update b pc (u # us) =
     (case last_update b pc us of Some v \<Rightarrow> Some v
      | None \<Rightarrow> if getIndex b (fst u) = getIndex b pc then Some u else None)"

definition btb_run :: "(addr \<times> 'pc \<times> int) list \<Rightarrow> 'pc btb \<Rightarrow> 'pc btb res" where
  "btb_run us b = forR (\<lambda>(pc, target, tid). BTB_update pc target tid) us b"

definition entry_of :: "'pc btb \<Rightarrow> addr \<Rightarrow> 'pc btbentry" where
  "entry_of b pc = (case getIndex b pc of Inr i \<Rightarrow> btb_entries b ! unat i)"

definition stored :: "'pc btb \<Rightarrow> addr \<times> 'pc \<times> int \<Rightarrow> 'pc btbentry" where
  "stored b = (\<lambda>(pc, target, tid). \<lparr>b_tag = (case getTag b pc of Inr t \<Rightarrow> t), b_target = target, b_tid = tid, b_valid = True\<rparr>)"

lemma btb_update:
  assumes "btb_ok b"
  shows "\<exists>es. BTB_update pc target tid b = Inr (b\<lparr>btb_entries := es\<rparr>) \<and> btb_ok (b\<lparr>btb_entries := es\<rparr>) \<and>
     (\<forall>a. entry_of (b\<lparr>btb_entries := es\<rparr>) a = (if getIndex b pc = getIndex b a then stored b (pc, target, tid) else entry_of b a))"
proof -
  obtain i tag where i: "getIndex b pc = Inr i" "i < btb_num b" "unat i < length (btb_entries b)" "getTag b pc = Inr tag"
    using btb_place [OF assms] by blast
  let ?f = "\<lambda>e. e\<lparr>b_tid := tid, b_valid := True, b_target := target, b_tag := tag\<rparr>"
  let ?es = "(btb_entries b)[unat i := ?f (btb_entries b ! unat i)]"
  have g: "getIndex (b\<lparr>btb_entries := ?es\<rparr>) a = getIndex b a" for a by (simp add: getIndex_def)
  have "BTB_update pc target tid b = Inr (b\<lparr>btb_entries := ?es\<rparr>)" using i by (simp add: BTB_update_def upd_idx_def)
  moreover have "btb_ok (b\<lparr>btb_entries := ?es\<rparr>)" using assms by (simp add: btb_ok_def)
  moreover have "entry_of (b\<lparr>btb_entries := ?es\<rparr>) a = (if getIndex b pc = getIndex b a then stored b (pc, target, tid) else entry_of b a)" for a
  proof -
    obtain j where j: "getIndex b a = Inr j" using btb_place [OF assms, of a] by blast
    show ?thesis
    proof (cases "i = j")
      case True
      then show ?thesis using i j g by (simp add: entry_of_def stored_def)
    next
      case False
      then have "unat i \<noteq> unat j" by (simp add: word_unat_eq_iff)
      then show ?thesis using False i j g by (simp add: entry_of_def)
    qed
  qed
  ultimately show ?thesis by blast
qed

lemma btb_run_ok:
  assumes "btb_ok b"
  shows "\<exists>b'. btb_run us b = Inr b' \<and> btb_ok b' \<and> (\<forall>pc. getIndex b' pc = getIndex b pc \<and> getTag b' pc = getTag b pc \<and>
     entry_of b' pc = (case last_update b pc us of Some u \<Rightarrow> stored b u | None \<Rightarrow> entry_of b pc))"
  using assms
proof (induction us arbitrary: b)
  case Nil
  then show ?case by (simp add: btb_run_def)
next
  case (Cons u us)
  obtain pc target tid where u: "u = (pc, target, tid)" by (cases u)
  obtain es where es: "BTB_update pc target tid b = Inr (b\<lparr>btb_entries := es\<rparr>)" "btb_ok (b\<lparr>btb_entries := es\<rparr>)"
     "\<forall>a. entry_of (b\<lparr>btb_entries := es\<rparr>) a = (if getIndex b pc = getIndex b a then stored b (pc, target, tid) else entry_of b a)"
    using btb_update [OF Cons.prems] by blast
  let ?b = "b\<lparr>btb_entries := es\<rparr>"
  have same: "getIndex ?b = getIndex b" "getTag ?b = getTag b" "stored ?b = stored b"
    by (auto simp: getIndex_def getTag_def stored_def fun_eq_iff)
  have lu: "last_update ?b a us = last_update b a us" for a by (induction us) (simp_all add: same split: option.split)
  obtain b' where b': "btb_run us ?b = Inr b'" "btb_ok b'" "\<forall>pc. getIndex b' pc = getIndex ?b pc \<and> getTag b' pc = getTag ?b pc \<and>
     entry_of b' pc = (case last_update ?b pc us of Some u \<Rightarrow> stored ?b u | None \<Rightarrow> entry_of ?b pc)"
    using Cons.IH [OF es(2)] by blast
  have "btb_run (u # us) b = Inr b'" using u es(1) b'(1) by (simp add: btb_run_def)
  moreover have "entry_of b' a = (case last_update b a (u # us) of Some u \<Rightarrow> stored b u | None \<Rightarrow> entry_of b a)" for a
    using b'(3) es(3) u by (simp add: same lu split: option.split)
  ultimately show ?case using b'(2,3) same by (intro exI [of _ b']) simp
qed

lemma btb_read:
  assumes "btb_ok b" and "getTag b pc = Inr tag"
  shows "BTB_valid b pc tid = Inr (entry_hit tag tid (entry_of b pc))"
    "BTB_lookup zero b pc tid = Inr (if entry_hit tag tid (entry_of b pc) then b_target (entry_of b pc) else zero)"
proof -
  obtain i where i: "getIndex b pc = Inr i" "i < btb_num b" "unat i < length (btb_entries b)"
    using btb_place [OF assms(1), of pc] by blast
  then show "BTB_valid b pc tid = Inr (entry_hit tag tid (entry_of b pc))"
    "BTB_lookup zero b pc tid = Inr (if entry_hit tag tid (entry_of b pc) then b_target (entry_of b pc) else zero)"
    using assms(2) by (simp_all add: BTB_valid_def BTB_lookup_def at_idx_def entry_of_def)
qed

lemma btb_new:
  assumes "isPowerOf2 n" "tagBits < 31" "shift < 32"
  shows "\<exists>b. DefaultBTB_new zero n tagBits shift junk = Inr b \<and> btb_ok b \<and> (\<forall>pc. \<not> b_valid (entry_of b pc))"
proof -
  obtain k where k: "unat n = 2 ^ k" using assms(1) by (auto simp: isPowerOf2_pow)
  have n: "n \<noteq> 0" using assms(1) by (simp add: isPowerOf2_def)
  obtain y where y: "floorLog2_32 n = Inr y" "2 ^ y \<le> unat n" using floorLog2_32_ok [OF n] by blast
  have "unat n < 2 ^ LENGTH(32)" by (rule unsigned_less)
  then have "(2::nat) ^ y < 2 ^ 32" using y(2) by simp
  then have y32: "y < 32" by (rule power_less_imp_less_exp [rotated]) simp
  have "unat (shift + of_nat y) \<le> unat shift + unat (of_nat y :: u32)" by (simp add: unat_word_ariths)
  moreover have "unat (of_nat y :: u32) \<le> y" by (simp add: unat_of_nat)
  ultimately have "unat (shift + of_nat y) < 64" using y32 assms(3) by (simp add: word_less_nat_alt)
  then have ts: "shift + of_nat y < 64" "shift < 64" using assms(3) by (simp_all add: word_less_nat_alt)
  have "\<exists>b. DefaultBTB_new zero n tagBits shift junk = Inr b \<and> btb_ok b \<and>
      btb_entries b = replicate (unat n) \<lparr>b_tag = 0, b_target = zero, b_tid = junk, b_valid = False\<rparr>"
    using assms(1,2) y(1) n ts by (simp add: DefaultBTB_new_def btb_ok_def word_gt_0)
  then obtain b where b: "DefaultBTB_new zero n tagBits shift junk = Inr b" "btb_ok b"
      "btb_entries b = replicate (unat n) \<lparr>b_tag = 0, b_target = zero, b_tid = junk, b_valid = False\<rparr>" by blast
  have "\<not> b_valid (entry_of b pc)" for pc
    using btb_place [OF b(2), of pc] b(3) by (auto simp: entry_of_def)
  then show ?thesis using b by blast
qed

text \<open>C39: the branch target buffer is a map with one entry per index: a fresh buffer, after any
  sequence of updates, hits for a branch and thread exactly when the last update at the same
  index was of a branch with the same tag by the same thread, and returns that update's
  target; otherwise it returns 0.\<close>

theorem btb_last_update:
  assumes "isPowerOf2 n" "tagBits < 31" "shift < 32"
  shows "\<exists>b b'. DefaultBTB_new zero n tagBits shift junk = Inr b \<and> btb_run us b = Inr b' \<and>
     BTB_valid b' pc tid = Inr (case last_update b pc us of None \<Rightarrow> False
        | Some (pc', target, tid') \<Rightarrow> getTag b pc' = getTag b pc \<and> tid' = tid) \<and>
     BTB_lookup zero b' pc tid = Inr (case last_update b pc us of None \<Rightarrow> zero
        | Some (pc', target, tid') \<Rightarrow> if getTag b pc' = getTag b pc \<and> tid' = tid then target else zero)"
proof -
  obtain b where b: "DefaultBTB_new zero n tagBits shift junk = Inr b" "btb_ok b" "\<forall>pc. \<not> b_valid (entry_of b pc)"
    using btb_new [OF assms, of zero junk] by blast
  obtain b' where b': "btb_run us b = Inr b'" "btb_ok b'" "getTag b' pc = getTag b pc"
     "entry_of b' pc = (case last_update b pc us of Some u \<Rightarrow> stored b u | None \<Rightarrow> entry_of b pc)"
    using btb_run_ok [OF b(2), of us] by blast
  obtain tag where tag: "getTag b pc = Inr tag" using btb_place [OF b(2), of pc] by blast
  have tags: "\<exists>t. getTag b a = Inr t" for a using btb_place [OF b(2), of a] by blast
  have "entry_hit tag tid (stored b (a, x, d)) \<longleftrightarrow> getTag b a = getTag b pc \<and> d = tid" for a x d
    using tags [of a] tag by (auto simp: entry_hit_def stored_def)
  moreover have "\<not> entry_hit tag tid (entry_of b pc)" using b(3) by (simp add: entry_hit_def)
  moreover have "b_target (stored b (a, x, d)) = x" for a x d by (simp add: stored_def)
  ultimately show ?thesis
    using b(1) b'(1,4) btb_read [OF b'(2), of pc tag] b'(3) tag by (auto split: option.splits prod.splits)
qed

theorem btb_last_update_witness:
  "\<exists>b b'. DefaultBTB_new 0 4 16 2 0 = Inr b \<and> btb_run [(0x100, 0x400, 0), (0x104, 0x500, 0)] b = Inr b' \<and>
     BTB_lookup 0 b' 0x104 0 = Inr (0x500 :: nat)"
proof -
  have "isPowerOf2 (4 :: u32)" by (simp add: isPowerOf2_def leastSigBit_def)
  moreover have "last_update b 0x104 [(0x100, 0x400, 0), (0x104, 0x500, 0)] = Some (0x104, 0x500 :: nat, 0)" for b
    by simp
  ultimately show ?thesis
    using btb_last_update [of 4 16 2 0 0 "[(0x100, 0x400, 0), (0x104, 0x500, 0)]" "0x104" 0] by fastforce
qed

section \<open>The return address stack\<close>

record 'pc ras =
  addrStack :: "'pc list"
  ras_num :: u32
  usedEntries :: u32
  tos :: u32

definition RAS_reset :: "'pc \<Rightarrow> 'pc ras \<Rightarrow> 'pc ras" where
  "RAS_reset zero r = r\<lparr>usedEntries := 0, tos := 0, addrStack := map (\<lambda>_. zero) (addrStack r)\<rparr>"

definition RAS_init :: "'pc \<Rightarrow> u32 \<Rightarrow> 'pc ras" where
  "RAS_init zero n = RAS_reset zero \<lparr>addrStack = replicate (unat n) zero, ras_num = n, usedEntries = 0, tos = 0\<rparr>"

definition RAS_top :: "'pc ras \<Rightarrow> 'pc res" where
  "RAS_top r = at_idx (addrStack r) (tos r)"

definition topIdx :: "'pc ras \<Rightarrow> u32" where
  "topIdx r = tos r"

definition incrTos :: "'pc ras \<Rightarrow> 'pc ras" where
  "incrTos r = (let t = tos r + 1 in if t = ras_num r then r\<lparr>tos := 0\<rparr> else r\<lparr>tos := t\<rparr>)"

definition decrTos :: "'pc ras \<Rightarrow> 'pc ras" where
  "decrTos r = r\<lparr>tos := (if tos r = 0 then ras_num r - 1 else tos r - 1)\<rparr>"

definition RAS_push :: "'pc \<Rightarrow> 'pc ras \<Rightarrow> 'pc ras res" where
  "RAS_push x r =
     (let r1 = incrTos r in
      bindR (upd_idx (tos r1) (\<lambda>_. x) (addrStack r1)) (\<lambda>st.
      let r2 = r1\<lparr>addrStack := st\<rparr> in
      Inr (if usedEntries r2 \<noteq> ras_num r2 then r2\<lparr>usedEntries := usedEntries r2 + 1\<rparr> else r2)))"

definition RAS_pop :: "'pc ras \<Rightarrow> 'pc ras" where
  "RAS_pop r = decrTos (if 0 < usedEntries r then r\<lparr>usedEntries := usedEntries r - 1\<rparr> else r)"

definition RAS_restore :: "u32 \<Rightarrow> 'pc \<Rightarrow> 'pc ras \<Rightarrow> 'pc ras res" where
  "RAS_restore i x r =
     (let r1 = r\<lparr>tos := i\<rparr> in bindR (upd_idx (tos r1) (\<lambda>_. x) (addrStack r1)) (\<lambda>st. Inr (r1\<lparr>addrStack := st\<rparr>)))"

definition RAS_empty :: "'pc ras \<Rightarrow> bool" where
  "RAS_empty r \<longleftrightarrow> usedEntries r = 0"

definition RAS_full :: "'pc ras \<Rightarrow> bool" where
  "RAS_full r \<longleftrightarrow> usedEntries r = ras_num r"

subsection \<open>Refinement of a list\<close>

definition ras_ok :: "'pc ras \<Rightarrow> bool" where
  "ras_ok r \<longleftrightarrow> length (addrStack r) = unat (ras_num r) \<and> tos r < ras_num r \<and> usedEntries r \<le> ras_num r"

text \<open>The stack's content from the top down, all round the ring.\<close>

definition ras_abs :: "'pc ras \<Rightarrow> 'pc list" where
  "ras_abs r = rev (take (Suc (unat (tos r))) (addrStack r)) @ rev (drop (Suc (unat (tos r))) (addrStack r))"

lemma ras_abs_length: "length (ras_abs r) = length (addrStack r)"
  by (simp add: ras_abs_def)

lemma ras_top_hd:
  assumes "ras_ok r"
  shows "RAS_top r = Inr (hd (ras_abs r))"
proof -
  have "unat (tos r) < length (addrStack r)" using assms by (simp add: ras_ok_def word_less_nat_alt)
  then show ?thesis by (simp add: RAS_top_def at_idx_def ras_abs_def take_Suc_conv_app_nth)
qed

lemma ras_push:
  assumes "ras_ok r"
  shows "\<exists>r'. RAS_push x r = Inr r' \<and> ras_ok r' \<and> ras_abs r' = x # butlast (ras_abs r) \<and> ras_num r' = ras_num r \<and>
     usedEntries r' = (if usedEntries r = ras_num r then usedEntries r else usedEntries r + 1)"
proof -
  let ?n = "unat (ras_num r)" and ?t = "unat (tos r)" and ?st = "addrStack r"
  have l: "length ?st = ?n" "?t < ?n" using assms by (simp_all add: ras_ok_def word_less_nat_alt)
  have i: "unat (tos r + 1) = ?t + 1" using inc_value assms by (metis ras_ok_def)
  have u: "usedEntries r + 1 \<le> ras_num r" if "usedEntries r \<noteq> ras_num r"
  proof -
    have "usedEntries r < ras_num r" using that assms by (simp add: ras_ok_def order_le_less)
    moreover from this have "unat (usedEntries r + 1) = unat (usedEntries r) + 1" by (rule inc_value)
    ultimately show ?thesis unfolding word_le_nat_alt word_less_nat_alt by linarith
  qed
  show ?thesis
  proof (cases "tos r + 1 = ras_num r")
    case True
    then have n: "?n = Suc ?t" using i by simp
    obtain a st where st: "?st = a # st" using l by (cases ?st) auto
    then have "length st = ?t" using l(1) n by simp
    then have "ras_abs (r\<lparr>tos := 0, addrStack := ?st[0 := x]\<rparr>) = x # butlast (ras_abs r)"
      using st l n by (simp add: ras_abs_def)
    then show ?thesis
      using True l u assms st
      by (auto simp: RAS_push_def incrTos_def Let_def upd_idx_def ras_ok_def ras_abs_def word_gt_0)
  next
    case False
    have lt: "?t + 1 < ?n" using i False l(2) by (metis Suc_eq_plus1 Suc_lessI word_unat_eq_iff)
    obtain a b ys where st: "?st = a @ b # ys" "length a = ?t + 1"
      using lt l(1) by (metis id_take_nth_drop length_take less_imp_le min.absorb2)
    have "ras_abs (r\<lparr>tos := tos r + 1, addrStack := ?st[?t + 1 := x]\<rparr>) = x # butlast (ras_abs r)"
      using st i by (simp add: ras_abs_def list_update_append butlast_append)
    moreover have "tos r + 1 < ras_num r" using i lt by (simp add: word_less_nat_alt)
    ultimately show ?thesis
      using False l u assms lt i
      by (auto simp: RAS_push_def incrTos_def Let_def upd_idx_def ras_ok_def ras_abs_def)
  qed
qed

lemma ras_pop:
  assumes "ras_ok r"
  shows "ras_ok (RAS_pop r) \<and> ras_abs (RAS_pop r) = rotate1 (ras_abs r) \<and> ras_num (RAS_pop r) = ras_num r \<and>
    usedEntries (RAS_pop r) = (if usedEntries r = 0 then 0 else usedEntries r - 1)"
proof -
  let ?n = "unat (ras_num r)" and ?t = "unat (tos r)" and ?st = "addrStack r"
  have l: "length ?st = ?n" "?t < ?n" using assms by (simp_all add: ras_ok_def word_less_nat_alt)
  have u: "usedEntries r - 1 \<le> ras_num r" if "0 < usedEntries r"
    using that assms dec_value [OF that] unfolding ras_ok_def word_le_nat_alt by linarith
  have n0: "0 < ras_num r" using l by (simp add: word_less_nat_alt)
  show ?thesis
  proof (cases "tos r = 0")
    case True
    have n1: "unat (ras_num r - 1) = ?n - 1" using dec_value [OF n0] .
    obtain a st where st: "?st = a # st" using l by (cases ?st) auto
    have "ras_abs (r\<lparr>tos := ras_num r - 1\<rparr>) = rotate1 (ras_abs r)"
      using st l n1 True by (simp add: ras_abs_def)
    moreover have "ras_num r - 1 < ras_num r" using n1 l by (simp add: word_less_nat_alt)
    ultimately show ?thesis
      using True assms u by (auto simp: RAS_pop_def decrTos_def ras_ok_def ras_abs_def word_gt_0)
  next
    case False
    then have t: "unat (tos r - 1) = ?t - 1" "0 < ?t" using dec_value [of "tos r"] by (simp_all add: word_gt_0 unat_gt_0)
    obtain a b ys where st: "?st = a @ b # ys" "length a = ?t"
      using l by (metis id_take_nth_drop length_take less_imp_le min.absorb2)
    have "ras_abs (r\<lparr>tos := tos r - 1\<rparr>) = rotate1 (ras_abs r)"
      using st t by (simp add: ras_abs_def)
    moreover have "tos r - 1 < ras_num r" using t l by (simp add: word_less_nat_alt)
    ultimately show ?thesis
      using False assms u by (auto simp: RAS_pop_def decrTos_def ras_ok_def ras_abs_def word_gt_0)
  qed
qed

text \<open>The addresses that \<open>k\<close> returns get: the top of the stack before each pop.\<close>

fun ras_returns :: "nat \<Rightarrow> 'pc ras \<Rightarrow> 'pc list res" where
  "ras_returns 0 r = Inr []"
| "ras_returns (Suc k) r = bindR (RAS_top r) (\<lambda>x. bindR (ras_returns k (RAS_pop r)) (\<lambda>xs. Inr (x # xs)))"

lemma ras_returns_take: "ras_ok r \<Longrightarrow> k \<le> unat (ras_num r) \<Longrightarrow> ras_returns k r = Inr (take k (ras_abs r))"
proof (induction k arbitrary: r)
  case (Suc k)
  note P = ras_pop [OF Suc.prems(1)]
  have len: "length (ras_abs r) = unat (ras_num r)" using Suc.prems(1) by (simp add: ras_abs_length ras_ok_def)
  obtain y ys where y: "ras_abs r = y # ys" using len Suc.prems(2) by (cases "ras_abs r") auto
  have "ras_returns k (RAS_pop r) = Inr (take k (ras_abs (RAS_pop r)))" using P Suc.prems(2) by (intro Suc.IH) simp_all
  moreover have "take k (ys @ [y]) = take k ys" using len y Suc.prems(2) by simp
  ultimately show ?case using P y ras_top_hd [OF Suc.prems(1)] by simp
qed simp

lemma ras_pushes:
  "ras_ok r \<Longrightarrow> length xs \<le> unat (ras_num r) \<Longrightarrow> \<exists>r'. forR RAS_push xs r = Inr r' \<and> ras_ok r' \<and> ras_num r' = ras_num r \<and>
     ras_abs r' = rev xs @ take (unat (ras_num r) - length xs) (ras_abs r)"
proof (induction xs arbitrary: r)
  case Nil
  then show ?case by (simp add: ras_abs_length ras_ok_def)
next
  case (Cons x xs)
  obtain r1 where r1: "RAS_push x r = Inr r1" "ras_ok r1" "ras_abs r1 = x # butlast (ras_abs r)" "ras_num r1 = ras_num r"
    using ras_push [OF Cons.prems(1)] by blast
  obtain r' where r': "forR RAS_push xs r1 = Inr r'" "ras_ok r'" "ras_num r' = ras_num r1"
     "ras_abs r' = rev xs @ take (unat (ras_num r1) - length xs) (ras_abs r1)"
    using Cons.IH [OF r1(2)] Cons.prems(2) r1(4) by auto
  have len: "length (ras_abs r) = unat (ras_num r)" using Cons.prems(1) by (simp add: ras_abs_length ras_ok_def)
  obtain d where d: "unat (ras_num r) - length xs = Suc d" "d = unat (ras_num r) - length (x # xs)"
    using Cons.prems(2) by (cases "unat (ras_num r) - length xs") auto
  have "take d (butlast (ras_abs r)) = take d (ras_abs r)" using len d(2) Cons.prems(2) by (simp add: take_butlast)
  then show ?case using r1 r' d by simp
qed

lemma ras_init_ok: "0 < n \<Longrightarrow> ras_ok (RAS_init zero n) \<and> ras_num (RAS_init zero n) = n"
  by (simp add: ras_ok_def RAS_init_def RAS_reset_def)

text \<open>C40: returns get the addresses of the calls in reverse order: on any well-formed stack,
  after as many calls as it has entries or fewer, the following returns pop their return
  addresses last in, first out, across the wrap-around of the ring.\<close>

theorem ras_last_in_first_out:
  assumes "ras_ok r" and "length xs \<le> unat (ras_num r)"
  shows "\<exists>r'. forR RAS_push xs r = Inr r' \<and> ras_returns (length xs) r' = Inr (rev xs)"
proof -
  obtain r' where r': "forR RAS_push xs r = Inr r'" "ras_ok r'" "ras_num r' = ras_num r"
     "ras_abs r' = rev xs @ take (unat (ras_num r) - length xs) (ras_abs r)"
    using ras_pushes [OF assms] by blast
  then show ?thesis using ras_returns_take [OF r'(2), of "length xs"] assms(2) by auto
qed

theorem ras_last_in_first_out_witness:
  "\<exists>r'. forR RAS_push [1, 2, 3 :: nat] ((RAS_init 0 4)\<lparr>tos := 2\<rparr>) = Inr r' \<and> ras_returns 3 r' = Inr [3, 2, 1]"
proof -
  let ?r = "(RAS_init (0 :: nat) 4)\<lparr>tos := 2\<rparr>"
  have r: "ras_ok ?r" "length [1, 2, 3 :: nat] \<le> unat (ras_num ?r)" "length [1, 2, 3 :: nat] = 3" "rev [1, 2, 3 :: nat] = [3, 2, 1]"
    by (simp_all add: ras_ok_def RAS_init_def RAS_reset_def)
  show ?thesis using ras_last_in_first_out [OF r(1,2)] unfolding r(3,4) .
qed

end
