(* ===== verification/Bpred_Local.thy ===== *)
theory Bpred_Local imports Sat_Counter begin

text \<open>
  The local predictor (cpu/pred/2bit_local.cc): a table of saturating counters indexed by the
  branch's address.
\<close>

unbundle bit_operations_syntax

section \<open>The predictor\<close>

record localbp =
  lb_shift :: u32
  localCtrs :: "satctr list"
  localPredictorSize :: u32
  localPredictorSets :: u32
  lb_ctrBits :: u32
  indexMask :: u32

definition LocalBP_new :: "u32 \<Rightarrow> u32 \<Rightarrow> u32 \<Rightarrow> byte \<Rightarrow> localbp res" where
  "LocalBP_new n nb shift junk =
     bindR (guardR (isPowerOf2 n) FatalError) (\<lambda>_.
     bindR (guardR (nb \<noteq> 0) Undefined) (\<lambda>_.
     let sets = n div nb in
     bindR (guardR (isPowerOf2 sets) FatalError) (\<lambda>_.
     bindR (ctr_table sets nb junk) (\<lambda>cs.
     Inr \<lparr>lb_shift = shift, localCtrs = cs, localPredictorSize = n, localPredictorSets = sets,
          lb_ctrBits = nb, indexMask = sets - 1\<rparr>))))"

definition LocalBP_reset :: "localbp \<Rightarrow> localbp" where
  "LocalBP_reset p = p\<lparr>localCtrs := map sat_reset (localCtrs p)\<rparr>"

definition getLocalIndex :: "localbp \<Rightarrow> addr \<Rightarrow> u32 res" where
  "getLocalIndex p a = pc_index (lb_shift p) a 0 (indexMask p)"

text \<open>The counter's most significant bit: the byte is promoted to \<open>int\<close> and shifted.\<close>

definition getPrediction :: "localbp \<Rightarrow> byte \<Rightarrow> bool res" where
  "getPrediction p v =
     (if 1 \<le> lb_ctrBits p \<and> lb_ctrBits p \<le> 32 then Inr (drop_bit (unat (lb_ctrBits p - 1)) v \<noteq> 0) else Inl Undefined)"

definition LocalBP_lookup :: "addr \<Rightarrow> localbp \<Rightarrow> (bool \<times> unit option \<times> localbp) res" where
  "LocalBP_lookup a p =
     bindR (getLocalIndex p a) (\<lambda>i.
     bindR (at_idx (localCtrs p) i) (\<lambda>c.
     bindR (getPrediction p (sat_read c)) (\<lambda>taken. Inr (taken, None, p))))"

definition LocalBP_update :: "addr \<Rightarrow> bool \<Rightarrow> unit option \<Rightarrow> bool \<Rightarrow> localbp \<Rightarrow> localbp res" where
  "LocalBP_update a taken h squashed p =
     bindR (guardR (h = None) AssertFail) (\<lambda>_.
     bindR (getLocalIndex p a) (\<lambda>i.
     bindR (upd_idx i (train taken) (localCtrs p)) (\<lambda>cs. Inr (p\<lparr>localCtrs := cs\<rparr>))))"

definition LocalBP_btbUpdate :: "addr \<Rightarrow> unit option \<Rightarrow> localbp \<Rightarrow> localbp res" where
  "LocalBP_btbUpdate a h p = Inr p"

definition LocalBP_uncondBranch :: "addr \<Rightarrow> localbp \<Rightarrow> (unit option \<times> localbp) res" where
  "LocalBP_uncondBranch a p = Inr (None, p)"

definition LocalBP_squash :: "unit option \<Rightarrow> localbp \<Rightarrow> localbp res" where
  "LocalBP_squash h p = bindR (guardR (h = None) AssertFail) (\<lambda>_. Inr p)"

definition LocalBP_retireSquashed :: "unit option \<Rightarrow> localbp \<Rightarrow> localbp res" where
  "LocalBP_retireSquashed h p = bindR (guardR (h = None) AssertFail) (\<lambda>_. Inr p)"

definition local_ops :: "(localbp, unit) bp_ops" where
  "local_ops = \<lparr>bp_lookup = LocalBP_lookup, bp_uncond = LocalBP_uncondBranch, bp_btb = LocalBP_btbUpdate,
     bp_update = LocalBP_update, bp_squash = LocalBP_squash, bp_retire = LocalBP_retireSquashed\<rparr>"

section \<open>The invariant\<close>

definition local_ok :: "localbp \<Rightarrow> bool" where
  "local_ok p \<longleftrightarrow> lb_shift p < 64 \<and> 1 \<le> lb_ctrBits p \<and> lb_ctrBits p \<le> 8 \<and> 0 < localPredictorSets p \<and>
     indexMask p = localPredictorSets p - 1 \<and>
     (\<exists>m. max_of (lb_ctrBits p) = Inr m \<and> table_ok (localPredictorSets p) m (localCtrs p))"

lemma local_index: "local_ok p \<Longrightarrow> \<exists>i. getLocalIndex p a = Inr i \<and> i < localPredictorSets p"
  using pc_index_less [of "lb_shift p" "localPredictorSets p" a 0] by (simp add: local_ok_def getLocalIndex_def)

lemma local_prediction:
  assumes "1 \<le> lb_ctrBits p" "lb_ctrBits p \<le> 8"
  shows "getPrediction p v = Inr (2 ^ (unat (lb_ctrBits p) - 1) \<le> unat v)"
proof -
  have "lb_ctrBits p \<le> 32" using assms(2) by (simp add: word_le_nat_alt)
  moreover have "unat (lb_ctrBits p - 1) = unat (lb_ctrBits p) - 1" using assms(1) by (simp add: unat_sub)
  moreover have "drop_bit k v \<noteq> 0 \<longleftrightarrow> 2 ^ k \<le> unat v" for k
    using unat_drop_bit [of k v] by (metis div_eq_0_iff not_less power_not_zero unat_eq_0 zero_neq_numeral)
  ultimately show ?thesis using assms(1) by (simp add: getPrediction_def)
qed

lemma local_lookup:
  assumes "local_ok p"
  shows "\<exists>i. getLocalIndex p a = Inr i \<and> i < localPredictorSets p \<and>
     LocalBP_lookup a p = Inr (2 ^ (unat (lb_ctrBits p) - 1) \<le> unat (satval (localCtrs p ! unat i)), None, p)"
proof -
  obtain i where i: "getLocalIndex p a = Inr i" "i < localPredictorSets p" using local_index [OF assms] by blast
  obtain m where "table_ok (localPredictorSets p) m (localCtrs p)" using assms by (auto simp: local_ok_def)
  then have "at_idx (localCtrs p) i = Inr (localCtrs p ! unat i)" using at_idx_ok i(2) by blast
  moreover have "1 \<le> lb_ctrBits p" "lb_ctrBits p \<le> 8" using assms by (simp_all add: local_ok_def)
  note local_prediction [OF this]
  ultimately show ?thesis using i by (simp add: LocalBP_lookup_def sat_read_def)
qed

lemma local_update:
  assumes "local_ok p"
  shows "\<exists>i. getLocalIndex p a = Inr i \<and> i < localPredictorSets p \<and>
     LocalBP_update a t None sq p = Inr (p\<lparr>localCtrs := (localCtrs p)[unat i := train t (localCtrs p ! unat i)]\<rparr>) \<and>
     local_ok (p\<lparr>localCtrs := (localCtrs p)[unat i := train t (localCtrs p ! unat i)]\<rparr>)"
proof -
  obtain i where i: "getLocalIndex p a = Inr i" "i < localPredictorSets p" using local_index [OF assms] by blast
  obtain m where m: "max_of (lb_ctrBits p) = Inr m" "table_ok (localPredictorSets p) m (localCtrs p)"
    using assms by (auto simp: local_ok_def)
  have u: "upd_idx i (train t) (localCtrs p) = Inr ((localCtrs p)[unat i := train t (localCtrs p ! unat i)])"
    using m(2) i(2) by (simp add: upd_idx_def table_ok_def word_less_nat_alt)
  then have "table_ok (localPredictorSets p) m ((localCtrs p)[unat i := train t (localCtrs p ! unat i)])"
    using upd_idx_ok [OF m(2) i(2), of t] by auto
  then show ?thesis using i u m(1) assms by (simp add: LocalBP_update_def local_ok_def)
qed

interpretation localbp: direction_predictor local_ops local_ok "\<lambda>h. h = None"
proof
  fix p a t sq and h :: "unit option"
  assume p: "local_ok p"
  show "\<exists>b h p'. bp_lookup local_ops a p = Inr (b, h, p') \<and> h = None \<and> local_ok p'"
    using local_lookup [OF p, of a] p by (auto simp: local_ops_def)
  show "\<exists>h p'. bp_uncond local_ops a p = Inr (h, p') \<and> h = None \<and> local_ok p'"
    using p by (simp add: local_ops_def LocalBP_uncondBranch_def)
  assume h: "h = None"
  show "\<exists>p'. bp_btb local_ops a h p = Inr p' \<and> local_ok p'"
    using p by (simp add: local_ops_def LocalBP_btbUpdate_def)
  show "\<exists>p'. bp_update local_ops a t h sq p = Inr p' \<and> local_ok p'"
    using local_update [OF p, of a t sq] h by (auto simp: local_ops_def)
  show "\<exists>p'. bp_squash local_ops h p = Inr p' \<and> local_ok p'"
    using p h by (simp add: local_ops_def LocalBP_squash_def)
  show "\<exists>p'. bp_retire local_ops h p = Inr p' \<and> local_ok p'"
    using p h by (simp add: local_ops_def LocalBP_retireSquashed_def)
qed

section \<open>The ideal predictor\<close>

text \<open>One counter, as a number clamped to its range, per set of branches that share an index.\<close>

definition clamp_step :: "nat \<Rightarrow> bool \<Rightarrow> nat \<Rightarrow> nat" where
  "clamp_step M t v = (if t then min M (v + 1) else v - 1)"

definition same_set :: "localbp \<Rightarrow> addr \<Rightarrow> addr \<Rightarrow> bool" where
  "same_set p a b \<longleftrightarrow> getLocalIndex p a = getLocalIndex p b"

definition outcomes :: "localbp \<Rightarrow> addr \<Rightarrow> (addr \<times> bool) list \<Rightarrow> bool list" where
  "outcomes p a us = map snd (filter (\<lambda>(b, t). same_set p a b) us)"

definition local_run :: "(addr \<times> bool) list \<Rightarrow> localbp \<Rightarrow> localbp res" where
  "local_run us p = forR (\<lambda>(a, t). LocalBP_update a t None False) us p"

lemma train_value: "sat_ok m c \<Longrightarrow> unat (satval (train t c)) = clamp_step (unat m) t (unat (satval c))"
  by (simp add: train_def clamp_step_def increment_value decrement_value)

lemma local_run_ok:
  assumes "local_ok p" and "max_of (lb_ctrBits p) = Inr m" and "getLocalIndex p a = Inr i" "i < localPredictorSets p"
  shows "\<exists>p'. local_run us p = Inr p' \<and> local_ok p' \<and> lb_ctrBits p' = lb_ctrBits p \<and>
     (\<forall>b. getLocalIndex p' b = getLocalIndex p b) \<and>
     unat (satval (localCtrs p' ! unat i)) =
       fold (clamp_step (unat m)) (outcomes p a us) (unat (satval (localCtrs p ! unat i)))"
  using assms
proof (induction us arbitrary: p)
  case Nil
  then show ?case by (simp add: local_run_def outcomes_def)
next
  case (Cons u us)
  obtain b t where u: "u = (b, t)" by (cases u)
  obtain k where k: "getLocalIndex p b = Inr k" "k < localPredictorSets p"
     "LocalBP_update b t None False p = Inr (p\<lparr>localCtrs := (localCtrs p)[unat k := train t (localCtrs p ! unat k)]\<rparr>)"
     "local_ok (p\<lparr>localCtrs := (localCtrs p)[unat k := train t (localCtrs p ! unat k)]\<rparr>)"
    using local_update [OF Cons.prems(1), of b t False] by blast
  let ?p = "p\<lparr>localCtrs := (localCtrs p)[unat k := train t (localCtrs p ! unat k)]\<rparr>"
  have same: "getLocalIndex ?p c = getLocalIndex p c" for c by (simp add: getLocalIndex_def)
  have out: "outcomes ?p a us = outcomes p a us" by (simp add: outcomes_def same_set_def same)
  have tb: "table_ok (localPredictorSets p) m (localCtrs p)" using Cons.prems(1,2) by (auto simp: local_ok_def)
  have len: "unat i < length (localCtrs p)" "unat k < length (localCtrs p)"
    using tb Cons.prems(4) k(2) by (simp_all add: table_ok_def word_less_nat_alt)
  have tr: "unat (satval (train t (localCtrs p ! unat i))) = clamp_step (unat m) t (unat (satval (localCtrs p ! unat i)))"
    using tb len(1) by (intro train_value) (simp add: table_ok_def list_all_length)
  have v: "unat (satval (localCtrs ?p ! unat i)) =
     (if same_set p a b then clamp_step (unat m) t (unat (satval (localCtrs p ! unat i))) else unat (satval (localCtrs p ! unat i)))"
  proof (cases "k = i")
    case True
    then have "same_set p a b" using Cons.prems(3) k(1) by (simp add: same_set_def)
    then show ?thesis using True len(1) tr by (simp add: nth_list_update_eq)
  next
    case False
    then have "\<not> same_set p a b" using Cons.prems(3) k(1) by (auto simp: same_set_def)
    moreover have "unat k \<noteq> unat i" using False by (simp add: unsigned_word_eqI word_unat_eq_iff)
    ultimately show ?thesis by (simp add: nth_list_update_neq)
  qed
  have pr: "max_of (lb_ctrBits ?p) = Inr m" "getLocalIndex ?p a = Inr i" "i < localPredictorSets ?p"
    using Cons.prems(2-4) same by simp_all
  obtain p' where p': "local_run us ?p = Inr p'" "local_ok p'" "lb_ctrBits p' = lb_ctrBits ?p"
     "\<forall>b. getLocalIndex p' b = getLocalIndex ?p b"
     "unat (satval (localCtrs p' ! unat i)) = fold (clamp_step (unat m)) (outcomes ?p a us) (unat (satval (localCtrs ?p ! unat i)))"
    using Cons.IH [OF k(4) pr] by blast
  have f: "fold (clamp_step (unat m)) (outcomes p a (u # us)) (unat (satval (localCtrs p ! unat i))) =
     fold (clamp_step (unat m)) (outcomes ?p a us) (unat (satval (localCtrs ?p ! unat i)))"
    unfolding v u out by (simp add: outcomes_def)
  have "local_run (u # us) p = Inr p'" using u k(3) p'(1) by (simp add: local_run_def)
  moreover have "lb_ctrBits p' = lb_ctrBits p" using p'(3) by simp
  moreover have "\<forall>b. getLocalIndex p' b = getLocalIndex p b" using p'(4) same by (simp only: simp_thms)
  ultimately show ?case using p'(2,5) f by metis
qed

lemma local_new:
  assumes "LocalBP_new n nb shift junk = Inr p" and "shift < 64" "nb \<le> 8"
  shows "local_ok p \<and> lb_ctrBits p = nb \<and> (\<forall>i < localPredictorSets p. satval (localCtrs p ! unat i) = 0) \<and>
     1 \<le> nb"
proof -
  have pos: "0 < n div nb" if "isPowerOf2 (n div nb)" using that by (simp add: isPowerOf2_def word_gt_0)
  have nb: "1 \<le> nb" if "nb \<noteq> 0" using that by (simp add: word_le_nat_alt unat_gt_0 Suc_le_eq)
  obtain m where m: "max_of nb = Inr m" using max_of_value [OF assms(3)] by blast
  then show ?thesis
    using assms pos nb ctr_table_ok [OF m, of "n div nb" junk]
    by (auto simp: LocalBP_new_def Let_def bindR_eq_Inr local_ok_def word_less_nat_alt)
qed

text \<open>C37: the local predictor implements one ideal counter per set of branches that share
  an index: a fresh predictor with counters of at most 8 bits, after any sequence of updates,
  predicts a branch taken exactly when the number that starts at 0 and goes up, at most to
  the maximum, with every taken branch of the same set and down, at least to 0, with every
  other one, has reached half the range.\<close>

theorem local_predicts_ideal:
  assumes "LocalBP_new n nb shift junk = Inr p" and "shift < 64" and "nb \<le> 8"
  shows "\<exists>p'. local_run us p = Inr p' \<and>
     LocalBP_lookup a p' =
       Inr (2 ^ (unat nb - 1) \<le> fold (clamp_step (2 ^ unat nb - 1)) (outcomes p a us) 0, None, p')"
proof -
  note N = local_new [OF assms]
  obtain m where m: "max_of nb = Inr m" "unat m = 2 ^ unat nb - 1" using max_of_value [OF assms(3)] by blast
  obtain i where i: "getLocalIndex p a = Inr i" "i < localPredictorSets p" using local_index N by blast
  obtain p' where p': "local_run us p = Inr p'" "local_ok p'" "lb_ctrBits p' = lb_ctrBits p"
     "\<forall>b. getLocalIndex p' b = getLocalIndex p b"
     "unat (satval (localCtrs p' ! unat i)) = fold (clamp_step (unat m)) (outcomes p a us) (unat (satval (localCtrs p ! unat i)))"
    using local_run_ok [OF _ _ i, of m us] N m(1) by auto
  have "satval (localCtrs p ! unat i) = 0" using N i(2) by blast
  then show ?thesis using local_lookup [OF p'(2), of a] p' i(1) N m(2) by auto
qed

theorem local_predicts_ideal_witness:
  "\<exists>p p'. LocalBP_new 8 2 2 0 = Inr p \<and> local_run [(0x100, True), (0x204, False), (0x110, True)] p = Inr p' \<and>
     LocalBP_lookup 0x100 p' = Inr (True, None, p')"
proof -
  have m: "max_of 2 = Inr 3" by (simp add: max_of_def)
  have ctr: "ctr_table 4 2 0 = Inr (replicate 4 \<lparr>initialVal = 0, maxVal = 3, satval = 0\<rparr>)"
    using ctr_table_ok [OF m, of 4 0] by simp
  have pw: "isPowerOf2 (8 :: u32)" "isPowerOf2 (4 :: u32)" by (simp_all add: isPowerOf2_def leastSigBit_def)
  have dv: "(8 :: u32) div 2 = 4" by simp
  obtain p where p: "LocalBP_new 8 2 2 0 = Inr p" "lb_shift p = 2" "indexMask p = 3"
    using ctr pw by (simp add: LocalBP_new_def Let_def dv)
  have o: "outcomes p 0x100 [(0x100, True), (0x204, False), (0x110, True)] = [True, True]"
    using p(2,3) by (simp add: outcomes_def same_set_def getLocalIndex_def pc_index_def)
  show ?thesis
    using local_predicts_ideal [OF p(1), of "[(0x100, True), (0x204, False), (0x110, True)]" "0x100"] p(1) o
    by (auto simp: clamp_step_def)
qed

end
