(* ===== verification/Bpred_Bimode.thy ===== *)
theory Bpred_Bimode imports Sat_Counter begin

text \<open>
  The bi-mode predictor (cpu/pred/bi_mode.cc): a choice table selects one of two direction
  tables, both indexed by the branch's address mixed with the global history.
\<close>

unbundle bit_operations_syntax

section \<open>The predictor\<close>

record bmhist =
  h_reg :: u32
  takenUsed :: bool
  takenPred :: bool
  notTakenPred :: bool
  finalPred :: bool

record bimode =
  bm_shift :: u32
  choiceCounters :: "satctr list"
  takenCounters :: "satctr list"
  notTakenCounters :: "satctr list"
  globalHistoryReg :: u32
  bm_historyBits :: nat
  bm_registerMask :: u32
  bm_choiceSize :: u32
  bm_choiceBits :: u32
  bm_choiceMask :: u32
  bm_globalSize :: u32
  bm_globalBits :: u32
  bm_globalMask :: u32
  choiceThreshold :: u32
  takenThreshold :: u32
  notTakenThreshold :: u32

definition BiModeBP_new :: "u32 \<Rightarrow> u32 \<Rightarrow> u32 \<Rightarrow> u32 \<Rightarrow> u32 \<Rightarrow> byte \<Rightarrow> bimode res" where
  "BiModeBP_new csize cbits gsize gbits shift junk =
     bindR (ceilLog2_32 gsize) (\<lambda>hbits.
     bindR (guardR (isPowerOf2 csize) FatalError) (\<lambda>_.
     bindR (guardR (isPowerOf2 gsize) FatalError) (\<lambda>_.
     bindR (ctr_table csize cbits junk) (\<lambda>cs.
     bindR (ctr_table gsize gbits junk) (\<lambda>ts.
     bindR (ctr_table gsize gbits junk) (\<lambda>ns.
     bindR (threshold_of cbits) (\<lambda>ct.
     bindR (threshold_of cbits) (\<lambda>tt.
     bindR (threshold_of cbits) (\<lambda>nt.
     Inr \<lparr>bm_shift = shift, choiceCounters = cs, takenCounters = ts, notTakenCounters = ns,
          globalHistoryReg = 0, bm_historyBits = hbits, bm_registerMask = ucast (mask_n hbits),
          bm_choiceSize = csize, bm_choiceBits = cbits, bm_choiceMask = csize - 1,
          bm_globalSize = gsize, bm_globalBits = gbits, bm_globalMask = gsize - 1,
          choiceThreshold = ct, takenThreshold = tt, notTakenThreshold = nt\<rparr>)))))))))"

text \<open>The history register with one more outcome.\<close>

definition shift_in :: "u32 \<Rightarrow> bool \<Rightarrow> u32 \<Rightarrow> u32" where
  "shift_in m taken r = (if taken then push_bit 1 r OR 1 else push_bit 1 r) AND m"

definition updateGlobalHistReg :: "bool \<Rightarrow> bimode \<Rightarrow> bimode" where
  "updateGlobalHistReg taken p = p\<lparr>globalHistoryReg := shift_in (bm_registerMask p) taken (globalHistoryReg p)\<rparr>"

definition BiModeBP_uncondBranch :: "addr \<Rightarrow> bimode \<Rightarrow> (bmhist option \<times> bimode) res" where
  "BiModeBP_uncondBranch pc p =
     Inr (Some \<lparr>h_reg = globalHistoryReg p, takenUsed = True, takenPred = True, notTakenPred = True, finalPred = True\<rparr>,
          updateGlobalHistReg True p)"

text \<open>A null history is dereferenced here; \<open>update\<close> tests for it.\<close>

definition BiModeBP_squash :: "bmhist option \<Rightarrow> bimode \<Rightarrow> bimode res" where
  "BiModeBP_squash h p = (case h of None \<Rightarrow> Inl Undefined | Some h \<Rightarrow> Inr (p\<lparr>globalHistoryReg := h_reg h\<rparr>))"

definition BiModeBP_lookup :: "addr \<Rightarrow> bimode \<Rightarrow> (bool \<times> bmhist option \<times> bimode) res" where
  "BiModeBP_lookup a p =
     bindR (pc_index (bm_shift p) a 0 (bm_choiceMask p)) (\<lambda>ci.
     bindR (pc_index (bm_shift p) a (globalHistoryReg p) (bm_globalMask p)) (\<lambda>gi.
     bindR (guardR (ci < bm_choiceSize p) AssertFail) (\<lambda>_.
     bindR (guardR (gi < bm_globalSize p) AssertFail) (\<lambda>_.
     bindR (at_idx (choiceCounters p) ci) (\<lambda>c.
     bindR (at_idx (takenCounters p) gi) (\<lambda>t.
     bindR (at_idx (notTakenCounters p) gi) (\<lambda>n.
     let choice = above (choiceThreshold p) c; tpred = above (takenThreshold p) t;
         npred = above (notTakenThreshold p) n; final = (if choice then tpred else npred);
         h = \<lparr>h_reg = globalHistoryReg p, takenUsed = choice, takenPred = tpred, notTakenPred = npred, finalPred = final\<rparr>
     in Inr (final, Some h, updateGlobalHistReg final p))))))))"

definition BiModeBP_btbUpdate :: "addr \<Rightarrow> bmhist option \<Rightarrow> bimode \<Rightarrow> bimode res" where
  "BiModeBP_btbUpdate a h p = Inr (p\<lparr>globalHistoryReg := globalHistoryReg p AND (bm_registerMask p AND NOT 1)\<rparr>)"

definition BiModeBP_update :: "addr \<Rightarrow> bool \<Rightarrow> bmhist option \<Rightarrow> bool \<Rightarrow> bimode \<Rightarrow> bimode res" where
  "BiModeBP_update a taken hp squashed p =
     (case hp of None \<Rightarrow> Inr p | Some h \<Rightarrow>
       bindR (pc_index (bm_shift p) a 0 (bm_choiceMask p)) (\<lambda>ci.
       bindR (pc_index (bm_shift p) a (h_reg h) (bm_globalMask p)) (\<lambda>gi.
       bindR (guardR (ci < bm_choiceSize p) AssertFail) (\<lambda>_.
       bindR (guardR (gi < bm_globalSize p) AssertFail) (\<lambda>_.
       bindR (if takenUsed h
              then bindR (upd_idx gi (train taken) (takenCounters p)) (\<lambda>ts. Inr (p\<lparr>takenCounters := ts\<rparr>))
              else bindR (upd_idx gi (train taken) (notTakenCounters p)) (\<lambda>ns. Inr (p\<lparr>notTakenCounters := ns\<rparr>))) (\<lambda>p1.
       bindR (if finalPred h = taken
              then if finalPred h = takenUsed h
                   then bindR (upd_idx ci (train taken) (choiceCounters p1)) (\<lambda>cs. Inr (p1\<lparr>choiceCounters := cs\<rparr>))
                   else Inr p1
              else bindR (upd_idx ci (train taken) (choiceCounters p1)) (\<lambda>cs. Inr (p1\<lparr>choiceCounters := cs\<rparr>))) (\<lambda>p2.
       if squashed then Inr (p2\<lparr>globalHistoryReg := shift_in (bm_registerMask p2) taken (h_reg h)\<rparr>)
       else Inr p2)))))))"

definition BiModeBP_retireSquashed :: "bmhist option \<Rightarrow> bimode \<Rightarrow> bimode res" where
  "BiModeBP_retireSquashed h p = Inr p"

definition bimode_ops :: "(bimode, bmhist) bp_ops" where
  "bimode_ops = \<lparr>bp_lookup = BiModeBP_lookup, bp_uncond = BiModeBP_uncondBranch, bp_btb = BiModeBP_btbUpdate,
     bp_update = BiModeBP_update, bp_squash = BiModeBP_squash, bp_retire = BiModeBP_retireSquashed\<rparr>"

section \<open>The invariant\<close>

definition bimode_ok :: "bimode \<Rightarrow> bool" where
  "bimode_ok p \<longleftrightarrow> bm_shift p < 64 \<and> 0 < bm_choiceSize p \<and> 0 < bm_globalSize p \<and>
     bm_choiceMask p = bm_choiceSize p - 1 \<and> bm_globalMask p = bm_globalSize p - 1 \<and>
     (\<exists>c g. table_ok (bm_choiceSize p) c (choiceCounters p) \<and>
       table_ok (bm_globalSize p) g (takenCounters p) \<and> table_ok (bm_globalSize p) g (notTakenCounters p))"

lemma shift_in_mask [simp]: "shift_in m t r AND m = shift_in m t r"
  by (simp add: shift_in_def and.assoc)

lemma bimode_index:
  assumes "bimode_ok p"
  shows "\<exists>i. pc_index (bm_shift p) a x (bm_choiceMask p) = Inr i \<and> i < bm_choiceSize p"
    and "\<exists>i. pc_index (bm_shift p) a x (bm_globalMask p) = Inr i \<and> i < bm_globalSize p"
  using assms pc_index_less by (auto simp: bimode_ok_def)

text \<open>A lookup succeeds and changes nothing but the global history.\<close>

lemma bimode_lookup:
  assumes ok: "bimode_ok p"
  shows "\<exists>b h. BiModeBP_lookup a p = Inr (b, Some h, updateGlobalHistReg b p) \<and> h_reg h = globalHistoryReg p \<and>
     finalPred h = b \<and> b = (if takenUsed h then takenPred h else notTakenPred h)"
proof -
  obtain ci where ci: "pc_index (bm_shift p) a 0 (bm_choiceMask p) = Inr ci" "ci < bm_choiceSize p"
    using bimode_index(1) [OF ok] by blast
  obtain gi where gi: "pc_index (bm_shift p) a (globalHistoryReg p) (bm_globalMask p) = Inr gi" "gi < bm_globalSize p"
    using bimode_index(2) [OF ok] by blast
  obtain c g where t: "table_ok (bm_choiceSize p) c (choiceCounters p)"
      "table_ok (bm_globalSize p) g (takenCounters p)" "table_ok (bm_globalSize p) g (notTakenCounters p)"
    using ok by (auto simp: bimode_ok_def)
  show ?thesis
    using ci gi at_idx_ok [OF t(1) ci(2)] at_idx_ok [OF t(2) gi(2)] at_idx_ok [OF t(3) gi(2)]
    by (simp add: BiModeBP_lookup_def Let_def)
qed

lemma bimode_reg: "bimode_ok (p\<lparr>globalHistoryReg := r\<rparr>) = bimode_ok p" "bimode_ok (updateGlobalHistReg b p) = bimode_ok p"
  by (simp_all add: bimode_ok_def updateGlobalHistReg_def)

lemma bimode_update:
  assumes ok: "bimode_ok p"
  shows "\<exists>p'. BiModeBP_update a t (Some h) sq p = Inr p' \<and> bimode_ok p'"
proof -
  obtain ci where ci: "pc_index (bm_shift p) a 0 (bm_choiceMask p) = Inr ci" "ci < bm_choiceSize p"
    using bimode_index(1) [OF ok] by blast
  obtain gi where gi: "pc_index (bm_shift p) a (h_reg h) (bm_globalMask p) = Inr gi" "gi < bm_globalSize p"
    using bimode_index(2) [OF ok] by blast
  obtain c g where tb: "table_ok (bm_choiceSize p) c (choiceCounters p)"
      "table_ok (bm_globalSize p) g (takenCounters p)" "table_ok (bm_globalSize p) g (notTakenCounters p)"
    using ok by (auto simp: bimode_ok_def)
  obtain cs where cs: "upd_idx ci (train t) (choiceCounters p) = Inr cs" "table_ok (bm_choiceSize p) c cs"
    using upd_idx_ok [OF tb(1) ci(2)] by blast
  obtain ts where ts: "upd_idx gi (train t) (takenCounters p) = Inr ts" "table_ok (bm_globalSize p) g ts"
    using upd_idx_ok [OF tb(2) gi(2)] by blast
  obtain ns where ns: "upd_idx gi (train t) (notTakenCounters p) = Inr ns" "table_ok (bm_globalSize p) g ns"
    using upd_idx_ok [OF tb(3) gi(2)] by blast
  have "\<exists>p1. (if takenUsed h then bindR (upd_idx gi (train t) (takenCounters p)) (\<lambda>ts. Inr (p\<lparr>takenCounters := ts\<rparr>))
      else bindR (upd_idx gi (train t) (notTakenCounters p)) (\<lambda>ns. Inr (p\<lparr>notTakenCounters := ns\<rparr>))) = Inr p1 \<and>
      bimode_ok p1 \<and> choiceCounters p1 = choiceCounters p"
    using ok ts ns tb by (auto simp: bimode_ok_def)
  then obtain p1 where p1: "(if takenUsed h then bindR (upd_idx gi (train t) (takenCounters p)) (\<lambda>ts. Inr (p\<lparr>takenCounters := ts\<rparr>))
      else bindR (upd_idx gi (train t) (notTakenCounters p)) (\<lambda>ns. Inr (p\<lparr>notTakenCounters := ns\<rparr>))) = Inr p1"
      "bimode_ok p1" "choiceCounters p1 = choiceCounters p" by blast
  have sz: "bm_choiceSize p1 = bm_choiceSize p" using p1(1) ts ns by (auto split: if_splits)
  have "bimode_ok (p1\<lparr>choiceCounters := cs\<rparr>)" using p1(2) cs(2) sz by (auto simp: bimode_ok_def)
  then show ?thesis
    unfolding BiModeBP_update_def option.case ci(1) gi(1) bindR_Inr p1(1) p1(3) cs(1)
    using ci(2) gi(2) p1(2) by (auto simp: bimode_reg)
qed

interpretation bimode: direction_predictor bimode_ops bimode_ok "\<lambda>h. h \<noteq> None"
proof
  fix p a t sq and h :: "bmhist option"
  assume p: "bimode_ok p"
  show "\<exists>b h p'. bp_lookup bimode_ops a p = Inr (b, h, p') \<and> h \<noteq> None \<and> bimode_ok p'"
    using bimode_lookup [OF p, of a] p by (force simp: bimode_ops_def bimode_reg)
  show "\<exists>h p'. bp_uncond bimode_ops a p = Inr (h, p') \<and> h \<noteq> None \<and> bimode_ok p'"
    using p by (simp add: bimode_ops_def BiModeBP_uncondBranch_def bimode_reg)
  assume h: "h \<noteq> None"
  show "\<exists>p'. bp_btb bimode_ops a h p = Inr p' \<and> bimode_ok p'"
    using p by (simp add: bimode_ops_def BiModeBP_btbUpdate_def bimode_reg)
  show "\<exists>p'. bp_update bimode_ops a t h sq p = Inr p' \<and> bimode_ok p'"
    using bimode_update [OF p] h by (auto simp: bimode_ops_def)
  show "\<exists>p'. bp_squash bimode_ops h p = Inr p' \<and> bimode_ok p'"
    using p h by (auto simp: bimode_ops_def BiModeBP_squash_def bimode_reg)
  show "\<exists>p'. bp_retire bimode_ops h p = Inr p' \<and> bimode_ok p'"
    using p h by (simp add: bimode_ops_def BiModeBP_retireSquashed_def)
qed

lemma bimode_new:
  assumes "1 \<le> cbits" "cbits \<le> 8" "gbits \<le> 8" "shift < 64" "isPowerOf2 csize" "isPowerOf2 gsize"
  shows "\<exists>p t. BiModeBP_new csize cbits gsize gbits shift junk = Inr p \<and> bimode_ok p \<and>
     threshold_of cbits = Inr t \<and> choiceThreshold p = t \<and> takenThreshold p = t \<and> notTakenThreshold p = t"
proof -
  obtain m where m: "max_of cbits = Inr m" using max_of_value [OF assms(2)] by blast
  obtain g where g: "max_of gbits = Inr g" using max_of_value [OF assms(3)] by blast
  obtain t where t: "threshold_of cbits = Inr t" using threshold_value [OF assms(1,2)] by blast
  have pos: "csize \<noteq> 0" "gsize \<noteq> 0" using assms(5,6) by (simp_all add: isPowerOf2_def)
  have "\<exists>y. ceilLog2_32 gsize = Inr y"
    using floorLog2_32_ok [of "gsize - 1"] pos by (cases "gsize = 1") (auto simp: ceilLog2_32_def)
  then obtain hb where hb: "ceilLog2_32 gsize = Inr hb" by blast
  have pos': "0 < csize" "0 < gsize" using pos by (simp_all add: word_gt_0)
  show ?thesis
    unfolding BiModeBP_new_def hb t bindR_Inr
    using assms(4-6) pos' ctr_table_ok [OF m, of csize junk] ctr_table_ok [OF g, of gsize junk]
    by (auto simp: bimode_ok_def)
qed

section \<open>Speculation and thresholds\<close>

text \<open>C38: squashing undoes a prediction: on a well-formed predictor a lookup, or an
  unconditional branch, followed by the squash of the history it left restores the predictor
  exactly, whether or not \<open>btbUpdate\<close> came between.\<close>

theorem bimode_squash_restores:
  assumes "bimode_ok p"
  shows "\<exists>b h p1 p2. BiModeBP_lookup a p = Inr (b, h, p1) \<and> BiModeBP_squash h p1 = Inr p \<and>
     BiModeBP_btbUpdate a h p1 = Inr p2 \<and> BiModeBP_squash h p2 = Inr p \<and>
     bindR (BiModeBP_uncondBranch a p) (\<lambda>(h, q). BiModeBP_squash h q) = Inr p"
  using bimode_lookup [OF assms, of a]
  by (force simp: BiModeBP_squash_def BiModeBP_btbUpdate_def BiModeBP_uncondBranch_def updateGlobalHistReg_def)

theorem bimode_squash_restores_witness:
  "\<exists>p b h p1. BiModeBP_new 4 2 8 2 2 0 = Inr p \<and> BiModeBP_lookup 0x104 p = Inr (b, h, p1) \<and> BiModeBP_squash h p1 = Inr p"
proof -
  have "isPowerOf2 (4 :: u32)" "isPowerOf2 (8 :: u32)" by (simp_all add: isPowerOf2_def leastSigBit_def)
  then obtain p where p: "BiModeBP_new 4 2 8 2 2 0 = Inr p" "bimode_ok p" using bimode_new [of 2 2 2 4 8 0] by auto
  show ?thesis using bimode_squash_restores [OF p(2), of "0x104"] p(1) by blast
qed

text \<open>The direction tables are read against the choice table's threshold: a counter of
  \<open>gbits\<close> bits counts as taken from \<open>2 ^ (cbits - 1)\<close> on, so when the choice counters are narrower
  a counter below half of its own range already predicts taken.\<close>

theorem bimode_threshold_of_choice:
  assumes "1 \<le> cbits" "cbits \<le> 8" "gbits \<le> 8" "shift < 64" "isPowerOf2 csize" "isPowerOf2 gsize"
  shows "\<exists>p. BiModeBP_new csize cbits gsize gbits shift junk = Inr p \<and>
     (\<forall>c. above (takenThreshold p) c = (2 ^ (unat cbits - 1) \<le> unat (satval c)) \<and>
          above (notTakenThreshold p) c = (2 ^ (unat cbits - 1) \<le> unat (satval c)))"
proof -
  obtain p t where p: "BiModeBP_new csize cbits gsize gbits shift junk = Inr p" "threshold_of cbits = Inr t"
      "takenThreshold p = t" "notTakenThreshold p = t"
    using bimode_new [OF assms, of junk] by blast
  have u: "unat t = 2 ^ (unat cbits - 1) - 1" using threshold_value [OF assms(1,2)] p(2) by auto
  have "(0::nat) < 2 ^ (unat cbits - 1)" by simp
  then have "above t c = (2 ^ (unat cbits - 1) \<le> unat (satval c))" for c
    using u byte_u32 [of "satval c"] unfolding above_def sat_read_def word_less_nat_alt by linarith
  then show ?thesis using p by auto
qed

theorem bimode_threshold_of_choice_witness:
  "\<exists>p. BiModeBP_new 4 2 8 4 2 0 = Inr p \<and> above (takenThreshold p) \<lparr>initialVal = 0, maxVal = 15, satval = 2\<rparr>"
proof -
  have "isPowerOf2 (4 :: u32)" "isPowerOf2 (8 :: u32)" by (simp_all add: isPowerOf2_def leastSigBit_def)
  then show ?thesis using bimode_threshold_of_choice [of 2 4 2 4 8 0] by auto
qed

end
