(* ===== verification/Bpred_Tournament.thy ===== *)
theory Bpred_Tournament imports Bpred_Bimode begin

text \<open>
  The tournament predictor (cpu/pred/tournament.cc): a local predictor with a table of branch
  histories, a global one, and a choice table that selects between them.  Its shift of the
  global history is the one of \<open>Bpred_Bimode\<close>.
\<close>

unbundle bit_operations_syntax

section \<open>The predictor\<close>

record tnhist =
  th_global :: u32
  th_local :: u32
  localPredTaken :: bool
  globalPredTaken :: bool
  globalUsed :: bool

record tournament =
  tn_shift :: u32
  tn_localCtrs :: "satctr list"
  tn_localSize :: u32
  tn_localMask :: u32
  localHistoryTable :: "u32 list"
  tn_tableSize :: u32
  tn_globalCtrs :: "satctr list"
  tn_globalSize :: u32
  globalHistory :: u32
  tn_globalMask :: u32
  tn_choiceMask :: u32
  tn_registerMask :: u32
  tn_choiceCtrs :: "satctr list"
  tn_choiceSize :: u32
  tn_localThreshold :: u32
  tn_globalThreshold :: u32
  tn_choiceThreshold :: u32

record tnparams =
  par_localSize :: u32
  par_localBits :: u32
  par_tableSize :: u32
  par_globalSize :: u32
  par_globalBits :: u32
  par_choiceSize :: u32
  par_choiceBits :: u32
  par_shift :: u32

definition TournamentBP_new :: "tnparams \<Rightarrow> byte \<Rightarrow> tournament res" where
  "TournamentBP_new P junk =
     bindR (ceilLog2_32 (par_localSize P)) (\<lambda>lbits.
     bindR (ceilLog2_32 (par_globalSize P)) (\<lambda>g.
     bindR (ceilLog2_32 (par_choiceSize P)) (\<lambda>c.
     let gbits = (if c < g then g else c); regmask = ucast (mask_n gbits) :: u32;
         gmask = par_globalSize P - 1; cmask = par_choiceSize P - 1 in
     bindR (guardR (isPowerOf2 (par_localSize P)) FatalError) (\<lambda>_.
     bindR (guardR (isPowerOf2 (par_globalSize P)) FatalError) (\<lambda>_.
     bindR (ctr_table (par_localSize P) (par_localBits P) junk) (\<lambda>ls.
     bindR (guardR (isPowerOf2 (par_tableSize P)) FatalError) (\<lambda>_.
     bindR (ctr_table (par_globalSize P) (par_globalBits P) junk) (\<lambda>gs.
     bindR (guardR (isPowerOf2 (par_choiceSize P)) FatalError) (\<lambda>_.
     bindR (ctr_table (par_choiceSize P) (par_choiceBits P) junk) (\<lambda>cs.
     bindR (guardR (gmask \<le> regmask) FatalError) (\<lambda>_.
     bindR (guardR (cmask \<le> regmask) FatalError) (\<lambda>_.
     bindR (threshold_of (par_localBits P)) (\<lambda>lt.
     bindR (threshold_of (par_globalBits P)) (\<lambda>gt.
     bindR (threshold_of (par_choiceBits P)) (\<lambda>ct.
     Inr \<lparr>tn_shift = par_shift P, tn_localCtrs = ls, tn_localSize = par_localSize P,
          tn_localMask = ucast (mask_n lbits), localHistoryTable = replicate (unat (par_tableSize P)) 0,
          tn_tableSize = par_tableSize P, tn_globalCtrs = gs, tn_globalSize = par_globalSize P,
          globalHistory = 0, tn_globalMask = gmask, tn_choiceMask = cmask, tn_registerMask = regmask,
          tn_choiceCtrs = cs, tn_choiceSize = par_choiceSize P,
          tn_localThreshold = lt, tn_globalThreshold = gt, tn_choiceThreshold = ct\<rparr>)))))))))))))))"

definition calcLocHistIdx :: "tournament \<Rightarrow> addr \<Rightarrow> u32 res" where
  "calcLocHistIdx p a = pc_index (tn_shift p) a 0 (tn_tableSize p - 1)"

definition updateGlobalHist :: "bool \<Rightarrow> tournament \<Rightarrow> tournament" where
  "updateGlobalHist taken p = p\<lparr>globalHistory := shift_in (tn_registerMask p) taken (globalHistory p)\<rparr>"

definition updateLocalHist :: "bool \<Rightarrow> u32 \<Rightarrow> tournament \<Rightarrow> tournament res" where
  "updateLocalHist taken i p =
     bindR (upd_idx i (\<lambda>r. if taken then push_bit 1 r OR 1 else push_bit 1 r) (localHistoryTable p))
       (\<lambda>t. Inr (p\<lparr>localHistoryTable := t\<rparr>))"

definition TournamentBP_btbUpdate :: "addr \<Rightarrow> tnhist option \<Rightarrow> tournament \<Rightarrow> tournament res" where
  "TournamentBP_btbUpdate a h p =
     bindR (calcLocHistIdx p a) (\<lambda>i.
     let p1 = p\<lparr>globalHistory := globalHistory p AND (tn_registerMask p AND NOT 1)\<rparr> in
     bindR (upd_idx i (\<lambda>r. r AND (tn_localMask p AND NOT 1)) (localHistoryTable p1)) (\<lambda>t.
     Inr (p1\<lparr>localHistoryTable := t\<rparr>)))"

definition TournamentBP_lookup :: "addr \<Rightarrow> tournament \<Rightarrow> (bool \<times> tnhist option \<times> tournament) res" where
  "TournamentBP_lookup a p =
     bindR (calcLocHistIdx p a) (\<lambda>li.
     bindR (at_idx (localHistoryTable p) li) (\<lambda>lh.
     let lp = lh AND tn_localMask p in
     bindR (at_idx (tn_localCtrs p) lp) (\<lambda>l.
     bindR (at_idx (tn_globalCtrs p) (globalHistory p AND tn_globalMask p)) (\<lambda>g.
     bindR (at_idx (tn_choiceCtrs p) (globalHistory p AND tn_choiceMask p)) (\<lambda>c.
     let lpred = above (tn_localThreshold p) l; gpred = above (tn_globalThreshold p) g;
         choice = above (tn_choiceThreshold p) c;
         h = \<lparr>th_global = globalHistory p, th_local = lp, localPredTaken = lpred, globalPredTaken = gpred,
              globalUsed = choice\<rparr>;
         pred = (if choice then gpred else lpred) in
     bindR (guardR (li < tn_tableSize p) AssertFail) (\<lambda>_.
     bindR (updateLocalHist pred li (updateGlobalHist pred p)) (\<lambda>p'. Inr (pred, Some h, p'))))))))"

text \<open>\<open>invalidPredictorIndex\<close> is -1, compared as unsigned.\<close>

definition invalidPredictorIndex :: u32 where
  "invalidPredictorIndex = - 1"

definition TournamentBP_uncondBranch :: "addr \<Rightarrow> tournament \<Rightarrow> (tnhist option \<times> tournament) res" where
  "TournamentBP_uncondBranch pc p =
     Inr (Some \<lparr>th_global = globalHistory p, th_local = invalidPredictorIndex, localPredTaken = True,
                globalPredTaken = True, globalUsed = True\<rparr>,
          updateGlobalHist True p)"

text \<open>The counters' part of \<open>update\<close>.\<close>

definition tn_train :: "tnhist \<Rightarrow> bool \<Rightarrow> tournament \<Rightarrow> tournament res" where
  "tn_train h taken p =
     bindR (if localPredTaken h \<noteq> globalPredTaken h
            then let ci = th_global h AND tn_choiceMask p in
              if localPredTaken h = taken
              then bindR (upd_idx ci decrement (tn_choiceCtrs p)) (\<lambda>cs. Inr (p\<lparr>tn_choiceCtrs := cs\<rparr>))
              else if globalPredTaken h = taken
              then bindR (upd_idx ci increment (tn_choiceCtrs p)) (\<lambda>cs. Inr (p\<lparr>tn_choiceCtrs := cs\<rparr>))
              else Inr p
            else Inr p) (\<lambda>p1.
     bindR (upd_idx (th_global h AND tn_globalMask p1) (train taken) (tn_globalCtrs p1)) (\<lambda>gs.
     let p2 = p1\<lparr>tn_globalCtrs := gs\<rparr> in
     if th_local h \<noteq> invalidPredictorIndex
     then bindR (upd_idx (th_local h AND tn_localMask p2) (train taken) (tn_localCtrs p2)) (\<lambda>ls.
            Inr (p2\<lparr>tn_localCtrs := ls\<rparr>))
     else Inr p2))"

definition TournamentBP_update :: "addr \<Rightarrow> bool \<Rightarrow> tnhist option \<Rightarrow> bool \<Rightarrow> tournament \<Rightarrow> tournament res" where
  "TournamentBP_update a taken hp squashed p =
     bindR (calcLocHistIdx p a) (\<lambda>li.
     bindR (at_idx (localHistoryTable p) li) (\<lambda>_.
     bindR (case hp of None \<Rightarrow> Inr p | Some h \<Rightarrow>
       bindR (guardR ((th_local h AND tn_localMask p) < tn_localSize p) AssertFail) (\<lambda>_.
       let pred = (if globalUsed h then globalPredTaken h else localPredTaken h) in
       bindR (if pred \<noteq> taken \<or> \<not> squashed then tn_train h taken p else Inr p) (\<lambda>p1.
       if squashed
       then let p2 = p1\<lparr>globalHistory := shift_in (tn_registerMask p1) taken (th_global h)\<rparr> in
            if th_local h \<noteq> invalidPredictorIndex
            then bindR (upd_idx li (\<lambda>_. if taken then push_bit 1 (th_local h) OR 1 else push_bit 1 (th_local h)) (localHistoryTable p2))
                   (\<lambda>t. Inr (p2\<lparr>localHistoryTable := t\<rparr>))
            else Inr p2
       else Inr p1))) (\<lambda>p'.
     bindR (guardR (li < tn_tableSize p') AssertFail) (\<lambda>_. Inr p'))))"

definition TournamentBP_retireSquashed :: "tnhist option \<Rightarrow> tournament \<Rightarrow> tournament res" where
  "TournamentBP_retireSquashed h p = Inr p"

definition TournamentBP_squash :: "tnhist option \<Rightarrow> tournament \<Rightarrow> tournament res" where
  "TournamentBP_squash h p = (case h of None \<Rightarrow> Inl Undefined | Some h \<Rightarrow> Inr (p\<lparr>globalHistory := th_global h\<rparr>))"

definition tournament_ops :: "(tournament, tnhist) bp_ops" where
  "tournament_ops = \<lparr>bp_lookup = TournamentBP_lookup, bp_uncond = TournamentBP_uncondBranch,
     bp_btb = TournamentBP_btbUpdate, bp_update = TournamentBP_update, bp_squash = TournamentBP_squash,
     bp_retire = TournamentBP_retireSquashed\<rparr>"

section \<open>The invariant\<close>

definition tournament_ok :: "tournament \<Rightarrow> bool" where
  "tournament_ok p \<longleftrightarrow> tn_shift p < 64 \<and> 0 < tn_localSize p \<and> 0 < tn_globalSize p \<and> 0 < tn_choiceSize p \<and>
     0 < tn_tableSize p \<and> tn_localMask p = tn_localSize p - 1 \<and> tn_globalMask p = tn_globalSize p - 1 \<and>
     tn_choiceMask p = tn_choiceSize p - 1 \<and> length (localHistoryTable p) = unat (tn_tableSize p) \<and>
     (\<exists>l g c. table_ok (tn_localSize p) l (tn_localCtrs p) \<and> table_ok (tn_globalSize p) g (tn_globalCtrs p) \<and>
        table_ok (tn_choiceSize p) c (tn_choiceCtrs p))"

lemma tournament_reg:
  "tournament_ok (p\<lparr>globalHistory := r\<rparr>) = tournament_ok p" "tournament_ok (updateGlobalHist b p) = tournament_ok p"
  by (simp_all add: tournament_ok_def updateGlobalHist_def)

lemma tournament_table: "tournament_ok p \<Longrightarrow> length t = length (localHistoryTable p) \<Longrightarrow> tournament_ok (p\<lparr>localHistoryTable := t\<rparr>)"
  by (simp add: tournament_ok_def)

lemma tournament_index:
  assumes "tournament_ok p"
  shows "\<exists>i. calcLocHistIdx p a = Inr i \<and> i < tn_tableSize p \<and> unat i < length (localHistoryTable p)"
  using assms pc_index_less [of "tn_shift p" "tn_tableSize p" a 0]
  by (auto simp: calcLocHistIdx_def tournament_ok_def word_less_nat_alt)

text \<open>A lookup succeeds; it changes the global history and one entry of the local histories.\<close>

lemma tournament_lookup:
  assumes ok: "tournament_ok p"
  shows "\<exists>b h i. TournamentBP_lookup a p = Inr (b, Some h, (updateGlobalHist b p)
         \<lparr>localHistoryTable := (localHistoryTable p)[unat i := if b then push_bit 1 (localHistoryTable p ! unat i) OR 1
            else push_bit 1 (localHistoryTable p ! unat i)]\<rparr>) \<and>
     calcLocHistIdx p a = Inr i \<and> unat i < length (localHistoryTable p) \<and> th_global h = globalHistory p \<and>
     th_local h = localHistoryTable p ! unat i AND tn_localMask p"
proof -
  obtain i where i: "calcLocHistIdx p a = Inr i" "i < tn_tableSize p" "unat i < length (localHistoryTable p)"
    using tournament_index [OF ok] by blast
  obtain l g c where t: "table_ok (tn_localSize p) l (tn_localCtrs p)" "table_ok (tn_globalSize p) g (tn_globalCtrs p)"
      "table_ok (tn_choiceSize p) c (tn_choiceCtrs p)" using ok by (auto simp: tournament_ok_def)
  have m: "(x AND tn_localMask p) < tn_localSize p" "(x AND tn_globalMask p) < tn_globalSize p"
      "(x AND tn_choiceMask p) < tn_choiceSize p" for x
    using ok and_pred_less [of "tn_localSize p" x] and_pred_less [of "tn_globalSize p" x] and_pred_less [of "tn_choiceSize p" x]
    by (simp_all add: tournament_ok_def)
  have "at_idx (localHistoryTable p) i = Inr (localHistoryTable p ! unat i)" using i(3) by (simp add: at_idx_def)
  then show ?thesis
    using i at_idx_ok [OF t(1) m(1)] at_idx_ok [OF t(2) m(2)] at_idx_ok [OF t(3) m(3)]
    by (simp add: TournamentBP_lookup_def Let_def updateLocalHist_def upd_idx_def updateGlobalHist_def)
qed

lemma tournament_train:
  assumes ok: "tournament_ok p"
  shows "\<exists>p'. tn_train h t p = Inr p' \<and> tournament_ok p' \<and> tn_localMask p' = tn_localMask p \<and>
     tn_tableSize p' = tn_tableSize p \<and> localHistoryTable p' = localHistoryTable p"
proof -
  obtain l g c where tb: "table_ok (tn_localSize p) l (tn_localCtrs p)" "table_ok (tn_globalSize p) g (tn_globalCtrs p)"
      "table_ok (tn_choiceSize p) c (tn_choiceCtrs p)" using ok by (auto simp: tournament_ok_def)
  have m: "(x AND tn_localMask p) < tn_localSize p" "(x AND tn_globalMask p) < tn_globalSize p"
      "(x AND tn_choiceMask p) < tn_choiceSize p" for x
    using ok and_pred_less [of "tn_localSize p" x] and_pred_less [of "tn_globalSize p" x] and_pred_less [of "tn_choiceSize p" x]
    by (simp_all add: tournament_ok_def)
  let ?li = "th_local h AND tn_localMask p" and ?gi = "th_global h AND tn_globalMask p" and ?ci = "th_global h AND tn_choiceMask p"
  obtain ls where ls: "upd_idx ?li (train t) (tn_localCtrs p) = Inr ls" "table_ok (tn_localSize p) l ls"
    using upd_idx_ok [OF tb(1) m(1)] by blast
  obtain gs where gs: "upd_idx ?gi (train t) (tn_globalCtrs p) = Inr gs" "table_ok (tn_globalSize p) g gs"
    using upd_idx_ok [OF tb(2) m(2)] by blast
  obtain ci where ci: "upd_idx ?ci increment (tn_choiceCtrs p) = Inr ci" "table_ok (tn_choiceSize p) c ci"
    using upd_idx_ok [where t = True, OF tb(3) m(3)] by (auto simp: train_def)
  obtain cd where cd: "upd_idx ?ci decrement (tn_choiceCtrs p) = Inr cd" "table_ok (tn_choiceSize p) c cd"
    using upd_idx_ok [where t = False, OF tb(3) m(3)] by (auto simp: train_def)
  let ?first = "if localPredTaken h \<noteq> globalPredTaken h
     then if localPredTaken h = t then Inr (p\<lparr>tn_choiceCtrs := cd\<rparr>)
       else if globalPredTaken h = t then Inr (p\<lparr>tn_choiceCtrs := ci\<rparr>) else Inr p
     else (Inr p :: tournament res)"
  define cs where "cs = (if localPredTaken h \<noteq> globalPredTaken h
     then if localPredTaken h = t then cd else if globalPredTaken h = t then ci else tn_choiceCtrs p else tn_choiceCtrs p)"
  have keep: "p\<lparr>tn_choiceCtrs := tn_choiceCtrs p\<rparr> = p" by simp
  have p1: "?first = Inr (p\<lparr>tn_choiceCtrs := cs\<rparr>)" "table_ok (tn_choiceSize p) c cs"
    unfolding cs_def using keep tb(3) ci(2) cd(2) by simp_all
  define q where "q = p\<lparr>tn_choiceCtrs := cs, tn_globalCtrs := gs\<rparr>"
  have q: "tournament_ok q" "tournament_ok (q\<lparr>tn_localCtrs := ls\<rparr>)"
    using ok p1(2) gs(2) ls(2) tb by (auto simp: tournament_ok_def q_def)
  have "tn_train h t p = (if th_local h \<noteq> invalidPredictorIndex then Inr (q\<lparr>tn_localCtrs := ls\<rparr>) else Inr q)"
    unfolding tn_train_def Let_def ci(1) cd(1) bindR_Inr p1(1) using gs(1) ls(1) by (simp add: q_def)
  then show ?thesis using q by (simp add: q_def)
qed

lemma tournament_update:
  assumes ok: "tournament_ok p"
  shows "\<exists>p'. TournamentBP_update a t h sq p = Inr p' \<and> tournament_ok p'"
proof -
  obtain i where i: "calcLocHistIdx p a = Inr i" "i < tn_tableSize p" "unat i < length (localHistoryTable p)"
    using tournament_index [OF ok] by blast
  have at: "at_idx (localHistoryTable p) i = Inr (localHistoryTable p ! unat i)" using i(3) by (simp add: at_idx_def)
  show ?thesis
  proof (cases h)
    case None
    then show ?thesis using ok i at by (simp add: TournamentBP_update_def)
  next
    case (Some h)
    have m: "(th_local h AND tn_localMask p) < tn_localSize p"
      using ok and_pred_less [of "tn_localSize p" "th_local h"] by (simp add: tournament_ok_def)
    obtain p1 where p1: "(if (if globalUsed h then globalPredTaken h else localPredTaken h) \<noteq> t \<or> \<not> sq then tn_train h t p else Inr p) = Inr p1"
       "tournament_ok p1" "tn_tableSize p1 = tn_tableSize p" "localHistoryTable p1 = localHistoryTable p"
    proof (cases "(if globalUsed h then globalPredTaken h else localPredTaken h) \<noteq> t \<or> \<not> sq")
      case True
      obtain p1 where "tn_train h t p = Inr p1" "tournament_ok p1" "tn_tableSize p1 = tn_tableSize p"
          "localHistoryTable p1 = localHistoryTable p"
        using tournament_train [OF ok, of h t] by blast
      then show ?thesis by (intro that [of p1]) (simp_all only: True if_True)
    next
      case False
      then show ?thesis using ok by (intro that [of p]) (simp_all only: if_False)
    qed
    show ?thesis
      unfolding TournamentBP_update_def i(1) at bindR_Inr Some option.case Let_def p1(1)
      using m p1(2-4) i(2,3) by (auto simp: upd_idx_def tournament_reg tournament_table)
  qed
qed

interpretation tournament: direction_predictor tournament_ops tournament_ok "\<lambda>h. h \<noteq> None"
proof
  fix p a t sq and h :: "tnhist option"
  assume p: "tournament_ok p"
  show "\<exists>b h p'. bp_lookup tournament_ops a p = Inr (b, h, p') \<and> h \<noteq> None \<and> tournament_ok p'"
  proof -
    obtain b h t where l: "TournamentBP_lookup a p = Inr (b, Some h, (updateGlobalHist b p)\<lparr>localHistoryTable := t\<rparr>)"
        "length t = length (localHistoryTable p)"
      using tournament_lookup [OF p, of a] by fastforce
    have "tournament_ok ((updateGlobalHist b p)\<lparr>localHistoryTable := t\<rparr>)"
      using p l(2) by (intro tournament_table) (simp_all add: tournament_reg, simp add: updateGlobalHist_def)
    then show ?thesis using l(1) by (simp add: tournament_ops_def)
  qed
  show "\<exists>h p'. bp_uncond tournament_ops a p = Inr (h, p') \<and> h \<noteq> None \<and> tournament_ok p'"
    using p by (simp add: tournament_ops_def TournamentBP_uncondBranch_def tournament_reg)
  assume h: "h \<noteq> None"
  show "\<exists>p'. bp_btb tournament_ops a h p = Inr p' \<and> tournament_ok p'"
    using p tournament_index [OF p, of a]
    by (auto simp: tournament_ops_def TournamentBP_btbUpdate_def Let_def upd_idx_def tournament_reg tournament_table)
  show "\<exists>p'. bp_update tournament_ops a t h sq p = Inr p' \<and> tournament_ok p'"
    using tournament_update [OF p] by (auto simp: tournament_ops_def)
  show "\<exists>p'. bp_squash tournament_ops h p = Inr p' \<and> tournament_ok p'"
    using p h by (auto simp: tournament_ops_def TournamentBP_squash_def tournament_reg)
  show "\<exists>p'. bp_retire tournament_ops h p = Inr p' \<and> tournament_ok p'"
    using p h by (simp add: tournament_ops_def TournamentBP_retireSquashed_def)
qed

lemma ceilLog2_32_pow:
  assumes "unat n = 2 ^ k" "k < 32"
  shows "ceilLog2_32 n = Inr k"
proof (cases k)
  case 0
  then have "n = 1" using assms(1) by (simp add: word_unat_eq_iff)
  then show ?thesis using 0 by (simp add: ceilLog2_32_def)
next
  case (Suc j)
  have n1: "n \<noteq> 1" and n0: "n \<noteq> 0" using assms(1) Suc by auto
  have u: "unat (n - 1) = 2 ^ k - 1" using assms(1) n0 by (simp add: unat_minus_one)
  have "n - 1 \<noteq> 0" using n1 by simp
  then obtain y where y: "floorLog2_32 (n - 1) = Inr y" "2 ^ y \<le> unat (n - 1)" "unat (n - 1) < 2 ^ (y + 1)"
    using floorLog2_32_ok by blast
  have "y = j" by (rule log_unique [OF y(2,3)]) (use Suc u in simp_all)
  then show ?thesis using y(1) n1 Suc by (simp add: ceilLog2_32_def)
qed

lemma pow2_mask: "unat (n :: u32) = 2 ^ k \<Longrightarrow> ucast (mask_n k) = n - 1"
proof -
  assume n: "unat n = 2 ^ k"
  then have k: "k < 32" using pow2_width [OF n] by simp
  then have "ucast (mask_n k) = (mask k :: u32)" by (simp add: mask_n_mask ucast_mask_eq min_def)
  then show ?thesis using pow2_minus_1 [OF n] by simp
qed

lemma tournament_new:
  assumes "1 \<le> par_localBits P" "par_localBits P \<le> 8" "1 \<le> par_globalBits P" "par_globalBits P \<le> 8"
    "1 \<le> par_choiceBits P" "par_choiceBits P \<le> 8" "par_shift P < 64"
    and "isPowerOf2 (par_localSize P)" "isPowerOf2 (par_globalSize P)" "isPowerOf2 (par_choiceSize P)"
    "isPowerOf2 (par_tableSize P)"
  shows "\<exists>p. TournamentBP_new P junk = Inr p \<and> tournament_ok p"
proof -
  obtain l g c where pw: "unat (par_localSize P) = 2 ^ l" "unat (par_globalSize P) = 2 ^ g" "unat (par_choiceSize P) = 2 ^ c"
    using assms(8-10) by (auto simp: isPowerOf2_pow)
  have lt: "l < 32" "g < 32" "c < 32" using pw [THEN pow2_width] by simp_all
  note lg = ceilLog2_32_pow [OF pw(1) lt(1)] ceilLog2_32_pow [OF pw(2) lt(2)] ceilLog2_32_pow [OF pw(3) lt(3)]
  obtain ml mg mc where m: "max_of (par_localBits P) = Inr ml" "max_of (par_globalBits P) = Inr mg" "max_of (par_choiceBits P) = Inr mc"
    using assms max_of_value by meson
  obtain tl tg tc where th: "threshold_of (par_localBits P) = Inr tl" "threshold_of (par_globalBits P) = Inr tg"
      "threshold_of (par_choiceBits P) = Inr tc"
    using assms threshold_value by meson
  note tb = ctr_table_ok [OF m(1), of "par_localSize P" junk] ctr_table_ok [OF m(2), of "par_globalSize P" junk]
    ctr_table_ok [OF m(3), of "par_choiceSize P" junk]
  have pos: "par_localSize P \<noteq> 0" "par_globalSize P \<noteq> 0" "par_choiceSize P \<noteq> 0" "par_tableSize P \<noteq> 0"
    using assms(8-11) by (auto simp: isPowerOf2_def)
  have "unat (par_globalSize P - 1) = 2 ^ g - 1" "unat (par_choiceSize P - 1) = 2 ^ c - 1"
    using pw pos by (simp_all add: unat_minus_one)
  then have le: "c \<le> g \<Longrightarrow> par_choiceSize P - 1 \<le> par_globalSize P - 1"
      "g \<le> c \<Longrightarrow> par_globalSize P - 1 \<le> par_choiceSize P - 1"
    by (simp_all add: word_le_nat_alt diff_le_mono)
  have rm: "par_globalSize P - 1 \<le> ucast (mask_n (if c < g then g else c))"
    "par_choiceSize P - 1 \<le> ucast (mask_n (if c < g then g else c))"
    using le pow2_mask [OF pw(2)] pow2_mask [OF pw(3)] by simp_all
  show ?thesis
    unfolding TournamentBP_new_def lg bindR_Inr Let_def th
    using assms(7-11) tb rm pos pow2_mask [OF pw(1)]
    by (auto simp: tournament_ok_def word_gt_0)
qed

section \<open>What a squash leaves\<close>

text \<open>A squash restores the global history and no more: after the lookup of a branch and
  its squash the predictor is as before, except that the local history of the branch keeps the
  speculative outcome that the lookup shifted in.\<close>

theorem tournament_squash_keeps_local:
  assumes "tournament_ok p"
  shows "\<exists>b h p1 i. TournamentBP_lookup a p = Inr (b, h, p1) \<and> calcLocHistIdx p a = Inr i \<and>
     unat i < length (localHistoryTable p) \<and>
     TournamentBP_squash h p1 = Inr (p\<lparr>localHistoryTable := (localHistoryTable p)
       [unat i := if b then push_bit 1 (localHistoryTable p ! unat i) OR 1 else push_bit 1 (localHistoryTable p ! unat i)]\<rparr>)"
proof -
  obtain b h i where l: "TournamentBP_lookup a p = Inr (b, Some h, (updateGlobalHist b p)
         \<lparr>localHistoryTable := (localHistoryTable p)[unat i := if b then push_bit 1 (localHistoryTable p ! unat i) OR 1
            else push_bit 1 (localHistoryTable p ! unat i)]\<rparr>)"
     "calcLocHistIdx p a = Inr i" "unat i < length (localHistoryTable p)" "th_global h = globalHistory p"
    using tournament_lookup [OF assms, of a] by blast
  show ?thesis
    by (rule exI, rule exI, rule exI, rule exI, rule conjI [OF l(1)], rule conjI [OF l(2)], rule conjI [OF l(3)])
      (simp add: TournamentBP_squash_def updateGlobalHist_def l(4))
qed

definition demo_tournament :: tnparams where
  "demo_tournament = \<lparr>par_localSize = 8, par_localBits = 2, par_tableSize = 4, par_globalSize = 16, par_globalBits = 2,
     par_choiceSize = 8, par_choiceBits = 2, par_shift = 2\<rparr>"

lemma demo_tournament_new: "\<exists>p. TournamentBP_new demo_tournament 0 = Inr p \<and> tournament_ok p"
  by (rule tournament_new) (simp_all add: demo_tournament_def isPowerOf2_def leastSigBit_def)

theorem tournament_squash_keeps_local_witness:
  "\<exists>p b h p1 i. TournamentBP_new demo_tournament 0 = Inr p \<and> TournamentBP_lookup 0x104 p = Inr (b, h, p1) \<and>
     calcLocHistIdx p 0x104 = Inr i \<and> unat i < length (localHistoryTable p)"
proof -
  obtain p where p: "TournamentBP_new demo_tournament 0 = Inr p" "tournament_ok p" using demo_tournament_new by blast
  show ?thesis using tournament_squash_keeps_local [OF p(2), of "0x104"] p(1) by blast
qed

end
