(* ===== verification/Bpred_Unit.thy ===== *)
theory Bpred_Unit imports Btb_Ras Bpred_Local Bpred_Tournament begin

text \<open>
  The branch prediction unit (cpu/pred/bpred_unit.cc): a direction predictor, the branch target
  buffer, one return address stack and one history of predictions in flight per thread.  The
  unit is generic in its direction predictor, as the class is; what it asks of the instruction
  set is a record of functions.  Statistics and probe points are not modelled.
\<close>

section \<open>Instructions and histories\<close>

record ('i, 'pc) isa =
  isUncondCtrl :: "'i \<Rightarrow> bool"
  isCall :: "'i \<Rightarrow> bool"
  isReturn :: "'i \<Rightarrow> bool"
  isDirectCtrl :: "'i \<Rightarrow> bool"
  branchTarget :: "'i \<Rightarrow> 'pc \<Rightarrow> 'pc"
  instAddr :: "'pc \<Rightarrow> addr"
  buildRetPC :: "'pc \<Rightarrow> 'pc \<Rightarrow> 'pc"
  advancePC :: "'i \<Rightarrow> 'pc \<Rightarrow> 'pc"
  pc_zero :: 'pc

type_synonym seqnum = "64 word"

record ('h, 'pc) prhist =
  seqNum :: seqnum
  ph_pc :: addr
  bpHistory :: "'h option"
  RASTarget :: 'pc
  RASIndex :: u32
  ph_tid :: nat
  predTaken :: bool
  usedRAS :: bool
  pushedRAS :: bool
  wasCall :: bool
  wasReturn :: bool
  wasSquashed :: bool

definition PredictorHistory_new :: "'pc \<Rightarrow> seqnum \<Rightarrow> addr \<Rightarrow> bool \<Rightarrow> 'h option \<Rightarrow> nat \<Rightarrow> ('h, 'pc) prhist" where
  "PredictorHistory_new zero sn pc taken h tid =
     \<lparr>seqNum = sn, ph_pc = pc, bpHistory = h, RASTarget = zero, RASIndex = 0, ph_tid = tid, predTaken = taken,
      usedRAS = False, pushedRAS = False, wasCall = False, wasReturn = False, wasSquashed = False\<rparr>"

record ('p, 'h, 'pc) bpu =
  bpu_pred :: 'p
  bpu_btb :: "'pc btb"
  bpu_ras :: "'pc ras list"
  predHist :: "('h, 'pc) prhist list list"

definition BPredUnit_new :: "('i, 'pc) isa \<Rightarrow> 'p \<Rightarrow> nat \<Rightarrow> u32 \<Rightarrow> u32 \<Rightarrow> u32 \<Rightarrow> u32 \<Rightarrow> int \<Rightarrow> ('p, 'h, 'pc) bpu res" where
  "BPredUnit_new I p threads entries tagSize shift rasSize junk =
     bindR (DefaultBTB_new (pc_zero I) entries tagSize shift junk) (\<lambda>b.
     Inr \<lparr>bpu_pred = p, bpu_btb = b, bpu_ras = replicate threads (RAS_init (pc_zero I) rasSize),
          predHist = replicate threads []\<rparr>)"

definition drainSanityCheck :: "('p, 'h, 'pc) bpu \<Rightarrow> unit res" where
  "drainSanityCheck u = forR (\<lambda>ph _. guardR (ph = []) AssertFail) (predHist u) ()"

definition at_tid :: "'x list \<Rightarrow> nat \<Rightarrow> 'x res" where
  "at_tid xs t = (if t < length xs then Inr (xs ! t) else Inl OutOfBounds)"

definition put_hist :: "nat \<Rightarrow> ('h, 'pc) prhist list \<Rightarrow> ('p, 'h, 'pc) bpu \<Rightarrow> ('p, 'h, 'pc) bpu" where
  "put_hist tid ph u = u\<lparr>predHist := (predHist u)[tid := ph]\<rparr>"

definition put_ras :: "nat \<Rightarrow> 'pc ras \<Rightarrow> ('p, 'h, 'pc) bpu \<Rightarrow> ('p, 'h, 'pc) bpu" where
  "put_ras tid r u = u\<lparr>bpu_ras := (bpu_ras u)[tid := r]\<rparr>"

section \<open>Prediction\<close>

text \<open>The target of a branch predicted taken that is not a return: the direction, the target,
  the return address stack and the record afterwards.\<close>

definition predict_target ::
  "('p, 'h) bp_ops \<Rightarrow> ('i, 'pc) isa \<Rightarrow> 'i \<Rightarrow> 'pc \<Rightarrow> nat \<Rightarrow> 'pc ras \<Rightarrow> ('h, 'pc) prhist \<Rightarrow> 'pc btb \<Rightarrow> 'p \<Rightarrow>
     (bool \<times> 'pc \<times> 'pc ras \<times> ('h, 'pc) prhist \<times> 'p) res" where
  "predict_target P I inst pc tid r e b p =
     bindR (if isCall I inst then bindR (RAS_push pc r) (\<lambda>r. Inr (r, e\<lparr>pushedRAS := True, wasCall := True\<rparr>))
            else Inr (r, e)) (\<lambda>(r, e).
     bindR (BTB_valid b (instAddr I pc) (int tid)) (\<lambda>v.
     if v then bindR (BTB_lookup (pc_zero I) b (instAddr I pc) (int tid)) (\<lambda>t. Inr (True, t, r, e, p))
     else bindR (if \<not> isCall I inst \<and> \<not> isReturn I inst
                 then bindR (bp_btb P (instAddr I pc) (bpHistory e) p) (\<lambda>p. Inr (r, e, p))
                 else if isCall I inst \<and> \<not> isUncondCtrl I inst then Inr (RAS_pop r, e\<lparr>pushedRAS := False\<rparr>, p)
                 else Inr (r, e, p)) (\<lambda>(r, e, p).
          Inr (False, advancePC I inst pc, r, e, p))))"

definition predict ::
  "('p, 'h) bp_ops \<Rightarrow> ('i, 'pc) isa \<Rightarrow> 'i \<Rightarrow> seqnum \<Rightarrow> 'pc \<Rightarrow> nat \<Rightarrow> ('p, 'h, 'pc) bpu \<Rightarrow>
     (bool \<times> 'pc \<times> ('p, 'h, 'pc) bpu) res" where
  "predict P I inst sn pc tid u =
     bindR (if isUncondCtrl I inst
            then bindR (bp_uncond P (instAddr I pc) (bpu_pred u)) (\<lambda>(h, p). Inr (True, h, p))
            else bp_lookup P (instAddr I pc) (bpu_pred u)) (\<lambda>(taken, h, p).
     let e = PredictorHistory_new (pc_zero I) sn (instAddr I pc) taken h tid in
     bindR (at_tid (bpu_ras u) tid) (\<lambda>r.
     bindR (if taken
            then if isReturn I inst
                 then bindR (RAS_top r) (\<lambda>t.
                      Inr (True, buildRetPC I pc t, RAS_pop r,
                           e\<lparr>wasReturn := True, usedRAS := True, RASIndex := topIdx r, RASTarget := t\<rparr>, p))
                 else predict_target P I inst pc tid r e (bpu_btb u) p
            else Inr (False, advancePC I inst pc, r, (if isReturn I inst then e\<lparr>wasReturn := True\<rparr> else e), p))
       (\<lambda>(taken', target, r', e', p').
     bindR (at_tid (predHist u) tid) (\<lambda>ph.
     Inr (taken', target, put_hist tid (e' # ph) (put_ras tid r' (u\<lparr>bpu_pred := p'\<rparr>)))))))"

text \<open>The in-order variant asks the target buffer by address space, does not undo a call it
  cannot predict, and does not change the program counter of a branch predicted not taken.\<close>

definition predictInOrder ::
  "('p, 'h) bp_ops \<Rightarrow> ('i, 'pc) isa \<Rightarrow> 'i \<Rightarrow> seqnum \<Rightarrow> int \<Rightarrow> 'pc \<Rightarrow> 'pc \<Rightarrow> nat \<Rightarrow> ('p, 'h, 'pc) bpu \<Rightarrow>
     (bool \<times> 'pc \<times> ('p, 'h, 'pc) bpu) res" where
  "predictInOrder P I inst sn asid instPC predPC tid u =
     bindR (at_tid (bpu_ras u) tid) (\<lambda>r.
     bindR (if isUncondCtrl I inst
            then bindR (bp_uncond P (instAddr I instPC) (bpu_pred u)) (\<lambda>(h, p).
                   Inr (\<not> (isReturn I inst \<and> RAS_empty r), h, p))
            else bp_lookup P (instAddr I predPC) (bpu_pred u)) (\<lambda>(taken, h, p).
     let e = PredictorHistory_new (pc_zero I) sn (instAddr I predPC) taken h tid in
     bindR (if taken
            then if isReturn I inst
                 then bindR (RAS_top r) (\<lambda>t.
                      bindR (guardR (topIdx r < 16) AssertFail) (\<lambda>_.
                      Inr (True, buildRetPC I instPC t, RAS_pop r, e\<lparr>usedRAS := True, RASIndex := topIdx r, RASTarget := t\<rparr>)))
                 else bindR (if isCall I inst
                             then bindR (RAS_push instPC r) (\<lambda>r. Inr (r, e\<lparr>pushedRAS := True, wasCall := True\<rparr>))
                             else Inr (r, e)) (\<lambda>(r, e).
                      if isCall I inst \<and> isUncondCtrl I inst \<and> isDirectCtrl I inst
                      then Inr (True, branchTarget I inst instPC, r, e)
                      else bindR (BTB_valid (bpu_btb u) (instAddr I predPC) asid) (\<lambda>v.
                           if v then bindR (BTB_lookup (pc_zero I) (bpu_btb u) (instAddr I predPC) asid) (\<lambda>t. Inr (True, t, r, e))
                           else Inr (False, predPC, r, e)))
            else Inr (False, predPC, r, e)) (\<lambda>(taken', target, r', e').
     bindR (at_tid (predHist u) tid) (\<lambda>ph.
     Inr (taken', (if taken' then target else predPC), put_hist tid (e' # ph) (put_ras tid r' (u\<lparr>bpu_pred := p\<rparr>)))))))"

section \<open>Commit and squash\<close>

text \<open>The loop of \<open>update\<close> takes the oldest records, here the history reversed.\<close>

fun commit_loop :: "('p, 'h) bp_ops \<Rightarrow> seqnum \<Rightarrow> ('h, 'pc) prhist list \<Rightarrow> 'p \<Rightarrow> (('h, 'pc) prhist list \<times> 'p) res" where
  "commit_loop P sn [] p = Inr ([], p)"
| "commit_loop P sn (e # es) p =
     (if seqNum e \<le> sn
      then bindR (if \<not> wasSquashed e then bp_update P (ph_pc e) (predTaken e) (bpHistory e) False p
                  else bp_retire P (bpHistory e) p) (commit_loop P sn es)
      else Inr (e # es, p))"

definition bpu_commit :: "('p, 'h) bp_ops \<Rightarrow> seqnum \<Rightarrow> nat \<Rightarrow> ('p, 'h, 'pc) bpu \<Rightarrow> ('p, 'h, 'pc) bpu res" where
  "bpu_commit P done_sn tid u =
     bindR (at_tid (predHist u) tid) (\<lambda>ph.
     bindR (commit_loop P done_sn (rev ph) (bpu_pred u)) (\<lambda>(es, p).
     Inr (put_hist tid (rev es) (u\<lparr>bpu_pred := p\<rparr>))))"

definition undo_ras :: "('h, 'pc) prhist \<Rightarrow> 'pc ras \<Rightarrow> 'pc ras res" where
  "undo_ras e r =
     (if usedRAS e then RAS_restore (RASIndex e) (RASTarget e) r
      else Inr (if wasCall e \<and> pushedRAS e then RAS_pop r else r))"

fun squash_loop :: "('p, 'h) bp_ops \<Rightarrow> seqnum \<Rightarrow> ('h, 'pc) prhist list \<Rightarrow> 'pc ras \<Rightarrow> 'p \<Rightarrow>
    (('h, 'pc) prhist list \<times> 'pc ras \<times> 'p) res" where
  "squash_loop P sn [] r p = Inr ([], r, p)"
| "squash_loop P sn (e # es) r p =
     (if sn < seqNum e
      then bindR (undo_ras e r) (\<lambda>r. bindR (bp_squash P (bpHistory e) p) (\<lambda>p. squash_loop P sn es r p))
      else Inr (e # es, r, p))"

definition bpu_squash :: "('p, 'h) bp_ops \<Rightarrow> seqnum \<Rightarrow> nat \<Rightarrow> ('p, 'h, 'pc) bpu \<Rightarrow> ('p, 'h, 'pc) bpu res" where
  "bpu_squash P sn tid u =
     bindR (at_tid (predHist u) tid) (\<lambda>ph. bindR (at_tid (bpu_ras u) tid) (\<lambda>r.
     bindR (squash_loop P sn ph r (bpu_pred u)) (\<lambda>(ph', r', p').
     Inr (put_hist tid ph' (put_ras tid r' (u\<lparr>bpu_pred := p'\<rparr>))))))"

text \<open>The squash of a mispredicted branch with its actual outcome and target.\<close>

definition squash_branch ::
  "('p, 'h) bp_ops \<Rightarrow> seqnum \<Rightarrow> 'pc \<Rightarrow> bool \<Rightarrow> nat \<Rightarrow> ('p, 'h, 'pc) bpu \<Rightarrow> ('p, 'h, 'pc) bpu res" where
  "squash_branch P sn corrTarget taken tid u =
     bindR (bpu_squash P sn tid u) (\<lambda>u1.
     bindR (at_tid (predHist u1) tid) (\<lambda>ph. bindR (at_tid (bpu_ras u1) tid) (\<lambda>r.
     case ph of [] \<Rightarrow> Inr u1 | e # es \<Rightarrow>
       bindR (guardR (seqNum e = sn) AssertFail) (\<lambda>_.
       bindR (bp_update P (ph_pc e) taken (bpHistory e) True (bpu_pred u1)) (\<lambda>p.
       let e1 = e\<lparr>wasSquashed := True\<rparr> in
       if taken
       then let (r', e2) = (if wasReturn e1 \<and> \<not> usedRAS e1 then (RAS_pop r, e1\<lparr>usedRAS := True\<rparr>) else (r, e1)) in
            bindR (BTB_update (ph_pc e2) corrTarget (int tid) (bpu_btb u1)) (\<lambda>b.
            Inr (put_hist tid (e2 # es) (put_ras tid r' (u1\<lparr>bpu_pred := p, bpu_btb := b\<rparr>))))
       else bindR (if usedRAS e1
                   then bindR (RAS_restore (RASIndex e1) (RASTarget e1) r) (\<lambda>r'. Inr (r', e1\<lparr>usedRAS := False\<rparr>))
                   else if wasCall e1 \<and> pushedRAS e1 then Inr (RAS_pop r, e1\<lparr>pushedRAS := False\<rparr>)
                   else Inr (r, e1)) (\<lambda>(r', e2).
            Inr (put_hist tid (e2 # es) (put_ras tid r' (u1\<lparr>bpu_pred := p\<rparr>)))))))))"

end
