(* ===== verification/Bpred_Inv.thy ===== *)
theory Bpred_Inv imports Bpred_Unit begin

text \<open>
  The prediction unit never faults: its invariant, kept by every operation with any direction
  predictor that keeps its contract, and what commit and squash leave in flight.
\<close>

section \<open>The invariant\<close>

definition hist_wf :: "('h option \<Rightarrow> bool) \<Rightarrow> u32 \<Rightarrow> ('h, 'pc) prhist list \<Rightarrow> bool" where
  "hist_wf hok n ph \<longleftrightarrow> sorted_wrt (\<lambda>e e'. seqNum e' < seqNum e) ph \<and> (\<forall>e\<in>set ph. hok (bpHistory e) \<and> RASIndex e < n)"

definition ras_wf :: "u32 \<Rightarrow> 'pc ras \<Rightarrow> bool" where
  "ras_wf n r \<longleftrightarrow> ras_ok r \<and> ras_num r = n"

definition unit_ok :: "('p \<Rightarrow> bool) \<Rightarrow> ('h option \<Rightarrow> bool) \<Rightarrow> ('p, 'h, 'pc) bpu \<Rightarrow> bool" where
  "unit_ok pok hok u \<longleftrightarrow> pok (bpu_pred u) \<and> btb_ok (bpu_btb u) \<and> length (bpu_ras u) = length (predHist u) \<and>
     (\<exists>n. 0 < n \<and> n \<le> 16 \<and> (\<forall>t < length (predHist u). ras_wf n (bpu_ras u ! t) \<and> hist_wf hok n (predHist u ! t)))"

datatype ('i, 'pc) bpop =
    Predict 'i seqnum 'pc nat
  | PredictInOrder 'i seqnum int 'pc 'pc nat
  | Commit seqnum nat
  | Squash seqnum nat
  | SquashBranch seqnum 'pc bool nat

fun bpu_step :: "('p, 'h) bp_ops \<Rightarrow> ('i, 'pc) isa \<Rightarrow> ('i, 'pc) bpop \<Rightarrow> ('p, 'h, 'pc) bpu \<Rightarrow> ('p, 'h, 'pc) bpu res" where
  "bpu_step P I (Predict inst sn pc t) u = bindR (predict P I inst sn pc t u) (\<lambda>(_, _, u). Inr u)"
| "bpu_step P I (PredictInOrder inst sn asid pc ppc t) u =
     bindR (predictInOrder P I inst sn asid pc ppc t u) (\<lambda>(_, _, u). Inr u)"
| "bpu_step P I (Commit sn t) u = bpu_commit P sn t u"
| "bpu_step P I (Squash sn t) u = bpu_squash P sn t u"
| "bpu_step P I (SquashBranch sn target taken t) u = squash_branch P sn target taken t u"

text \<open>What the pipeline guarantees: predictions come in program order, and a mispredicted branch
  is in flight unless everything in flight is younger.\<close>

fun admissible :: "('i, 'pc) bpop \<Rightarrow> ('p, 'h, 'pc) bpu \<Rightarrow> bool" where
  "admissible (Predict inst sn pc t) u \<longleftrightarrow> t < length (predHist u) \<and> (\<forall>e\<in>set (predHist u ! t). seqNum e < sn)"
| "admissible (PredictInOrder inst sn asid pc ppc t) u \<longleftrightarrow>
     t < length (predHist u) \<and> (\<forall>e\<in>set (predHist u ! t). seqNum e < sn)"
| "admissible (Commit sn t) u \<longleftrightarrow> t < length (predHist u)"
| "admissible (Squash sn t) u \<longleftrightarrow> t < length (predHist u)"
| "admissible (SquashBranch sn target taken t) u \<longleftrightarrow> t < length (predHist u) \<and>
     (\<forall>e\<in>set (predHist u ! t). sn < seqNum e) \<or> t < length (predHist u) \<and> sn \<in> seqNum ` set (predHist u ! t)"

section \<open>Facts about the stacks and the target buffer\<close>

lemma ras_wf_push: "ras_wf n r \<Longrightarrow> \<exists>r'. RAS_push x r = Inr r' \<and> ras_wf n r'"
  using ras_push by (fastforce simp: ras_wf_def)

lemma ras_wf_pop: "ras_wf n r \<Longrightarrow> ras_wf n (RAS_pop r)"
  using ras_pop by (fastforce simp: ras_wf_def)

lemma ras_wf_top: "ras_wf n r \<Longrightarrow> \<exists>x. RAS_top r = Inr x \<and> topIdx r < n"
  using ras_top_hd [of r] by (auto simp: ras_wf_def topIdx_def ras_ok_def)

lemma ras_wf_restore: "ras_wf n r \<Longrightarrow> i < n \<Longrightarrow> \<exists>r'. RAS_restore i x r = Inr r' \<and> ras_wf n r'"
  by (auto simp: ras_wf_def ras_ok_def RAS_restore_def Let_def upd_idx_def word_less_nat_alt)

lemma undo_ras_ok: "ras_wf n r \<Longrightarrow> RASIndex e < n \<Longrightarrow> \<exists>r'. undo_ras e r = Inr r' \<and> ras_wf n r'"
  using ras_wf_restore [of n r "RASIndex e" "RASTarget e"] ras_wf_pop [of n r] by (auto simp: undo_ras_def)

lemma btb_reads:
  assumes "btb_ok b"
  shows "\<exists>v. BTB_valid b pc tid = Inr v" "\<exists>x. BTB_lookup z b pc tid = Inr x"
  using btb_place [OF assms, of pc] btb_read [OF assms] by blast+

lemma hist_wf_tl: "hist_wf hok n (e # es) \<Longrightarrow> hist_wf hok n es"
  by (simp add: hist_wf_def)

lemma hist_wf_filter: "hist_wf hok n ph \<Longrightarrow> hist_wf hok n (filter q ph)"
  by (auto simp: hist_wf_def sorted_wrt_filter)

lemma hist_wf_head:
  "hist_wf hok n (e # es) \<Longrightarrow> seqNum e' = seqNum e \<Longrightarrow> hok (bpHistory e') \<Longrightarrow> RASIndex e' < n \<Longrightarrow> hist_wf hok n (e' # es)"
  by (simp add: hist_wf_def)

lemma hist_wf_cons:
  "hist_wf hok n ph \<Longrightarrow> \<forall>e\<in>set ph. seqNum e < seqNum e' \<Longrightarrow> hok (bpHistory e') \<Longrightarrow> RASIndex e' < n \<Longrightarrow> hist_wf hok n (e' # ph)"
  by (simp add: hist_wf_def)

lemma filter_younger:
  assumes "sorted_wrt (\<lambda>e e'. seqNum e' < seqNum e) (e # es)" and "\<not> sn < seqNum e"
  shows "filter (\<lambda>e. \<not> sn < seqNum e) (e # es) = e # es"
proof -
  have "\<not> sn < seqNum x" if "x \<in> set es" for x using assms that by (auto simp: not_less dest: order_less_imp_le order_trans)
  then show ?thesis using assms(2) by simp
qed

lemma filter_older:
  assumes "sorted_wrt (\<lambda>e e'. seqNum e < seqNum e') (e # es)" and "\<not> seqNum e \<le> sn"
  shows "filter (\<lambda>e. \<not> seqNum e \<le> sn) (e # es) = e # es"
proof -
  have "\<not> seqNum x \<le> sn" if "x \<in> set es" for x using assms that by (auto simp: not_le dest: order_less_trans)
  then show ?thesis using assms(2) by simp
qed

lemma unit_ok_put:
  assumes "unit_ok pok hok u" and "0 < n" "\<forall>t < length (predHist u). ras_wf n (bpu_ras u ! t) \<and> hist_wf hok n (predHist u ! t)" "n \<le> 16"
    and "ras_wf n r" "hist_wf hok n ph" "pok p"
  shows "unit_ok pok hok (put_hist t ph (put_ras t r (u\<lparr>bpu_pred := p\<rparr>)))"
    "btb_ok b \<Longrightarrow> unit_ok pok hok (put_hist t ph (put_ras t r (u\<lparr>bpu_pred := p, bpu_btb := b\<rparr>)))"
    "unit_ok pok hok (put_hist t ph (u\<lparr>bpu_pred := p\<rparr>))"
proof -
  have "ras_wf n ((bpu_ras u)[t := r] ! s) \<and> hist_wf hok n ((predHist u)[t := ph] ! s)" if "s < length (predHist u)" for s
    using assms that by (cases "s = t") (auto simp: unit_ok_def nth_list_update)
  moreover have "hist_wf hok n ((predHist u)[t := ph] ! s)" if "s < length (predHist u)" for s
    using assms that by (cases "s = t") auto
  ultimately show "unit_ok pok hok (put_hist t ph (put_ras t r (u\<lparr>bpu_pred := p\<rparr>)))"
    "btb_ok b \<Longrightarrow> unit_ok pok hok (put_hist t ph (put_ras t r (u\<lparr>bpu_pred := p, bpu_btb := b\<rparr>)))"
    "unit_ok pok hok (put_hist t ph (u\<lparr>bpu_pred := p\<rparr>))"
    using assms by (auto simp: unit_ok_def put_hist_def put_ras_def intro!: exI [of _ n])
qed

lemma put_hist_predHist:
  "predHist (put_hist t ph (put_ras t r (u\<lparr>bpu_pred := p\<rparr>))) = (predHist u)[t := ph]"
  "predHist (put_hist t ph (u\<lparr>bpu_pred := p\<rparr>)) = (predHist u)[t := ph]"
  by (simp_all add: put_hist_def put_ras_def)

context direction_predictor
begin

lemma commit_loop_ok:
  assumes "inv p" and "sorted_wrt (\<lambda>e e'. seqNum e < seqNum e') es" and "\<forall>e\<in>set es. hok (bpHistory e)"
  shows "\<exists>p'. commit_loop P sn es p = Inr (filter (\<lambda>e. \<not> seqNum e \<le> sn) es, p') \<and> inv p'"
  using assms
proof (induction es arbitrary: p)
  case (Cons e es)
  show ?case
  proof (cases "seqNum e \<le> sn")
    case True
    have h: "hok (bpHistory e)" using Cons.prems(3) by simp
    obtain p1 where p1: "(if \<not> wasSquashed e then bp_update P (ph_pc e) (predTaken e) (bpHistory e) False p
                  else bp_retire P (bpHistory e) p) = Inr p1" "inv p1"
      using update_keeps [OF Cons.prems(1) h, of "ph_pc e" "predTaken e" False] retire_keeps [OF Cons.prems(1) h]
      by (cases "wasSquashed e") auto
    then show ?thesis using True Cons.IH [OF p1(2)] Cons.prems by simp
  next
    case False
    then show ?thesis using filter_older [OF Cons.prems(2)] Cons.prems(1) by simp
  qed
qed simp

lemma squash_loop_ok:
  assumes "inv p" and "ras_wf n r" and "hist_wf hok n es"
  shows "\<exists>r' p'. squash_loop P sn es r p = Inr (filter (\<lambda>e. \<not> sn < seqNum e) es, r', p') \<and> inv p' \<and> ras_wf n r'"
  using assms
proof (induction es arbitrary: p r)
  case (Cons e es)
  show ?case
  proof (cases "sn < seqNum e")
    case True
    have h: "hok (bpHistory e)" "RASIndex e < n" using Cons.prems(3) by (simp_all add: hist_wf_def)
    obtain r1 where r1: "undo_ras e r = Inr r1" "ras_wf n r1" using undo_ras_ok [OF Cons.prems(2) h(2)] by blast
    obtain p1 where p1: "bp_squash P (bpHistory e) p = Inr p1" "inv p1" using squash_keeps [OF Cons.prems(1) h(1)] by blast
    show ?thesis using True r1(1) p1(1) Cons.IH [OF p1(2) r1(2) hist_wf_tl [OF Cons.prems(3)]] by simp
  next
    case False
    then show ?thesis using filter_younger [of e es sn] Cons.prems by (simp add: hist_wf_def)
  qed
qed simp

lemma predict_target_ok:
  assumes "inv p" "ras_wf n r" "btb_ok b" "hok (bpHistory e)"
  shows "\<exists>t x r' e' p'. predict_target P I inst pc tid r e b p = Inr (t, x, r', e', p') \<and> inv p' \<and> ras_wf n r' \<and>
     seqNum e' = seqNum e \<and> bpHistory e' = bpHistory e \<and> RASIndex e' = RASIndex e"
proof -
  obtain r1 where r1: "RAS_push pc r = Inr r1" "ras_wf n r1" using ras_wf_push [OF assms(2)] by blast
  obtain v where v: "BTB_valid b (instAddr I pc) (int tid) = Inr v" using btb_reads(1) [OF assms(3)] by blast
  obtain x where x: "BTB_lookup (pc_zero I) b (instAddr I pc) (int tid) = Inr x" using btb_reads(2) [OF assms(3)] by blast
  obtain p1 where p1: "bp_btb P (instAddr I pc) (bpHistory e) p = Inr p1" "inv p1" using btb_keeps [OF assms(1,4)] by blast
  show ?thesis
    unfolding predict_target_def using r1 v x p1 assms(1,2) ras_wf_pop by (cases "isCall I inst"; cases v) auto
qed

lemma predict_ok:
  assumes u: "unit_ok inv hok u" and a: "t < length (predHist u)" "\<forall>e\<in>set (predHist u ! t). seqNum e < sn"
  shows "\<exists>b x e u'. predict P I inst sn pc t u = Inr (b, x, u') \<and> unit_ok inv hok u' \<and>
     predHist u' = (predHist u)[t := e # predHist u ! t] \<and> seqNum e = sn"
proof -
  obtain n where n: "0 < n" "\<forall>t < length (predHist u). ras_wf n (bpu_ras u ! t) \<and> hist_wf hok n (predHist u ! t)" "n \<le> 16"
    using u by (auto simp: unit_ok_def)
  have tt: "at_tid (bpu_ras u) t = Inr (bpu_ras u ! t)" "at_tid (predHist u) t = Inr (predHist u ! t)"
    using u a(1) by (simp_all add: at_tid_def unit_ok_def)
  have wf: "ras_wf n (bpu_ras u ! t)" "hist_wf hok n (predHist u ! t)" using n(2) a(1) by simp_all
  have i: "inv (bpu_pred u)" and bt: "btb_ok (bpu_btb u)" using u by (simp_all add: unit_ok_def)
  obtain taken h p where p: "(if isUncondCtrl I inst
       then bindR (bp_uncond P (instAddr I pc) (bpu_pred u)) (\<lambda>(h, p). Inr (True, h, p))
       else bp_lookup P (instAddr I pc) (bpu_pred u)) = Inr (taken, h, p)" "hok h" "inv p"
    using lookup_keeps [OF i, of "instAddr I pc"] uncond_keeps [OF i, of "instAddr I pc"] by (cases "isUncondCtrl I inst") auto
  define e where "e = PredictorHistory_new (pc_zero I) sn (instAddr I pc) taken h t"
  have e: "seqNum e = sn" "bpHistory e = h" "RASIndex e = 0" by (simp_all add: e_def PredictorHistory_new_def)
  obtain x where x: "RAS_top (bpu_ras u ! t) = Inr x" "topIdx (bpu_ras u ! t) < n" using ras_wf_top [OF wf(1)] by blast
  obtain tk y r' e' p' where tg: "predict_target P I inst pc t (bpu_ras u ! t) e (bpu_btb u) p = Inr (tk, y, r', e', p')" "inv p'" "ras_wf n r'"
     "seqNum e' = sn" "bpHistory e' = h" "RASIndex e' = 0"
    using predict_target_ok [OF p(3) wf(1) bt, of e] p(2) e by metis
  have "\<exists>tk y r' e' p'. (if taken
            then if isReturn I inst
                 then bindR (RAS_top (bpu_ras u ! t)) (\<lambda>t'.
                      Inr (True, buildRetPC I pc t', RAS_pop (bpu_ras u ! t),
                           e\<lparr>wasReturn := True, usedRAS := True, RASIndex := topIdx (bpu_ras u ! t), RASTarget := t'\<rparr>, p))
                 else predict_target P I inst pc t (bpu_ras u ! t) e (bpu_btb u) p
            else Inr (False, advancePC I inst pc, bpu_ras u ! t, (if isReturn I inst then e\<lparr>wasReturn := True\<rparr> else e), p)) =
       Inr (tk, y, r', e', p') \<and> inv p' \<and> ras_wf n r' \<and> seqNum e' = sn \<and> hok (bpHistory e') \<and> RASIndex e' < n"
    using tg x e p(2,3) wf(1) ras_wf_pop [OF wf(1)] n(1) by (cases taken; cases "isReturn I inst") auto
  then obtain tk y r' e' p' where R: "(if taken
            then if isReturn I inst
                 then bindR (RAS_top (bpu_ras u ! t)) (\<lambda>t'.
                      Inr (True, buildRetPC I pc t', RAS_pop (bpu_ras u ! t),
                           e\<lparr>wasReturn := True, usedRAS := True, RASIndex := topIdx (bpu_ras u ! t), RASTarget := t'\<rparr>, p))
                 else predict_target P I inst pc t (bpu_ras u ! t) e (bpu_btb u) p
            else Inr (False, advancePC I inst pc, bpu_ras u ! t, (if isReturn I inst then e\<lparr>wasReturn := True\<rparr> else e), p)) =
       Inr (tk, y, r', e', p')" and R': "inv p'" "ras_wf n r'" "seqNum e' = sn" "hok (bpHistory e')" "RASIndex e' < n" by blast
  have "predict P I inst sn pc t u = Inr (tk, y, put_hist t (e' # predHist u ! t) (put_ras t r' (u\<lparr>bpu_pred := p'\<rparr>)))"
    unfolding predict_def p(1) tt bindR_Inr prod.case Let_def e_def [symmetric] R by simp
  moreover have "hist_wf hok n (e' # predHist u ! t)"
    using hist_wf_cons [OF wf(2), of e'] a(2) R' by simp
  then have "unit_ok inv hok (put_hist t (e' # predHist u ! t) (put_ras t r' (u\<lparr>bpu_pred := p'\<rparr>)))"
    by (intro unit_ok_put [OF u n(1,2,3)] R')
  moreover have "predHist (put_hist t (e' # predHist u ! t) (put_ras t r' (u\<lparr>bpu_pred := p'\<rparr>))) =
     (predHist u)[t := e' # predHist u ! t]" by (rule put_hist_predHist)
  ultimately show ?thesis using R'(3) by blast
qed

lemma predictInOrder_ok:
  assumes u: "unit_ok inv hok u" and a: "t < length (predHist u)" "\<forall>e\<in>set (predHist u ! t). seqNum e < sn"
  shows "\<exists>b x e u'. predictInOrder P I inst sn asid pc ppc t u = Inr (b, x, u') \<and> unit_ok inv hok u' \<and>
     predHist u' = (predHist u)[t := e # predHist u ! t] \<and> seqNum e = sn"
proof -
  let ?r = "bpu_ras u ! t"
  obtain n where n: "0 < n" "\<forall>t < length (predHist u). ras_wf n (bpu_ras u ! t) \<and> hist_wf hok n (predHist u ! t)" "n \<le> 16"
    using u by (auto simp: unit_ok_def)
  have tt: "at_tid (bpu_ras u) t = Inr ?r" "at_tid (predHist u) t = Inr (predHist u ! t)"
    using u a(1) by (simp_all add: at_tid_def unit_ok_def)
  have wf: "ras_wf n ?r" "hist_wf hok n (predHist u ! t)" using n(2) a(1) by simp_all
  have i: "inv (bpu_pred u)" and bt: "btb_ok (bpu_btb u)" using u by (simp_all add: unit_ok_def)
  obtain taken h p where p: "(if isUncondCtrl I inst
       then bindR (bp_uncond P (instAddr I pc) (bpu_pred u)) (\<lambda>(h, p). Inr (\<not> (isReturn I inst \<and> RAS_empty ?r), h, p))
       else bp_lookup P (instAddr I ppc) (bpu_pred u)) = Inr (taken, h, p)" "hok h" "inv p"
    using lookup_keeps [OF i, of "instAddr I ppc"] uncond_keeps [OF i, of "instAddr I pc"] by (cases "isUncondCtrl I inst") auto
  define e where "e = PredictorHistory_new (pc_zero I) sn (instAddr I ppc) taken h t"
  have e: "seqNum e = sn" "bpHistory e = h" "RASIndex e = 0" by (simp_all add: e_def PredictorHistory_new_def)
  obtain x where x: "RAS_top ?r = Inr x" "topIdx ?r < n" using ras_wf_top [OF wf(1)] by blast
  have x16: "topIdx ?r < 16" using x(2) n(3) by simp
  obtain r1 where r1: "RAS_push pc ?r = Inr r1" "ras_wf n r1" using ras_wf_push [OF wf(1)] by blast
  obtain v where v: "BTB_valid (bpu_btb u) (instAddr I ppc) asid = Inr v" using btb_reads(1) [OF bt] by blast
  obtain y where y: "BTB_lookup (pc_zero I) (bpu_btb u) (instAddr I ppc) asid = Inr y" using btb_reads(2) [OF bt] by blast
  let ?body = "if taken
            then if isReturn I inst
                 then bindR (RAS_top ?r) (\<lambda>t.
                      bindR (guardR (topIdx ?r < 16) AssertFail) (\<lambda>_.
                      Inr (True, buildRetPC I pc t, RAS_pop ?r, e\<lparr>usedRAS := True, RASIndex := topIdx ?r, RASTarget := t\<rparr>)))
                 else bindR (if isCall I inst
                             then bindR (RAS_push pc ?r) (\<lambda>r. Inr (r, e\<lparr>pushedRAS := True, wasCall := True\<rparr>))
                             else Inr (?r, e)) (\<lambda>(r, e).
                      if isCall I inst \<and> isUncondCtrl I inst \<and> isDirectCtrl I inst
                      then Inr (True, branchTarget I inst pc, r, e)
                      else bindR (BTB_valid (bpu_btb u) (instAddr I ppc) asid) (\<lambda>v.
                           if v then bindR (BTB_lookup (pc_zero I) (bpu_btb u) (instAddr I ppc) asid) (\<lambda>t. Inr (True, t, r, e))
                           else Inr (False, ppc, r, e)))
            else Inr (False, ppc, ?r, e)"
  have "\<exists>tk z r' e'. ?body = Inr (tk, z, r', e') \<and> ras_wf n r' \<and> seqNum e' = sn \<and> hok (bpHistory e') \<and> RASIndex e' < n"
    using x x16 r1 v y e p(2) wf(1) ras_wf_pop [OF wf(1)] n(1) by (cases "isCall I inst") auto
  then obtain tk z r' e' where R: "?body = Inr (tk, z, r', e')" and R': "ras_wf n r'" "seqNum e' = sn" "hok (bpHistory e')" "RASIndex e' < n"
    by blast
  have "predictInOrder P I inst sn asid pc ppc t u =
     Inr (tk, if tk then z else ppc, put_hist t (e' # predHist u ! t) (put_ras t r' (u\<lparr>bpu_pred := p\<rparr>)))"
    unfolding predictInOrder_def tt bindR_Inr p(1) prod.case Let_def e_def [symmetric] R by simp
  moreover have "hist_wf hok n (e' # predHist u ! t)" using hist_wf_cons [OF wf(2), of e'] a(2) R' by simp
  then have "unit_ok inv hok (put_hist t (e' # predHist u ! t) (put_ras t r' (u\<lparr>bpu_pred := p\<rparr>)))"
    by (intro unit_ok_put [OF u n(1,2,3)] R' p)
  moreover have "predHist (put_hist t (e' # predHist u ! t) (put_ras t r' (u\<lparr>bpu_pred := p\<rparr>))) =
     (predHist u)[t := e' # predHist u ! t]" by (rule put_hist_predHist)
  ultimately show ?thesis using R'(2) by blast
qed

lemma bpu_commit_ok:
  assumes u: "unit_ok inv hok u" and a: "t < length (predHist u)"
  shows "\<exists>u'. bpu_commit P sn t u = Inr u' \<and> unit_ok inv hok u' \<and>
     predHist u' = (predHist u)[t := filter (\<lambda>e. sn < seqNum e) (predHist u ! t)]"
proof -
  let ?ph = "predHist u ! t"
  obtain n where n: "0 < n" "\<forall>t < length (predHist u). ras_wf n (bpu_ras u ! t) \<and> hist_wf hok n (predHist u ! t)" "n \<le> 16"
    using u by (auto simp: unit_ok_def)
  have wf: "ras_wf n (bpu_ras u ! t)" "hist_wf hok n ?ph" using n(2) a(1) by simp_all
  have i: "inv (bpu_pred u)" using u by (simp add: unit_ok_def)
  have srt: "sorted_wrt (\<lambda>e e'. seqNum e < seqNum e') (rev ?ph)" "\<forall>e\<in>set (rev ?ph). hok (bpHistory e)"
    using wf(2) by (simp_all add: hist_wf_def sorted_wrt_rev)
  obtain p where p: "commit_loop P sn (rev ?ph) (bpu_pred u) = Inr (filter (\<lambda>e. \<not> seqNum e \<le> sn) (rev ?ph), p)" "inv p"
    using commit_loop_ok [OF i srt] by blast
  have f: "rev (filter (\<lambda>e. \<not> seqNum e \<le> sn) (rev ?ph)) = filter (\<lambda>e. sn < seqNum e) ?ph"
    by (simp add: rev_filter not_le)
  have "bpu_commit P sn t u = Inr (put_hist t (filter (\<lambda>e. sn < seqNum e) ?ph) (u\<lparr>bpu_pred := p\<rparr>))"
    using a p(1) f by (simp add: bpu_commit_def at_tid_def)
  moreover have "unit_ok inv hok (put_hist t (filter (\<lambda>e. sn < seqNum e) ?ph) (u\<lparr>bpu_pred := p\<rparr>))"
    by (rule unit_ok_put(3) [OF u n wf(1) hist_wf_filter [OF wf(2)] p(2)])
  ultimately show ?thesis by (simp add: put_hist_def)
qed

lemma bpu_squash_ok:
  assumes u: "unit_ok inv hok u" and a: "t < length (predHist u)"
  shows "\<exists>u'. bpu_squash P sn t u = Inr u' \<and> unit_ok inv hok u' \<and>
     predHist u' = (predHist u)[t := filter (\<lambda>e. \<not> sn < seqNum e) (predHist u ! t)]"
proof -
  let ?ph = "predHist u ! t"
  obtain n where n: "0 < n" "\<forall>t < length (predHist u). ras_wf n (bpu_ras u ! t) \<and> hist_wf hok n (predHist u ! t)" "n \<le> 16"
    using u by (auto simp: unit_ok_def)
  have wf: "ras_wf n (bpu_ras u ! t)" "hist_wf hok n ?ph" using n(2) a(1) by simp_all
  have i: "inv (bpu_pred u)" and lr: "t < length (bpu_ras u)" using u a by (simp_all add: unit_ok_def)
  obtain r p where p: "squash_loop P sn ?ph (bpu_ras u ! t) (bpu_pred u) = Inr (filter (\<lambda>e. \<not> sn < seqNum e) ?ph, r, p)"
      "inv p" "ras_wf n r"
    using squash_loop_ok [OF i wf] by blast
  have "bpu_squash P sn t u = Inr (put_hist t (filter (\<lambda>e. \<not> sn < seqNum e) ?ph) (put_ras t r (u\<lparr>bpu_pred := p\<rparr>)))"
    using a lr p(1) by (simp add: bpu_squash_def at_tid_def)
  moreover have "unit_ok inv hok (put_hist t (filter (\<lambda>e. \<not> sn < seqNum e) ?ph) (put_ras t r (u\<lparr>bpu_pred := p\<rparr>)))"
    by (rule unit_ok_put(1) [OF u n p(3) hist_wf_filter [OF wf(2)] p(2)])
  ultimately show ?thesis by (simp add: put_hist_def put_ras_def)
qed

end

text \<open>The branch itself heads what a squash leaves.\<close>

lemma filter_head:
  assumes "sorted_wrt (\<lambda>e e'. seqNum e' < seqNum e) ph" and "sn \<in> seqNum ` set ph"
  shows "\<exists>e es. filter (\<lambda>e. \<not> sn < seqNum e) ph = e # es \<and> seqNum e = sn"
  using assms
proof (induction ph)
  case (Cons x ph)
  show ?case
  proof (cases "seqNum x = sn")
    case False
    then have "sn \<in> seqNum ` set ph" using Cons.prems(2) by auto
    moreover from this have "sn < seqNum x" using Cons.prems(1) by auto
    ultimately show ?thesis using Cons by simp
  qed simp
qed simp

context direction_predictor
begin

lemma squash_branch_ok:
  assumes u: "unit_ok inv hok u" and a: "t < length (predHist u)"
    and sn: "(\<forall>e\<in>set (predHist u ! t). sn < seqNum e) \<or> sn \<in> seqNum ` set (predHist u ! t)"
  shows "\<exists>u'. squash_branch P sn target taken t u = Inr u' \<and> unit_ok inv hok u'"
proof -
  let ?ph = "predHist u ! t"
  obtain u1 where u1: "bpu_squash P sn t u = Inr u1" "unit_ok inv hok u1"
     "predHist u1 = (predHist u)[t := filter (\<lambda>e. \<not> sn < seqNum e) ?ph]"
    using bpu_squash_ok [OF u a] by blast
  have a1: "t < length (predHist u1)" "t < length (bpu_ras u1)" using u1 a by (simp_all add: unit_ok_def)
  have ph1: "predHist u1 ! t = filter (\<lambda>e. \<not> sn < seqNum e) ?ph" using u1(3) a by simp
  obtain n where n: "0 < n" "\<forall>t < length (predHist u1). ras_wf n (bpu_ras u1 ! t) \<and> hist_wf hok n (predHist u1 ! t)" "n \<le> 16"
    using u1(2) by (auto simp: unit_ok_def)
  have wf: "ras_wf n (bpu_ras u1 ! t)" "hist_wf hok n (predHist u1 ! t)" using n(2) a1(1) by simp_all
  show ?thesis
  proof (cases "\<forall>e\<in>set ?ph. sn < seqNum e")
    case True
    then have "predHist u1 ! t = []" using ph1 by simp
    then show ?thesis using u1(1,2) a1 by (simp add: squash_branch_def at_tid_def)
  next
    case False
    have "sorted_wrt (\<lambda>e e'. seqNum e' < seqNum e) ?ph" using u a by (auto simp: unit_ok_def hist_wf_def)
    then obtain e es where e: "predHist u1 ! t = e # es" "seqNum e = sn"
      using filter_head [of ?ph sn] False sn ph1 by auto
    have he: "hok (bpHistory e)" "RASIndex e < n" using wf(2) e(1) by (simp_all add: hist_wf_def)
    have i: "inv (bpu_pred u1)" and bt: "btb_ok (bpu_btb u1)" using u1(2) by (simp_all add: unit_ok_def)
    obtain p where p: "bp_update P (ph_pc e) taken (bpHistory e) True (bpu_pred u1) = Inr p" "inv p"
      using update_keeps [OF i he(1)] by blast
    let ?u = "\<lambda>e2 r. put_hist t (e2 # es) (put_ras t r (u1\<lparr>bpu_pred := p\<rparr>))"
    have pre: "squash_branch P sn target taken t u = (let e1 = e\<lparr>wasSquashed := True\<rparr> in
       if taken
       then let (r', e2) = (if wasReturn e1 \<and> \<not> usedRAS e1 then (RAS_pop (bpu_ras u1 ! t), e1\<lparr>usedRAS := True\<rparr>) else (bpu_ras u1 ! t, e1)) in
            bindR (BTB_update (ph_pc e2) target (int t) (bpu_btb u1)) (\<lambda>b.
            Inr (put_hist t (e2 # es) (put_ras t r' (u1\<lparr>bpu_pred := p, bpu_btb := b\<rparr>))))
       else bindR (if usedRAS e1
                   then bindR (RAS_restore (RASIndex e1) (RASTarget e1) (bpu_ras u1 ! t)) (\<lambda>r'. Inr (r', e1\<lparr>usedRAS := False\<rparr>))
                   else if wasCall e1 \<and> pushedRAS e1 then Inr (RAS_pop (bpu_ras u1 ! t), e1\<lparr>pushedRAS := False\<rparr>)
                   else Inr (bpu_ras u1 ! t, e1)) (\<lambda>(r', e2). Inr (?u e2 r')))"
      unfolding squash_branch_def u1(1) bindR_Inr at_tid_def using a1 e p(1) by simp
    have hd: "hist_wf hok n (e2 # es)" if "seqNum e2 = seqNum e" "bpHistory e2 = bpHistory e" "RASIndex e2 = RASIndex e" for e2
      using hist_wf_head [of hok n e es e2] wf(2) e(1) he that by simp
    obtain b where b: "BTB_update (ph_pc e) target (int t) (bpu_btb u1) = Inr b" "btb_ok b"
      using btb_update [OF bt] by blast
    obtain r2 where r2: "RAS_restore (RASIndex e) (RASTarget e) (bpu_ras u1 ! t) = Inr r2" "ras_wf n r2"
      using ras_wf_restore [OF wf(1) he(2)] by blast
    note P1 = unit_ok_put(1) [OF u1(2) n _ hd p(2)] and P2 = unit_ok_put(2) [OF u1(2) n _ hd p(2) b(2)]
    show ?thesis
      unfolding pre Let_def using b r2 wf(1) ras_wf_pop [OF wf(1)]
      by (cases taken) (auto intro!: P1 P2)
  qed
qed

lemma step_ok:
  assumes "unit_ok inv hok u" and "admissible op u"
  shows "\<exists>u'. bpu_step P I op u = Inr u' \<and> unit_ok inv hok u'"
proof (cases op)
  case (Predict inst sn pc t)
  then show ?thesis using predict_ok [OF assms(1), of t sn I inst pc] assms(2) by auto
next
  case (PredictInOrder inst sn asid pc ppc t)
  then show ?thesis using predictInOrder_ok [OF assms(1), of t sn I inst asid pc ppc] assms(2) by auto
next
  case (Commit sn t)
  then show ?thesis using bpu_commit_ok [OF assms(1)] assms(2) by auto
next
  case (Squash sn t)
  then show ?thesis using bpu_squash_ok [OF assms(1)] assms(2) by auto
next
  case (SquashBranch sn target taken t)
  then show ?thesis using squash_branch_ok [OF assms(1), of t sn target taken] assms(2) by auto
qed

end

end
