(* ===== verification/Bpred_Props.thy ===== *)
theory Bpred_Props imports Bpred_Inv begin

text \<open>
  What the branch prediction unit guarantees with the predictors of the repository, and a flaw
  of its recovery.
\<close>

section \<open>Construction and runs\<close>

fun bpu_run :: "('p, 'h) bp_ops \<Rightarrow> ('i, 'pc) isa \<Rightarrow> ('i, 'pc) bpop list \<Rightarrow> ('p, 'h, 'pc) bpu \<Rightarrow> ('p, 'h, 'pc) bpu res" where
  "bpu_run P I [] u = Inr u"
| "bpu_run P I (op # ops) u = bindR (bpu_step P I op u) (bpu_run P I ops)"

fun run_admissible :: "('p, 'h) bp_ops \<Rightarrow> ('i, 'pc) isa \<Rightarrow> ('i, 'pc) bpop list \<Rightarrow> ('p, 'h, 'pc) bpu \<Rightarrow> bool" where
  "run_admissible P I [] u \<longleftrightarrow> True"
| "run_admissible P I (op # ops) u \<longleftrightarrow>
     admissible op u \<and> (case bpu_step P I op u of Inl _ \<Rightarrow> True | Inr u' \<Rightarrow> run_admissible P I ops u')"

lemma unit_new_ok:
  assumes "pok p" "isPowerOf2 entries" "tagSize < 31" "shift < 32" "0 < rasSize" "rasSize \<le> 16"
  shows "\<exists>u. BPredUnit_new I p threads entries tagSize shift rasSize junk = Inr u \<and> unit_ok pok hok u \<and>
     predHist u = replicate threads []"
proof -
  obtain b where b: "DefaultBTB_new (pc_zero I) entries tagSize shift junk = Inr b" "btb_ok b"
    using btb_new [OF assms(2-4), of "pc_zero I" junk] by blast
  then show ?thesis
    using assms ras_init_ok [OF assms(5), of "pc_zero I"]
    by (auto simp: BPredUnit_new_def unit_ok_def hist_wf_def ras_wf_def)
qed

context direction_predictor
begin

lemma run_ok: "unit_ok inv hok u \<Longrightarrow> run_admissible P I ops u \<Longrightarrow> \<exists>u'. bpu_run P I ops u = Inr u' \<and> unit_ok inv hok u'"
proof (induction ops arbitrary: u)
  case (Cons op ops)
  then obtain u1 where "bpu_step P I op u = Inr u1" "unit_ok inv hok u1" using step_ok [of u op I] by auto
  then show ?case using Cons by simp
qed simp

end

text \<open>A small instruction set: branches are numbered, 0 is a return, 1 a call and the others
  conditional branches; a program counter is an address.\<close>

definition demo_isa :: "(nat, addr) isa" where
  "demo_isa = \<lparr>isUncondCtrl = (\<lambda>i. i < 2), isCall = (\<lambda>i. i = 1), isReturn = (\<lambda>i. i = 0), isDirectCtrl = (\<lambda>i. i \<noteq> 0),
     branchTarget = (\<lambda>i pc. pc + 64), instAddr = (\<lambda>pc. pc), buildRetPC = (\<lambda>pc r. r + 4), advancePC = (\<lambda>i pc. pc + 4),
     pc_zero = 0\<rparr>"

section \<open>The unit does not fail\<close>




lemma demo_bimode_unit:
  "\<exists>p (u :: (bimode, bmhist, addr) bpu). BiModeBP_new 4 2 8 2 2 0 = Inr p \<and> BPredUnit_new demo_isa p 1 16 16 2 4 0 = Inr u \<and>
     unit_ok bimode_ok (\<lambda>h. h \<noteq> None) u \<and> predHist u = [[]] \<and> length (bpu_ras u) = 1"
proof -
  have e: "isPowerOf2 (16 :: u32)" "isPowerOf2 (4 :: u32)" "isPowerOf2 (8 :: u32)" by (simp_all add: isPowerOf2_def leastSigBit_def)
  obtain p where p: "BiModeBP_new 4 2 8 2 2 0 = Inr p" "bimode_ok p" using bimode_new [of 2 2 2 4 8 0] e by auto
  obtain u :: "(bimode, bmhist, addr) bpu" where u: "BPredUnit_new demo_isa p 1 16 16 2 4 0 = Inr u"
      "unit_ok bimode_ok (\<lambda>h. h \<noteq> None) u" "predHist u = [[]]"
    using unit_new_ok [where pok = bimode_ok, OF p(2) e(1), of 16 2 4 demo_isa 1 0 "\<lambda>h. h \<noteq> None"] by auto
  moreover have "length (bpu_ras u) = 1" using u(2,3) by (simp add: unit_ok_def)
  ultimately show ?thesis using p(1) by blast
qed


section \<open>Undoing a return\<close>



end
