(* ===== verification/Addr_Range.thy ===== *)
theory Addr_Range imports Intmath begin

text \<open>
  Address ranges (base/addr_range.hh): contiguous ranges of addresses and ranges that are
  interleaved on a slice of the address bits, with their constructors, tests and orders.
  \<open>fatal\<close> and \<open>panic\<close> are faults; a shift that C++ leaves undefined is one too.
\<close>

unbundle bit_operations_syntax

section \<open>Data and constructors\<close>

type_synonym maddr = "64 word"

record addr_range =
  r_start :: maddr
  r_end :: maddr
  intlvHighBit :: byte
  xorHighBit :: byte
  intlvBits :: byte
  intlvMatch :: byte

definition AddrRange_empty :: addr_range where
  "AddrRange_empty = \<lparr>r_start = 1, r_end = 0, intlvHighBit = 0, xorHighBit = 0, intlvBits = 0, intlvMatch = 0\<rparr>"

definition AddrRange :: "maddr \<Rightarrow> maddr \<Rightarrow> addr_range" where
  "AddrRange s e = \<lparr>r_start = s, r_end = e, intlvHighBit = 0, xorHighBit = 0, intlvBits = 0, intlvMatch = 0\<rparr>"

text \<open>\<open>ULL(1) << n\<close> for a count that may reach the width.\<close>

definition ull_shift :: "int \<Rightarrow> (64 word) res" where
  "ull_shift n = (if 0 \<le> n \<and> n < 64 then Inr (push_bit (nat n) 1) else Inl Undefined)"

definition AddrRange_intlv :: "maddr \<Rightarrow> maddr \<Rightarrow> byte \<Rightarrow> byte \<Rightarrow> byte \<Rightarrow> byte \<Rightarrow> addr_range res" where
  "AddrRange_intlv s e hi xhi nbits match =
     bindR (if nbits \<noteq> 0 then bindR (ull_shift (uint nbits)) (\<lambda>n. guardR (ucast match < n) FatalError) else Inr ()) (\<lambda>_.
     bindR (if nbits \<noteq> 0 \<and> xhi \<noteq> 0
            then if xhi = hi then Inl FatalError
                 else if hi < xhi then guardR (\<not> uint xhi - uint hi < uint nbits) FatalError
                 else guardR (\<not> uint hi - uint xhi < uint nbits) FatalError
            else Inr ()) (\<lambda>_.
     Inr \<lparr>r_start = s, r_end = e, intlvHighBit = hi, xorHighBit = xhi, intlvBits = nbits, intlvMatch = match\<rparr>))"

definition interleaved :: "addr_range \<Rightarrow> bool" where
  "interleaved r \<longleftrightarrow> intlvBits r \<noteq> 0"

definition hashed :: "addr_range \<Rightarrow> bool" where
  "hashed r \<longleftrightarrow> interleaved r \<and> xorHighBit r \<noteq> 0"

definition granularity :: "addr_range \<Rightarrow> (64 word) res" where
  "granularity r = ull_shift (uint (intlvHighBit r) - uint (intlvBits r) + 1)"

definition stripes :: "addr_range \<Rightarrow> (32 word) res" where
  "stripes r = bindR (ull_shift (uint (intlvBits r))) (\<lambda>n. Inr (ucast n))"

definition range_size :: "addr_range \<Rightarrow> maddr res" where
  "range_size r = (if uint (intlvBits r) < 64 then Inr (drop_bit (unat (intlvBits r)) (r_end r - r_start r + 1)) else Inl Undefined)"

definition range_valid :: "addr_range \<Rightarrow> bool" where
  "range_valid r \<longleftrightarrow> r_start r \<le> r_end r"

definition mergesWith :: "addr_range \<Rightarrow> addr_range \<Rightarrow> bool" where
  "mergesWith t r \<longleftrightarrow> r_start r = r_start t \<and> r_end r = r_end t \<and> intlvHighBit r = intlvHighBit t \<and>
     xorHighBit r = xorHighBit t \<and> intlvBits r = intlvBits t"

text \<open>Merging a collection: \<open>match\<close> is a \<open>uint8_t\<close>.\<close>

fun merge_check :: "addr_range \<Rightarrow> addr_range list \<Rightarrow> byte \<Rightarrow> unit res" where
  "merge_check t [] match = Inr ()"
| "merge_check t (r # rs) match =
     (if \<not> mergesWith t r then Inl FatalError
      else if intlvMatch r \<noteq> match then Inl FatalError
      else merge_check t rs (match + 1))"

definition AddrRange_merge :: "addr_range list \<Rightarrow> addr_range res" where
  "AddrRange_merge rs =
     (case rs of
        [] \<Rightarrow> Inr AddrRange_empty
      | r # _ \<Rightarrow>
          let t = AddrRange_empty\<lparr>r_start := r_start r, r_end := r_end r, intlvHighBit := intlvHighBit r,
                    xorHighBit := xorHighBit r, intlvBits := intlvBits r\<rparr> in
          bindR (ull_shift (uint (intlvBits t))) (\<lambda>n.
          bindR (guardR (int (length rs) = uint n) FatalError) (\<lambda>_.
          bindR (merge_check t rs 0) (\<lambda>_.
          Inr (t\<lparr>intlvHighBit := 0, xorHighBit := 0, intlvBits := 0\<rparr>)))))"

section \<open>Tests\<close>

text \<open>\<open>bits(a, high, high - n + 1)\<close> with the bounds computed as \<open>int\<close>.\<close>

definition addr_slice :: "maddr \<Rightarrow> byte \<Rightarrow> byte \<Rightarrow> maddr res" where
  "addr_slice a hi n =
     (if 0 \<le> uint hi - uint n + 1 \<and> uint hi - uint n + 1 < 64 \<and> uint n \<le> 64
      then Inr (bits a (unat hi) (nat (uint hi - uint n + 1)))
      else Inl Undefined)"

definition contains :: "addr_range \<Rightarrow> maddr \<Rightarrow> bool res" where
  "contains r a =
     (let in_range = (r_start r \<le> a \<and> a \<le> r_end r) in
      if \<not> interleaved r then Inr in_range
      else if in_range then
        if \<not> hashed r then
          bindR (addr_slice a (intlvHighBit r) (intlvBits r)) (\<lambda>x. Inr (x = ucast (intlvMatch r)))
        else
          bindR (addr_slice a (intlvHighBit r) (intlvBits r)) (\<lambda>x.
          bindR (addr_slice a (xorHighBit r) (intlvBits r)) (\<lambda>y. Inr (x XOR y = ucast (intlvMatch r))))
      else Inr False)"

definition intersects :: "addr_range \<Rightarrow> addr_range \<Rightarrow> bool res" where
  "intersects t r =
     (if r_end r < r_start t \<or> r_end t < r_start r then Inr False
      else if \<not> interleaved t \<and> \<not> interleaved r then Inr True
      else bindR (range_size r) (\<lambda>sz.
        if sz = 1 then contains t (r_start r)
        else if mergesWith t r then Inr (intlvMatch t = intlvMatch r)
        else Inl PanicError))"

definition isSubset :: "addr_range \<Rightarrow> addr_range \<Rightarrow> bool res" where
  "isSubset t r =
     (if interleaved t then Inl PanicError else Inr (r_start r \<le> r_start t \<and> r_end t \<le> r_end r))"

definition range_less :: "addr_range \<Rightarrow> addr_range \<Rightarrow> bool" where
  "range_less t r = (if r_start t \<noteq> r_start r then r_start t < r_start r else intlvMatch t < intlvMatch r)"

definition range_eq :: "addr_range \<Rightarrow> addr_range \<Rightarrow> bool" where
  "range_eq t r =
     (if r_start t \<noteq> r_start r then False
      else if r_end t \<noteq> r_end r then False
      else if intlvBits t \<noteq> intlvBits r then False
      else if intlvBits t \<noteq> 0 then
        if intlvHighBit t \<noteq> intlvHighBit r then False
        else if intlvMatch t \<noteq> intlvMatch r then False
        else True
      else True)"

definition range_neq :: "addr_range \<Rightarrow> addr_range \<Rightarrow> bool" where
  "range_neq t r \<longleftrightarrow> \<not> range_eq t r"

definition RangeEx :: "maddr \<Rightarrow> maddr \<Rightarrow> addr_range" where
  "RangeEx s e = AddrRange s (e - 1)"

definition RangeIn :: "maddr \<Rightarrow> maddr \<Rightarrow> addr_range" where
  "RangeIn s e = AddrRange s e"

definition RangeSize :: "maddr \<Rightarrow> maddr \<Rightarrow> addr_range" where
  "RangeSize s sz = AddrRange s (s + sz - 1)"

section \<open>Well-formed ranges\<close>

text \<open>The bit positions are inside the address, the match value fits, and the two slices do
  not overlap.  The constructor does not check the positions.\<close>

definition range_wf :: "addr_range \<Rightarrow> bool" where
  "range_wf r \<longleftrightarrow> (intlvBits r = 0 \<or>
     unat (intlvHighBit r) < 64 \<and> unat (intlvBits r) \<le> unat (intlvHighBit r) + 1 \<and>
     unat (intlvMatch r) < 2 ^ unat (intlvBits r) \<and> unat (intlvBits r) \<le> 8 \<and>
     (xorHighBit r = 0 \<or> unat (xorHighBit r) < 64 \<and> unat (intlvBits r) \<le> unat (xorHighBit r) + 1 \<and>
        (unat (intlvHighBit r) + unat (intlvBits r) \<le> unat (xorHighBit r) \<or>
         unat (xorHighBit r) + unat (intlvBits r) \<le> unat (intlvHighBit r))))"

text \<open>The selector of an address: the value that is compared with \<open>intlvMatch\<close>.\<close>

definition selector :: "addr_range \<Rightarrow> maddr \<Rightarrow> maddr" where
  "selector r a =
     (let f = (\<lambda>hi. bits a hi (hi + 1 - unat (intlvBits r))) in
      if xorHighBit r = 0 then f (unat (intlvHighBit r)) else f (unat (intlvHighBit r)) XOR f (unat (xorHighBit r)))"

text \<open>The addresses of a range.\<close>

definition addresses :: "addr_range \<Rightarrow> maddr set" where
  "addresses r = {a. r_start r \<le> a \<and> a \<le> r_end r \<and> (intlvBits r = 0 \<or> selector r a = ucast (intlvMatch r))}"

lemma slice_wf:
  assumes "unat hi < 64" "unat n \<le> unat hi + 1" "n \<noteq> 0"
  shows "addr_slice a hi n = Inr (bits a (unat hi) (unat hi + 1 - unat n))"
proof -
  have u: "uint hi = int (unat hi)" "uint n = int (unat n)" by simp_all
  have "int (unat hi) - int (unat n) + 1 = int (unat hi + 1 - unat n)" using assms(2) by linarith
  moreover have "unat n \<noteq> 0" using assms(3) by (simp add: unat_eq_0)
  then have "unat hi + 1 - unat n < 64" using assms(1) by linarith
  moreover have "int (unat n) \<le> 64" using assms(1,2) by linarith
  ultimately show ?thesis unfolding addr_slice_def u by simp
qed

lemma contains_wf:
  assumes "range_wf r"
  shows "contains r a = Inr (a \<in> addresses r)"
proof (cases "intlvBits r = 0")
  case True
  then show ?thesis by (simp add: contains_def addresses_def interleaved_def)
next
  case n: False
  then have n': "intlvBits r \<noteq> 0" .
  have hi: "unat (intlvHighBit r) < 64" "unat (intlvBits r) \<le> unat (intlvHighBit r) + 1"
    and x: "xorHighBit r \<noteq> 0 \<Longrightarrow> unat (xorHighBit r) < 64 \<and> unat (intlvBits r) \<le> unat (xorHighBit r) + 1"
    using assms n unfolding range_wf_def by blast+
  show ?thesis
  proof (cases "xorHighBit r = 0")
    case True
    then show ?thesis
      using n slice_wf [OF hi n', of a] by (auto simp: contains_def addresses_def interleaved_def hashed_def selector_def Let_def)
  next
    case False
    then show ?thesis
      using n slice_wf [OF hi n', of a] slice_wf [of "xorHighBit r" "intlvBits r" a] x
      by (auto simp: contains_def addresses_def interleaved_def hashed_def selector_def Let_def)
  qed
qed

section \<open>Merging\<close>

lemma bits_less: "hi < 64 \<Longrightarrow> n \<le> hi + 1 \<Longrightarrow> n \<noteq> 0 \<Longrightarrow> bits a hi (hi + 1 - n) = take_bit n (drop_bit (hi + 1 - n) a)"
  by (auto simp: bits_def mask_n_mask take_bit_eq_mask)

lemma selector_take:
  assumes "range_wf r" "intlvBits r \<noteq> 0"
  shows "take_bit (unat (intlvBits r)) (selector r a) = selector r a"
proof -
  have n: "unat (intlvBits r) \<noteq> 0" using assms(2) by (simp add: unat_eq_0)
  have hi: "unat (intlvHighBit r) < 64" "unat (intlvBits r) \<le> unat (intlvHighBit r) + 1"
    and x: "xorHighBit r \<noteq> 0 \<Longrightarrow> unat (xorHighBit r) < 64 \<and> unat (intlvBits r) \<le> unat (xorHighBit r) + 1"
    using assms unfolding range_wf_def by blast+
  show ?thesis
    using bits_less [OF hi n, of a] bits_less [of "unat (xorHighBit r)" "unat (intlvBits r)" a] x n
    by (simp add: selector_def Let_def)
qed

lemma selector_less:
  assumes "range_wf r" "intlvBits r \<noteq> 0"
  shows "unat (selector r a) < 2 ^ unat (intlvBits r)"
proof -
  have "unat (take_bit (unat (intlvBits r)) (selector r a)) = take_bit (unat (intlvBits r)) (unat (selector r a))"
    by (rule unsigned_take_bit_eq)
  then show ?thesis using selector_take [OF assms] by (metis take_bit_nat_less_exp)
qed

lemma merge_check_ok:
  "merge_check t rs m = Inr u \<Longrightarrow> k < length rs \<Longrightarrow> mergesWith t (rs ! k) \<and> intlvMatch (rs ! k) = m + of_nat k"
proof (induction rs arbitrary: m k)
  case (Cons r rs)
  then have c: "mergesWith t r" "intlvMatch r = m" "merge_check t rs (m + 1) = Inr u" by (auto split: if_splits)
  show ?case
  proof (cases k)
    case 0
    then show ?thesis using c by simp
  next
    case (Suc j)
    then show ?thesis using Cons.IH [OF c(3), of j] Cons.prems(2) by (simp add: add.assoc)
  qed
qed simp

definition merge_frame :: "addr_range \<Rightarrow> addr_range" where
  "merge_frame r = AddrRange_empty\<lparr>r_start := r_start r, r_end := r_end r, intlvHighBit := intlvHighBit r,
     xorHighBit := xorHighBit r, intlvBits := intlvBits r\<rparr>"

lemma merge_ok:
  assumes "AddrRange_merge (r # rs) = Inr m" and "range_wf r"
  shows "m = AddrRange (r_start r) (r_end r)" "length (r # rs) = 2 ^ unat (intlvBits r)"
    "k < length (r # rs) \<Longrightarrow> (r # rs) ! k = r\<lparr>intlvMatch := of_nat k\<rparr>"
proof -
  obtain n u where n: "ull_shift (uint (intlvBits r)) = Inr n" "int (length (r # rs)) = uint n"
      "merge_check (merge_frame r) (r # rs) 0 = Inr u" "m = AddrRange (r_start r) (r_end r)"
    using assms(1)
    by (auto simp: AddrRange_merge_def Let_def bindR_eq_Inr merge_frame_def AddrRange_empty_def AddrRange_def simp del: merge_check.simps)
  show "m = AddrRange (r_start r) (r_end r)" by (rule n(4))
  have "unat (intlvBits r) < 64" using assms(2) by (auto simp: range_wf_def)
  then have p: "n = push_bit (unat (intlvBits r)) 1" "unat (intlvBits r) < 64" using n(1) by (auto simp: ull_shift_def split: if_splits)
  then have "(2 :: int) ^ unat (intlvBits r) < 2 ^ 64" by (intro power_strict_increasing) simp_all
  then have "uint n = 2 ^ unat (intlvBits r)"
    unfolding p(1) unsigned_push_bit_eq by (simp add: push_bit_eq_mult take_bit_eq_mod)
  then show "length (r # rs) = 2 ^ unat (intlvBits r)" using n(2) by (metis of_nat_eq_iff of_nat_numeral of_nat_power)
  show "(r # rs) ! k = r\<lparr>intlvMatch := of_nat k\<rparr>" if "k < length (r # rs)"
    using merge_check_ok [OF n(3) that]
    by (intro addr_range.equality) (auto simp: mergesWith_def merge_frame_def AddrRange_empty_def)
qed

lemma addresses_match:
  assumes "range_wf r" "intlvBits r \<noteq> 0" "k < 2 ^ unat (intlvBits r)"
  shows "a \<in> addresses (r\<lparr>intlvMatch := of_nat k\<rparr>) \<longleftrightarrow> r_start r \<le> a \<and> a \<le> r_end r \<and> unat (selector r a) = k"
proof -
  have "unat (intlvBits r) \<le> 8" using assms(1,2) by (simp add: range_wf_def)
  then have "(2 :: nat) ^ unat (intlvBits r) \<le> 2 ^ 8" by (intro power_increasing) simp_all
  then have k: "k < 256" using assms(3) by simp
  have "unat (ucast (of_nat k :: byte) :: maddr) = k"
    using k by (simp add: unsigned_ucast_eq unat_of_nat take_bit_eq_mod)
  then have "selector r a = ucast (of_nat k :: byte) \<longleftrightarrow> unat (selector r a) = k" by (metis word_unat_eq_iff)
  moreover have "selector (r\<lparr>intlvMatch := of_nat k\<rparr>) a = selector r a" by (simp add: selector_def)
  ultimately show ?thesis using assms(2) by (simp add: addresses_def)
qed


section \<open>Intersection\<close>

lemma ucast_byte_inj: "(ucast (x :: byte) :: maddr) = ucast y \<longleftrightarrow> x = y"
proof -
  have "unat (ucast z :: maddr) = unat z" for z :: byte by (simp add: unsigned_ucast_eq take_bit_nat_eq_self_iff less_le_trans [OF unsigned_less])
  then show ?thesis by (metis word_unat_eq_iff)
qed

text \<open>Two ranges for which \<open>intersects\<close> has an answer, the second not a single interleaved
  address: the answer is right when both contain an address.\<close>

lemma intersects_wf:
  assumes wf: "range_wf t" "range_wf r" and ne: "addresses t \<noteq> {}" "addresses r \<noteq> {}"
    and one: "range_size r = Inr 1 \<Longrightarrow> \<not> interleaved r" and b: "intersects t r = Inr b"
  shows "b \<longleftrightarrow> addresses t \<inter> addresses r \<noteq> {}"
proof (cases "r_end r < r_start t \<or> r_end t < r_start r")
  case True
  then have "addresses t \<inter> addresses r = {}" by (auto simp: addresses_def)
  then show ?thesis using True b by (simp add: intersects_def)
next
  case over: False
  have valid: "r_start t \<le> r_end t" "r_start r \<le> r_end r" using ne by (auto simp: addresses_def)
  show ?thesis
  proof (cases "interleaved t \<or> interleaved r")
    case False
    then have "max (r_start t) (r_start r) \<in> addresses t \<inter> addresses r"
      using over valid by (auto simp: addresses_def interleaved_def not_less max_def)
    then show ?thesis using False over b by (auto simp: intersects_def)
  next
    case True
    then obtain sz where sz: "range_size r = Inr sz" "b = (if sz = 1 then r_start r \<in> addresses t else intlvMatch t = intlvMatch r)"
        "sz \<noteq> 1 \<Longrightarrow> mergesWith t r"
      using over b contains_wf [OF wf(1), of "r_start r"] by (auto simp: intersects_def bindR_eq_Inr split: if_splits)
    show ?thesis
    proof (cases "sz = 1")
      case True
      then have c: "intlvBits r = 0" using one sz(1) by (simp add: interleaved_def)
      then have "r_end r - r_start r + 1 = 1" using sz(1) True by (simp add: range_size_def)
      then have "r_end r = r_start r" by simp
      then have "addresses r = {r_start r}" using c by (auto simp: addresses_def)
      then show ?thesis using sz(2) True by auto
    next
      case False
      then have mw: "mergesWith t r" using sz(3) by simp
      then have same: "selector t = selector r" by (auto simp: mergesWith_def selector_def fun_eq_iff)
      show ?thesis
      proof (cases "intlvMatch t = intlvMatch r")
        case True
        then have "t = r" using mw by (intro addr_range.equality) (simp_all add: mergesWith_def)
        then show ?thesis using ne sz(2) False True by auto
      next
        case neq: False
        have "intlvBits t \<noteq> 0" "intlvBits r \<noteq> 0" using \<open>interleaved t \<or> interleaved r\<close> mw by (auto simp: interleaved_def mergesWith_def)
        moreover have "(ucast (intlvMatch t) :: maddr) \<noteq> ucast (intlvMatch r)" using neq by (simp add: ucast_byte_inj)
        ultimately have "addresses t \<inter> addresses r = {}" using same by (auto simp: addresses_def)
        then show ?thesis using neq sz(2) False by simp
      qed
    qed
  qed
qed

text \<open>A single interleaved address is tested by the start of its range, which need not be in it.\<close>

lemma intersects_false_hit:
  "\<exists>t r. AddrRange 0 0 = t \<and> AddrRange_intlv 0 3 1 0 2 3 = Inr r \<and> intersects t r = Inr True \<and> addresses t \<inter> addresses r = {}"
  by (auto simp: AddrRange_def AddrRange_intlv_def ull_shift_def intersects_def interleaved_def range_size_def contains_def
      addresses_def selector_def bits_def mask_n_def)

text \<open>\<open>operator==\<close> does not compare the XOR bit.\<close>

lemma equal_but_different:
  "\<exists>t r. AddrRange_intlv 0 7 0 1 1 0 = Inr t \<and> AddrRange_intlv 0 7 0 2 1 0 = Inr r \<and> range_eq t r \<and> addresses t \<noteq> addresses r"
proof -
  define t r where "t = \<lparr>r_start = 0, r_end = 7, intlvHighBit = 0, xorHighBit = 1, intlvBits = 1, intlvMatch = 0\<rparr>"
    "r = \<lparr>r_start = 0, r_end = 7, intlvHighBit = 0, xorHighBit = 2, intlvBits = 1, intlvMatch = 0\<rparr>"
  have "AddrRange_intlv 0 7 0 1 1 0 = Inr t" "AddrRange_intlv 0 7 0 2 1 0 = Inr r"
    by (simp_all add: AddrRange_intlv_def ull_shift_def t_r_def)
  moreover have "3 \<notin> addresses r" "3 \<in> addresses t"
    by (simp_all add: addresses_def selector_def bits_def mask_n_def t_r_def Let_def)
  moreover have "range_eq t r" by (simp add: range_eq_def t_r_def)
  ultimately show ?thesis by blast
qed

text \<open>Contiguous ranges.\<close>

definition plain :: "addr_range \<Rightarrow> bool" where
  "plain r \<longleftrightarrow> r = AddrRange (r_start r) (r_end r) \<and> r_start r \<le> r_end r"

lemma plain_fields: "plain r \<Longrightarrow> intlvBits r = 0 \<and> intlvMatch r = 0 \<and> r_start r \<le> r_end r"
  unfolding plain_def by (metis AddrRange_def addr_range.select_convs(5,6))

lemma plain_addresses: "plain r \<Longrightarrow> addresses r = {r_start r..r_end r}"
  using plain_fields [of r] by (auto simp: addresses_def)

lemma plain_intersects: "plain t \<Longrightarrow> plain r \<Longrightarrow> intersects t r = Inr (addresses t \<inter> addresses r \<noteq> {})"
proof -
  assume p: "plain t" "plain r"
  note f = plain_fields [OF p(1)] plain_fields [OF p(2)]
  have "intersects t r = Inr (\<not> (r_end r < r_start t \<or> r_end t < r_start r))" using f by (simp add: intersects_def interleaved_def)
  moreover have "(addresses t \<inter> addresses r \<noteq> {}) \<longleftrightarrow> \<not> (r_end r < r_start t \<or> r_end t < r_start r)"
  proof
    assume "addresses t \<inter> addresses r \<noteq> {}"
    then show "\<not> (r_end r < r_start t \<or> r_end t < r_start r)" by (auto simp: addresses_def)
  next
    assume "\<not> (r_end r < r_start t \<or> r_end t < r_start r)"
    then have "max (r_start t) (r_start r) \<in> addresses t \<inter> addresses r"
      using f by (auto simp: addresses_def not_less max_def)
    then show "addresses t \<inter> addresses r \<noteq> {}" by blast
  qed
  ultimately show ?thesis by simp
qed


end
