(* ===== verification/Addr_Map.thy ===== *)
theory Addr_Map imports Addr_Range begin

text \<open>
  The address decoder (base/addr_range_map.hh): a \<open>std::map\<close> from ranges to values, as the list
  of its entries in the order of \<open>operator<\<close>; an iterator is an index, \<open>end()\<close> the length.
  Lookup, insertion and erasure, and the theorem that a map built from compatible ranges,
  interleaved groups among them, decodes every address.
\<close>

section \<open>The map\<close>

type_synonym 'v range_tree = "(addr_range \<times> 'v) list"

definition upper_bound :: "'v range_tree \<Rightarrow> addr_range \<Rightarrow> nat" where
  "upper_bound tree r = length (takeWhile (\<lambda>e. \<not> range_less r (fst e)) tree)"

text \<open>The loop that steps backwards from an interleaved range, with the test after it.\<close>

fun walk_back :: "'v range_tree \<Rightarrow> addr_range \<Rightarrow> addr_range \<Rightarrow> nat \<Rightarrow> nat res" where
  "walk_back tree r orig_range 0 =
     bindR (intersects (fst (tree ! 0)) r) (\<lambda>b. Inr (if b then 0 else length tree))"
| "walk_back tree r orig_range (Suc i) =
     (if mergesWith (fst (tree ! Suc i)) orig_range then
        bindR (intersects (fst (tree ! i)) r) (\<lambda>b. if b then Inr i else walk_back tree r orig_range i)
      else bindR (intersects (fst (tree ! Suc i)) r) (\<lambda>b. Inr (if b then Suc i else length tree)))"

definition find_range :: "'v range_tree \<Rightarrow> addr_range \<Rightarrow> nat res" where
  "find_range tree r =
     (if tree = [] then Inr (length tree)
      else case upper_bound tree r of
          0 \<Rightarrow> bindR (intersects (fst (tree ! 0)) r) (\<lambda>b. Inr (if b then 0 else length tree))
        | Suc i \<Rightarrow>
            bindR (intersects (fst (tree ! i)) r) (\<lambda>b.
            if b then Inr i
            else if interleaved (fst (tree ! i)) then walk_back tree r (fst (tree ! i)) i
            else Inr (length tree)))"

definition find_addr :: "'v range_tree \<Rightarrow> maddr \<Rightarrow> nat res" where
  "find_addr tree a = find_range tree (RangeSize a 1)"

definition map_intersect :: "'v range_tree \<Rightarrow> addr_range \<Rightarrow> bool res" where
  "map_intersect tree r = bindR (find_range tree r) (\<lambda>i. Inr (i \<noteq> length tree))"

text \<open>\<open>std::map::insert\<close>: an entry with an equivalent key stays and is what is returned.\<close>

fun tree_insert :: "addr_range \<Rightarrow> 'v \<Rightarrow> 'v range_tree \<Rightarrow> 'v range_tree \<times> nat" where
  "tree_insert r d [] = ([(r, d)], 0)"
| "tree_insert r d (e # tree) =
     (if range_less r (fst e) then ((r, d) # e # tree, 0)
      else if range_less (fst e) r then (let (tree', i) = tree_insert r d tree in (e # tree', Suc i))
      else (e # tree, 0))"

definition map_insert :: "'v range_tree \<Rightarrow> addr_range \<Rightarrow> 'v \<Rightarrow> ('v range_tree \<times> nat) res" where
  "map_insert tree r d =
     bindR (map_intersect tree r) (\<lambda>b. Inr (if b then (tree, length tree) else tree_insert r d tree))"

text \<open>\<open>erase\<close> is undefined on \<open>end()\<close> and on ranges of iterators that are not in order.\<close>

definition map_erase :: "'v range_tree \<Rightarrow> nat \<Rightarrow> 'v range_tree res" where
  "map_erase tree p = (if p < length tree then Inr (take p tree @ drop (Suc p) tree) else Inl Undefined)"

definition map_erase_range :: "'v range_tree \<Rightarrow> nat \<Rightarrow> nat \<Rightarrow> 'v range_tree res" where
  "map_erase_range tree p q =
     (if p \<le> q \<and> q \<le> length tree then Inr (take p tree @ drop q tree) else Inl Undefined)"

definition map_begin :: "'v range_tree \<Rightarrow> nat" where
  "map_begin tree = 0"

definition map_end :: "'v range_tree \<Rightarrow> nat" where
  "map_end tree = length tree"

definition map_clear :: "'v range_tree \<Rightarrow> 'v range_tree res" where
  "map_clear tree = map_erase_range tree (map_begin tree) (map_end tree)"

definition map_size :: "'v range_tree \<Rightarrow> nat" where
  "map_size tree = length tree"

definition map_empty :: "'v range_tree \<Rightarrow> bool" where
  "map_empty tree \<longleftrightarrow> tree = []"

section \<open>Compatible ranges\<close>

text \<open>Ranges a map can decode: a contiguous range has the match value its constructor gives, and
  an interleaved one starts at an address of match value 0 and holds more than one address.\<close>

definition key_ok :: "addr_range \<Rightarrow> bool" where
  "key_ok r \<longleftrightarrow> range_wf r \<and> range_valid r \<and>
     (if interleaved r then selector r (r_start r) = 0 \<and> range_size r \<noteq> Inr 1 else intlvMatch r = 0)"

text \<open>Two ranges lie apart, or are different members of one interleaved group.\<close>

definition compatible :: "addr_range \<Rightarrow> addr_range \<Rightarrow> bool" where
  "compatible r s \<longleftrightarrow> r_end r < r_start s \<or> r_end s < r_start r \<or>
     mergesWith r s \<and> interleaved r \<and> intlvMatch r \<noteq> intlvMatch s"

definition tree_ok :: "'v range_tree \<Rightarrow> bool" where
  "tree_ok tree \<longleftrightarrow> (\<forall>e\<in>set tree. key_ok (fst e)) \<and>
     sorted_wrt (\<lambda>x y. range_less (fst x) (fst y) \<and> compatible (fst x) (fst y)) tree"

lemma mergesWith_sym: "mergesWith r s \<Longrightarrow> mergesWith s r"
  by (simp add: mergesWith_def)

lemma mergesWith_trans: "mergesWith r s \<Longrightarrow> mergesWith s t \<Longrightarrow> mergesWith r t"
  by (simp add: mergesWith_def)

lemma compatible_sym: "compatible r s \<Longrightarrow> compatible s r"
  by (auto simp: compatible_def mergesWith_def interleaved_def)

lemma compatible_disjoint:
  assumes "compatible r s"
  shows "addresses r \<inter> addresses s = {}"
proof (cases "r_end r < r_start s \<or> r_end s < r_start r")
  case True
  then show ?thesis by (auto simp: addresses_def)
next
  case False
  then have m: "mergesWith r s" "interleaved r" "intlvMatch r \<noteq> intlvMatch s" using assms by (auto simp: compatible_def)
  then have "selector r = selector s" by (auto simp: mergesWith_def selector_def fun_eq_iff)
  then show ?thesis using m by (auto simp: addresses_def interleaved_def mergesWith_def ucast_byte_inj)
qed

lemma range_less_trans: "range_less r s \<Longrightarrow> range_less s t \<Longrightarrow> range_less r t"
  by (auto simp: range_less_def split: if_splits)

lemma range_less_irrefl: "\<not> range_less r r"
  by (simp add: range_less_def)

lemma compatible_linear:
  assumes "compatible r s" "key_ok r" "key_ok s"
  shows "range_less r s \<or> range_less s r"
proof (cases "r_start r = r_start s")
  case True
  then have "\<not> r_end r < r_start s" "\<not> r_end s < r_start r" using assms(2,3) by (auto simp: key_ok_def range_valid_def)
  then have "intlvMatch r \<noteq> intlvMatch s" using assms(1) by (simp add: compatible_def)
  then show ?thesis using True by (auto simp: range_less_def neq_iff)
qed (auto simp: range_less_def neq_iff)

lemma tree_okD:
  assumes "tree_ok tree" "i < length tree"
  shows "key_ok (fst (tree ! i))"
    and "i < j \<Longrightarrow> j < length tree \<Longrightarrow> range_less (fst (tree ! i)) (fst (tree ! j)) \<and> compatible (fst (tree ! i)) (fst (tree ! j))"
  using assms by (auto simp: tree_ok_def sorted_wrt_iff_nth_less)

lemma tree_ok_compatible: "tree_ok tree \<Longrightarrow> i < length tree \<Longrightarrow> j < length tree \<Longrightarrow> i \<noteq> j \<Longrightarrow>
  compatible (fst (tree ! i)) (fst (tree ! j))"
  by (metis tree_okD(2) compatible_sym nat_neq_iff)

section \<open>Lookup\<close>

lemma upper_bound_below: "i < upper_bound tree r \<Longrightarrow> \<not> range_less r (fst (tree ! i)) \<and> i < length tree"
  unfolding upper_bound_def
  by (metis length_takeWhile_le less_le_trans nth_mem set_takeWhileD takeWhile_nth)

lemma upper_bound_at: "upper_bound tree r < length tree \<Longrightarrow> range_less r (fst (tree ! upper_bound tree r))"
  unfolding upper_bound_def using nth_length_takeWhile by blast

lemma upper_bound_le: "upper_bound tree r \<le> length tree"
  by (simp add: upper_bound_def length_takeWhile_le)

lemma upper_bound_above:
  assumes "tree_ok tree" "upper_bound tree r \<le> i" "i < length tree"
  shows "range_less r (fst (tree ! i))"
proof (cases "upper_bound tree r = i")
  case True
  then show ?thesis using upper_bound_at [of tree r] assms(3) by simp
next
  case False
  then have "upper_bound tree r < i" using assms(2) by simp
  then show ?thesis
    using upper_bound_at [of tree r] tree_okD(2) [OF assms(1), of "upper_bound tree r" i] assms(3) range_less_trans by fastforce
qed

text \<open>The backward walk, for a query every entry answers: it finds the entry \<open>j\<close> that
  intersects the query, when the entries above \<open>j\<close> belong to the same group.\<close>

lemma walk_back_hit:
  assumes "\<forall>k \<le> i. intersects (fst (tree ! k)) r = Inr (k = j)" "j < i"
    and "\<forall>k. j < k \<longrightarrow> k \<le> i \<longrightarrow> mergesWith (fst (tree ! k)) orig_range"
  shows "walk_back tree r orig_range i = Inr j"
  using assms by (induction i) (auto simp: less_Suc_eq)

lemma walk_back_miss:
  "\<forall>k \<le> i. intersects (fst (tree ! k)) r = Inr False \<Longrightarrow> walk_back tree r orig_range i = Inr (length tree)"
  by (induction i) auto

lemma find_range_miss:
  assumes "\<forall>k < length tree. intersects (fst (tree ! k)) r = Inr False"
  shows "find_range tree r = Inr (length tree)"
proof (cases "upper_bound tree r")
  case 0
  then show ?thesis using assms by (auto simp: find_range_def)
next
  case (Suc i)
  then have "i < length tree" using upper_bound_le [of tree r] by simp
  then show ?thesis using assms Suc walk_back_miss [of i tree r] by (auto simp: find_range_def)
qed

lemma find_range_hit:
  assumes "\<forall>k < length tree. intersects (fst (tree ! k)) r = Inr (k = j)" "j < upper_bound tree r"
    and group: "\<forall>k. j < k \<longrightarrow> k < upper_bound tree r \<longrightarrow> interleaved (fst (tree ! k)) \<and> mergesWith (fst (tree ! k)) (fst (tree ! (upper_bound tree r - 1)))"
  shows "find_range tree r = Inr j"
proof -
  obtain i where i: "upper_bound tree r = Suc i" using assms(2) by (cases "upper_bound tree r") auto
  have n: "i < length tree" using upper_bound_le [of tree r] i by simp
  show ?thesis
  proof (cases "j = i")
    case True
    then show ?thesis using assms(1) n i by (auto simp: find_range_def)
  next
    case False
    then have j: "j < i" using assms(2) i by simp
    then have "walk_back tree r (fst (tree ! i)) i = Inr j" using assms(1) group n i by (intro walk_back_hit) auto
    then show ?thesis using assms(1) n i j group by (auto simp: find_range_def)
  qed
qed

text \<open>A single address against a well-formed range.\<close>

lemma intersects_single:
  assumes "range_wf t"
  shows "intersects t (RangeSize a 1) = Inr (a \<in> addresses t)"
proof -
  have r: "RangeSize a 1 = \<lparr>r_start = a, r_end = a, intlvHighBit = 0, xorHighBit = 0, intlvBits = 0, intlvMatch = 0\<rparr>"
    by (simp add: RangeSize_def AddrRange_def)
  have c: "contains t a = Inr (a \<in> addresses t)" by (rule contains_wf [OF assms])
  show ?thesis
    unfolding intersects_def r using c by (auto simp: addresses_def interleaved_def range_size_def contains_def Let_def)
qed

text \<open>The entries of a tree that can hold an address start no later than the query's bound.\<close>

lemma below_bound:
  assumes "tree_ok tree" "j < length tree" "a \<in> addresses (fst (tree ! j))"
  shows "j < upper_bound tree (RangeSize a 1)"
proof (rule ccontr)
  let ?k = "fst (tree ! j)"
  assume "\<not> j < upper_bound tree (RangeSize a 1)"
  then have "range_less (RangeSize a 1) ?k" using upper_bound_above [OF assms(1)] assms(2) by simp
  then have s: "a < r_start ?k \<or> a = r_start ?k \<and> 0 < intlvMatch ?k"
    by (auto simp: range_less_def RangeSize_def AddrRange_def split: if_splits)
  then have a: "a = r_start ?k" "0 < intlvMatch ?k" using assms(3) by (auto simp: addresses_def)
  have ok: "key_ok ?k" by (rule tree_okD(1) [OF assms(1,2)])
  then have "interleaved ?k" using a(2) by (cases "interleaved ?k") (auto simp: key_ok_def)
  then have "selector ?k a = 0" "selector ?k a = ucast (intlvMatch ?k)"
    using ok a assms(3) by (auto simp: key_ok_def addresses_def interleaved_def)
  then have "(ucast (intlvMatch ?k) :: maddr) = ucast (0 :: byte)" by simp
  then show False using a(2) by (simp only: ucast_byte_inj)
qed

lemma find_addr_hit:
  assumes ok: "tree_ok tree" and j: "j < length tree" and a: "a \<in> addresses (fst (tree ! j))"
  shows "find_addr tree a = Inr j"
  unfolding find_addr_def
proof (rule find_range_hit)
  let ?r = "RangeSize a 1"
  have only: "(a \<in> addresses (fst (tree ! k))) = (k = j)" if "k < length tree" for k
    using compatible_disjoint [OF tree_ok_compatible [OF ok that j]] a by blast
  have wf: "range_wf (fst (tree ! k))" if "k < length tree" for k using tree_okD(1) [OF ok that] by (simp add: key_ok_def)
  show "\<forall>k < length tree. intersects (fst (tree ! k)) ?r = Inr (k = j)" by (simp add: intersects_single [OF wf] only)
  show n: "j < upper_bound tree ?r" by (rule below_bound [OF ok j a])
  have member: "mergesWith (fst (tree ! j)) (fst (tree ! k)) \<and> interleaved (fst (tree ! j))" if k: "j < k" "k < upper_bound tree ?r" for k
  proof -
    have "\<not> range_less ?r (fst (tree ! k))" "k < length tree" using upper_bound_below [OF k(2)] by auto
    then have "r_start (fst (tree ! k)) \<le> a" by (auto simp: range_less_def RangeSize_def AddrRange_def not_less split: if_splits)
    moreover have "a \<le> r_end (fst (tree ! j))" using a by (simp add: addresses_def)
    moreover have lt: "range_less (fst (tree ! j)) (fst (tree ! k))" "compatible (fst (tree ! j)) (fst (tree ! k))"
      using tree_okD(2) [OF ok j k(1)] \<open>k < length tree\<close> by auto
    moreover have "r_start (fst (tree ! j)) \<le> r_start (fst (tree ! k))" using lt(1) by (auto simp: range_less_def split: if_splits)
    moreover have "r_start (fst (tree ! k)) \<le> r_end (fst (tree ! k))"
      using tree_okD(1) [OF ok \<open>k < length tree\<close>] by (simp add: key_ok_def range_valid_def)
    ultimately show ?thesis by (auto simp: compatible_def)
  qed
  show "\<forall>k. j < k \<longrightarrow> k < upper_bound tree ?r \<longrightarrow>
      interleaved (fst (tree ! k)) \<and> mergesWith (fst (tree ! k)) (fst (tree ! (upper_bound tree ?r - 1)))"
  proof (intro allI impI)
    fix k assume k: "j < k" "k < upper_bound tree ?r"
    have "mergesWith (fst (tree ! j)) (fst (tree ! (upper_bound tree ?r - 1)))" using member [of "upper_bound tree ?r - 1"] k by simp
    then show "interleaved (fst (tree ! k)) \<and> mergesWith (fst (tree ! k)) (fst (tree ! (upper_bound tree ?r - 1)))"
      using member [OF k] by (auto simp: mergesWith_def interleaved_def)
  qed
qed

lemma find_addr_miss:
  assumes "tree_ok tree" "\<forall>e\<in>set tree. a \<notin> addresses (fst e)"
  shows "find_addr tree a = Inr (length tree)"
  unfolding find_addr_def using assms intersects_single tree_okD(1) [OF assms(1)]
  by (intro find_range_miss) (auto simp: key_ok_def)

section \<open>Insertion and erasure\<close>

lemma intersects_compatible:
  assumes "key_ok t" "key_ok r" "compatible t r"
  shows "intersects t r = Inr False"
proof (cases "r_end r < r_start t \<or> r_end t < r_start r")
  case False
  then have m: "mergesWith t r" "interleaved t" "intlvMatch t \<noteq> intlvMatch r" using assms(3) by (auto simp: compatible_def)
  then have i: "interleaved r" by (simp add: mergesWith_def interleaved_def)
  have "unat (intlvBits r) \<le> 8" using assms(2) i by (simp add: key_ok_def range_wf_def interleaved_def)
  moreover have "uint (intlvBits r) = int (unat (intlvBits r))" by simp
  ultimately have "uint (intlvBits r) < 64" by linarith
  then obtain sz where "range_size r = Inr sz" by (simp add: range_size_def)
  moreover have "sz \<noteq> 1" using assms(2) i calculation by (auto simp: key_ok_def)
  ultimately show ?thesis using False m by (simp add: intersects_def)
qed (simp add: intersects_def)

lemma tree_insert_set:
  assumes "\<forall>e\<in>set tree. range_less r (fst e) \<or> range_less (fst e) r"
  shows "set (fst (tree_insert r d tree)) = insert (r, d) (set tree)"
    and "length (fst (tree_insert r d tree)) = Suc (length tree)"
    and "snd (tree_insert r d tree) \<le> length tree"
    and "fst (tree_insert r d tree) ! snd (tree_insert r d tree) = (r, d)"
  using assms by (induction tree) (auto split: prod.splits)

lemma tree_insert_ok:
  assumes "tree_ok tree" "key_ok r" "\<forall>e\<in>set tree. compatible (fst e) r"
  shows "tree_ok (fst (tree_insert r d tree))"
  using assms(1,3)
proof (induction tree)
  case Nil
  then show ?case using assms(2) by (simp add: tree_ok_def)
next
  case (Cons e tree)
  then have tail: "tree_ok tree" "tree_ok (fst (tree_insert r d tree))" by (auto simp: tree_ok_def)
  have c: "compatible (fst e) r" "compatible r (fst e)" "key_ok (fst e)"
    using Cons.prems compatible_sym by (auto simp: tree_ok_def)
  show ?case
  proof (cases "range_less r (fst e)")
    case True
    then show ?thesis using Cons.prems assms(2) range_less_trans [OF True] compatible_sym by (auto simp: tree_ok_def)
  next
    case False
    then have less: "range_less (fst e) r" using compatible_linear [OF c(1,3) assms(2)] by simp
    have "\<forall>x\<in>set tree. range_less r (fst x) \<or> range_less (fst x) r"
      using Cons.prems compatible_linear [OF _ _ assms(2)] by (auto simp: tree_ok_def)
    then have "set (fst (tree_insert r d tree)) = insert (r, d) (set tree)" by (rule tree_insert_set)
    then show ?thesis using tail Cons.prems False less c by (auto simp: tree_ok_def split: prod.splits)
  qed
qed

lemma map_insert_ok:
  assumes "tree_ok tree" "key_ok r" "\<forall>e\<in>set tree. compatible (fst e) r"
  shows "\<exists>tree' i. map_insert tree r d = Inr (tree', i) \<and> tree_ok tree' \<and> set tree' = insert (r, d) (set tree) \<and>
    length tree' = Suc (length tree) \<and> i < length tree' \<and> tree' ! i = (r, d)"
proof -
  have "\<forall>k < length tree. intersects (fst (tree ! k)) r = Inr False"
    using assms tree_okD(1) [OF assms(1)] intersects_compatible by simp
  then have "map_insert tree r d = Inr (tree_insert r d tree)"
    by (simp add: map_insert_def map_intersect_def find_range_miss)
  moreover have "\<forall>e\<in>set tree. range_less r (fst e) \<or> range_less (fst e) r"
    using assms compatible_linear [OF _ _ assms(2)] by (auto simp: tree_ok_def)
  note tree_insert_set [OF this, where d = d]
  ultimately show ?thesis using tree_insert_ok [OF assms, of d]
    by (intro exI [of _ "fst (tree_insert r d tree)"] exI [of _ "snd (tree_insert r d tree)"]) simp
qed

lemma map_erase_ok:
  assumes "tree_ok tree" "p < length tree"
  shows "\<exists>tree'. map_erase tree p = Inr tree' \<and> tree_ok tree' \<and> set tree' = set tree - {tree ! p}"
proof -
  let ?t = "take p tree @ drop (Suc p) tree"
  have split: "tree = take p tree @ tree ! p # drop (Suc p) tree" using assms(2) by (rule id_take_nth_drop)
  have ok: "tree_ok (take p tree @ tree ! p # drop (Suc p) tree)" using assms(1) split by simp
  then have "tree_ok ?t" by (auto simp: tree_ok_def sorted_wrt_append)
  moreover have "tree ! p \<notin> set ?t"
    using ok range_less_irrefl by (fastforce simp: tree_ok_def sorted_wrt_append)
  moreover have "set tree = insert (tree ! p) (set ?t)" by (subst split) simp
  ultimately show ?thesis using assms(2) by (auto simp: map_erase_def)
qed

section \<open>Decoding\<close>

text \<open>What a decoder promises: every address leads to the entry whose range has it, and to
  \<open>end()\<close> when no range has it.\<close>

definition decodes :: "'v range_tree \<Rightarrow> (addr_range \<times> 'v) set \<Rightarrow> bool" where
  "decodes tree E \<longleftrightarrow> (\<forall>a. \<exists>i. find_addr tree a = Inr i \<and>
     (if i < map_size tree then tree ! i \<in> E \<and> a \<in> addresses (fst (tree ! i))
      else i = map_end tree \<and> (\<forall>e\<in>E. a \<notin> addresses (fst e))))"

lemma tree_ok_decodes:
  assumes "tree_ok tree"
  shows "decodes tree (set tree)"
  unfolding decodes_def
proof
  fix a
  show "\<exists>i. find_addr tree a = Inr i \<and> (if i < map_size tree then tree ! i \<in> set tree \<and> a \<in> addresses (fst (tree ! i))
      else i = map_end tree \<and> (\<forall>e\<in>set tree. a \<notin> addresses (fst e)))"
  proof (cases "\<exists>j < length tree. a \<in> addresses (fst (tree ! j))")
    case True
    then show ?thesis using find_addr_hit [OF assms] by (metis map_size_def nth_mem)
  next
    case False
    then have "\<forall>e\<in>set tree. a \<notin> addresses (fst e)" by (metis in_set_conv_nth)
    then show ?thesis using find_addr_miss [OF assms] by (auto simp: map_size_def map_end_def)
  qed
qed

text \<open>Inserting a list of ranges into a map, from the first to the last.\<close>

fun map_build :: "'v range_tree \<Rightarrow> (addr_range \<times> 'v) list \<Rightarrow> 'v range_tree res" where
  "map_build tree [] = Inr tree"
| "map_build tree (e # es) = bindR (map_insert tree (fst e) (snd e)) (\<lambda>(tree', _). map_build tree' es)"

lemma map_build_ok:
  assumes "tree_ok tree" "\<forall>e\<in>set es. key_ok (fst e)" "sorted_wrt (\<lambda>x y. compatible (fst x) (fst y)) es"
    and "\<forall>x\<in>set tree. \<forall>y\<in>set es. compatible (fst x) (fst y)"
  shows "\<exists>tree'. map_build tree es = Inr tree' \<and> tree_ok tree' \<and> set tree' = set tree \<union> set es \<and>
    length tree' = length tree + length es"
  using assms
proof (induction es arbitrary: tree)
  case (Cons e es)
  obtain tree1 i where t: "map_insert tree (fst e) (snd e) = Inr (tree1, i)" "tree_ok tree1"
      "set tree1 = insert e (set tree)" "length tree1 = Suc (length tree)"
    using map_insert_ok [of tree "fst e" "snd e"] Cons.prems by auto
  obtain tree' where "map_build tree1 es = Inr tree'" "tree_ok tree'" "set tree' = set tree1 \<union> set es"
      "length tree' = length tree1 + length es"
    using Cons.IH [OF t(2)] Cons.prems t(3) by auto
  then show ?case using t by auto
qed simp

text \<open>C14: address decoding: ranges inserted in any order into an empty map, contiguous ranges
  apart from each other and complete or partial interleaved groups, are all accepted, and every
  lookup then returns without a panic the entry whose range contains the address, or \<open>end()\<close>
  when no range does, through the tree's order and the backward walk over a group; erasing an
  entry leaves a map that decodes the others.\<close>

theorem addr_map_decodes:
  assumes "\<forall>e\<in>set es. key_ok (fst e)" and "sorted_wrt (\<lambda>x y. compatible (fst x) (fst y)) es"
  shows "\<exists>tree. map_build [] es = Inr tree \<and> map_size tree = length es \<and> decodes tree (set es) \<and>
    (\<forall>p < map_size tree. \<exists>tree'. map_erase tree p = Inr tree' \<and> decodes tree' (set es - {tree ! p}))"
proof -
  obtain tree where t: "map_build [] es = Inr tree" "tree_ok tree" "set tree = set es" "length tree = length es"
    using map_build_ok [of "[]" es] assms by (auto simp: tree_ok_def)
  then show ?thesis using tree_ok_decodes map_erase_ok [OF t(2)] by (metis map_size_def)
qed

text \<open>Two ranges interleaved on bit 6 and a contiguous one above them; the entry of 70 is the
  second of the group.\<close>

theorem addr_map_decodes_witness:
  "\<exists>r0 r1. AddrRange_intlv 0 255 6 0 1 0 = Inr r0 \<and> AddrRange_intlv 0 255 6 0 1 1 = Inr r1 \<and>
     (\<exists>tree. map_build [] [(r1, True), (RangeSize 256 16, False), (r0, False)] = Inr tree \<and>
        decodes tree {(r1, True), (RangeSize 256 16, False), (r0, False)})"
proof -
  define r0 r1 where "r0 = \<lparr>r_start = 0, r_end = 255, intlvHighBit = 6, xorHighBit = 0, intlvBits = 1, intlvMatch = 0\<rparr>"
    "r1 = \<lparr>r_start = 0, r_end = 255, intlvHighBit = 6, xorHighBit = 0, intlvBits = 1, intlvMatch = 1\<rparr>"
  let ?es = "[(r1, True), (RangeSize 256 16, False), (r0, False)]"
  have 1: "AddrRange_intlv 0 255 6 0 1 0 = Inr r0" "AddrRange_intlv 0 255 6 0 1 1 = Inr r1"
    by (simp_all add: AddrRange_intlv_def ull_shift_def r0_r1_def)
  have k: "key_ok r0" "key_ok r1" "key_ok (RangeSize 256 16)"
    by (simp_all add: key_ok_def range_wf_def range_valid_def interleaved_def r0_r1_def RangeSize_def AddrRange_def
        selector_def Let_def bits_def mask_n_def range_size_def drop_bit_eq_div)
  have c: "sorted_wrt (\<lambda>x y. compatible (fst x) (fst y)) ?es"
    by (simp add: compatible_def mergesWith_def interleaved_def r0_r1_def RangeSize_def AddrRange_def)
  have "\<exists>tree. map_build [] ?es = Inr tree \<and> decodes tree (set ?es)"
    using addr_map_decodes [OF _ c] k by auto
  then show ?thesis using 1 by auto
qed

section \<open>What compatibility excludes\<close>

text \<open>\<open>find\<close> looks at the entry before the bound only: a range that overlaps just the next entry
  is not seen, and \<open>insert\<close> accepts it.\<close>

lemma insert_overlap:
  "\<exists>tree. map_build [] [(RangeIn 0 9, 0 :: nat), (RangeIn 20 29, 1)] = Inr tree \<and>
     intersects (RangeIn 20 29) (RangeIn 15 25) = Inr True \<and> map_intersect tree (RangeIn 15 25) = Inr False \<and>
     map_insert tree (RangeIn 15 25) 2 = Inr ([(RangeIn 0 9, 0), (RangeIn 15 25, 2), (RangeIn 20 29, 1)], 1)"
  by (simp add: map_insert_def map_intersect_def find_range_def upper_bound_def range_less_def RangeIn_def AddrRange_def
      intersects_def interleaved_def)

text \<open>A hashed group that starts at 256 on bits 6 and 8: the start belongs to the member with
  match value 1, but the lookup stops at the member with match value 0.\<close>

lemma find_misses_start:
  "\<exists>r0 r1. AddrRange_intlv 256 511 6 8 1 0 = Inr r0 \<and> AddrRange_intlv 256 511 6 8 1 1 = Inr r1 \<and>
     contains r1 256 = Inr True \<and> find_addr [(r0, False), (r1, True)] 256 = Inr (map_end [(r0, False), (r1, True)])"
proof -
  define r0 r1 where "r0 = \<lparr>r_start = 256, r_end = 511, intlvHighBit = 6, xorHighBit = 8, intlvBits = 1, intlvMatch = 0\<rparr>"
    "r1 = \<lparr>r_start = 256, r_end = 511, intlvHighBit = 6, xorHighBit = 8, intlvBits = 1, intlvMatch = 1\<rparr>"
  have "range_wf r0" "range_wf r1" by (simp_all add: range_wf_def r0_r1_def)
  note wf = this
  have s: "256 \<in> addresses r1" "256 \<notin> addresses r0"
    by (simp_all add: addresses_def selector_def Let_def bits_def mask_n_def drop_bit_eq_div r0_r1_def)
  then have "contains r1 256 = Inr True" "intersects r0 (RangeSize 256 1) = Inr False"
    using contains_wf [OF wf(2)] intersects_single [OF wf(1)] by simp_all
  moreover have "upper_bound [(r0, False), (r1, True)] (RangeSize 256 1) = 1"
    by (simp add: upper_bound_def range_less_def RangeSize_def AddrRange_def r0_r1_def)
  ultimately have "contains r1 256 = Inr True" "find_addr [(r0, False), (r1, True)] 256 = Inr 2"
    by (simp_all add: find_addr_def find_range_def)
  moreover have "AddrRange_intlv 256 511 6 8 1 0 = Inr r0" "AddrRange_intlv 256 511 6 8 1 1 = Inr r1"
    by (simp_all add: AddrRange_intlv_def ull_shift_def r0_r1_def)
  ultimately show ?thesis by (auto simp: map_end_def)
qed

end
