(* ===== verification/Energy_SM.thy ===== *)
theory Energy_SM imports Softfloat begin

text \<open>
  The energy state machines (engy/state_machine.cc, two_thres.cc, DVFS.cc, DFS_LRY.cc): each is
  told the energy that remains and, on a change of state, broadcasts one message.  The messages
  suffice to follow the machine, and the frequency machine settles at any constant energy.
\<close>

section \<open>Messages\<close>

record energy_msg =
  msg_type :: int
  msg_val :: f64

definition msg_of :: "int \<Rightarrow> energy_msg" where
  "msg_of t = \<lparr>msg_type = t, msg_val = 0\<rparr>"

lemma msg_of_simps [simp]: "msg_type (msg_of t) = t" "msg_val (msg_of t) = 0"
  by (simp_all add: msg_of_def)

section \<open>The machines\<close>

text \<open>\<open>MsgType\<close> of the simple and the two-threshold machine.\<close>

abbreviation CONSUMEENERGY :: int where "CONSUMEENERGY \<equiv> 0"
abbreviation POWEROFF :: int where "POWEROFF \<equiv> 1"
abbreviation POWERON :: int where "POWERON \<equiv> 2"

datatype power_state = PS_INIT | PS_POWEROFF | PS_POWERON

definition SimpleEnergySM_init :: "power_state \<Rightarrow> power_state" where
  "SimpleEnergySM_init s = PS_POWERON"

definition SimpleEnergySM_update :: "power_state \<Rightarrow> f64 \<Rightarrow> power_state \<times> energy_msg option" where
  "SimpleEnergySM_update s e =
     (if s = PS_INIT then (PS_POWERON, None)
      else if s = PS_POWERON \<and> f64_lt e 0 then (PS_POWEROFF, Some (msg_of POWEROFF))
      else if s = PS_POWEROFF \<and> f64_lt 0 e then (PS_POWERON, Some (msg_of POWERON))
      else (s, None))"

record two_thres =
  tt_state :: power_state
  thres_high :: f64
  thres_low :: f64

definition TwoThresSM_new :: "f64 \<Rightarrow> f64 \<Rightarrow> two_thres" where
  "TwoThresSM_new hi lo = \<lparr>tt_state = PS_INIT, thres_high = hi, thres_low = lo\<rparr>"

definition TwoThresSM_init :: "two_thres \<Rightarrow> two_thres \<times> energy_msg option" where
  "TwoThresSM_init s = (s\<lparr>tt_state := PS_POWEROFF\<rparr>, Some (msg_of POWEROFF))"

definition TwoThresSM_update :: "two_thres \<Rightarrow> f64 \<Rightarrow> two_thres \<times> energy_msg option" where
  "TwoThresSM_update s e =
     (if tt_state s = PS_INIT then (s\<lparr>tt_state := PS_POWERON\<rparr>, None)
      else if tt_state s = PS_POWERON \<and> f64_lt e (thres_low s) then (s\<lparr>tt_state := PS_POWEROFF\<rparr>, Some (msg_of POWEROFF))
      else if tt_state s = PS_POWEROFF \<and> f64_lt (thres_high s) e then (s\<lparr>tt_state := PS_POWERON\<rparr>, Some (msg_of POWERON))
      else (s, None))"

text \<open>Voltage and frequency scaling.\<close>

datatype dvfs_state = DV_INIT | DV_OFF | DV_LVL_LOW | DV_LVL_MIDDLE | DV_LVL_HIGH

abbreviation DVFS_LOW :: int where "DVFS_LOW \<equiv> 2"
abbreviation DVFS_MIDDLE :: int where "DVFS_MIDDLE \<equiv> 3"
abbreviation DVFS_HIGH :: int where "DVFS_HIGH \<equiv> 4"

record dvfs =
  dv_state :: dvfs_state
  thres_off_low :: f64
  thres_low_mid :: f64
  thres_mid_high :: f64

definition DVFSSM_new :: "f64 \<Rightarrow> f64 \<Rightarrow> f64 \<Rightarrow> dvfs" where
  "DVFSSM_new a b c = \<lparr>dv_state = DV_INIT, thres_off_low = a, thres_low_mid = b, thres_mid_high = c\<rparr>"

definition DVFSSM_init :: "dvfs \<Rightarrow> dvfs \<times> energy_msg option" where
  "DVFSSM_init s = (s\<lparr>dv_state := DV_OFF\<rparr>, Some (msg_of POWEROFF))"

definition DVFSSM_update :: "dvfs \<Rightarrow> f64 \<Rightarrow> dvfs \<times> energy_msg option" where
  "DVFSSM_update s e =
     (if dv_state s = DV_INIT then (s\<lparr>dv_state := DV_OFF\<rparr>, None)
      else if dv_state s \<noteq> DV_OFF \<and> f64_lt e (thres_off_low s) then (s\<lparr>dv_state := DV_OFF\<rparr>, Some (msg_of POWEROFF))
      else if dv_state s \<noteq> DV_LVL_LOW \<and> f64_lt (thres_off_low s) e \<and> f64_lt e (thres_low_mid s)
      then (s\<lparr>dv_state := DV_LVL_LOW\<rparr>, Some (msg_of DVFS_LOW))
      else if dv_state s \<noteq> DV_LVL_MIDDLE \<and> f64_lt (thres_low_mid s) e \<and> f64_lt e (thres_mid_high s)
      then (s\<lparr>dv_state := DV_LVL_MIDDLE\<rparr>, Some (msg_of DVFS_MIDDLE))
      else if dv_state s \<noteq> DV_LVL_HIGH \<and> f64_lt (thres_mid_high s) e
      then (s\<lparr>dv_state := DV_LVL_HIGH\<rparr>, Some (msg_of DVFS_HIGH))
      else (s, None))"

text \<open>Frequency scaling in five steps, with retention; \<open>dirty_patch\<close> is the global flag the
  machine sets beside its messages.\<close>

datatype dfs_state = DF_INIT | DF_POWEROFF | DF_RETENTION | DF_FREQ1 | DF_FREQ2 | DF_FREQ3 | DF_FREQ4 | DF_FREQ5

abbreviation FREQ1to2 :: int where "FREQ1to2 \<equiv> 3"
abbreviation FREQ2to3 :: int where "FREQ2to3 \<equiv> 4"
abbreviation FREQ3to4 :: int where "FREQ3to4 \<equiv> 5"
abbreviation FREQ4to5 :: int where "FREQ4to5 \<equiv> 6"
abbreviation FREQ5to4 :: int where "FREQ5to4 \<equiv> 7"
abbreviation FREQ4to3 :: int where "FREQ4to3 \<equiv> 8"
abbreviation FREQ3to2 :: int where "FREQ3to2 \<equiv> 9"
abbreviation FREQ2to1 :: int where "FREQ2to1 \<equiv> 10"
abbreviation RETENTION_BEG :: int where "RETENTION_BEG \<equiv> 11"
abbreviation RETENTION_END :: int where "RETENTION_END \<equiv> 12"

record dfs =
  df_state :: dfs_state
  dirty_patch :: bool
  thres_5_to_4 :: f64
  thres_4_to_3 :: f64
  thres_3_to_2 :: f64
  thres_2_to_1 :: f64
  thres_1_to_retention :: f64
  thres_retention_to_off :: f64
  thres_off_to_1 :: f64
  thres_retention_to_1 :: f64
  thres_1_to_2 :: f64
  thres_2_to_3 :: f64
  thres_3_to_4 :: f64
  thres_4_to_5 :: f64

text \<open>The constructor reads the thresholds off its parameters and leaves the global flag as it is.\<close>

definition DFS_LRY_new :: "dfs \<Rightarrow> dfs" where
  "DFS_LRY_new p = p\<lparr>df_state := DF_INIT\<rparr>"

definition DFS_LRY_init :: "dfs \<Rightarrow> dfs \<times> energy_msg option" where
  "DFS_LRY_init s = (s\<lparr>df_state := DF_POWEROFF\<rparr>, Some (msg_of POWEROFF))"

definition DFS_LRY_update :: "dfs \<Rightarrow> f64 \<Rightarrow> dfs \<times> energy_msg option" where
  "DFS_LRY_update s e =
     (let st = df_state s; go = (\<lambda>st' t. (s\<lparr>df_state := st'\<rparr>, Some (msg_of t))) in
      if st = DF_INIT then (s\<lparr>df_state := DF_POWEROFF\<rparr>, None)
      else if st = DF_FREQ5 \<and> f64_lt e (thres_5_to_4 s) then go DF_FREQ4 FREQ5to4
      else if st = DF_FREQ4 \<and> f64_lt e (thres_4_to_3 s) then go DF_FREQ3 FREQ4to3
      else if st = DF_FREQ3 \<and> f64_lt e (thres_3_to_2 s) then go DF_FREQ2 FREQ3to2
      else if st = DF_FREQ2 \<and> f64_lt e (thres_2_to_1 s) then go DF_FREQ1 FREQ2to1
      else if st = DF_FREQ4 \<and> f64_lt (thres_4_to_5 s) e then go DF_FREQ5 FREQ4to5
      else if st = DF_FREQ3 \<and> f64_lt (thres_3_to_4 s) e then go DF_FREQ4 FREQ3to4
      else if st = DF_FREQ2 \<and> f64_lt (thres_2_to_3 s) e then go DF_FREQ3 FREQ2to3
      else if st = DF_FREQ1 \<and> f64_lt (thres_1_to_2 s) e then go DF_FREQ2 FREQ1to2
      else if st = DF_FREQ1 \<and> f64_lt e (thres_1_to_retention s) then go DF_RETENTION RETENTION_BEG
      else if st = DF_RETENTION \<and> f64_lt (thres_retention_to_1 s) e then go DF_FREQ1 RETENTION_END
      else if st = DF_POWEROFF \<and> f64_lt (thres_off_to_1 s) e
      then (s\<lparr>dirty_patch := True, df_state := DF_FREQ1\<rparr>, Some (msg_of POWERON))
      else if st = DF_RETENTION \<and> f64_lt e (thres_retention_to_off s)
      then (s\<lparr>dirty_patch := False, df_state := DF_POWEROFF\<rparr>, Some (msg_of POWEROFF))
      else (s, None))"

section \<open>Following a machine by its messages\<close>

text \<open>What a message means to a listener: a partial function on the states it can see.\<close>

fun follow_all :: "('v \<Rightarrow> int \<Rightarrow> 'v option) \<Rightarrow> 'v \<Rightarrow> int list \<Rightarrow> 'v option" where
  "follow_all f v [] = Some v"
| "follow_all f v (m # ms) = (case f v m of None \<Rightarrow> None | Some v' \<Rightarrow> follow_all f v' ms)"

definition follow_power :: "power_state \<Rightarrow> int \<Rightarrow> power_state option" where
  "follow_power v m =
     (if v = PS_POWERON \<and> m = POWEROFF then Some PS_POWEROFF
      else if v = PS_POWEROFF \<and> m = POWERON then Some PS_POWERON else None)"

definition follow_dvfs :: "dvfs_state \<Rightarrow> int \<Rightarrow> dvfs_state option" where
  "follow_dvfs v m =
     (if m = POWEROFF \<and> v \<noteq> DV_OFF then Some DV_OFF
      else if m = DVFS_LOW \<and> v \<noteq> DV_LVL_LOW then Some DV_LVL_LOW
      else if m = DVFS_MIDDLE \<and> v \<noteq> DV_LVL_MIDDLE then Some DV_LVL_MIDDLE
      else if m = DVFS_HIGH \<and> v \<noteq> DV_LVL_HIGH then Some DV_LVL_HIGH else None)"

text \<open>The frequency machine moves along the ladder off, retention, 1 to 5.\<close>

definition follow_dfs :: "dfs_state \<Rightarrow> int \<Rightarrow> dfs_state option" where
  "follow_dfs v m =
     map_of [((DF_POWEROFF, POWERON), DF_FREQ1), ((DF_FREQ1, FREQ1to2), DF_FREQ2), ((DF_FREQ2, FREQ2to3), DF_FREQ3),
       ((DF_FREQ3, FREQ3to4), DF_FREQ4), ((DF_FREQ4, FREQ4to5), DF_FREQ5), ((DF_FREQ5, FREQ5to4), DF_FREQ4),
       ((DF_FREQ4, FREQ4to3), DF_FREQ3), ((DF_FREQ3, FREQ3to2), DF_FREQ2), ((DF_FREQ2, FREQ2to1), DF_FREQ1),
       ((DF_FREQ1, RETENTION_BEG), DF_RETENTION), ((DF_RETENTION, RETENTION_END), DF_FREQ1),
       ((DF_RETENTION, POWEROFF), DF_POWEROFF)] (v, m)"

text \<open>The contract of a machine: every change of the state it shows comes with the message that
  stands for it, and messages carry no energy.\<close>

locale energy_machine =
  fixes update :: "'s \<Rightarrow> f64 \<Rightarrow> 's \<times> energy_msg option" and started :: "'s \<Rightarrow> bool"
    and view :: "'s \<Rightarrow> 'v" and follow :: "'v \<Rightarrow> int \<Rightarrow> 'v option"
  assumes stays_started: "started s \<Longrightarrow> update s e = (s', r) \<Longrightarrow> started s'"
    and silent: "started s \<Longrightarrow> update s e = (s', None) \<Longrightarrow> view s' = view s"
    and speaks: "started s \<Longrightarrow> update s e = (s', Some m) \<Longrightarrow>
      msg_val m = 0 \<and> msg_type m \<noteq> CONSUMEENERGY \<and> follow (view s) (msg_type m) = Some (view s')"

interpretation simple_sm: energy_machine SimpleEnergySM_update "\<lambda>s. s \<noteq> PS_INIT" "\<lambda>s. s" follow_power
  by unfold_locales (auto simp: SimpleEnergySM_update_def follow_power_def split: if_splits)

interpretation two_thres_sm: energy_machine TwoThresSM_update "\<lambda>s. tt_state s \<noteq> PS_INIT" tt_state follow_power
  by unfold_locales (auto simp: TwoThresSM_update_def follow_power_def split: if_splits)

interpretation dvfs_sm: energy_machine DVFSSM_update "\<lambda>s. dv_state s \<noteq> DV_INIT" dv_state follow_dvfs
  by unfold_locales (auto simp: DVFSSM_update_def follow_dvfs_def split: if_splits)

interpretation dfs_sm: energy_machine DFS_LRY_update "\<lambda>s. df_state s \<noteq> DF_INIT" df_state follow_dfs
  by unfold_locales (auto simp: DFS_LRY_update_def follow_dfs_def Let_def split: if_splits)

section \<open>The flag and the ladder\<close>

text \<open>The global flag tells whether the power is on.\<close>

definition flag_ok :: "dfs \<Rightarrow> bool" where
  "flag_ok s \<longleftrightarrow> (dirty_patch s \<longleftrightarrow> df_state s \<noteq> DF_INIT \<and> df_state s \<noteq> DF_POWEROFF)"

lemma flag_ok_update: "flag_ok s \<Longrightarrow> flag_ok (fst (DFS_LRY_update s e))"
  by (auto simp: flag_ok_def DFS_LRY_update_def Let_def)

fun dfs_rank :: "dfs_state \<Rightarrow> nat" where
  "dfs_rank DF_INIT = 0"
| "dfs_rank DF_POWEROFF = 0"
| "dfs_rank DF_RETENTION = 1"
| "dfs_rank DF_FREQ1 = 2"
| "dfs_rank DF_FREQ2 = 3"
| "dfs_rank DF_FREQ3 = 4"
| "dfs_rank DF_FREQ4 = 5"
| "dfs_rank DF_FREQ5 = 6"

text \<open>Thresholds with hysteresis: a step up is not undone at the level of energy that took it.\<close>

definition hysteresis :: "dfs \<Rightarrow> bool" where
  "hysteresis s \<longleftrightarrow> \<not> f64_lt (thres_4_to_5 s) (thres_5_to_4 s) \<and> \<not> f64_lt (thres_3_to_4 s) (thres_4_to_3 s) \<and>
     \<not> f64_lt (thres_2_to_3 s) (thres_3_to_2 s) \<and> \<not> f64_lt (thres_1_to_2 s) (thres_2_to_1 s) \<and>
     \<not> f64_lt (thres_retention_to_1 s) (thres_1_to_retention s) \<and> \<not> f64_lt (thres_off_to_1 s) (thres_1_to_retention s) \<and>
     \<not> f64_lt (thres_off_to_1 s) (thres_retention_to_off s)"

definition dfs_next :: "f64 \<Rightarrow> dfs \<Rightarrow> dfs" where
  "dfs_next e s = fst (DFS_LRY_update s e)"

lemma hysteresis_next: "hysteresis s \<Longrightarrow> hysteresis (dfs_next e s)"
  by (simp add: dfs_next_def DFS_LRY_update_def Let_def hysteresis_def)

lemma dfs_silent: "df_state s \<noteq> DF_INIT \<Longrightarrow> df_state (dfs_next e s) = df_state s \<Longrightarrow> DFS_LRY_update s e = (s, None)"
  by (auto simp: dfs_next_def DFS_LRY_update_def Let_def split: if_splits)

lemma hysteresisD:
  assumes "hysteresis s"
  shows "f64_lt (thres_4_to_5 s) e \<Longrightarrow> \<not> f64_lt e (thres_5_to_4 s)" "f64_lt (thres_3_to_4 s) e \<Longrightarrow> \<not> f64_lt e (thres_4_to_3 s)"
    "f64_lt (thres_2_to_3 s) e \<Longrightarrow> \<not> f64_lt e (thres_3_to_2 s)" "f64_lt (thres_1_to_2 s) e \<Longrightarrow> \<not> f64_lt e (thres_2_to_1 s)"
    "f64_lt (thres_retention_to_1 s) e \<Longrightarrow> \<not> f64_lt e (thres_1_to_retention s)"
    "f64_lt (thres_off_to_1 s) e \<Longrightarrow> \<not> f64_lt e (thres_1_to_retention s)"
    "f64_lt (thres_off_to_1 s) e \<Longrightarrow> \<not> f64_lt e (thres_retention_to_off s)"
  using assms f64_lt_trans unfolding hysteresis_def by blast+

text \<open>Which moves there are.\<close>

definition moves_up :: "f64 \<Rightarrow> dfs \<Rightarrow> bool" where
  "moves_up e s \<longleftrightarrow> dfs_rank (df_state s) < dfs_rank (df_state (dfs_next e s))"

definition moves_down :: "f64 \<Rightarrow> dfs \<Rightarrow> bool" where
  "moves_down e s \<longleftrightarrow> dfs_rank (df_state (dfs_next e s)) < dfs_rank (df_state s)"

lemma dfs_moves:
  assumes "df_state s \<noteq> DF_INIT"
  shows "DFS_LRY_update s e = (s, None) \<or> moves_up e s \<or> moves_down e s"
  using assms by (auto simp: moves_up_def moves_down_def dfs_next_def DFS_LRY_update_def Let_def)

lemma up_goes_on:
  assumes "hysteresis s" "df_state s \<noteq> DF_INIT" "moves_up e s"
  shows "\<not> moves_down e (dfs_next e s)"
  using assms(2,3) hysteresisD [OF assms(1), of e]
  by (cases "df_state s") (simp_all add: moves_up_def moves_down_def dfs_next_def DFS_LRY_update_def split: if_splits)

lemma down_goes_on:
  assumes "hysteresis s" "df_state s \<noteq> DF_INIT" "moves_down e s"
  shows "\<not> moves_up e (dfs_next e s)"
  using assms(2,3) hysteresisD [OF assms(1), of e]
  by (cases "df_state s") (simp_all add: moves_up_def moves_down_def dfs_next_def DFS_LRY_update_def split: if_splits, blast+)

text \<open>From a state reached by moving up, at most as many moves follow as ranks are left above it,
  and likewise below it.\<close>

definition settled :: "f64 \<Rightarrow> dfs \<Rightarrow> bool" where
  "settled e s \<longleftrightarrow> DFS_LRY_update s e = (s, None)"

lemma next_started: "df_state s \<noteq> DF_INIT \<Longrightarrow> df_state (dfs_next e s) \<noteq> DF_INIT"
  by (simp add: dfs_next_def DFS_LRY_update_def Let_def)

lemma settled_next: "settled e s \<Longrightarrow> dfs_next e s = s"
  by (simp add: settled_def dfs_next_def)

lemma settled_stays: "settled e s \<Longrightarrow> settled e ((dfs_next e ^^ n) s)"
  by (induction n) (simp_all add: settled_next)

lemma rank_bound: "dfs_rank st \<le> 6"
  by (cases st) simp_all

lemma climb_settles:
  assumes "hysteresis s" "df_state s \<noteq> DF_INIT" "\<not> moves_down e s" "6 \<le> dfs_rank (df_state s) + n"
  shows "settled e ((dfs_next e ^^ n) s)"
  using assms
proof (induction n arbitrary: s)
  case 0
  then have "\<not> moves_up e s" using rank_bound [of "df_state (dfs_next e s)"] by (simp add: moves_up_def)
  then show ?case using dfs_moves [OF 0(2), of e] 0(3) by (simp add: settled_def)
next
  case (Suc n)
  show ?case
  proof (cases "moves_up e s")
    case True
    then have "6 \<le> dfs_rank (df_state (dfs_next e s)) + n" using Suc.prems(4) by (simp add: moves_up_def)
    then show ?thesis
      using Suc.IH [OF hysteresis_next [OF Suc.prems(1)] next_started [OF Suc.prems(2)] up_goes_on [OF Suc.prems(1,2) True]]
      by (simp add: funpow_swap1)
  next
    case False
    then have "settled e s" using dfs_moves [OF Suc.prems(2), of e] Suc.prems(3) by (simp add: settled_def)
    then show ?thesis by (rule settled_stays)
  qed
qed

lemma descent_settles:
  assumes "hysteresis s" "df_state s \<noteq> DF_INIT" "\<not> moves_up e s" "dfs_rank (df_state s) \<le> n"
  shows "settled e ((dfs_next e ^^ n) s)"
  using assms
proof (induction n arbitrary: s)
  case 0
  then have "\<not> moves_down e s" by (simp add: moves_down_def)
  then show ?case using dfs_moves [OF 0(2), of e] 0(3) by (simp add: settled_def)
next
  case (Suc n)
  show ?case
  proof (cases "moves_down e s")
    case True
    then have "dfs_rank (df_state (dfs_next e s)) \<le> n" using Suc.prems(4) by (simp add: moves_down_def)
    then show ?thesis
      using Suc.IH [OF hysteresis_next [OF Suc.prems(1)] next_started [OF Suc.prems(2)] down_goes_on [OF Suc.prems(1,2) True]]
      by (simp add: funpow_swap1)
  next
    case False
    then have "settled e s" using dfs_moves [OF Suc.prems(2), of e] Suc.prems(3) by (simp add: settled_def)
    then show ?thesis by (rule settled_stays)
  qed
qed

text \<open>C24: the frequency machine, with thresholds that leave a gap between a step up and the step
  back, settles: told the same level of energy again and again, it is after at most six updates in
  a state it does not leave, and the messages it sent on the way lead there.\<close>

theorem dfs_settles:
  assumes "hysteresis s" and "df_state s \<noteq> DF_INIT"
  shows "\<exists>t. (dfs_next e ^^ 6) s = t \<and> DFS_LRY_update t e = (t, None) \<and> (\<forall>n. (dfs_next e ^^ (6 + n)) s = t)"
proof -
  have "settled e ((dfs_next e ^^ 6) s)"
  proof (cases "moves_down e s")
    case True
    then show ?thesis using descent_settles [OF assms, of e 6] rank_bound [of "df_state s"] by (auto simp: moves_up_def moves_down_def)
  next
    case False
    then show ?thesis using climb_settles [OF assms, of e 6] by simp
  qed
  moreover have "(dfs_next e ^^ (6 + n)) s = (dfs_next e ^^ n) ((dfs_next e ^^ 6) s)" for n
    by (simp add: add.commute [of 6] funpow_add)
  moreover have "(dfs_next e ^^ n) u = u" if "settled e u" for n u
    using that by (induction n) (simp_all add: settled_next)
  ultimately show ?thesis by (simp add: settled_def)
qed

text \<open>A machine that is off, with one threshold for each pair of neighbours, told 9.\<close>

theorem dfs_settles_witness:
  "\<exists>s. hysteresis s \<and> df_state s = DF_POWEROFF \<and> (\<exists>t. (dfs_next (f64_of_nat 9) ^^ 6) s = t \<and> DFS_LRY_update t (f64_of_nat 9) = (t, None))"
proof -
  define s where "s = \<lparr>df_state = DF_POWEROFF, dirty_patch = False, thres_5_to_4 = f64_of_nat 10, thres_4_to_3 = f64_of_nat 8, thres_3_to_2 = f64_of_nat 6,
     thres_2_to_1 = f64_of_nat 4, thres_1_to_retention = f64_of_nat 2, thres_retention_to_off = f64_of_nat 2, thres_off_to_1 = f64_of_nat 2,
     thres_retention_to_1 = f64_of_nat 2, thres_1_to_2 = f64_of_nat 4, thres_2_to_3 = f64_of_nat 6, thres_3_to_4 = f64_of_nat 8, thres_4_to_5 = f64_of_nat 10\<rparr>"
  have h: "hysteresis s" "df_state s = DF_POWEROFF" by (simp_all add: hysteresis_def s_def)
  then have "df_state s \<noteq> DF_INIT" by simp
  from dfs_settles [OF h(1) this, of "f64_of_nat 9"] show ?thesis using h by auto
qed

end
