(* ===== verification/Energy.thy ===== *)
theory Energy imports Energy_SM Clocked begin

text \<open>
  Energy management (engy/energy_mgmt.cc, energy_port.cc, energy_object.cc): a manager owns a
  state machine and broadcasts its messages, one per event, to the objects bound to its master
  port; objects report what they consume through their slave ports.  The CPU is the one of
  cpu/simple/atomic_2_thres.cc, which stops and restarts its tick event.  The system is generic
  in the state machine.  Its events are the manager's and the CPU's; when neither is left,
  simulation stays at its exit event.
\<close>

section \<open>Ports\<close>

datatype port_type = NOT_DECIDED | MASTERPORT | SLAVEPORT

text \<open>Objects are numbers; every object has one master port and one slave port.\<close>

record ports =
  slave_list :: "nat \<Rightarrow> nat list"
  port_master :: "nat \<Rightarrow> nat option"

definition ports_new :: ports where
  "ports_new = \<lparr>slave_list = (\<lambda>_. []), port_master = (\<lambda>_. None)\<rparr>"

definition setMaster :: "nat \<Rightarrow> nat \<Rightarrow> ports \<Rightarrow> ports" where
  "setMaster slave mstr p = p\<lparr>port_master := (port_master p)(slave \<mapsto> mstr)\<rparr>"

definition bindSlave :: "nat \<Rightarrow> nat \<Rightarrow> ports \<Rightarrow> ports" where
  "bindSlave mstr slave p =
     setMaster slave mstr (p\<lparr>slave_list := (slave_list p)(mstr := slave_list p mstr @ [slave])\<rparr>)"

definition connectEnergyPorts :: "nat \<Rightarrow> nat \<Rightarrow> ports \<Rightarrow> ports" where
  "connectEnergyPorts o1 o2 p = bindSlave o1 o2 p"

text \<open>\<open>broadcastMsg\<close> asks every slave's owner, in order; \<open>handle\<close> is the virtual \<open>handleMsg\<close>.\<close>

fun broadcast_loop :: "(nat \<Rightarrow> energy_msg \<Rightarrow> 'w \<Rightarrow> ('w \<times> int) res) \<Rightarrow> nat list \<Rightarrow> energy_msg \<Rightarrow> int \<Rightarrow> 'w \<Rightarrow> ('w \<times> int) res" where
  "broadcast_loop handle [] msg rlt w = Inr (w, rlt)"
| "broadcast_loop handle (i # is) msg rlt w =
     bindR (handle i msg w) (\<lambda>(w', r). broadcast_loop handle is msg (if r = 0 then 0 else rlt) w')"

definition master_broadcastMsg :: "(nat \<Rightarrow> energy_msg \<Rightarrow> 'w \<Rightarrow> ('w \<times> int) res) \<Rightarrow> nat list \<Rightarrow> energy_msg \<Rightarrow> 'w \<Rightarrow> ('w \<times> int) res" where
  "master_broadcastMsg handle slaves msg w = broadcast_loop handle slaves msg (if length slaves = 0 then 0 else 1) w"

definition signalMsg :: "(nat \<Rightarrow> energy_msg \<Rightarrow> 'w \<Rightarrow> ('w \<times> int) res) \<Rightarrow> nat option \<Rightarrow> energy_msg \<Rightarrow> 'w \<Rightarrow> ('w \<times> int) res" where
  "signalMsg handle mstr msg w = (case mstr of None \<Rightarrow> Inr (w, 0) | Some i \<Rightarrow> handle i msg w)"

definition object_consumeEnergy :: "(nat \<Rightarrow> energy_msg \<Rightarrow> 'w \<Rightarrow> ('w \<times> int) res) \<Rightarrow> nat option \<Rightarrow> f64 \<Rightarrow> 'w \<Rightarrow> ('w \<times> int) res" where
  "object_consumeEnergy handle mstr energy w =
     bindR (signalMsg handle mstr \<lparr>msg_type = 0, msg_val = energy\<rparr> w) (\<lambda>(w', _). Inr (w', 1))"

section \<open>Objects\<close>

datatype object = MgmtObj | CpuObj | DeviceObj | OtherObj

datatype energy_ev = MsgEvent | TickEvent

record gated_cpu =
  gc_period :: tick
  gc_in_interrupt :: bool
  gc_idle :: bool
  gc_total_lat :: tick
  lat_poweron :: tick

text \<open>The system; \<open>es_linked\<close> tells that the machine knows its manager.\<close>

record 's esystem =
  es_queue :: "energy_ev eventq"
  msg_togo :: "energy_msg list"
  es_machine :: 's
  es_linked :: bool
  es_cpu :: gated_cpu
  es_ports :: ports
  es_objects :: "nat \<Rightarrow> object"

text \<open>\<open>EnergyMgmt::consumeEnergy\<close> ignores the amount.\<close>

definition mgmt_consumeEnergy :: "f64 \<Rightarrow> 's esystem \<Rightarrow> ('s esystem \<times> int) res" where
  "mgmt_consumeEnergy val s = Inr (s, 1)"

definition mgmt_handleMsg :: "energy_msg \<Rightarrow> 's esystem \<Rightarrow> ('s esystem \<times> int) res" where
  "mgmt_handleMsg msg s = (if msg_type msg \<noteq> CONSUMEENERGY then Inr (s, 0) else mgmt_consumeEnergy (msg_val msg) s)"

definition VirtualDevice_handleMsg :: "energy_msg \<Rightarrow> 's esystem \<Rightarrow> ('s esystem \<times> int) res" where
  "VirtualDevice_handleMsg msg s = Inr (s, 0)"

definition EnergyObject_handleMsg :: "energy_msg \<Rightarrow> 's esystem \<Rightarrow> ('s esystem \<times> int) res" where
  "EnergyObject_handleMsg msg s = Inr (s, 1)"

text \<open>The CPU's handler, given how it reports energy.  No header declares the CPU's
  \<open>energy_consumed_per_cycle\<close>, so what it makes of a number of cycles is a parameter.\<close>

definition cpu_handleMsg :: "(tick \<Rightarrow> f64) \<Rightarrow> (f64 \<Rightarrow> 's esystem \<Rightarrow> ('s esystem \<times> int) res) \<Rightarrow> energy_msg \<Rightarrow> 's esystem \<Rightarrow> ('s esystem \<times> int) res" where
  "cpu_handleMsg amount consume msg s =
     (let c = es_cpu s; q = es_queue s in
      if msg_type msg = POWEROFF then
        bindR (guardR (gc_in_interrupt c \<longrightarrow> gc_period c \<noteq> 0) Undefined) (\<lambda>_.
        let lat = ewhen (evs q TickEvent) - curTick q;
            c' = c\<lparr>lat_poweron := if gc_in_interrupt c then lat + gc_period c - lat mod gc_period c else 0\<rparr> in
        bindR (deschedule TickEvent q) (\<lambda>q'. Inr (s\<lparr>es_cpu := c', es_queue := q'\<rparr>, 1)))
      else if msg_type msg = POWERON then
        bindR (divCeil (lat_poweron c + gc_total_lat c) (gc_period c)) (\<lambda>cycles.
        bindR (consume (amount cycles) s) (\<lambda>(s1, _).
        bindR (schedule TickEvent (curTick (es_queue s1) + lat_poweron (es_cpu s1) + gc_total_lat (es_cpu s1)) (es_queue s1)) (\<lambda>q'.
        Inr (s1\<lparr>es_queue := q'\<rparr>, 1))))
      else Inr (s, 0))"

text \<open>\<open>handleMsg\<close> of any object, given how a CPU reports energy.  A report is a message itself,
  but no object answers a report by another one, so two levels are enough.\<close>

definition handle_with :: "(tick \<Rightarrow> f64) \<Rightarrow> (nat \<Rightarrow> f64 \<Rightarrow> 's esystem \<Rightarrow> ('s esystem \<times> int) res) \<Rightarrow> nat \<Rightarrow> energy_msg \<Rightarrow> 's esystem \<Rightarrow> ('s esystem \<times> int) res" where
  "handle_with amount consume i msg s =
     (case es_objects s i of
        MgmtObj \<Rightarrow> mgmt_handleMsg msg s
      | DeviceObj \<Rightarrow> VirtualDevice_handleMsg msg s
      | OtherObj \<Rightarrow> EnergyObject_handleMsg msg s
      | CpuObj \<Rightarrow> cpu_handleMsg amount (consume i) msg s)"

definition handle_report :: "(tick \<Rightarrow> f64) \<Rightarrow> nat \<Rightarrow> energy_msg \<Rightarrow> 's esystem \<Rightarrow> ('s esystem \<times> int) res" where
  "handle_report amount = handle_with amount (\<lambda>_ _ _. Inl Undefined)"

definition consumeEnergy :: "(tick \<Rightarrow> f64) \<Rightarrow> nat \<Rightarrow> f64 \<Rightarrow> 's esystem \<Rightarrow> ('s esystem \<times> int) res" where
  "consumeEnergy amount i energy s = object_consumeEnergy (handle_report amount) (port_master (es_ports s) i) energy s"

definition handleMsg :: "(tick \<Rightarrow> f64) \<Rightarrow> nat \<Rightarrow> energy_msg \<Rightarrow> 's esystem \<Rightarrow> ('s esystem \<times> int) res" where
  "handleMsg amount = handle_with amount (consumeEnergy amount)"

section \<open>The manager\<close>

definition mgmt_broadcastMsg :: "(tick \<Rightarrow> f64) \<Rightarrow> nat \<Rightarrow> 's esystem \<Rightarrow> 's esystem res" where
  "mgmt_broadcastMsg amount mgmt s =
     (case msg_togo s of
        [] \<Rightarrow> Inl Undefined
      | msg # _ \<Rightarrow>
          bindR (master_broadcastMsg (handleMsg amount) (slave_list (es_ports s) mgmt) msg s) (\<lambda>(s1, _).
          let s2 = s1\<lparr>msg_togo := tl (msg_togo s1)\<rparr> in
          if msg_togo s2 \<noteq> []
          then bindR (schedule MsgEvent (curTick (es_queue s2)) (es_queue s2)) (\<lambda>q. Inr (s2\<lparr>es_queue := q\<rparr>))
          else Inr s2))"

definition broadcastMsgAsEvent :: "energy_msg \<Rightarrow> 's esystem \<Rightarrow> 's esystem res" where
  "broadcastMsgAsEvent msg s =
     (let s1 = s\<lparr>msg_togo := msg_togo s @ [msg]\<rparr> in
      if length (msg_togo s1) = 1
      then bindR (schedule MsgEvent (curTick (es_queue s1)) (es_queue s1)) (\<lambda>q. Inr (s1\<lparr>es_queue := q\<rparr>))
      else Inr s1)"

text \<open>\<open>BaseEnergySM::broadcastMsg\<close> goes through the machine's pointer to its manager.\<close>

definition machine_broadcastMsg :: "energy_msg option \<Rightarrow> 's esystem \<Rightarrow> 's esystem res" where
  "machine_broadcastMsg r s =
     (case r of None \<Rightarrow> Inr s
      | Some msg \<Rightarrow> bindR (guardR (es_linked s) Undefined) (\<lambda>_. broadcastMsgAsEvent msg s))"

definition machine_step :: "('s \<Rightarrow> 's \<times> energy_msg option) \<Rightarrow> 's esystem \<Rightarrow> 's esystem res" where
  "machine_step f s = (let (m, r) = f (es_machine s) in machine_broadcastMsg r (s\<lparr>es_machine := m\<rparr>))"

definition mgmt_init :: "('s \<Rightarrow> f64 \<Rightarrow> 's \<times> energy_msg option) \<Rightarrow> 's esystem \<Rightarrow> 's esystem res" where
  "mgmt_init update s = machine_step (\<lambda>m. update m (f64_of_nat 100)) (s\<lparr>es_linked := True\<rparr>)"

section \<open>The CPU's tick and the simulation loop\<close>

text \<open>A tick with the latency of its instructions and whether they left the CPU idle.\<close>

definition gated_tick :: "(tick \<Rightarrow> f64) \<Rightarrow> nat \<Rightarrow> tick \<Rightarrow> bool \<Rightarrow> 's esystem \<Rightarrow> 's esystem res" where
  "gated_tick amount i latency idle s =
     (let s1 = s\<lparr>es_cpu := (es_cpu s)\<lparr>gc_in_interrupt := False, gc_idle := idle\<rparr>\<rparr>;
          lat = (if latency < gc_period (es_cpu s1) then gc_period (es_cpu s1) else latency) in
      bindR (divCeil lat (gc_period (es_cpu s1))) (\<lambda>cycles.
      bindR (consumeEnergy amount i (amount cycles) s1) (\<lambda>(s2, _).
      if gc_idle (es_cpu s2) then Inr s2
      else bindR (schedule TickEvent (curTick (es_queue s2) + lat) (es_queue s2)) (\<lambda>q. Inr (s2\<lparr>es_queue := q\<rparr>)))))"

datatype energy_act = Update f64 | Serve tick | Interrupt

text \<open>One action: the machine is told a level of energy, an interrupt of a device sets the
  CPU's flag, or the next event is served.\<close>

definition energy_step :: "('s \<Rightarrow> f64 \<Rightarrow> 's \<times> energy_msg option) \<Rightarrow> (tick \<Rightarrow> f64) \<Rightarrow> nat \<Rightarrow> nat \<Rightarrow> energy_act \<Rightarrow> 's esystem \<Rightarrow> 's esystem res" where
  "energy_step update amount mgmt cpu a s =
     (case a of
        Update e \<Rightarrow> machine_step (\<lambda>m. update m e) s
      | Interrupt \<Rightarrow> Inr (s\<lparr>es_cpu := (es_cpu s)\<lparr>gc_in_interrupt := True\<rparr>\<rparr>)
      | Serve latency \<Rightarrow>
          if bins (es_queue s) = [] then Inr s
          else bindR (serviceOne (es_queue s)) (\<lambda>(e, process, q).
            let s1 = s\<lparr>es_queue := q\<rparr> in
            if \<not> process then Inr s1
            else case e of MsgEvent \<Rightarrow> mgmt_broadcastMsg amount mgmt s1
                         | TickEvent \<Rightarrow> gated_tick amount cpu latency False s1))"

definition energy_run :: "('s \<Rightarrow> f64 \<Rightarrow> 's \<times> energy_msg option) \<Rightarrow> (tick \<Rightarrow> f64) \<Rightarrow> nat \<Rightarrow> nat \<Rightarrow> energy_act list \<Rightarrow> 's esystem \<Rightarrow> 's esystem res" where
  "energy_run update amount mgmt cpu = forR (energy_step update amount mgmt cpu)"

section \<open>Reports change nothing\<close>

lemma report_ok: "\<exists>r. handle_report amount i \<lparr>msg_type = 0, msg_val = e\<rparr> s = Inr (s, r)"
  by (auto simp: handle_report_def handle_with_def mgmt_handleMsg_def mgmt_consumeEnergy_def VirtualDevice_handleMsg_def
      EnergyObject_handleMsg_def cpu_handleMsg_def split: object.splits)

lemma consumeEnergy_ok [simp]: "consumeEnergy amount i e s = Inr (s, 1)"
proof (cases "port_master (es_ports s) i")
  case None
  then show ?thesis by (simp add: consumeEnergy_def object_consumeEnergy_def signalMsg_def)
next
  case (Some j)
  obtain r where "handle_report amount j \<lparr>msg_type = 0, msg_val = e\<rparr> s = Inr (s, r)" using report_ok by blast
  then show ?thesis using Some by (simp add: consumeEnergy_def object_consumeEnergy_def signalMsg_def)
qed

section \<open>The invariant\<close>

text \<open>\<open>power_on\<close> is what the CPU has made of the messages it got.  The messages still to be sent
  take it to the machine's state; the tick event is scheduled exactly while the power is on; the
  manager's event is scheduled, at the current time, exactly while messages wait.  \<open>es_horizon\<close>
  bounds the time the CPU can next be busy until.\<close>

definition power_of :: "'s esystem \<Rightarrow> power_state" where
  "power_of s = (if escheduled (evs (es_queue s) TickEvent) then PS_POWERON else PS_POWEROFF)"

definition es_horizon :: "'s esystem \<Rightarrow> nat" where
  "es_horizon s =
     (if escheduled (evs (es_queue s) TickEvent) then unat (ewhen (evs (es_queue s) TickEvent))
      else unat (curTick (es_queue s)) + unat (lat_poweron (es_cpu s)))"

definition max_step :: nat where "max_step = 2 ^ 32"

definition energy_ok :: "('s \<Rightarrow> bool) \<Rightarrow> ('s \<Rightarrow> power_state) \<Rightarrow> nat \<Rightarrow> nat \<Rightarrow> 's esystem \<Rightarrow> bool" where
  "energy_ok started view mgmt cpu s \<longleftrightarrow>
     started (es_machine s) \<and> es_linked s \<and> q_ok (es_queue s) \<and>
     (\<forall>e. \<not> esquashed (evs (es_queue s) e)) \<and>
     (escheduled (evs (es_queue s) MsgEvent) \<longleftrightarrow> msg_togo s \<noteq> []) \<and>
     (msg_togo s \<noteq> [] \<longrightarrow> ewhen (evs (es_queue s) MsgEvent) = curTick (es_queue s)) \<and>
     follow_all follow_power (power_of s) (List.map msg_type (msg_togo s)) = Some (view (es_machine s)) \<and>
     es_objects s cpu = CpuObj \<and> (\<forall>i. es_objects s i = CpuObj \<longrightarrow> i = cpu) \<and>
     cpu \<in> set (slave_list (es_ports s) mgmt) \<and> distinct (slave_list (es_ports s) mgmt) \<and>
     0 < unat (gc_period (es_cpu s)) \<and> unat (gc_period (es_cpu s)) \<le> max_step \<and> unat (gc_total_lat (es_cpu s)) \<le> max_step \<and>
     \<not> gc_idle (es_cpu s)"

text \<open>Handling a message by the objects that are not the CPU.\<close>

lemma handle_other: "es_objects s i \<noteq> CpuObj \<Longrightarrow> \<exists>r. handleMsg amount i msg s = Inr (s, r)"
  by (cases "es_objects s i") (auto simp: handleMsg_def handle_with_def mgmt_handleMsg_def mgmt_consumeEnergy_def VirtualDevice_handleMsg_def
      EnergyObject_handleMsg_def)

lemma broadcast_others:
  assumes "\<forall>i\<in>set is. es_objects s i \<noteq> CpuObj"
  shows "\<exists>r. broadcast_loop (handleMsg amount) is msg rlt s = Inr (s, r)"
  using assms
proof (induction "is" arbitrary: rlt)
  case (Cons i "is")
  then show ?case using handle_other [of s i amount msg] by auto
qed simp

text \<open>A broadcast acts on the system as the CPU's handler does.\<close>

lemma broadcast_cpu:
  assumes "es_objects s cpu = CpuObj" "\<forall>i. es_objects s i = CpuObj \<longrightarrow> i = cpu"
    and "cpu \<in> set is" "distinct is" and "handleMsg amount cpu msg s = Inr (s', r)" "es_objects s' = es_objects s"
  shows "\<exists>r'. broadcast_loop (handleMsg amount) is msg rlt s = Inr (s', r')"
  using assms(3,4)
proof (induction "is" arbitrary: rlt)
  case (Cons i "is")
  show ?case
  proof (cases "i = cpu")
    case True
    then have "\<forall>j\<in>set is. es_objects s' j \<noteq> CpuObj" using Cons.prems assms(2,6) by auto
    then show ?thesis using True assms(5) broadcast_others by auto
  next
    case False
    then have "es_objects s i \<noteq> CpuObj" using assms(2) by blast
    then obtain x where "handleMsg amount i msg s = Inr (s, x)" using handle_other by blast
    then show ?thesis using Cons False by auto
  qed
qed simp

end
