(* ===== verification/Energy_Safe.thy ===== *)
theory Energy_Safe imports Energy begin

text \<open>
  The energy system is safe with every machine that announces its power changes: no event is
  scheduled twice or descheduled when it is not scheduled, no message is lost, and the CPU's
  tick is scheduled exactly while the last message it got left the power on.
\<close>

section \<open>The CPU's handler\<close>

lemma tick_in_future: "q_ok q \<Longrightarrow> escheduled (evs q e) \<Longrightarrow> curTick q \<le> ewhen (evs q e)"
  by (auto simp: q_ok_alt)

lemma cur_le_horizon: "q_ok (es_queue s) \<Longrightarrow> unat (curTick (es_queue s)) \<le> es_horizon s"
  using tick_in_future [of "es_queue s" TickEvent] by (simp add: es_horizon_def word_le_nat_alt)

definition descheduled :: "evstate \<Rightarrow> evstate" where
  "descheduled v = v\<lparr>escheduled := False, esquashed := False\<rparr>"

lemma descheduled_simps [simp]: "\<not> escheduled (descheduled v)" "\<not> esquashed (descheduled v)" "ewhen (descheduled v) = ewhen v"
  by (simp_all add: descheduled_def)

lemma scheduled_at_simps [simp]: "escheduled (scheduled_at w v)" "esquashed (scheduled_at w v) = esquashed v" "ewhen (scheduled_at w v) = w"
  by (simp_all add: scheduled_at_def)

lemma poweron_latency:
  fixes w c p :: tick
  assumes "c \<le> w" "unat w + unat p < 2 ^ 64" "p \<noteq> 0"
  shows "unat c + unat (w - c + p - (w - c) mod p) \<le> unat w + unat p"
proof -
  have d: "unat (w - c) = unat w - unat c" using assms(1) by (simp add: unat_sub)
  have le: "unat c \<le> unat w" using assms(1) by (simp add: word_le_nat_alt)
  have a: "unat (w - c + p) = unat (w - c) + unat p"
    by (rule unat_add_lem [THEN iffD1]) (use assms(2) d in simp)
  have "unat ((w - c) mod p) \<le> unat (w - c)" by (simp add: unat_mod)
  then have m: "(w - c) mod p \<le> w - c + p" using a by (simp add: word_le_nat_alt)
  then have "unat (w - c + p - (w - c) mod p) \<le> unat (w - c) + unat p" using a by (simp add: unat_sub)
  then show ?thesis using d le by linarith
qed

lemma handle_off:
  fixes s :: "'s esystem"
  assumes obj: "es_objects s cpu = CpuObj" and ok: "q_ok (es_queue s)" and sch: "escheduled (evs (es_queue s) TickEvent)"
    and per: "gc_period (es_cpu s) \<noteq> 0" and room: "unat (ewhen (evs (es_queue s) TickEvent)) + unat (gc_period (es_cpu s)) < 2 ^ 64"
    and msg: "msg_type msg = POWEROFF"
  shows "\<exists>q' l. handleMsg amount cpu msg s = Inr (s\<lparr>es_cpu := (es_cpu s)\<lparr>lat_poweron := l\<rparr>, es_queue := q'\<rparr>, 1) \<and>
     q_ok q' \<and> curTick q' = curTick (es_queue s) \<and>
     evs q' = (evs (es_queue s))(TickEvent := descheduled (evs (es_queue s) TickEvent)) \<and>
     unat (curTick (es_queue s)) + unat l \<le> unat (ewhen (evs (es_queue s) TickEvent)) + unat (gc_period (es_cpu s))"
proof -
  let ?q = "es_queue s" and ?c = "es_cpu s"
  let ?lat = "ewhen (evs ?q TickEvent) - curTick ?q"
  let ?l = "if gc_in_interrupt ?c then ?lat + gc_period ?c - ?lat mod gc_period ?c else 0"
  have le: "curTick ?q \<le> ewhen (evs ?q TickEvent)" by (rule tick_in_future [OF ok sch])
  have l: "unat (curTick ?q) + unat ?l \<le> unat (ewhen (evs ?q TickEvent)) + unat (gc_period ?c)"
    using poweron_latency [OF le room per] le by (simp add: word_le_nat_alt trans_le_add1)
  obtain q' where q': "deschedule TickEvent ?q = Inr q'" "q_ok q'" "curTick q' = curTick ?q"
      "evs q' = (evs ?q)(TickEvent := descheduled (evs ?q TickEvent))"
    using deschedule_ok [OF ok sch] unfolding descheduled_def by blast
  have "handleMsg amount cpu msg s = Inr (s\<lparr>es_cpu := ?c\<lparr>lat_poweron := ?l\<rparr>, es_queue := q'\<rparr>, 1)"
    using obj msg per q'(1) by (simp add: handleMsg_def handle_with_def cpu_handleMsg_def Let_def)
  then show ?thesis using q' l by blast
qed

lemma handle_on:
  fixes s :: "'s esystem"
  assumes obj: "es_objects s cpu = CpuObj" and ok: "q_ok (es_queue s)" and sch: "\<not> escheduled (evs (es_queue s) TickEvent)"
    and per: "gc_period (es_cpu s) \<noteq> 0"
    and room: "unat (curTick (es_queue s)) + unat (lat_poweron (es_cpu s)) + unat (gc_total_lat (es_cpu s)) < 2 ^ 64"
    and msg: "msg_type msg = POWERON"
  shows "\<exists>q' w. handleMsg amount cpu msg s = Inr (s\<lparr>es_queue := q'\<rparr>, 1) \<and> q_ok q' \<and> curTick q' = curTick (es_queue s) \<and>
     evs q' = (evs (es_queue s))(TickEvent := scheduled_at w (evs (es_queue s) TickEvent)) \<and>
     unat w = unat (curTick (es_queue s)) + unat (lat_poweron (es_cpu s)) + unat (gc_total_lat (es_cpu s))"
proof -
  let ?q = "es_queue s" and ?c = "es_cpu s"
  let ?w = "curTick ?q + lat_poweron ?c + gc_total_lat ?c"
  have a: "unat (curTick ?q + lat_poweron ?c) = unat (curTick ?q) + unat (lat_poweron ?c)"
    by (rule unat_add_lem [THEN iffD1]) (use room in simp)
  have w: "unat ?w = unat (curTick ?q) + unat (lat_poweron ?c) + unat (gc_total_lat ?c)"
    unfolding a [symmetric] by (rule unat_add_lem [THEN iffD1]) (use room a in simp)
  then have "curTick ?q \<le> ?w" by (simp add: word_le_nat_alt)
  then obtain q' where q': "schedule TickEvent ?w ?q = Inr q'" "q_ok q'" "curTick q' = curTick ?q"
      "evs q' = (evs ?q)(TickEvent := scheduled_at ?w (evs ?q TickEvent))"
    using schedule_ok [OF ok sch] by blast
  have "handleMsg amount cpu msg s = Inr (s\<lparr>es_queue := q'\<rparr>, 1)"
    using obj msg per q'(1) by (simp add: handleMsg_def handle_with_def cpu_handleMsg_def Let_def divCeil_def)
  then show ?thesis using q' w by blast
qed

text \<open>Both cases together: the CPU makes of a message what the listener makes of it.\<close>

lemma handle_follows:
  fixes s :: "'s esystem"
  assumes obj: "es_objects s cpu = CpuObj" and ok: "q_ok (es_queue s)" and per: "gc_period (es_cpu s) \<noteq> 0"
    and room: "es_horizon s + unat (gc_period (es_cpu s)) + unat (gc_total_lat (es_cpu s)) < 2 ^ 64"
    and sq: "\<forall>e. \<not> esquashed (evs (es_queue s) e)"
    and v: "follow_power (power_of s) (msg_type msg) = Some v"
  shows "\<exists>q' c'. handleMsg amount cpu msg s = Inr (s\<lparr>es_cpu := c', es_queue := q'\<rparr>, 1) \<and> q_ok q' \<and> curTick q' = curTick (es_queue s) \<and>
     evs q' MsgEvent = evs (es_queue s) MsgEvent \<and> (\<forall>e. \<not> esquashed (evs q' e)) \<and>
     gc_period c' = gc_period (es_cpu s) \<and> gc_total_lat c' = gc_total_lat (es_cpu s) \<and> gc_idle c' = gc_idle (es_cpu s) \<and>
     power_of (s\<lparr>es_cpu := c', es_queue := q'\<rparr>) = v \<and>
     es_horizon (s\<lparr>es_cpu := c', es_queue := q'\<rparr>) \<le> es_horizon s + unat (gc_period (es_cpu s)) + unat (gc_total_lat (es_cpu s))"
proof (cases "escheduled (evs (es_queue s) TickEvent)")
  case True
  then have m: "msg_type msg = POWEROFF" "v = PS_POWEROFF" using v by (auto simp: power_of_def follow_power_def split: if_splits)
  have "unat (ewhen (evs (es_queue s) TickEvent)) + unat (gc_period (es_cpu s)) < 2 ^ 64" using room True by (simp add: es_horizon_def)
  from handle_off [OF obj ok True per this m(1), of amount]
  obtain q' l where h: "handleMsg amount cpu msg s = Inr (s\<lparr>es_cpu := (es_cpu s)\<lparr>lat_poweron := l\<rparr>, es_queue := q'\<rparr>, 1)"
     "q_ok q'" "curTick q' = curTick (es_queue s)" "evs q' = (evs (es_queue s))(TickEvent := descheduled (evs (es_queue s) TickEvent))"
     "unat (curTick (es_queue s)) + unat l \<le> unat (ewhen (evs (es_queue s) TickEvent)) + unat (gc_period (es_cpu s))"
    by blast
  then show ?thesis using m sq True
    by (intro exI [of _ q'] exI [of _ "(es_cpu s)\<lparr>lat_poweron := l\<rparr>"]) (simp add: power_of_def es_horizon_def)
next
  case False
  then have m: "msg_type msg = POWERON" "v = PS_POWERON" using v by (auto simp: power_of_def follow_power_def split: if_splits)
  have "unat (curTick (es_queue s)) + unat (lat_poweron (es_cpu s)) + unat (gc_total_lat (es_cpu s)) < 2 ^ 64"
    using room False by (simp add: es_horizon_def)
  from handle_on [OF obj ok False per this m(1), of amount]
  obtain q' w where h: "handleMsg amount cpu msg s = Inr (s\<lparr>es_queue := q'\<rparr>, 1)"
     "q_ok q'" "curTick q' = curTick (es_queue s)" "evs q' = (evs (es_queue s))(TickEvent := scheduled_at w (evs (es_queue s) TickEvent))"
     "unat w = unat (curTick (es_queue s)) + unat (lat_poweron (es_cpu s)) + unat (gc_total_lat (es_cpu s))"
    by blast
  then show ?thesis using m sq False
    by (intro exI [of _ q'] exI [of _ "es_cpu s"]) (simp add: power_of_def es_horizon_def)
qed

section \<open>Every action keeps the invariant\<close>

lemma follow_all_append: "follow_all f v (xs @ ys) = (case follow_all f v xs of None \<Rightarrow> None | Some v' \<Rightarrow> follow_all f v' ys)"
  by (induction xs arbitrary: v) (auto split: option.splits)

lemma power_of_cong: "evs q TickEvent = evs (es_queue s) TickEvent \<Longrightarrow> power_of (s\<lparr>es_queue := q\<rparr>) = power_of s"
  by (simp add: power_of_def)

text \<open>Queueing a message that the machine's next state answers to.\<close>

lemma queue_message:
  fixes s :: "'s esystem"
  assumes ok: "energy_ok started view mgmt cpu s" and next_ok: "started m"
    and v: "follow_power (view (es_machine s)) (msg_type msg) = Some (view m)"
  shows "\<exists>s'. broadcastMsgAsEvent msg (s\<lparr>es_machine := m\<rparr>) = Inr s' \<and> energy_ok started view mgmt cpu s' \<and>
     es_horizon s' = es_horizon s \<and> es_machine s' = m \<and> msg_togo s' = msg_togo s @ [msg]"
proof -
  let ?q = "es_queue s"
  note I = ok [unfolded energy_ok_def]
  have f: "follow_all follow_power (power_of s) (List.map msg_type (msg_togo s @ [msg])) = Some (view m)"
    using I v by (simp add: follow_all_append)
  show ?thesis
  proof (cases "msg_togo s = []")
    case True
    obtain q' where q': "schedule MsgEvent (curTick ?q) ?q = Inr q'" "q_ok q'" "curTick q' = curTick ?q"
        "evs q' = (evs ?q)(MsgEvent := scheduled_at (curTick ?q) (evs ?q MsgEvent))"
      using schedule_ok [of ?q MsgEvent "curTick ?q"] I True by auto
    let ?s = "s\<lparr>es_machine := m, msg_togo := [msg], es_queue := q'\<rparr>"
    have "broadcastMsgAsEvent msg (s\<lparr>es_machine := m\<rparr>) = Inr ?s"
      using True q'(1) by (simp add: broadcastMsgAsEvent_def Let_def)
    moreover have "power_of ?s = power_of s" "es_horizon ?s = es_horizon s" using q' by (simp_all add: power_of_def es_horizon_def)
    ultimately show ?thesis using I f next_ok q' True by (auto simp: energy_ok_def)
  next
    case False
    let ?s = "s\<lparr>es_machine := m, msg_togo := msg_togo s @ [msg]\<rparr>"
    have "broadcastMsgAsEvent msg (s\<lparr>es_machine := m\<rparr>) = Inr ?s"
      using False by (cases "msg_togo s") (simp_all add: broadcastMsgAsEvent_def Let_def)
    moreover have "power_of ?s = power_of s" "es_horizon ?s = es_horizon s" by (simp_all add: power_of_def es_horizon_def)
    ultimately show ?thesis using I f next_ok False by (auto simp: energy_ok_def)
  qed
qed

text \<open>Serving the manager's event.\<close>

lemma serve_message:
  fixes s :: "'s esystem"
  assumes ok: "energy_ok started view mgmt cpu s" and head: "agenda (es_queue s) = MsgEvent # rest"
    and room: "es_horizon s + 2 * max_step < 2 ^ 64"
  shows "\<exists>s'. energy_step update amount mgmt cpu (Serve latency) s = Inr s' \<and> energy_ok started view mgmt cpu s' \<and>
     es_horizon s' \<le> es_horizon s + 2 * max_step \<and> es_machine s' = es_machine s \<and> msg_togo s' = tl (msg_togo s)"
proof -
  let ?q = "es_queue s"
  note I = ok [unfolded energy_ok_def]
  have q: "q_ok ?q" using I by simp
  obtain q1 where q1: "serviceOne ?q = Inr (MsgEvent, True, q1)" "q_ok q1"
      "curTick q1 = ewhen (evs ?q MsgEvent)" "evs q1 = (evs ?q)(MsgEvent := descheduled (evs ?q MsgEvent))"
    using serviceOne_ok [OF q head] I unfolding descheduled_def by auto
  have "escheduled (evs ?q MsgEvent)" using q head by (auto simp: q_ok_alt)
  then obtain msg ms where togo: "msg_togo s = msg # ms" using I by (cases "msg_togo s") auto
  have cur: "curTick q1 = curTick ?q" using I togo q1(3) by simp
  have ne: "bins ?q \<noteq> []" using head by (auto simp: agenda_def)
  let ?s1 = "s\<lparr>es_queue := q1\<rparr>"
  have p1: "power_of ?s1 = power_of s" "es_horizon ?s1 = es_horizon s" using q1(4) cur by (simp_all add: power_of_def es_horizon_def)
  obtain v where v: "follow_power (power_of ?s1) (msg_type msg) = Some v"
      "follow_all follow_power v (List.map msg_type ms) = Some (view (es_machine s))"
    using I togo p1 by (auto split: option.splits)
  have per: "gc_period (es_cpu ?s1) \<noteq> 0" using I by (auto simp: unat_gt_0)
  have room1: "es_horizon ?s1 + unat (gc_period (es_cpu ?s1)) + unat (gc_total_lat (es_cpu ?s1)) < 2 ^ 64"
    using I room p1 by (simp add: max_step_def)
  have obj: "es_objects ?s1 cpu = CpuObj" using I by simp
  have sq: "\<forall>e. \<not> esquashed (evs (es_queue ?s1) e)" using I q1(4) by simp
  have q1': "q_ok (es_queue ?s1)" using q1(2) by simp
  from handle_follows [OF obj q1' per room1 sq v(1), of amount]
  obtain q2 c2 where h: "handleMsg amount cpu msg ?s1 = Inr (s\<lparr>es_cpu := c2, es_queue := q2\<rparr>, 1)" "q_ok q2" "curTick q2 = curTick q1"
     "evs q2 MsgEvent = evs q1 MsgEvent" "\<forall>e. \<not> esquashed (evs q2 e)"
     "gc_period c2 = gc_period (es_cpu s)" "gc_total_lat c2 = gc_total_lat (es_cpu s)" "gc_idle c2 = gc_idle (es_cpu s)"
     "power_of (s\<lparr>es_cpu := c2, es_queue := q2\<rparr>) = v"
     "es_horizon (s\<lparr>es_cpu := c2, es_queue := q2\<rparr>) \<le> es_horizon s + unat (gc_period (es_cpu s)) + unat (gc_total_lat (es_cpu s))"
    using p1 by auto
  let ?s2 = "s\<lparr>es_cpu := c2, es_queue := q2\<rparr>"
  have "\<exists>r. broadcast_loop (handleMsg amount) (slave_list (es_ports ?s1) mgmt) msg rlt ?s1 = Inr (?s2, r)" for rlt
    by (rule broadcast_cpu [OF obj _ _ _ h(1)]) (use I in auto)
  then obtain r where b: "master_broadcastMsg (handleMsg amount) (slave_list (es_ports ?s1) mgmt) msg ?s1 = Inr (?s2, r)"
    unfolding master_broadcastMsg_def by blast
  have hor: "es_horizon ?s2 \<le> es_horizon s + 2 * max_step" using h(10) I by linarith
  show ?thesis
  proof (cases "ms = []")
    case True
    let ?s3 = "?s2\<lparr>msg_togo := []\<rparr>"
    have "mgmt_broadcastMsg amount mgmt ?s1 = Inr ?s3" using togo b True by (simp add: mgmt_broadcastMsg_def Let_def)
    then have "energy_step update amount mgmt cpu (Serve latency) s = Inr ?s3" using ne q1(1) by (simp add: energy_step_def Let_def)
    moreover have p3: "power_of ?s3 = v" "es_horizon ?s3 = es_horizon ?s2" using h(9) by (simp_all add: power_of_def es_horizon_def)
    moreover have "\<not> escheduled (evs q2 MsgEvent)" using h(4) q1(4) by simp
    then have "energy_ok started view mgmt cpu ?s3"
      unfolding energy_ok_def p3(1) using I h(2,5-8) v(2) True by simp
    ultimately show ?thesis using hor True togo by (intro exI [of _ ?s3]) simp
  next
    case False
    have "\<not> escheduled (evs q2 MsgEvent)" using h(4) q1(4) by simp
    then obtain q3 where q3: "schedule MsgEvent (curTick q2) q2 = Inr q3" "q_ok q3" "curTick q3 = curTick q2"
        "evs q3 = (evs q2)(MsgEvent := scheduled_at (curTick q2) (evs q2 MsgEvent))"
      using schedule_ok [OF h(2), of MsgEvent "curTick q2"] by auto
    let ?s3 = "?s2\<lparr>msg_togo := ms, es_queue := q3\<rparr>"
    have "mgmt_broadcastMsg amount mgmt ?s1 = Inr ?s3" using togo b False q3(1) by (simp add: mgmt_broadcastMsg_def Let_def)
    then have "energy_step update amount mgmt cpu (Serve latency) s = Inr ?s3" using ne q1(1) by (simp add: energy_step_def Let_def)
    moreover have p3: "power_of ?s3 = v" "es_horizon ?s3 = es_horizon ?s2" using h(9) q3(3,4) by (simp_all add: power_of_def es_horizon_def)
    have "\<forall>e. \<not> esquashed (evs q3 e)" using q3(4) h(5) by simp
    then have "energy_ok started view mgmt cpu ?s3"
      unfolding energy_ok_def p3(1) using I h(6-8) v(2) False q3(2-4) by simp
    ultimately show ?thesis using hor p3(2) False togo by (intro exI [of _ ?s3]) simp
  qed
qed

text \<open>Serving the CPU's tick.\<close>

lemma serve_tick:
  fixes s :: "'s esystem"
  assumes ok: "energy_ok started view mgmt cpu s" and head: "agenda (es_queue s) = TickEvent # rest"
    and room: "es_horizon s + max_step < 2 ^ 64" and lat: "unat latency \<le> max_step"
  shows "\<exists>s'. energy_step update amount mgmt cpu (Serve latency) s = Inr s' \<and> energy_ok started view mgmt cpu s' \<and>
     es_horizon s' \<le> es_horizon s + max_step \<and> es_machine s' = es_machine s \<and> msg_togo s' = msg_togo s"
proof -
  let ?q = "es_queue s"
  note I = ok [unfolded energy_ok_def]
  have q: "q_ok ?q" using I by simp
  obtain q1 where q1: "serviceOne ?q = Inr (TickEvent, True, q1)" "q_ok q1" "agenda q1 = rest"
      "curTick q1 = ewhen (evs ?q TickEvent)" "evs q1 = (evs ?q)(TickEvent := descheduled (evs ?q TickEvent))"
      "\<forall>x\<in>set rest. ekey (evs ?q) TickEvent \<le> ekey (evs ?q) x"
    using serviceOne_ok [OF q head] I unfolding descheduled_def by auto
  have sch: "escheduled (evs ?q TickEvent)" using q head by (auto simp: q_ok_alt)
  have le: "curTick ?q \<le> ewhen (evs ?q TickEvent)" by (rule tick_in_future [OF q sch])
  have same: "curTick q1 = curTick ?q" if "msg_togo s \<noteq> []"
  proof -
    have m: "escheduled (evs ?q MsgEvent)" "ewhen (evs ?q MsgEvent) = curTick ?q" using I that by auto
    then have "MsgEvent \<in> set rest" using q head by (auto simp: q_ok_alt)
    then have "ekey (evs ?q) TickEvent \<le> ekey (evs ?q) MsgEvent" using q1(6) by simp
    then have "ewhen (evs ?q TickEvent) \<le> curTick ?q" using key_when_le m(2) by metis
    then show ?thesis using le q1(4) by simp
  qed
  let ?c = "(es_cpu s)\<lparr>gc_in_interrupt := False, gc_idle := False\<rparr>"
  let ?lat = "if latency < gc_period (es_cpu s) then gc_period (es_cpu s) else latency"
  have ul: "unat ?lat \<le> max_step" using lat I by simp
  have cur: "unat (curTick q1) = es_horizon s" using q1(4) sch by (simp add: es_horizon_def)
  have w: "unat (curTick q1 + ?lat) = es_horizon s + unat ?lat"
    unfolding cur [symmetric] by (rule unat_add_lem [THEN iffD1]) (use room ul cur in simp)
  have fut: "curTick q1 \<le> curTick q1 + ?lat" using w cur by (simp add: word_le_nat_alt)
  have "\<not> escheduled (evs q1 TickEvent)" using q1(5) by simp
  then obtain q2 where q2: "schedule TickEvent (curTick q1 + ?lat) q1 = Inr q2" "q_ok q2" "curTick q2 = curTick q1"
      "evs q2 = (evs q1)(TickEvent := scheduled_at (curTick q1 + ?lat) (evs q1 TickEvent))"
    using schedule_ok [OF q1(2) _ fut] by blast
  have per: "gc_period (es_cpu s) \<noteq> 0" using I by (auto simp: unat_gt_0)
  let ?s = "s\<lparr>es_cpu := ?c, es_queue := q2\<rparr>"
  have ne: "bins ?q \<noteq> []" using head by (auto simp: agenda_def)
  have "gated_tick amount cpu latency False (s\<lparr>es_queue := q1\<rparr>) = Inr ?s"
    using per q2(1) by (auto simp: gated_tick_def Let_def divCeil_def split: if_splits)
  then have "energy_step update amount mgmt cpu (Serve latency) s = Inr ?s" using ne q1(1) by (simp add: energy_step_def Let_def)
  moreover have p: "power_of ?s = power_of s" using q2(4) sch by (simp add: power_of_def)
  have sq: "\<forall>e. \<not> esquashed (evs q2 e)" using I q2(4) q1(5) by simp
  have "energy_ok started view mgmt cpu ?s"
    unfolding energy_ok_def p using I q2(2-4) q1(5) same sq by simp
  moreover have "es_horizon ?s \<le> es_horizon s + max_step" using q2(4) w ul by (simp add: es_horizon_def)
  ultimately show ?thesis by (intro exI [of _ ?s]) simp
qed

text \<open>A bound on what the actions may ask for.\<close>

fun act_ok :: "energy_act \<Rightarrow> bool" where
  "act_ok (Serve latency) \<longleftrightarrow> unat latency \<le> max_step"
| "act_ok _ \<longleftrightarrow> True"

locale power_machine = energy_machine update started view follow_power
  for update :: "'s \<Rightarrow> f64 \<Rightarrow> 's \<times> energy_msg option" and started :: "'s \<Rightarrow> bool" and view :: "'s \<Rightarrow> power_state"
begin

lemma machine_ok:
  assumes ok: "energy_ok started view mgmt cpu s"
  shows "\<exists>s'. machine_step (\<lambda>m. update m e) s = Inr s' \<and> energy_ok started view mgmt cpu s' \<and> es_horizon s' = es_horizon s"
proof -
  have st: "started (es_machine s)" "es_linked s" using ok by (simp_all add: energy_ok_def)
  obtain m r where u: "update (es_machine s) e = (m, r)" by fastforce
  have m: "started m" using stays_started [OF st(1) u] .
  show ?thesis
  proof (cases r)
    case None
    then have "view m = view (es_machine s)" using silent [OF st(1)] u by simp
    then have "energy_ok started view mgmt cpu (s\<lparr>es_machine := m\<rparr>)" using ok m by (simp add: energy_ok_def power_of_def)
    then show ?thesis using u None by (simp add: machine_step_def machine_broadcastMsg_def es_horizon_def)
  next
    case (Some msg)
    then have v: "follow_power (view (es_machine s)) (msg_type msg) = Some (view m)" using speaks [OF st(1)] u by blast
    obtain s' where "broadcastMsgAsEvent msg (s\<lparr>es_machine := m\<rparr>) = Inr s'" "energy_ok started view mgmt cpu s'" "es_horizon s' = es_horizon s"
      using queue_message [OF ok m v] by blast
    then show ?thesis using u Some st(2) by (simp add: machine_step_def machine_broadcastMsg_def)
  qed
qed

lemma power_step_ok:
  assumes ok: "energy_ok started view mgmt cpu s" and room: "es_horizon s + 2 * max_step < 2 ^ 64" and a: "act_ok a"
  shows "\<exists>s'. energy_step update amount mgmt cpu a s = Inr s' \<and> energy_ok started view mgmt cpu s' \<and> es_horizon s' \<le> es_horizon s + 2 * max_step"
proof (cases a)
  case (Update e)
  then show ?thesis using machine_ok [OF ok, of e] by (auto simp: energy_step_def)
next
  case Interrupt
  let ?s = "s\<lparr>es_cpu := (es_cpu s)\<lparr>gc_in_interrupt := True\<rparr>\<rparr>"
  have "power_of ?s = power_of s" by (simp add: power_of_def)
  then have "energy_ok started view mgmt cpu ?s" using ok unfolding energy_ok_def by simp
  then show ?thesis using Interrupt by (simp add: energy_step_def es_horizon_def)
next
  case (Serve latency)
  show ?thesis
  proof (cases "agenda (es_queue s)")
    case Nil
    have "bins (es_queue s) = []"
    proof (cases "bins (es_queue s)")
      case (Cons b bs)
      then have "b \<noteq> []" using ok bin_ok_ne by (auto simp: energy_ok_def q_ok_alt)
      then show ?thesis using Nil Cons by (simp add: agenda_def)
    qed
    then show ?thesis using Serve ok by (simp add: energy_step_def)
  next
    case (Cons x rest)
    show ?thesis
    proof (cases x)
      case MsgEvent
      then show ?thesis using serve_message [OF ok, of rest] Cons room Serve by blast
    next
      case TickEvent
      obtain s' where "energy_step update amount mgmt cpu (Serve latency) s = Inr s'" "energy_ok started view mgmt cpu s'"
          "es_horizon s' \<le> es_horizon s + max_step"
        using serve_tick [OF ok, of rest latency update amount] Cons TickEvent room a Serve by auto
      then show ?thesis using Serve by auto
    qed
  qed
qed

lemma power_run_ok:
  assumes "energy_ok started view mgmt cpu s" and "es_horizon s + 2 * max_step * length as < 2 ^ 64" and "\<forall>a\<in>set as. act_ok a"
  shows "\<exists>s'. energy_run update amount mgmt cpu as s = Inr s' \<and> energy_ok started view mgmt cpu s' \<and>
    es_horizon s' \<le> es_horizon s + 2 * max_step * length as"
  using assms
proof (induction as arbitrary: s)
  case Nil
  then show ?case by (simp add: energy_run_def)
next
  case (Cons a as)
  obtain t where t: "energy_step update amount mgmt cpu a s = Inr t" "energy_ok started view mgmt cpu t" "es_horizon t \<le> es_horizon s + 2 * max_step"
    using power_step_ok [OF Cons.prems(1), of a amount] Cons.prems(2,3) by (auto simp: algebra_simps)
  obtain u where "energy_run update amount mgmt cpu as t = Inr u" "energy_ok started view mgmt cpu u" "es_horizon u \<le> es_horizon t + 2 * max_step * length as"
    using Cons.IH [OF t(2)] t(3) Cons.prems(2,3) by (auto simp: algebra_simps)
  then show ?case using t by (auto simp: energy_run_def algebra_simps)
qed

end

interpretation simple_power: power_machine SimpleEnergySM_update "\<lambda>s. s \<noteq> PS_INIT" "\<lambda>s. s"
  by unfold_locales

interpretation two_thres_power: power_machine TwoThresSM_update "\<lambda>s. tt_state s \<noteq> PS_INIT" tt_state
  by unfold_locales

end
