(* ===== verification/Energy_Props.thy ===== *)
theory Energy_Props imports Energy_Safe begin

text \<open>
  The energy system from its construction on: the start-up order that works and the one that
  does not, and what the two-threshold machine and the CPU then guarantee of each other.
\<close>

section \<open>Construction and start-up\<close>

definition energy_queue_new :: "energy_ev eventq" where
  "energy_queue_new = \<lparr>bins = [], curTick = 0,
     evs = (\<lambda>e. \<lparr>ewhen = 0, eprio = (case e of MsgEvent \<Rightarrow> 60 | TickEvent \<Rightarrow> 50), escheduled = False, esquashed = False\<rparr>)\<rparr>"

definition energy_new :: "'s \<Rightarrow> gated_cpu \<Rightarrow> (nat \<Rightarrow> object) \<Rightarrow> nat \<Rightarrow> nat list \<Rightarrow> 's esystem" where
  "energy_new m c objs mgmt slaves =
     \<lparr>es_queue = energy_queue_new, msg_togo = [], es_machine = m, es_linked = False, es_cpu = c,
      es_ports = foldl (\<lambda>p i. connectEnergyPorts mgmt i p) ports_new slaves, es_objects = objs\<rparr>"

text \<open>The manager is initialised before the machine, then the CPU is activated.\<close>

definition two_thres_boot :: "two_thres esystem \<Rightarrow> two_thres esystem res" where
  "two_thres_boot s =
     bindR (mgmt_init TwoThresSM_update s) (\<lambda>s1.
     bindR (machine_step TwoThresSM_init s1) (\<lambda>s2.
     bindR (schedule TickEvent (curTick (es_queue s2)) (es_queue s2)) (\<lambda>q. Inr (s2\<lparr>es_queue := q\<rparr>))))"

text \<open>In the other order the machine uses a pointer to its manager that is not set.\<close>

lemma init_order: "machine_step TwoThresSM_init (energy_new (TwoThresSM_new hi lo) c objs mgmt slaves) = Inl Undefined"
  by (simp add: machine_step_def TwoThresSM_init_def machine_broadcastMsg_def energy_new_def)

lemma connect_all: "slave_list (foldl (\<lambda>p i. connectEnergyPorts mgmt i p) p0 slaves) mgmt = slave_list p0 mgmt @ slaves"
  by (induction slaves arbitrary: p0) (simp_all add: connectEnergyPorts_def bindSlave_def setMaster_def)

lemma queue_new_ok: "q_ok energy_queue_new"
  by (simp add: q_ok_def energy_queue_new_def)

lemma boot_ok:
  assumes "objs cpu = CpuObj" "\<forall>i. objs i = CpuObj \<longrightarrow> i = cpu" "cpu \<in> set slaves" "distinct slaves"
    and "0 < unat (gc_period c)" "unat (gc_period c) \<le> max_step" "unat (gc_total_lat c) \<le> max_step" "\<not> gc_idle c"
  shows "\<exists>s. two_thres_boot (energy_new (TwoThresSM_new hi lo) c objs mgmt slaves) = Inr s \<and>
     energy_ok (\<lambda>s. tt_state s \<noteq> PS_INIT) tt_state mgmt cpu s \<and> es_horizon s = 0 \<and> tt_state (es_machine s) = PS_POWEROFF"
proof -
  let ?qnew = energy_queue_new
  obtain q1 where q1: "schedule MsgEvent 0 ?qnew = Inr q1" "q_ok q1" "curTick q1 = 0"
      "evs q1 = (evs ?qnew)(MsgEvent := scheduled_at 0 (evs ?qnew MsgEvent))"
    using schedule_ok [OF queue_new_ok, of MsgEvent 0] by (auto simp: energy_queue_new_def)
  have t: "\<not> escheduled (evs q1 TickEvent)" using q1(4) by (simp add: energy_queue_new_def)
  obtain q2 where q2: "schedule TickEvent 0 q1 = Inr q2" "q_ok q2" "curTick q2 = 0"
      "evs q2 = (evs q1)(TickEvent := scheduled_at 0 (evs q1 TickEvent))"
    using schedule_ok [OF q1(2) t, of 0] q1(3) by auto
  let ?start = "energy_new (TwoThresSM_new hi lo) c objs mgmt slaves"
  let ?m = "\<lparr>tt_state = PS_POWEROFF, thres_high = hi, thres_low = lo\<rparr>"
  let ?s = "?start\<lparr>es_queue := q2, msg_togo := [msg_of POWEROFF], es_machine := ?m, es_linked := True\<rparr>"
  have cur: "curTick energy_queue_new = 0" by (simp add: energy_queue_new_def)
  have "two_thres_boot ?start = Inr ?s"
    using q1(1,3) q2(1) cur
    by (simp add: two_thres_boot_def mgmt_init_def machine_step_def TwoThresSM_update_def TwoThresSM_init_def TwoThresSM_new_def
        machine_broadcastMsg_def broadcastMsgAsEvent_def energy_new_def Let_def)
  moreover have p: "power_of ?s = PS_POWERON" "es_horizon ?s = 0" using q2(4) by (simp_all add: power_of_def es_horizon_def)
  moreover have sq: "\<forall>e. \<not> esquashed (evs q2 e)" using q2(4) q1(4) by (simp add: energy_queue_new_def)
  moreover have "energy_ok (\<lambda>s. tt_state s \<noteq> PS_INIT) tt_state mgmt cpu ?s"
    unfolding energy_ok_def p
  proof (intro conjI)
    show "\<forall>i. es_objects ?s i = CpuObj \<longrightarrow> i = cpu" using assms(2) by (simp add: energy_new_def)
    show "cpu \<in> set (slave_list (es_ports ?s) mgmt)" "distinct (slave_list (es_ports ?s) mgmt)"
      using assms(3,4) by (simp_all add: energy_new_def connect_all ports_new_def)
    show "follow_all follow_power PS_POWERON (List.map msg_type (msg_togo ?s)) = Some (tt_state (es_machine ?s))"
      by (simp add: follow_power_def)
    show "escheduled (evs (es_queue ?s) MsgEvent) = (msg_togo ?s \<noteq> [])"
      "msg_togo ?s \<noteq> [] \<longrightarrow> ewhen (evs (es_queue ?s) MsgEvent) = curTick (es_queue ?s)"
      using q1(4) q2(3,4) by simp_all
    show "\<forall>e. \<not> esquashed (evs (es_queue ?s) e)" "q_ok (es_queue ?s)" using sq q2(2) by simp_all
    show "es_objects ?s cpu = CpuObj" "0 < unat (gc_period (es_cpu ?s))" "unat (gc_period (es_cpu ?s)) \<le> max_step"
      "unat (gc_total_lat (es_cpu ?s)) \<le> max_step" "\<not> gc_idle (es_cpu ?s)"
      using assms(1,5-8) by (simp_all add: energy_new_def)
  qed simp_all
  ultimately show ?thesis by (intro exI [of _ ?s]) simp
qed



end
