(* ===== verification/Packet.thy ===== *)
theory Packet imports Addr_Range begin

text \<open>
  Requests, the commands of the memory system and packets (mem/request.hh, mem/packet.hh,
  mem/packet.cc).  A packet's data pointer is \<open>None\<close> or the bytes it points to; sender states,
  labels and the flags that only guard the validity of a field are left out.
\<close>

section \<open>Requests\<close>

record request =
  rq_paddr :: maddr
  rq_size :: "32 word"
  rq_context :: int
  rq_master :: int
  rq_task :: "32 word"
  rq_uncacheable :: bool
  rq_secure :: bool
  rq_inst_fetch :: bool
  rq_llsc :: bool
  rq_prefetch :: bool
  rq_swap :: bool
  rq_cond_swap :: bool
  rq_clear_ll :: bool
  rq_extra :: "64 word option"

text \<open>\<open>ContextSwitchTaskId::Unknown\<close>, \<open>Request::invldMasterId\<close>, \<open>wbMasterId\<close> and \<open>funcMasterId\<close>.\<close>

definition unknown_task :: "32 word" where "unknown_task = 1024"
definition invldMasterId :: int where "invldMasterId = 65535"
definition wbMasterId :: int where "wbMasterId = 0"
definition funcMasterId :: int where "funcMasterId = 1"

definition Request_new :: "maddr \<Rightarrow> 32 word \<Rightarrow> int \<Rightarrow> request" where
  "Request_new a n master =
     \<lparr>rq_paddr = a, rq_size = n, rq_context = 0, rq_master = master, rq_task = unknown_task, rq_uncacheable = False, rq_secure = False,
      rq_inst_fetch = False, rq_llsc = False, rq_prefetch = False, rq_swap = False, rq_cond_swap = False, rq_clear_ll = False, rq_extra = None\<rparr>"

definition getExtraData :: "request \<Rightarrow> (64 word) res" where
  "getExtraData r = (case rq_extra r of None \<Rightarrow> Inl AssertFail | Some x \<Rightarrow> Inr x)"

section \<open>Commands\<close>

datatype mem_cmd =
    InvalidCmd | ReadReq | ReadResp | ReadRespWithInvalidate | WriteReq | WriteResp | Writeback
  | SoftPFReq | HardPFReq | SoftPFResp | HardPFResp | WriteInvalidateReq | WriteInvalidateResp
  | UpgradeReq | SCUpgradeReq | UpgradeResp | SCUpgradeFailReq | UpgradeFailResp | ReadExReq | ReadExResp
  | LoadLockedReq | StoreCondReq | StoreCondFailReq | StoreCondResp | SwapReq | SwapResp | MessageReq | MessageResp
  | InvalidDestError | BadAddressError | FunctionalReadError | FunctionalWriteError | PrintReq | FlushReq | InvalidationReq

datatype cmd_attr =
    IsRead | IsWrite | IsUpgrade | IsInvalidate | NeedsExclusive | IsRequest | IsResponse | NeedsResponse
  | IsSWPrefetch | IsHWPrefetch | IsLlsc | HasData | IsError | IsPrint | IsFlush

text \<open>The table \<open>commandInfo\<close>: the attributes of each command and the command of its response.\<close>

fun commandInfo :: "mem_cmd \<Rightarrow> cmd_attr list \<times> mem_cmd" where
  "commandInfo InvalidCmd = ([], InvalidCmd)"
| "commandInfo ReadReq = ([IsRead, IsRequest, NeedsResponse], ReadResp)"
| "commandInfo ReadResp = ([IsRead, IsResponse, HasData], InvalidCmd)"
| "commandInfo ReadRespWithInvalidate = ([IsRead, IsResponse, HasData, IsInvalidate], InvalidCmd)"
| "commandInfo WriteReq = ([IsWrite, NeedsExclusive, IsRequest, NeedsResponse, HasData], WriteResp)"
| "commandInfo WriteResp = ([IsWrite, NeedsExclusive, IsResponse], InvalidCmd)"
| "commandInfo Writeback = ([IsWrite, NeedsExclusive, IsRequest, HasData], InvalidCmd)"
| "commandInfo SoftPFReq = ([IsRead, IsRequest, IsSWPrefetch, NeedsResponse], SoftPFResp)"
| "commandInfo HardPFReq = ([IsRead, IsRequest, IsHWPrefetch, NeedsResponse], HardPFResp)"
| "commandInfo SoftPFResp = ([IsRead, IsResponse, IsSWPrefetch, HasData], InvalidCmd)"
| "commandInfo HardPFResp = ([IsRead, IsResponse, IsHWPrefetch, HasData], InvalidCmd)"
| "commandInfo WriteInvalidateReq = ([IsWrite, NeedsExclusive, IsInvalidate, IsRequest, HasData, NeedsResponse], WriteInvalidateResp)"
| "commandInfo WriteInvalidateResp = ([IsWrite, NeedsExclusive, IsResponse], InvalidCmd)"
| "commandInfo UpgradeReq = ([IsInvalidate, NeedsExclusive, IsUpgrade, IsRequest, NeedsResponse], UpgradeResp)"
| "commandInfo SCUpgradeReq = ([IsInvalidate, NeedsExclusive, IsUpgrade, IsLlsc, IsRequest, NeedsResponse], UpgradeResp)"
| "commandInfo UpgradeResp = ([NeedsExclusive, IsUpgrade, IsResponse], InvalidCmd)"
| "commandInfo SCUpgradeFailReq = ([IsRead, NeedsExclusive, IsInvalidate, IsLlsc, IsRequest, NeedsResponse], UpgradeFailResp)"
| "commandInfo UpgradeFailResp = ([IsRead, NeedsExclusive, IsResponse, HasData], InvalidCmd)"
| "commandInfo ReadExReq = ([IsRead, NeedsExclusive, IsInvalidate, IsRequest, NeedsResponse], ReadExResp)"
| "commandInfo ReadExResp = ([IsRead, NeedsExclusive, IsResponse, HasData], InvalidCmd)"
| "commandInfo LoadLockedReq = ([IsRead, IsLlsc, IsRequest, NeedsResponse], ReadResp)"
| "commandInfo StoreCondReq = ([IsWrite, NeedsExclusive, IsLlsc, IsRequest, NeedsResponse, HasData], StoreCondResp)"
| "commandInfo StoreCondFailReq = ([IsWrite, NeedsExclusive, IsLlsc, IsRequest, NeedsResponse, HasData], StoreCondResp)"
| "commandInfo StoreCondResp = ([IsWrite, NeedsExclusive, IsLlsc, IsResponse], InvalidCmd)"
| "commandInfo SwapReq = ([IsRead, IsWrite, NeedsExclusive, IsRequest, HasData, NeedsResponse], SwapResp)"
| "commandInfo SwapResp = ([IsRead, IsWrite, NeedsExclusive, IsResponse, HasData], InvalidCmd)"
| "commandInfo MessageReq = ([IsWrite, IsRequest, NeedsResponse, HasData], MessageResp)"
| "commandInfo MessageResp = ([IsWrite, IsResponse], InvalidCmd)"
| "commandInfo InvalidDestError = ([IsResponse, IsError], InvalidCmd)"
| "commandInfo BadAddressError = ([IsResponse, IsError], InvalidCmd)"
| "commandInfo FunctionalReadError = ([IsRead, IsResponse, IsError], InvalidCmd)"
| "commandInfo FunctionalWriteError = ([IsWrite, IsResponse, IsError], InvalidCmd)"
| "commandInfo PrintReq = ([IsRequest, IsPrint], InvalidCmd)"
| "commandInfo FlushReq = ([IsRequest, IsFlush, NeedsExclusive], InvalidCmd)"
| "commandInfo InvalidationReq = ([NeedsExclusive, IsInvalidate, IsRequest], InvalidCmd)"

definition testCmdAttrib :: "mem_cmd \<Rightarrow> cmd_attr \<Rightarrow> bool" where
  "testCmdAttrib c a = (a \<in> set (fst (commandInfo c)))"

definition responseCommand :: "mem_cmd \<Rightarrow> mem_cmd" where
  "responseCommand c = snd (commandInfo c)"

section \<open>Packets\<close>

record packet =
  pk_cmd :: mem_cmd
  pk_req :: request
  pk_data :: "byte list option"
  pk_addr :: maddr
  pk_secure :: bool
  pk_size :: "32 word"
  pk_shared :: bool
  pk_express :: bool
  pk_supply :: bool
  pk_inhibit :: bool
  bytesValid :: "bool list"
  payloadDelay :: "32 word"

definition isRead :: "packet \<Rightarrow> bool" where "isRead p = testCmdAttrib (pk_cmd p) IsRead"
definition isWrite :: "packet \<Rightarrow> bool" where "isWrite p = testCmdAttrib (pk_cmd p) IsWrite"
definition isUpgrade :: "packet \<Rightarrow> bool" where "isUpgrade p = testCmdAttrib (pk_cmd p) IsUpgrade"
definition isRequest :: "packet \<Rightarrow> bool" where "isRequest p = testCmdAttrib (pk_cmd p) IsRequest"
definition isResponse :: "packet \<Rightarrow> bool" where "isResponse p = testCmdAttrib (pk_cmd p) IsResponse"
definition needsExclusive :: "packet \<Rightarrow> bool" where "needsExclusive p = testCmdAttrib (pk_cmd p) NeedsExclusive"
definition needsResponse :: "packet \<Rightarrow> bool" where "needsResponse p = testCmdAttrib (pk_cmd p) NeedsResponse"
definition isInvalidate :: "packet \<Rightarrow> bool" where "isInvalidate p = testCmdAttrib (pk_cmd p) IsInvalidate"
definition isWriteInvalidate :: "packet \<Rightarrow> bool" where
  "isWriteInvalidate p = (testCmdAttrib (pk_cmd p) IsWrite \<and> testCmdAttrib (pk_cmd p) IsInvalidate)"
definition hasData :: "packet \<Rightarrow> bool" where "hasData p = testCmdAttrib (pk_cmd p) HasData"
definition isLLSC :: "packet \<Rightarrow> bool" where "isLLSC p = testCmdAttrib (pk_cmd p) IsLlsc"
definition isError :: "packet \<Rightarrow> bool" where "isError p = testCmdAttrib (pk_cmd p) IsError"
definition isPrint :: "packet \<Rightarrow> bool" where "isPrint p = testCmdAttrib (pk_cmd p) IsPrint"

lemmas packet_tests = isRead_def isWrite_def isUpgrade_def isRequest_def isResponse_def needsExclusive_def needsResponse_def
  isInvalidate_def isWriteInvalidate_def hasData_def isLLSC_def isError_def isPrint_def testCmdAttrib_def

definition Packet_new :: "request \<Rightarrow> mem_cmd \<Rightarrow> packet" where
  "Packet_new r c =
     \<lparr>pk_cmd = c, pk_req = r, pk_data = None, pk_addr = rq_paddr r, pk_secure = rq_secure r, pk_size = rq_size r,
      pk_shared = False, pk_express = False, pk_supply = False, pk_inhibit = False, bytesValid = [], payloadDelay = 0\<rparr>"

text \<open>The constructor for a whole block: the address is aligned with a sign-extended mask.\<close>

definition Packet_block :: "request \<Rightarrow> mem_cmd \<Rightarrow> 32 word \<Rightarrow> packet" where
  "Packet_block r c n = (Packet_new r c)\<lparr>pk_addr := rq_paddr r AND NOT (scast (n - 1)), pk_size := n\<rparr>"

definition makeReadCmd :: "request \<Rightarrow> mem_cmd" where
  "makeReadCmd r = (if rq_llsc r then LoadLockedReq else if rq_prefetch r then SoftPFReq else ReadReq)"

definition makeWriteCmd :: "request \<Rightarrow> mem_cmd" where
  "makeWriteCmd r = (if rq_llsc r then StoreCondReq else if rq_swap r \<or> rq_cond_swap r then SwapReq else WriteReq)"

definition assertMemInhibit :: "packet \<Rightarrow> packet res" where
  "assertMemInhibit p = bindR (guardR (isRequest p) AssertFail) (\<lambda>_. bindR (guardR (\<not> pk_inhibit p) AssertFail) (\<lambda>_. Inr (p\<lparr>pk_inhibit := True\<rparr>)))"

definition copyError :: "packet \<Rightarrow> packet \<Rightarrow> packet res" where
  "copyError q p = bindR (guardR (isError q) AssertFail) (\<lambda>_. Inr (p\<lparr>pk_cmd := pk_cmd q\<rparr>))"

definition getOffset :: "32 word \<Rightarrow> packet \<Rightarrow> maddr" where
  "getOffset n p = pk_addr p AND scast (n - 1)"

definition makeResponse :: "packet \<Rightarrow> packet res" where
  "makeResponse p =
     bindR (guardR (needsResponse p) AssertFail) (\<lambda>_.
     bindR (guardR (isRequest p) AssertFail) (\<lambda>_.
     Inr (p\<lparr>pk_cmd := responseCommand (pk_cmd p), pk_express := False\<rparr>)))"

definition getPtr :: "packet \<Rightarrow> byte list res" where
  "getPtr p = (case pk_data p of None \<Rightarrow> Inl AssertFail | Some d \<Rightarrow> Inr d)"

text \<open>\<open>memcpy\<close> of \<open>n\<close> bytes from offset \<open>j\<close> of \<open>src\<close> to offset \<open>i\<close> of \<open>dst\<close>.\<close>

definition memcpy :: "byte list \<Rightarrow> int \<Rightarrow> byte list \<Rightarrow> int \<Rightarrow> int \<Rightarrow> byte list res" where
  "memcpy dst i src j n =
     (if 0 \<le> i \<and> 0 \<le> j \<and> 0 \<le> n \<and> i + n \<le> int (length dst) \<and> j + n \<le> int (length src) then
        Inr (take (nat i) dst @ take (nat n) (drop (nat j) src) @ drop (nat (i + n)) dst)
      else Inl OutOfBounds)"

text \<open>The contents of a fresh array are not defined and nothing may depend on them.\<close>

definition allocate :: "packet \<Rightarrow> packet res" where
  "allocate p = bindR (guardR (pk_data p = None) AssertFail) (\<lambda>_. Inr (p\<lparr>pk_data := Some (replicate (unat (pk_size p)) 0)\<rparr>))"

text \<open>Copies between a packet and memory; the bytes start at offset \<open>j\<close> of \<open>mem\<close>.\<close>

definition setData :: "byte list \<Rightarrow> int \<Rightarrow> packet \<Rightarrow> packet res" where
  "setData mem j p = bindR (getPtr p) (\<lambda>d. bindR (memcpy d 0 mem j (uint (pk_size p))) (\<lambda>d'. Inr (p\<lparr>pk_data := Some d'\<rparr>)))"

definition writeData :: "byte list \<Rightarrow> int \<Rightarrow> packet \<Rightarrow> byte list res" where
  "writeData mem i p = bindR (getPtr p) (\<lambda>d. memcpy mem i d 0 (uint (pk_size p)))"

definition setDataFromBlock :: "byte list \<Rightarrow> 32 word \<Rightarrow> packet \<Rightarrow> packet res" where
  "setDataFromBlock blk n p = setData blk (uint (getOffset n p)) p"

definition writeDataToBlock :: "byte list \<Rightarrow> 32 word \<Rightarrow> packet \<Rightarrow> byte list res" where
  "writeDataToBlock blk n p = writeData blk (uint (getOffset n p)) p"

section \<open>Functional accesses\<close>

text \<open>
  \<open>checkFunctional\<close>: a functional packet meets a value held elsewhere, \<open>n\<close> bytes at \<open>addr\<close>.  A read
  copies what overlaps into the packet and tells whether it has all its bytes; a write
  changes the value.  Differences of addresses are converted to \<open>int\<close>.
\<close>

definition to_int :: "maddr \<Rightarrow> int" where
  "to_int x = sint (ucast x :: 32 word)"

definition resize_valid :: "bool \<Rightarrow> packet \<Rightarrow> packet" where
  "resize_valid b p = (if bytesValid p = [] then p\<lparr>bytesValid := replicate (unat (pk_size p)) b\<rparr> else p)"

definition overlap_part :: "maddr \<Rightarrow> maddr \<Rightarrow> maddr \<Rightarrow> maddr \<Rightarrow> int \<Rightarrow> (int \<times> int \<times> int) res" where
  "overlap_part func_start func_end val_start val_end n =
     (if val_start < func_start \<and> val_end \<le> func_end then Inr (to_int (func_start - val_start), 0, to_int (val_end - func_start))
      else if func_start \<le> val_start \<and> func_end < val_end then Inr (0, to_int (val_start - func_start), to_int (func_end - val_start))
      else if func_start \<le> val_start \<and> val_end \<le> func_end then Inr (0, to_int (val_start - func_start), n)
      else if val_start < func_start \<and> func_end < val_end then Inr (to_int (func_start - val_start), 0, to_int (func_end - func_start))
      else Inl PanicError)"

definition checkFunctional :: "packet \<Rightarrow> maddr \<Rightarrow> bool \<Rightarrow> int \<Rightarrow> byte list option \<Rightarrow> (bool \<times> packet \<times> byte list option) res" where
  "checkFunctional p addr sec n data =
     (let func_start = pk_addr p; func_end = pk_addr p + ucast (pk_size p) - 1;
          val_start = addr; val_end = val_start + word_of_int n - 1 in
      if sec \<noteq> pk_secure p \<or> val_end < func_start \<or> func_end < val_start then Inr (False, p, data)
      else if isPrint p then bindR (guardR (data = None) AssertFail) (\<lambda>_. Inr (False, p, data))
      else case data of
        None \<Rightarrow> Inr (False, p, data)
      | Some d \<Rightarrow>
        let offset = to_int (func_start - val_start) in
        if isRead p then
          if val_start \<le> func_start \<and> func_end \<le> val_end then
            bindR (getPtr p) (\<lambda>q. bindR (memcpy q 0 d offset (uint (pk_size p))) (\<lambda>q'.
            Inr (True, resize_valid True (p\<lparr>pk_data := Some q'\<rparr>), data)))
          else
            bindR (overlap_part func_start func_end val_start val_end n) (\<lambda>(val_offset, func_offset, overlap_size).
            bindR (getPtr p) (\<lambda>q. bindR (memcpy q func_offset d val_offset overlap_size) (\<lambda>q'.
            let p1 = resize_valid False (p\<lparr>pk_data := Some q'\<rparr>);
                v = bytesValid p1; fo = nat func_offset; k = nat overlap_size;
                v' = take fo v @ replicate k True @ drop (fo + k) v in
            Inr (list_all id (take fo v) \<and> list_all id (drop (fo + k) v'), p1\<lparr>bytesValid := v'\<rparr>, data))))
        else if isWrite p then
          bindR (getPtr p) (\<lambda>q.
          bindR (if 0 \<le> offset then memcpy d offset q 0 (uint (min func_end val_end - func_start + 1))
                 else memcpy d 0 q (- offset) (uint (min func_end val_end - val_start + 1))) (\<lambda>d'.
          Inr (False, p, Some d')))
        else Inl PanicError)"


section \<open>Properties\<close>

text \<open>C21: \<open>makeResponse\<close> succeeds on exactly the packets that need a response, and makes of each a
  response that is no request, needs no response itself, and carries data exactly when the
  request was a read.\<close>

theorem makeResponse_types:
  "(\<exists>p'. makeResponse p = Inr p') = needsResponse p \<and>
   (\<forall>p'. makeResponse p = Inr p' \<longrightarrow> isResponse p' \<and> \<not> isRequest p' \<and> \<not> needsResponse p' \<and> \<not> isError p' \<and>
      hasData p' = isRead p \<and> p' = p\<lparr>pk_cmd := pk_cmd p', pk_express := False\<rparr>)"
  by (cases "pk_cmd p") (simp_all add: makeResponse_def packet_tests responseCommand_def)

lemma makeResponse_types_witness:
  "\<exists>p'. makeResponse (Packet_new (Request_new 64 4 2) ReadReq) = Inr p' \<and> isResponse p' \<and> hasData p'"
proof -
  let ?p = "Packet_new (Request_new 64 4 2) ReadReq"
  have "needsResponse ?p" "isRead ?p" by (simp_all add: Packet_new_def packet_tests)
  then show ?thesis using makeResponse_types [of ?p] by blast
qed

lemma to_int_diff:
  assumes "unat y \<le> unat x" "unat x - unat y < 2 ^ 31"
  shows "to_int (x - y) = int (unat x - unat y)"
proof -
  have d: "unat (x - y) = unat x - unat y" using assms(1) by (intro unat_sub) (simp add: word_le_nat_alt)
  have "uint (ucast (x - y) :: 32 word) = take_bit 32 (uint (x - y))" by (simp add: unsigned_ucast_eq unsigned_take_bit_eq)
  also have "\<dots> = int (unat x - unat y)" using assms(2) d by (simp add: uint_nat take_bit_int_eq_self)
  finally have u: "uint (ucast (x - y) :: 32 word) = int (unat x - unat y)" .
  show ?thesis unfolding to_int_def sint_uint u using assms(2) by (simp add: signed_take_bit_int_eq_self)
qed

lemma unat_last:
  assumes "unat x + n \<le> 2 ^ 64" "0 < n"
  shows "unat (x + of_nat n - 1 :: maddr) = unat x + n - 1"
proof -
  have "x + of_nat n - 1 = of_nat (unat x + n - 1)" using assms(2) by (simp add: of_nat_diff)
  then show ?thesis using assms by (simp only: unat_of_nat) simp
qed

text \<open>C22: A functional read that overlaps a value only over one end of the packet misses the last
  byte of the overlap: the sizes are differences of inclusive bounds.  With \<open>fs\<close> to \<open>fe\<close> the bytes of
  the packet, \<open>vs\<close> to \<open>ve\<close> those of the value and \<open>lo\<close> to \<open>hi\<close> the overlap, the bytes \<open>lo\<close> to
  \<open>hi - 1\<close> are copied and the byte \<open>hi\<close> keeps its old value and is not marked as valid.\<close>

theorem functional_read_loses_byte:
  assumes p: "isRead p" "pk_data p = Some q" "length q = unat (pk_size p)" "bytesValid p = []" "unat (pk_size p) < 2 ^ 31" "0 < unat (pk_size p)"
    and d: "0 < length d" "length d < 2 ^ 31"
    and range: "fs = unat (pk_addr p)" "fs + unat (pk_size p) \<le> 2 ^ 64" "fe = fs + unat (pk_size p) - 1"
      "vs = unat addr" "vs + length d \<le> 2 ^ 64" "ve = vs + length d - 1"
    and overlap: "lo = max fs vs" "hi = min fe ve" "lo \<le> hi" "vs < fs \<and> ve < fe \<or> fs < vs \<and> fe < ve"
  shows "\<exists>p'. checkFunctional p addr (pk_secure p) (int (length d)) (Some d) = Inr (False, p', Some d) \<and>
     pk_data p' = Some (take (lo - fs) q @ take (hi - lo) (drop (lo - vs) d) @ drop (hi - fs) q) \<and> \<not> bytesValid p' ! (hi - fs)"
proof -
  note n = p(6)
  have e: "unat (pk_addr p + ucast (pk_size p) - 1) = fe" "unat (addr + of_nat (length d) - 1) = ve"
    using unat_last [of "pk_addr p" "unat (pk_size p)"] unat_last [of addr "length d"] range n d(1) by simp_all
  let ?fe = "pk_addr p + ucast (pk_size p) - 1" and ?ve = "addr + of_nat (length d) - 1"
  have o: "overlap_part (pk_addr p) ?fe addr ?ve (int (length d)) = Inr (int (lo - vs), int (lo - fs), int (hi - lo))"
  proof (cases "vs < fs")
    case True
    then have "lo = fs" "hi = ve" "fs \<le> ve" "ve < fe" using overlap by auto
    then show ?thesis using True range e d p(5) to_int_diff [of addr "pk_addr p"] to_int_diff [of "pk_addr p" ?ve]
      by (simp add: overlap_part_def word_le_nat_alt word_less_nat_alt)
  next
    case False
    then have "lo = vs" "hi = fe" "vs \<le> fe" "fe < ve" "fs \<le> vs" using overlap False by auto
    then show ?thesis using range e d p(5) to_int_diff [of "pk_addr p" addr] to_int_diff [of addr ?fe]
      by (simp add: overlap_part_def word_le_nat_alt word_less_nat_alt)
  qed
  have b: "lo - fs + (hi - lo) \<le> length q" "lo - vs + (hi - lo) \<le> length d" "hi - fs < length q" "lo - fs + (hi - lo) = hi - fs"
    using overlap range n d p(3) by (auto simp: min_def max_def split: if_splits)
  have "\<not> (vs \<le> fs \<and> fe \<le> ve)" "\<not> ve < fs" "\<not> fe < vs" using overlap by (auto simp: min_def max_def split: if_splits)
  then have nf: "\<not> (addr \<le> pk_addr p \<and> ?fe \<le> ?ve)" "\<not> ?ve < pk_addr p" "\<not> ?fe < addr"
    unfolding word_le_nat_alt word_less_nat_alt e by (simp_all add: range(1,4))
  have np: "\<not> isPrint p" using p(1) by (cases "pk_cmd p") (simp_all add: packet_tests)
  let ?q = "take (lo - fs) q @ take (hi - lo) (drop (lo - vs) d) @ drop (hi - fs) q"
  have c: "memcpy q (int (lo - fs)) d (int (lo - vs)) (int (hi - lo)) = Inr ?q"
    using b by (simp add: memcpy_def nat_add_distrib [symmetric] flip: of_nat_add)
  let ?v = "replicate (unat (pk_size p)) False"
  let ?v' = "take (lo - fs) ?v @ replicate (hi - lo) True @ drop (lo - fs + (hi - lo)) ?v"
  let ?ys = "take (lo - fs) ?v @ replicate (hi - lo) True"
  obtain m where m: "unat (pk_size p) - (hi - fs) = Suc m" using b(3) p(3) by (metis Suc_pred zero_less_diff)
  then have "drop (lo - fs + (hi - lo)) ?v = False # replicate m False" unfolding b(4) by simp
  then have e': "?v' = ?ys @ False # replicate m False" by simp
  have l: "length ?ys = hi - fs" using b p(3) by simp
  have "(?ys @ False # replicate m False) ! (hi - fs) = False" using l by (metis nth_append_length)
  moreover have "drop (hi - fs) (?ys @ False # replicate m False) = False # replicate m False" using l by (metis append_eq_conv_conj)
  ultimately have v: "\<not> ?v' ! (hi - fs)" "\<not> (list_all id (take (lo - fs) ?v) \<and> list_all id (drop (lo - fs + (hi - lo)) ?v'))"
    unfolding e' unfolding b(4) by (simp_all only: list.pred_inject id_apply simp_thms)
  show ?thesis
    using v by (simp add: checkFunctional_def Let_def getPtr_def resize_valid_def np p(1,2,4) nf [THEN eq_False [THEN iffD2]] o c
      del: take_replicate drop_replicate take_append drop_append)
qed

lemma functional_read_loses_byte_witness:
  "\<exists>p'. checkFunctional ((Packet_new (Request_new 100 4 2) ReadReq)\<lparr>pk_data := Some [0, 0, 0, 0]\<rparr>) 98 False (int (length [1, 2, 3, 4])) (Some [1, 2, 3, 4]) =
     Inr (False, p', Some [1, 2, 3, 4]) \<and> pk_data p' = Some [3, 0, 0, 0] \<and> \<not> bytesValid p' ! 1"
proof -
  let ?p = "(Packet_new (Request_new 100 4 2) ReadReq)\<lparr>pk_data := Some [0, 0, 0, 0]\<rparr>"
  have "\<exists>p'. checkFunctional ?p 98 (pk_secure ?p) (int (length [1, 2, 3, 4 :: byte])) (Some [1, 2, 3, 4]) = Inr (False, p', Some [1, 2, 3, 4]) \<and>
     pk_data p' = Some (take (100 - 100) [0, 0, 0, 0] @ take (101 - 100) (drop (100 - 98) [1, 2, 3, 4]) @ drop (101 - 100) [0, 0, 0, 0]) \<and> \<not> bytesValid p' ! (101 - 100)"
    by (rule functional_read_loses_byte [where fe = 103 and ve = 101]) (simp_all add: Packet_new_def Request_new_def packet_tests)
  then show ?thesis by (simp add: Packet_new_def Request_new_def)
qed

end
