(* ===== verification/Cache_Tags.thy ===== *)
theory Cache_Tags imports Packet begin

text \<open>
  The tag store of a set-associative cache (mem/cache/blk.hh, tags/cacheset.hh,
  tags/base_set_assoc.hh, tags/lru.cc, tags/random_repl.cc) and the cache's use of it when it
  allocates a block and writes one back (cache_impl.hh).  Blocks live in one array; a set is the list of
  its blocks' indices, the pointers of \<open>CacheSet::blks\<close>.  The distributions of the statistics
  are left out, their counters are kept.
\<close>

section \<open>Blocks\<close>

record lock =
  lk_context :: int
  lowAddr :: maddr
  highAddr :: maddr

record cblk =
  btag :: maddr
  bdata :: "byte list"
  status :: "32 word"
  whenReady :: tick
  bset :: nat
  isTouched :: bool
  refCount :: int
  srcMasterId :: int
  task_id :: "32 word"
  tickInserted :: tick
  lockList :: "lock list"

definition BlkValid :: "32 word" where "BlkValid = 0x01"
definition BlkWritable :: "32 word" where "BlkWritable = 0x02"
definition BlkReadable :: "32 word" where "BlkReadable = 0x04"
definition BlkDirty :: "32 word" where "BlkDirty = 0x08"
definition BlkReferenced :: "32 word" where "BlkReferenced = 0x10"
definition BlkHWPrefetched :: "32 word" where "BlkHWPrefetched = 0x20"
definition BlkSecure :: "32 word" where "BlkSecure = 0x40"

named_theorems blk_bits "the status bits as numbers"

lemmas blk_bits_defs [blk_bits] = BlkValid_def BlkWritable_def BlkReadable_def BlkDirty_def BlkReferenced_def
  BlkHWPrefetched_def BlkSecure_def

definition CacheBlk_new :: cblk where
  "CacheBlk_new = \<lparr>btag = 0, bdata = [], status = 0, whenReady = 0, bset = 0, isTouched = False, refCount = 0,
     srcMasterId = invldMasterId, task_id = unknown_task, tickInserted = 0, lockList = []\<rparr>"

definition isWritable :: "cblk \<Rightarrow> bool" where
  "isWritable b = (let needed = BlkWritable OR BlkValid in status b AND needed = needed)"

definition isReadable :: "cblk \<Rightarrow> bool" where
  "isReadable b = (let needed = BlkReadable OR BlkValid in status b AND needed = needed)"

definition isValid :: "cblk \<Rightarrow> bool" where "isValid b = (status b AND BlkValid \<noteq> 0)"
definition isDirty :: "cblk \<Rightarrow> bool" where "isDirty b = (status b AND BlkDirty \<noteq> 0)"
definition isReferenced :: "cblk \<Rightarrow> bool" where "isReferenced b = (status b AND BlkReferenced \<noteq> 0)"
definition wasPrefetched :: "cblk \<Rightarrow> bool" where "wasPrefetched b = (status b AND BlkHWPrefetched \<noteq> 0)"
definition isSecure :: "cblk \<Rightarrow> bool" where "isSecure b = (status b AND BlkSecure \<noteq> 0)"

text \<open>Load locks.\<close>

definition Lock_new :: "request \<Rightarrow> lock" where
  "Lock_new r = \<lparr>lk_context = rq_context r, lowAddr = rq_paddr r, highAddr = rq_paddr r + ucast (rq_size r) - 1\<rparr>"

definition matchesContext :: "request \<Rightarrow> lock \<Rightarrow> bool" where
  "matchesContext r l =
     (let req_low = rq_paddr r; req_high = req_low + ucast (rq_size r) - 1 in
      lk_context l = rq_context r \<and> lowAddr l \<le> req_low \<and> req_high \<le> highAddr l)"

definition overlapping :: "request \<Rightarrow> lock \<Rightarrow> bool" where
  "overlapping r l =
     (let req_low = rq_paddr r; req_high = req_low + ucast (rq_size r) - 1 in
      req_low \<le> highAddr l \<and> lowAddr l \<le> req_high)"

fun erase_locks :: "request \<Rightarrow> lock list \<Rightarrow> lock list" where
  "erase_locks r [] = []"
| "erase_locks r (l # ls) = (if overlapping r l then erase_locks r ls else l # erase_locks r ls)"

definition clearLoadLocks :: "request option \<Rightarrow> cblk \<Rightarrow> cblk" where
  "clearLoadLocks req b =
     (case req of None \<Rightarrow> b\<lparr>lockList := []\<rparr> | Some r \<Rightarrow> b\<lparr>lockList := erase_locks r (lockList b)\<rparr>)"

definition trackLoadLocked :: "packet \<Rightarrow> cblk \<Rightarrow> cblk res" where
  "trackLoadLocked p b = bindR (guardR (isLLSC p) AssertFail) (\<lambda>_. Inr (b\<lparr>lockList := Lock_new (pk_req p) # lockList b\<rparr>))"

fun find_lock :: "request \<Rightarrow> lock list \<Rightarrow> bool" where
  "find_lock r [] = False"
| "find_lock r (l # ls) = (if matchesContext r l then True else find_lock r ls)"

text \<open>A store clears the locks it overlaps; a store conditional also tells in its request whether it succeeds.\<close>

definition checkWrite :: "packet \<Rightarrow> cblk \<Rightarrow> bool \<times> packet \<times> cblk" where
  "checkWrite p b =
     (let r = pk_req p in
      if isLLSC p then
        (let success = find_lock r (lockList b) in
         (success, p\<lparr>pk_req := r\<lparr>rq_extra := Some (if success then 1 else 0)\<rparr>\<rparr>, clearLoadLocks (Some r) b))
      else (True, p, clearLoadLocks (Some r) b))"

definition invalidate_blk :: "cblk \<Rightarrow> cblk" where
  "invalidate_blk b = clearLoadLocks None (b\<lparr>status := 0, isTouched := False\<rparr>)"

section \<open>Sets\<close>

fun find_way :: "cblk list \<Rightarrow> maddr \<Rightarrow> bool \<Rightarrow> nat list \<Rightarrow> nat option" where
  "find_way bl tg sec [] = None"
| "find_way bl tg sec (i # is) =
     (if btag (bl ! i) = tg \<and> isValid (bl ! i) \<and> isSecure (bl ! i) = sec then Some i else find_way bl tg sec is)"

text \<open>The loops that move a block to the front or the back; the assertion bounds the index.\<close>

function head_loop :: "nat list \<Rightarrow> nat \<Rightarrow> nat \<Rightarrow> nat \<Rightarrow> nat list res" where
  "head_loop xs b i nxt =
     (if \<not> i < length xs then Inl AssertFail
      else let tmp = xs ! i; xs' = xs[i := nxt] in
        if tmp = b then Inr xs' else head_loop xs' b (Suc i) tmp)"
  by pat_completeness auto
termination by (relation "measure (\<lambda>(xs, b, i, nxt). length xs - i)") auto

declare head_loop.simps [simp del]

definition moveToHead :: "nat \<Rightarrow> nat list \<Rightarrow> nat list res" where
  "moveToHead b xs =
     (if xs = [] then Inl OutOfBounds
      else if xs ! 0 = b then Inr xs else head_loop xs b 0 b)"

fun tail_loop :: "nat list \<Rightarrow> nat \<Rightarrow> nat \<Rightarrow> nat \<Rightarrow> nat list res" where
  "tail_loop xs b 0 nxt = Inl AssertFail"
| "tail_loop xs b (Suc i) nxt =
     (let tmp = xs ! i; xs' = xs[i := nxt] in if tmp = b then Inr xs' else tail_loop xs' b i tmp)"

definition moveToTail :: "nat \<Rightarrow> nat list \<Rightarrow> nat list res" where
  "moveToTail b xs =
     (if xs = [] then Inl OutOfBounds
      else if xs ! (length xs - 1) = b then Inr xs else tail_loop xs b (length xs) b)"

section \<open>The tag store\<close>

record tagstore =
  blkSize :: "32 word"
  accessLatency :: tick
  tag_period :: tick
  maxMasters :: int
  warmupBound :: int
  warmedUp :: bool
  tagsInUse :: int
  replacements :: nat
  occupancies :: "int \<Rightarrow> int"
  tagAccesses :: nat
  dataAccesses :: nat
  assoc :: nat
  numSets :: nat
  sequentialAccess :: bool
  sets :: "nat list list"
  blks :: "cblk list"
  setShift :: nat
  tagShift :: nat
  setMask :: "32 word"
  blkMask :: "32 word"

text \<open>The constructor; the check of the associativity comes after the division by it.  The bytes of new
  blocks are not defined in the code.\<close>

definition set_blocks :: "nat \<Rightarrow> nat \<Rightarrow> nat \<Rightarrow> cblk list" where
  "set_blocks sz n i =
     List.map (\<lambda>j. (invalidate_blk (CacheBlk_new\<lparr>bdata := replicate sz 0\<rparr>))\<lparr>btag := of_nat j, whenReady := 0, isTouched := False, bset := i\<rparr>) [0..<n]"

definition BaseSetAssoc_new :: "maddr \<Rightarrow> int \<Rightarrow> int \<Rightarrow> bool \<Rightarrow> tick \<Rightarrow> tick \<Rightarrow> int \<Rightarrow> tagstore res" where
  "BaseSetAssoc_new sz block_size asc sequential hit_latency period masters =
     bindR (int_mul block_size asc) (\<lambda>product.
     bindR (guardR (word_of_int product \<noteq> (0 :: maddr)) Undefined) (\<lambda>_.
     let blk_size = word_of_int block_size :: 32 word; num = ucast (sz div word_of_int product) :: 32 word in
     bindR (guardR (4 \<le> blk_size \<and> isPowerOf2 blk_size) FatalError) (\<lambda>_.
     bindR (guardR (0 < num \<and> isPowerOf2 num) FatalError) (\<lambda>_.
     bindR (guardR (word_of_int asc \<noteq> (0 :: 32 word)) FatalError) (\<lambda>_.
     bindR (floorLog2_32 blk_size) (\<lambda>shift.
     bindR (floorLog2_32 num) (\<lambda>lg.
     let n = unat num; a = unat (word_of_int asc :: 32 word) in
     Inr \<lparr>blkSize = blk_size, accessLatency = hit_latency, tag_period = period, maxMasters = masters,
          warmupBound = sint (num * word_of_int asc), warmedUp = False, tagsInUse = 0, replacements = 0,
          occupancies = (\<lambda>_. 0), tagAccesses = 0, dataAccesses = 0, assoc = a, numSets = n, sequentialAccess = sequential,
          sets = List.map (\<lambda>i. [i * a..<i * a + a]) [0..<n], blks = concat (List.map (set_blocks (unat blk_size) a) [0..<n]),
          setShift = shift, tagShift = shift + lg, setMask = num - 1, blkMask = blk_size - 1\<rparr>)))))))"

definition extractTag :: "tagstore \<Rightarrow> maddr \<Rightarrow> maddr" where
  "extractTag t a = drop_bit (tagShift t) a"

definition extractSet :: "tagstore \<Rightarrow> maddr \<Rightarrow> nat" where
  "extractSet t a = unat (drop_bit (setShift t) a AND ucast (setMask t))"

definition blkAlign :: "tagstore \<Rightarrow> maddr \<Rightarrow> maddr" where
  "blkAlign t a = a AND NOT (ucast (blkMask t))"

definition extractBlkOffset :: "tagstore \<Rightarrow> maddr \<Rightarrow> int" where
  "extractBlkOffset t a = sint (ucast (a AND ucast (blkSize t - 1)) :: 32 word)"

definition regenerateBlkAddr :: "tagstore \<Rightarrow> maddr \<Rightarrow> nat \<Rightarrow> maddr" where
  "regenerateBlkAddr t tg st = push_bit (tagShift t) tg OR push_bit (setShift t) (of_nat st)"

definition upd_blk :: "nat \<Rightarrow> (cblk \<Rightarrow> cblk) \<Rightarrow> tagstore \<Rightarrow> tagstore" where
  "upd_blk i f t = t\<lparr>blks := (blks t)[i := f (blks t ! i)]\<rparr>"

definition findBlock :: "tagstore \<Rightarrow> maddr \<Rightarrow> bool \<Rightarrow> nat option" where
  "findBlock t a sec = find_way (blks t) (extractTag t a) sec (sets t ! extractSet t a)"

definition base_accessBlock :: "tick \<Rightarrow> maddr \<Rightarrow> bool \<Rightarrow> tagstore \<Rightarrow> (nat option \<times> tick \<times> tagstore) res" where
  "base_accessBlock now a sec t =
     (let blk = find_way (blks t) (extractTag t a) sec (sets t ! extractSet t a);
          t1 = t\<lparr>tagAccesses := tagAccesses t + assoc t,
                 dataAccesses := (if sequentialAccess t then (if blk \<noteq> None then dataAccesses t + 1 else dataAccesses t)
                                  else dataAccesses t + assoc t)\<rparr> in
      case blk of
        None \<Rightarrow> Inr (None, accessLatency t, t1)
      | Some i \<Rightarrow>
          let b = blks t ! i in
          bindR (if now < whenReady b then divCeil (whenReady b - now) (tag_period t) else Inr 0) (\<lambda>c.
          let lat = (if now < whenReady b \<and> accessLatency t < c then c else accessLatency t) in
          Inr (Some i, lat, upd_blk i (\<lambda>b. b\<lparr>refCount := refCount b + 1\<rparr>) t1)))"

text \<open>The first block that is not valid, or else the last of the set.\<close>

fun first_invalid :: "cblk list \<Rightarrow> nat list \<Rightarrow> nat option \<Rightarrow> nat option" where
  "first_invalid bl [] blk = blk"
| "first_invalid bl (i # is) blk = (if \<not> isValid (bl ! i) then Some i else first_invalid bl is (Some i))"

definition base_findVictim :: "tagstore \<Rightarrow> maddr \<Rightarrow> nat option" where
  "base_findVictim t a = first_invalid (blks t) (sets t ! extractSet t a) None"

text \<open>Inserting: a block used for the first time counts as in use, a valid one is evicted.\<close>

definition touch_blk :: "nat \<Rightarrow> tagstore \<Rightarrow> tagstore" where
  "touch_blk i t =
     (if \<not> isTouched (blks t ! i) then
        let t0 = upd_blk i (\<lambda>b. b\<lparr>isTouched := True\<rparr>) (t\<lparr>tagsInUse := tagsInUse t + 1\<rparr>) in
        if \<not> warmedUp t0 \<and> warmupBound t0 \<le> tagsInUse t0 then t0\<lparr>warmedUp := True\<rparr> else t0
      else t)"

definition base_insertBlock :: "tick \<Rightarrow> maddr \<Rightarrow> int \<Rightarrow> 32 word \<Rightarrow> nat \<Rightarrow> tagstore \<Rightarrow> tagstore res" where
  "base_insertBlock now a master task i t =
     (let t1 = touch_blk i t in
      bindR (if isValid (blks t1 ! i) then
               bindR (guardR (srcMasterId (blks t1 ! i) < maxMasters t1) AssertFail) (\<lambda>_.
               let src = srcMasterId (blks t1 ! i);
                   t2 = t1\<lparr>replacements := replacements t1 + 1,
                           occupancies := (occupancies t1)(src := occupancies t1 src - 1)\<rparr> in
               Inr (upd_blk i (\<lambda>b. invalidate_blk (b\<lparr>refCount := 0\<rparr>)) t2))
             else Inr t1) (\<lambda>t3.
      bindR (guardR (master < maxMasters t3) AssertFail) (\<lambda>_.
      let t4 = t3\<lparr>occupancies := (occupancies t3)(master := occupancies t3 master + 1),
                  tagAccesses := tagAccesses t3 + 1, dataAccesses := dataAccesses t3 + 1\<rparr> in
      Inr (upd_blk i (\<lambda>b. b\<lparr>isTouched := True, btag := extractTag t a, srcMasterId := master,
                             task_id := task, tickInserted := now\<rparr>) t4))))"

definition base_invalidate :: "tick \<Rightarrow> nat \<Rightarrow> tagstore \<Rightarrow> tagstore res" where
  "base_invalidate now i t =
     (let b = blks t ! i in
      bindR (guardR (isValid b) AssertFail) (\<lambda>_.
      bindR (guardR (srcMasterId b < maxMasters t) AssertFail) (\<lambda>_.
      let t1 = t\<lparr>tagsInUse := tagsInUse t - 1,
                 occupancies := (occupancies t)(srcMasterId b := occupancies t (srcMasterId b) - 1)\<rparr> in
      Inr (upd_blk i (\<lambda>b. b\<lparr>srcMasterId := invldMasterId, task_id := unknown_task, tickInserted := now\<rparr>) t1))))"

definition clearLocks :: "tagstore \<Rightarrow> tagstore" where
  "clearLocks t = t\<lparr>blks := List.map (clearLoadLocks None) (blks t)\<rparr>"

section \<open>Least recently used replacement\<close>

definition put_set :: "nat \<Rightarrow> nat list \<Rightarrow> tagstore \<Rightarrow> tagstore" where
  "put_set st xs t = t\<lparr>sets := (sets t)[st := xs]\<rparr>"

definition LRU_accessBlock :: "tick \<Rightarrow> maddr \<Rightarrow> bool \<Rightarrow> tagstore \<Rightarrow> (nat option \<times> tick \<times> tagstore) res" where
  "LRU_accessBlock now a sec t =
     bindR (base_accessBlock now a sec t) (\<lambda>(blk, lat, t1).
     case blk of
       None \<Rightarrow> Inr (None, lat, t1)
     | Some i \<Rightarrow> let st = bset (blks t1 ! i) in
         bindR (moveToHead i (sets t1 ! st)) (\<lambda>xs. Inr (Some i, lat, put_set st xs t1)))"

definition LRU_findVictim :: "tagstore \<Rightarrow> maddr \<Rightarrow> nat" where
  "LRU_findVictim t a = sets t ! extractSet t a ! (assoc t - 1)"

definition LRU_insertBlock :: "tick \<Rightarrow> maddr \<Rightarrow> int \<Rightarrow> 32 word \<Rightarrow> nat \<Rightarrow> tagstore \<Rightarrow> tagstore res" where
  "LRU_insertBlock now a master task i t =
     bindR (base_insertBlock now a master task i t) (\<lambda>t1.
     let st = extractSet t1 a in bindR (moveToHead i (sets t1 ! st)) (\<lambda>xs. Inr (put_set st xs t1)))"

definition LRU_invalidate :: "tick \<Rightarrow> nat \<Rightarrow> tagstore \<Rightarrow> tagstore res" where
  "LRU_invalidate now i t =
     bindR (base_invalidate now i t) (\<lambda>t1.
     let st = bset (blks t1 ! i) in bindR (moveToTail i (sets t1 ! st)) (\<lambda>xs. Inr (put_set st xs t1)))"

section \<open>Random replacement\<close>

text \<open>\<open>idx\<close> is the number the generator returns; the assertions check its range.\<close>

definition RandomRepl_findVictim :: "int \<Rightarrow> tagstore \<Rightarrow> maddr \<Rightarrow> nat option res" where
  "RandomRepl_findVictim ix t a =
     (case base_findVictim t a of
        None \<Rightarrow> Inl Undefined
      | Some i \<Rightarrow>
          if isValid (blks t ! i) then
            bindR (guardR (ix < int (assoc t)) AssertFail) (\<lambda>_.
            bindR (guardR (0 \<le> ix) AssertFail) (\<lambda>_. Inr (Some (sets t ! extractSet t a ! nat ix))))
          else Inr (Some i))"

section \<open>Allocation and write back in the cache\<close>

text \<open>The packet that writes a dirty block back.\<close>

definition writebackBlk :: "tick \<Rightarrow> nat \<Rightarrow> tagstore \<Rightarrow> (packet \<times> tagstore) res" where
  "writebackBlk now i t =
     (let b = blks t ! i in
      bindR (guardR (isValid b \<and> isDirty b) AssertFail) (\<lambda>_.
      let r = (Request_new (regenerateBlkAddr t (btag b) (bset b)) (blkSize t) wbMasterId)\<lparr>rq_secure := isSecure b, rq_task := task_id b\<rparr> in
      bindR (allocate ((Packet_new r Writeback)\<lparr>pk_supply := isWritable b\<rparr>)) (\<lambda>w.
      bindR (getPtr w) (\<lambda>d.
      bindR (memcpy d 0 (bdata b) 0 (uint (blkSize t))) (\<lambda>d'.
      Inr (w\<lparr>pk_data := Some d'\<rparr>,
           upd_blk i (\<lambda>b. b\<lparr>task_id := unknown_task, tickInserted := now, status := status b AND NOT BlkDirty\<rparr>) t))))))"

text \<open>\<open>mshr\<close> answers whether an MSHR for a block exists and, if so, whether it needs
  exclusivity.\<close>

definition allocateBlock :: "(maddr \<Rightarrow> bool \<Rightarrow> bool option) \<Rightarrow> tick \<Rightarrow> maddr \<Rightarrow> bool \<Rightarrow> packet list \<Rightarrow> tagstore \<Rightarrow> (nat option \<times> packet list \<times> tagstore) res" where
  "allocateBlock mshr now a sec wbs t =
     (let i = LRU_findVictim t a; b = blks t ! i in
      if isValid b then
        (case mshr (regenerateBlkAddr t (btag b) (bset b)) (isSecure b) of
           Some exclusive \<Rightarrow>
             bindR (guardR (\<not> isWritable b \<or> isDirty b) AssertFail) (\<lambda>_.
             bindR (guardR exclusive AssertFail) (\<lambda>_. Inr (None, wbs, t)))
         | None \<Rightarrow>
             if isDirty b then bindR (writebackBlk now i t) (\<lambda>(w, t1). Inr (Some i, wbs @ [w], t1))
             else Inr (Some i, wbs, t))
      else Inr (Some i, wbs, t))"

end
