(* ===== verification/Abstract_Mem.thy ===== *)
theory Abstract_Mem imports Packet begin

text \<open>
  The memory at the end of the hierarchy (mem/abstract_mem.cc, mem/abstract_mem.hh, and the
  atomic access of mem/simple_mem.cc): bytes, load locks and counters.  Waking the CPU of a context
  whose lock is cleared is recorded; the random part of the latency is in the latency given.
\<close>

record absmem =
  am_range :: addr_range
  pmem :: "byte list option"
  locked :: "(maddr \<times> int) list"
  woken :: "int list"
  numReads :: "int \<Rightarrow> nat"
  bytesRead :: "int \<Rightarrow> nat"
  bytesInstRead :: "int \<Rightarrow> nat"
  numWrites :: "int \<Rightarrow> nat"
  bytesWritten :: "int \<Rightarrow> nat"
  numOther :: "int \<Rightarrow> nat"
  am_latency :: tick

definition AbstractMemory_new :: "addr_range \<Rightarrow> byte list option \<Rightarrow> tick \<Rightarrow> absmem" where
  "AbstractMemory_new r bs lat =
     \<lparr>am_range = r, pmem = bs, locked = [], woken = [], numReads = (\<lambda>_. 0), bytesRead = (\<lambda>_. 0), bytesInstRead = (\<lambda>_. 0),
      numWrites = (\<lambda>_. 0), bytesWritten = (\<lambda>_. 0), numOther = (\<lambda>_. 0), am_latency = lat\<rparr>"

definition count_up :: "int \<Rightarrow> nat \<Rightarrow> (int \<Rightarrow> nat) \<Rightarrow> int \<Rightarrow> nat" where
  "count_up i n f = f(i := f i + n)"

section \<open>Load locks\<close>

definition lock_mask :: "maddr \<Rightarrow> maddr" where
  "lock_mask a = a AND NOT 0xf"

fun relock :: "int \<Rightarrow> maddr \<Rightarrow> (maddr \<times> int) list \<Rightarrow> (maddr \<times> int) list option" where
  "relock c a [] = None"
| "relock c a ((b, d) # ls) = (if d = c then Some ((a, d) # ls) else map_option (Cons (b, d)) (relock c a ls))"

definition mem_trackLoadLocked :: "packet \<Rightarrow> absmem \<Rightarrow> absmem" where
  "mem_trackLoadLocked p m =
     (let a = lock_mask (rq_paddr (pk_req p)); c = rq_context (pk_req p) in
      case relock c a (locked m) of
        Some ls \<Rightarrow> m\<lparr>locked := ls\<rparr>
      | None \<Rightarrow> m\<lparr>locked := (a, c) # locked m\<rparr>)"

fun own_lock :: "maddr \<Rightarrow> int \<Rightarrow> (maddr \<times> int) list \<Rightarrow> bool" where
  "own_lock a c [] = False"
| "own_lock a c ((b, d) # ls) = (if b = a \<and> d = c then True else own_lock a c ls)"

fun erase_lock :: "maddr \<Rightarrow> (maddr \<times> int) list \<Rightarrow> (maddr \<times> int) list \<times> int list" where
  "erase_lock a [] = ([], [])"
| "erase_lock a ((b, d) # ls) =
     (let (rest, ws) = erase_lock a ls in if b = a then (rest, d # ws) else ((b, d) # rest, ws))"

definition set_extra :: "64 word \<Rightarrow> packet \<Rightarrow> packet" where
  "set_extra x p = p\<lparr>pk_req := (pk_req p)\<lparr>rq_extra := Some x\<rparr>\<rparr>"

definition checkLockedAddrList :: "packet \<Rightarrow> absmem \<Rightarrow> bool \<times> packet \<times> absmem" where
  "checkLockedAddrList p m =
     (let a = lock_mask (rq_paddr (pk_req p));
          allowStore = (if isLLSC p then own_lock a (rq_context (pk_req p)) (locked m) else True);
          p1 = (if isLLSC p then set_extra (if allowStore then 1 else 0) p else p);
          m1 = (if allowStore then (let (ls, ws) = erase_lock a (locked m) in m\<lparr>locked := ls, woken := woken m @ ws\<rparr>) else m) in
      (allowStore, p1, m1))"

definition writeOK :: "packet \<Rightarrow> absmem \<Rightarrow> bool \<times> packet \<times> absmem" where
  "writeOK p m =
     (if locked m = [] then
        if isLLSC p then (False, set_extra 0 p, m) else (True, p, m)
      else checkLockedAddrList p m)"

section \<open>Accesses\<close>

text \<open>The bytes of a value as they lie in memory.\<close>

definition le_bytes :: "nat \<Rightarrow> 64 word \<Rightarrow> byte list" where
  "le_bytes n x = List.map (\<lambda>i. ucast (drop_bit (8 * i) x)) [0..<n]"

text \<open>A swap of a packet with the bytes at offset \<open>off\<close> of \<open>host\<close>; a conditional one compares first.\<close>

definition swap_bytes :: "packet \<Rightarrow> byte list \<Rightarrow> int \<Rightarrow> (packet \<times> byte list \<times> bool) res" where
  "swap_bytes p host off =
     bindR (getPtr p) (\<lambda>d.
     let overwrite_val = take (unat (pk_size p)) d in
     bindR (guardR (length overwrite_val = unat (pk_size p)) OutOfBounds) (\<lambda>_.
     bindR (setData host off p) (\<lambda>p1.
     bindR (if rq_cond_swap (pk_req p) then
              if pk_size p = 8 then
                bindR (getExtraData (pk_req p)) (\<lambda>x. Inr (le_bytes 8 x = take 8 (drop (nat off) host)))
              else if pk_size p = 4 then
                bindR (getExtraData (pk_req p)) (\<lambda>x. Inr (le_bytes 4 x = take 4 (drop (nat off) host)))
              else Inl PanicError
            else Inr True) (\<lambda>overwrite_mem.
     if overwrite_mem then bindR (memcpy host off overwrite_val 0 (uint (pk_size p))) (\<lambda>host'. Inr (p1, host', True))
     else Inr (p1, host, False)))))"

definition mem_access :: "packet \<Rightarrow> absmem \<Rightarrow> (packet \<times> absmem) res" where
  "mem_access p m =
     bindR (isSubset (AddrRange (pk_addr p) (pk_addr p + ucast (pk_size p) - 1)) (am_range m)) (\<lambda>b.
     bindR (guardR b AssertFail) (\<lambda>_.
     if pk_inhibit p then Inr (p, m)
     else
       let off = uint (pk_addr p - r_start (am_range m)); master = rq_master (pk_req p); n = unat (pk_size p) in
       bindR
         (if pk_cmd p = SwapReq then
            (case pmem m of
               None \<Rightarrow> Inl PanicError
             | Some host \<Rightarrow>
                 bindR (swap_bytes p host off) (\<lambda>(p1, host', _).
                 bindR (guardR (\<not> rq_inst_fetch (pk_req p)) AssertFail) (\<lambda>_.
                 Inr (p1, m\<lparr>pmem := Some host', numOther := count_up master 1 (numOther m)\<rparr>))))
          else if isRead p then
            bindR (guardR (\<not> isWrite p) AssertFail) (\<lambda>_.
            let m1 = (if isLLSC p then mem_trackLoadLocked p m else m) in
            bindR (case pmem m1 of None \<Rightarrow> Inr p | Some host \<Rightarrow> setData host off p) (\<lambda>p1.
            Inr (p1, m1\<lparr>numReads := count_up master 1 (numReads m1), bytesRead := count_up master n (bytesRead m1),
                       bytesInstRead := (if rq_inst_fetch (pk_req p) then count_up master n (bytesInstRead m1) else bytesInstRead m1)\<rparr>)))
          else if isInvalidate p then Inr (p, m)
          else if isWrite p then
            (let (ok, p1, m1) = writeOK p m in
             if ok then
               bindR (case pmem m1 of None \<Rightarrow> Inr m1 | Some host \<Rightarrow> bindR (writeData host off p1) (\<lambda>host'. Inr (m1\<lparr>pmem := Some host'\<rparr>))) (\<lambda>m2.
               bindR (guardR (\<not> rq_inst_fetch (pk_req p)) AssertFail) (\<lambda>_.
               Inr (p1, m2\<lparr>numWrites := count_up master 1 (numWrites m2), bytesWritten := count_up master n (bytesWritten m2)\<rparr>)))
             else Inr (p1, m1))
          else Inl PanicError) (\<lambda>(p1, m1).
       if needsResponse p1 then bindR (makeResponse p1) (\<lambda>p2. Inr (p2, m1)) else Inr (p1, m1))))"

definition functionalAccess :: "packet \<Rightarrow> absmem \<Rightarrow> (packet \<times> absmem) res" where
  "functionalAccess p m =
     bindR (isSubset (AddrRange (pk_addr p) (pk_addr p + ucast (pk_size p) - 1)) (am_range m)) (\<lambda>b.
     bindR (guardR b AssertFail) (\<lambda>_.
     let off = uint (pk_addr p - r_start (am_range m)) in
     if isRead p then
       bindR (case pmem m of None \<Rightarrow> Inr p | Some host \<Rightarrow> setData host off p) (\<lambda>p1. bindR (makeResponse p1) (\<lambda>p2. Inr (p2, m)))
     else if isWrite p then
       bindR (case pmem m of None \<Rightarrow> Inr m | Some host \<Rightarrow> bindR (writeData host off p) (\<lambda>host'. Inr (m\<lparr>pmem := Some host'\<rparr>))) (\<lambda>m1.
       bindR (makeResponse p) (\<lambda>p2. Inr (p2, m1)))
     else if isPrint p then Inr (p, m)
     else Inl PanicError))"

text \<open>\<open>SimpleMemory::recvAtomic\<close>.\<close>

definition simple_recvAtomic :: "packet \<Rightarrow> absmem \<Rightarrow> (packet \<times> tick \<times> absmem) res" where
  "simple_recvAtomic p m =
     bindR (mem_access p m) (\<lambda>(p1, m1). Inr (p1, if pk_inhibit p1 then 0 else am_latency m1, m1))"

section \<open>Reads and writes of a memory with one contiguous store\<close>

definition mem_ok :: "absmem \<Rightarrow> byte list \<Rightarrow> bool" where
  "mem_ok m M \<longleftrightarrow> pmem m = Some M \<and> unat (r_start (am_range m)) + length M \<le> 2 ^ 64 \<and>
     unat (r_end (am_range m)) + 1 = unat (r_start (am_range m)) + length M"

definition in_mem :: "absmem \<Rightarrow> maddr \<Rightarrow> nat \<Rightarrow> bool" where
  "in_mem m a n \<longleftrightarrow> unat (r_start (am_range m)) \<le> unat a \<and> unat a + n \<le> unat (r_end (am_range m)) + 1"

definition mem_off :: "absmem \<Rightarrow> maddr \<Rightarrow> nat" where
  "mem_off m a = unat a - unat (r_start (am_range m))"

definition bytes_at :: "nat \<Rightarrow> nat \<Rightarrow> byte list \<Rightarrow> byte list" where
  "bytes_at i n xs = take n (drop i xs)"

definition put_at :: "nat \<Rightarrow> byte list \<Rightarrow> byte list \<Rightarrow> byte list" where
  "put_at i ys xs = take i xs @ ys @ drop (i + length ys) xs"

lemma put_at_length: "i + length ys \<le> length xs \<Longrightarrow> length (put_at i ys xs) = length xs"
  by (simp add: put_at_def)

lemma bytes_at_length: "i + n \<le> length xs \<Longrightarrow> length (bytes_at i n xs) = n"
  by (simp add: bytes_at_def)

lemma bytes_at_put: "i + length ys \<le> length xs \<Longrightarrow> bytes_at i (length ys) (put_at i ys xs) = ys"
  by (simp add: bytes_at_def put_at_def)

lemma bytes_at_nth: "i + n \<le> length xs \<Longrightarrow> k < n \<Longrightarrow> bytes_at i n xs ! k = xs ! (i + k)"
  by (simp add: bytes_at_def)

lemma put_at_nth:
  assumes "i + length ys \<le> length xs" "k < length xs"
  shows "put_at i ys xs ! k = (if i \<le> k \<and> k < i + length ys then ys ! (k - i) else xs ! k)"
  using assms by (auto simp: put_at_def nth_append)

text \<open>A write outside a slice, and one inside it.\<close>

lemma bytes_at_put_other:
  assumes "i + length ys \<le> length xs" "j + n \<le> length xs" "j + n \<le> i \<or> i + length ys \<le> j"
  shows "bytes_at j n (put_at i ys xs) = bytes_at j n xs"
proof (rule nth_equalityI)
  show "length (bytes_at j n (put_at i ys xs)) = length (bytes_at j n xs)"
    using assms by (simp add: bytes_at_length put_at_length)
  fix k assume "k < length (bytes_at j n (put_at i ys xs))"
  then have "k < n" using assms by (simp add: bytes_at_length put_at_length)
  then show "bytes_at j n (put_at i ys xs) ! k = bytes_at j n xs ! k"
    using assms by (auto simp: bytes_at_nth put_at_length put_at_nth)
qed

lemma bytes_at_put_inside:
  assumes "j + n \<le> length xs" "d + length ys \<le> n"
  shows "bytes_at j n (put_at (j + d) ys xs) = put_at d ys (bytes_at j n xs)"
proof (rule nth_equalityI)
  have l: "j + d + length ys \<le> length xs" using assms by simp
  show "length (bytes_at j n (put_at (j + d) ys xs)) = length (put_at d ys (bytes_at j n xs))"
    using assms l by (simp add: bytes_at_length put_at_length)
  fix k assume "k < length (bytes_at j n (put_at (j + d) ys xs))"
  then have "k < n" using assms l by (simp add: bytes_at_length put_at_length)
  then show "bytes_at j n (put_at (j + d) ys xs) ! k = put_at d ys (bytes_at j n xs) ! k"
    using assms l by (auto simp: bytes_at_nth bytes_at_length put_at_length put_at_nth)
qed

lemma bytes_at_bytes_at: "d + k \<le> n \<Longrightarrow> bytes_at d k (bytes_at j n xs) = bytes_at (j + d) k xs"
  by (simp add: bytes_at_def drop_take take_take min_def add.commute)

lemma memcpy_all:
  assumes "length d = n" "j + n \<le> length src"
  shows "memcpy d 0 src (int j) (int n) = Inr (bytes_at j n src)"
  using assms by (simp add: memcpy_def bytes_at_def)

lemma memcpy_put:
  assumes "length d = n" "i + n \<le> length dst"
  shows "memcpy dst (int i) d 0 (int n) = Inr (put_at i d dst)"
  using assms by (simp add: memcpy_def put_at_def nat_add_distrib flip: of_nat_add)

lemma mem_bounds:
  assumes "in_mem m a n" "0 < n" "mem_ok m M"
  shows "isSubset (AddrRange a (a + of_nat n - 1)) (am_range m) = Inr True" "uint (a - r_start (am_range m)) = int (mem_off m a)"
    "mem_off m a + n \<le> length M"
proof -
  have l: "unat (a + of_nat n - 1) = unat a + n - 1" using assms by (intro unat_last) (auto simp: in_mem_def mem_ok_def)
  have "unat a + n - 1 \<le> unat (r_end (am_range m))" using assms(1) by (auto simp: in_mem_def)
  then show "isSubset (AddrRange a (a + of_nat n - 1)) (am_range m) = Inr True"
    using assms(1,2) unfolding isSubset_def in_mem_def by (simp add: AddrRange_def interleaved_def word_le_nat_alt l)
  have "unat (a - r_start (am_range m)) = mem_off m a"
    using assms(1) unfolding mem_off_def in_mem_def by (intro unat_sub) (simp add: word_le_nat_alt)
  then show "uint (a - r_start (am_range m)) = int (mem_off m a)" by (simp add: uint_nat)
  show "mem_off m a + n \<le> length M" using assms by (auto simp: mem_off_def in_mem_def mem_ok_def)
qed

lemma mem_read:
  assumes m: "mem_ok m M" "in_mem m (pk_addr p) (unat (pk_size p))" "0 < unat (pk_size p)"
    and p: "isRead p" "\<not> isWrite p" "\<not> isLLSC p" "needsResponse p" "isRequest p" "\<not> pk_inhibit p" "pk_data p = Some d" "length d = unat (pk_size p)"
  shows "\<exists>m'. mem_access p m = Inr (p\<lparr>pk_data := Some (bytes_at (mem_off m (pk_addr p)) (unat (pk_size p)) M), pk_cmd := responseCommand (pk_cmd p), pk_express := False\<rparr>, m') \<and>
     mem_ok m' M \<and> am_range m' = am_range m \<and> locked m' = locked m \<and> am_latency m' = am_latency m"
proof -
  have u: "word_of_nat (unat (pk_size p)) = (ucast (pk_size p) :: maddr)" by simp
  note B = mem_bounds [OF m(2,3,1), unfolded u]
  have c: "pk_cmd p \<noteq> SwapReq" using p(2) by (auto simp: packet_tests)
  have "uint (pk_size p) = int (unat (pk_size p))" by simp
  then have "setData M (uint (pk_addr p - r_start (am_range m))) p = Inr (p\<lparr>pk_data := Some (bytes_at (mem_off m (pk_addr p)) (unat (pk_size p)) M)\<rparr>)"
    using memcpy_all [OF p(8) B(3)] p(7) B(2) by (simp add: setData_def getPtr_def)
  then show ?thesis using m(1) p c B(1)
    by (simp add: mem_access_def Let_def mem_ok_def makeResponse_def) (simp add: packet_tests)
qed

lemma mem_write:
  assumes m: "mem_ok m M" "in_mem m (pk_addr p) (unat (pk_size p))" "0 < unat (pk_size p)" "locked m = []"
    and p: "isWrite p" "\<not> isRead p" "\<not> isLLSC p" "\<not> isInvalidate p" "isRequest p" "\<not> pk_inhibit p" "pk_data p = Some d" "length d = unat (pk_size p)"
      "\<not> rq_inst_fetch (pk_req p)"
  shows "\<exists>m' p'. mem_access p m = Inr (p', m') \<and> (p' = p \<or> p' = p\<lparr>pk_cmd := responseCommand (pk_cmd p), pk_express := False\<rparr>) \<and>
     mem_ok m' (put_at (mem_off m (pk_addr p)) d M) \<and> am_range m' = am_range m \<and> locked m' = [] \<and> am_latency m' = am_latency m"
proof -
  have u: "word_of_nat (unat (pk_size p)) = (ucast (pk_size p) :: maddr)" by simp
  note B = mem_bounds [OF m(2,3,1), unfolded u]
  have c: "pk_cmd p \<noteq> SwapReq" using p(2) by (auto simp: packet_tests)
  have "uint (pk_size p) = int (unat (pk_size p))" by simp
  then have w: "writeData M (uint (pk_addr p - r_start (am_range m))) p = Inr (put_at (mem_off m (pk_addr p)) d M)"
    using memcpy_put [OF p(8) B(3)] p(7) B(2) by (simp add: writeData_def getPtr_def)
  have l: "length (put_at (mem_off m (pk_addr p)) d M) = length M" using B(3) p(8) by (simp add: put_at_length)
  show ?thesis using m(1,4) p c B(1) w l
    by (cases "needsResponse p") (simp_all add: mem_access_def Let_def mem_ok_def makeResponse_def writeOK_def)
qed

end
