(* ===== verification/Cache.thy ===== *)
theory Cache imports Cache_Tags Abstract_Mem begin

text \<open>
  The cache in atomic mode (mem/cache/cache_impl.hh, with the counters of base.hh): requests from
  the CPU side, misses that go to the memory side, fills, write backs and the visitors that empty
  the cache.  What lies on the memory side is an argument.  \<open>now\<close> is the current tick and \<open>edge\<close> the
  clock edge of the access (\<open>Clocked\<close>).
\<close>

record cache =
  tags :: tagstore
  tempBlock :: cblk
  isTopLevel :: bool
  doFastWrites :: bool
  bypassCaches :: bool
  lookupLatency :: tick
  fillLatency :: tick
  hits :: "mem_cmd \<Rightarrow> int \<Rightarrow> nat"
  misses :: "mem_cmd \<Rightarrow> int \<Rightarrow> nat"
  missCount :: nat
  exitLoop :: bool

text \<open>A block of the cache is one of the tag store or the temporary block.\<close>

datatype blk_ref = Way nat | Temp

fun get_blk :: "blk_ref \<Rightarrow> cache \<Rightarrow> cblk" where
  "get_blk (Way i) c = blks (tags c) ! i"
| "get_blk Temp c = tempBlock c"

fun put_blk :: "blk_ref \<Rightarrow> cblk \<Rightarrow> cache \<Rightarrow> cache" where
  "put_blk (Way i) b c = c\<lparr>tags := (tags c)\<lparr>blks := (blks (tags c))[i := b]\<rparr>\<rparr>"
| "put_blk Temp b c = c\<lparr>tempBlock := b\<rparr>"

definition Cache_new :: "tagstore \<Rightarrow> bool \<Rightarrow> bool \<Rightarrow> tick \<Rightarrow> tick \<Rightarrow> nat \<Rightarrow> cache" where
  "Cache_new t top_level bypass hit_latency response_latency max_misses =
     \<lparr>tags = t, tempBlock = CacheBlk_new\<lparr>bdata := replicate (unat (blkSize t)) 0\<rparr>, isTopLevel = top_level, doFastWrites = True, bypassCaches = bypass,
      lookupLatency = hit_latency, fillLatency = response_latency, hits = (\<lambda>_ _. 0), misses = (\<lambda>_ _. 0), missCount = max_misses, exitLoop = False\<rparr>"

section \<open>Counters\<close>

definition incHitCount :: "packet \<Rightarrow> cache \<Rightarrow> cache res" where
  "incHitCount p c =
     (let i = rq_master (pk_req p) in
      bindR (guardR (i < maxMasters (tags c)) AssertFail) (\<lambda>_.
      Inr (c\<lparr>hits := (hits c)(pk_cmd p := (hits c (pk_cmd p))(i := hits c (pk_cmd p) i + 1))\<rparr>)))"

definition incMissCount :: "packet \<Rightarrow> cache \<Rightarrow> cache res" where
  "incMissCount p c =
     (let i = rq_master (pk_req p) in
      bindR (guardR (i < maxMasters (tags c)) AssertFail) (\<lambda>_.
      let c1 = c\<lparr>misses := (misses c)(pk_cmd p := (misses c (pk_cmd p))(i := misses c (pk_cmd p) i + 1))\<rparr> in
      Inr (if missCount c1 \<noteq> 0 then
             let c2 = c1\<lparr>missCount := missCount c1 - 1\<rparr> in if missCount c2 = 0 then c2\<lparr>exitLoop := True\<rparr> else c2
           else c1)))"

section \<open>Satisfying a request\<close>

definition tags_invalidate :: "tick \<Rightarrow> nat \<Rightarrow> cache \<Rightarrow> cache res" where
  "tags_invalidate now i c =
     bindR (LRU_invalidate now i (tags c)) (\<lambda>t. Inr (c\<lparr>tags := upd_blk i invalidate_blk t\<rparr>))"

definition cmpAndSwap :: "blk_ref \<Rightarrow> packet \<Rightarrow> cache \<Rightarrow> (packet \<times> cache) res" where
  "cmpAndSwap blk p c =
     (let b = get_blk blk c; offset = extractBlkOffset (tags c) (pk_addr p) in
      bindR (guardR (isRequest p) AssertFail) (\<lambda>_.
      bindR (guardR (pk_size p \<le> 8) AssertFail) (\<lambda>_.
      bindR (swap_bytes p (bdata b) offset) (\<lambda>(p1, d, overwrite_mem).
      Inr (p1, put_blk blk (if overwrite_mem then b\<lparr>bdata := d, status := status b OR BlkDirty\<rparr> else b) c)))))"

definition satisfyCpuSideRequest :: "tick \<Rightarrow> packet \<Rightarrow> blk_ref \<Rightarrow> bool \<Rightarrow> bool \<Rightarrow> cache \<Rightarrow> (packet \<times> cache) res" where
  "satisfyCpuSideRequest now p blk deferred_response pending_downgrade c =
     (let b = get_blk blk c; size = blkSize (tags c) in
      bindR (guardR (isRequest p) AssertFail) (\<lambda>_.
      bindR (guardR (isValid b) AssertFail) (\<lambda>_.
      bindR (guardR (getOffset size p + ucast (pk_size p) \<le> ucast size) AssertFail) (\<lambda>_.
      if pk_cmd p = SwapReq then cmpAndSwap blk p c
      else if isWrite p \<and> (\<not> isWriteInvalidate p \<or> isTopLevel c) then
        bindR (guardR (isWritable b) AssertFail) (\<lambda>_.
        let (ok, p1, b1) = checkWrite p b in
        bindR (if ok then writeDataToBlock (bdata b1) size p1 else Inr (bdata b1)) (\<lambda>d.
        Inr (p1, put_blk blk (b1\<lparr>bdata := d, status := status b1 OR BlkDirty\<rparr>) c)))
      else if isRead p then
        bindR (if isLLSC p then trackLoadLocked p b else Inr b) (\<lambda>b1.
        bindR (setDataFromBlock (bdata b1) size p) (\<lambda>p1.
        let c1 = put_blk blk b1 c in
        if pk_size p1 = size then
          if needsExclusive p1 then
            bindR (if isDirty b1 then assertMemInhibit p1 else Inr p1) (\<lambda>p2.
            case blk of
              Temp \<Rightarrow> Inr (p2, put_blk Temp (invalidate_blk b1) c1)
            | Way i \<Rightarrow> bindR (tags_invalidate now i c1) (\<lambda>c2. Inr (p2, c2)))
          else if isWritable b1 \<and> \<not> pending_downgrade \<and> \<not> pk_shared p1 \<and> \<not> rq_inst_fetch (pk_req p1) then
            if isDirty b1 then
              if \<not> deferred_response \<and> \<not> isTopLevel c1 then
                bindR (assertMemInhibit p1) (\<lambda>p2. Inr (p2, put_blk blk (b1\<lparr>status := status b1 AND NOT BlkDirty\<rparr>) c1))
              else Inr (p1\<lparr>pk_shared := True\<rparr>, c1)
            else Inr (p1, c1)
          else Inr (p1\<lparr>pk_shared := True\<rparr>, c1)
        else Inr (p1, c1)))
      else
        bindR (guardR (isUpgrade p \<or> isWriteInvalidate p \<and> \<not> isTopLevel c) AssertFail) (\<lambda>_.
        case blk of
          Temp \<Rightarrow> Inl AssertFail
        | Way i \<Rightarrow> bindR (tags_invalidate now i c) (\<lambda>c1. Inr (p, c1)))))))"

section \<open>Access\<close>

text \<open>Flushing a block before an uncacheable access.\<close>

definition flush_blk :: "tick \<Rightarrow> packet \<Rightarrow> cache \<Rightarrow> (packet list \<times> cache) res" where
  "flush_blk now p c =
     (case findBlock (tags c) (pk_addr p) (pk_secure p) of
        None \<Rightarrow> Inr ([], c)
      | Some i \<Rightarrow>
          if isValid (blks (tags c) ! i) then
            bindR (if isDirty (blks (tags c) ! i) then bindR (writebackBlk now i (tags c)) (\<lambda>(w, t). Inr ([w], c\<lparr>tags := t\<rparr>)) else Inr ([], c)) (\<lambda>(wbs, c1).
            bindR (tags_invalidate now i c1) (\<lambda>c2. Inr (wbs, c2)))
          else Inr ([], c))"

text \<open>A write back from a cache above: the block is allocated if it is not there.\<close>

definition put_writeback :: "packet \<Rightarrow> nat \<Rightarrow> cache \<Rightarrow> cache res" where
  "put_writeback p i c =
     (let b = blks (tags c) ! i;
          st1 = status b OR BlkDirty; st2 = (if pk_supply p then st1 OR BlkWritable else st1) in
      bindR (guardR (\<not> needsResponse p) AssertFail) (\<lambda>_.
      bindR (getPtr p) (\<lambda>d.
      bindR (memcpy (bdata b) 0 d 0 (uint (blkSize (tags c)))) (\<lambda>d'.
      Inr (put_blk (Way i) (b\<lparr>status := st2, bdata := d'\<rparr>) c)))))"

definition access_writeback :: "(maddr \<Rightarrow> bool \<Rightarrow> bool option) \<Rightarrow> tick \<Rightarrow> packet \<Rightarrow> nat option \<Rightarrow> cache \<Rightarrow> (bool \<times> nat option \<times> packet list \<times> cache) res" where
  "access_writeback mshr now p blk c =
     bindR (guardR (blkSize (tags c) = pk_size p) AssertFail) (\<lambda>_.
     case blk of
       Some i \<Rightarrow> bindR (put_writeback p i c) (\<lambda>c1. bindR (incHitCount p c1) (\<lambda>c2. Inr (True, Some i, [], c2)))
     | None \<Rightarrow>
         bindR (allocateBlock mshr now (pk_addr p) (pk_secure p) [] (tags c)) (\<lambda>(r, wbs, t1).
         case r of
           None \<Rightarrow> bindR (incMissCount p (c\<lparr>tags := t1\<rparr>)) (\<lambda>c1. Inr (False, None, wbs, c1))
         | Some i \<Rightarrow>
             bindR (LRU_insertBlock now (pk_addr p) (rq_master (pk_req p)) (rq_task (pk_req p)) i t1) (\<lambda>t2.
             let b = blks t2 ! i; st = BlkValid OR BlkReadable; st1 = (if pk_secure p then st OR BlkSecure else st) in
             bindR (put_writeback p i (put_blk (Way i) (b\<lparr>status := st1\<rparr>) (c\<lparr>tags := t2\<rparr>))) (\<lambda>c1.
             bindR (incHitCount p c1) (\<lambda>c2. Inr (True, Some i, wbs, c2))))))"

text \<open>\<open>access\<close> tells whether the request is satisfied; further the block found, the latency, the
  write backs and the packet.\<close>

definition cache_access :: "(maddr \<Rightarrow> bool \<Rightarrow> bool option) \<Rightarrow> tick \<Rightarrow> packet \<Rightarrow> cache \<Rightarrow> (bool \<times> nat option \<times> tick \<times> packet list \<times> packet \<times> cache) res" where
  "cache_access mshr now p c =
     bindR (guardR (isRequest p) AssertFail) (\<lambda>_.
     if rq_uncacheable (pk_req p) then
       let c0 = (if rq_clear_ll (pk_req p) then c\<lparr>tags := clearLocks (tags c)\<rparr> else c) in
       bindR (flush_blk now p c0) (\<lambda>(wbs, c1). Inr (False, None, lookupLatency c1, wbs, p, c1))
     else
       bindR (LRU_accessBlock now (pk_addr p) (pk_secure p) (tags c)) (\<lambda>(blk, lat, t1).
       let c1 = c\<lparr>tags := t1\<rparr> in
       if pk_cmd p = Writeback then
         bindR (access_writeback mshr now p blk c1) (\<lambda>(done, blk', wbs, c2). Inr (done, blk', lat, wbs, p, c2))
       else if (case blk of None \<Rightarrow> False | Some i \<Rightarrow> if needsExclusive p then isWritable (blks t1 ! i) else isReadable (blks t1 ! i)) then
         bindR (incHitCount p c1) (\<lambda>c2.
         bindR (satisfyCpuSideRequest now p (Way (the blk)) False False c2) (\<lambda>(p1, c3). Inr (True, blk, lat, [], p1, c3)))
       else
         bindR (incMissCount p c1) (\<lambda>c2.
         if blk = None \<and> isLLSC p \<and> isWrite p then Inr (True, None, lat, [], set_extra 0 p, c2)
         else Inr (False, blk, lat, [], p, c2))))"

section \<open>Misses\<close>

definition blockAlign :: "tagstore \<Rightarrow> maddr \<Rightarrow> maddr" where
  "blockAlign t a = a AND NOT (ucast (blkSize t - 1))"

text \<open>The packet to send for a miss; \<open>None\<close> means that the request itself is forwarded.\<close>

definition bus_cmd :: "packet \<Rightarrow> nat option \<Rightarrow> bool \<Rightarrow> cache \<Rightarrow> mem_cmd res" where
  "bus_cmd cpu blk needs_excl c =
     (case blk of
        Some i \<Rightarrow>
          bindR (guardR needs_excl AssertFail) (\<lambda>_.
          bindR (guardR (\<not> isWritable (blks (tags c) ! i)) AssertFail) (\<lambda>_.
          Inr (if isLLSC cpu then SCUpgradeReq else UpgradeReq)))
      | None \<Rightarrow>
          Inr (if pk_cmd cpu = SCUpgradeFailReq \<or> pk_cmd cpu = StoreCondFailReq then SCUpgradeFailReq
               else if isWriteInvalidate cpu then pk_cmd cpu
               else if needs_excl then ReadExReq else ReadReq))"

definition getBusPacket :: "packet \<Rightarrow> nat option \<Rightarrow> bool \<Rightarrow> cache \<Rightarrow> packet option res" where
  "getBusPacket cpu blk0 needs_excl c =
     (let blk = (case blk0 of None \<Rightarrow> None | Some i \<Rightarrow> if isValid (blks (tags c) ! i) then Some i else None) in
      if rq_uncacheable (pk_req cpu) then Inr None
      else if blk = None \<and> (pk_cmd cpu = Writeback \<or> isUpgrade cpu) then Inr None
      else
        bindR (guardR (needsResponse cpu) AssertFail) (\<lambda>_.
        bindR (bus_cmd cpu blk needs_excl c) (\<lambda>cmd.
        let p = Packet_block (pk_req cpu) cmd (blkSize (tags c));
            p1 = (if pk_shared cpu then p\<lparr>pk_shared := True\<rparr> else p) in
        bindR (guardR (pk_addr p1 = blockAlign (tags c) (pk_addr p1)) AssertFail) (\<lambda>_.
        bindR (allocate p1) (\<lambda>p2. Inr (Some p2))))))"

definition fill_status :: "packet \<Rightarrow> 32 word \<Rightarrow> 32 word" where
  "fill_status p st =
     (let st1 = (if pk_secure p then st OR BlkSecure else st);
          st2 = st1 OR (BlkValid OR BlkReadable) in
      if \<not> pk_shared p then (let st3 = st2 OR BlkWritable in if pk_inhibit p then st3 OR BlkDirty else st3) else st2)"

text \<open>The last part of \<open>handleFill\<close>: status, data of a read and the time it is ready.\<close>

definition fill_block :: "tick \<Rightarrow> packet \<Rightarrow> blk_ref \<Rightarrow> cache \<Rightarrow> cache res" where
  "fill_block edge p blk c =
     (let b = get_blk blk c; b1 = b\<lparr>status := fill_status p (status b)\<rparr> in
      bindR (if isRead p then
               bindR (guardR (hasData p) AssertFail) (\<lambda>_.
               bindR (guardR (pk_size p = blkSize (tags c)) AssertFail) (\<lambda>_.
               bindR (getPtr p) (\<lambda>d. memcpy (bdata b1) 0 d 0 (uint (blkSize (tags c))))))
             else Inr (bdata b1)) (\<lambda>d'.
      Inr (put_blk blk (b1\<lparr>bdata := d', whenReady := edge + fillLatency c * tag_period (tags c) + ucast (payloadDelay p)\<rparr>) c)))"

definition handleFill :: "(maddr \<Rightarrow> bool \<Rightarrow> bool option) \<Rightarrow> tick \<Rightarrow> tick \<Rightarrow> packet \<Rightarrow> nat option \<Rightarrow> packet list \<Rightarrow> cache \<Rightarrow> (blk_ref \<times> packet list \<times> cache) res" where
  "handleFill mshr now edge p blk wbs c =
     bindR (guardR (isResponse p \<or> isWriteInvalidate p) AssertFail) (\<lambda>_.
     bindR
       (case blk of
          None \<Rightarrow>
            bindR (guardR (hasData p) AssertFail) (\<lambda>_.
            bindR (guardR (isRead p \<or> isWriteInvalidate p) AssertFail) (\<lambda>_.
            bindR (allocateBlock mshr now (pk_addr p) (pk_secure p) wbs (tags c)) (\<lambda>(r, wbs1, t1).
            bindR
              (case r of
                 None \<Rightarrow>
                   bindR (guardR (\<not> isValid (tempBlock c)) AssertFail) (\<lambda>_.
                   Inr (Temp, c\<lparr>tags := t1, tempBlock := (tempBlock c)\<lparr>bset := extractSet t1 (pk_addr p), btag := extractTag t1 (pk_addr p)\<rparr>\<rparr>))
               | Some i \<Rightarrow>
                   bindR (LRU_insertBlock now (pk_addr p) (rq_master (pk_req p)) (rq_task (pk_req p)) i t1) (\<lambda>t2. Inr (Way i, c\<lparr>tags := t2\<rparr>))) (\<lambda>(ref, c1).
            bindR (guardR (\<not> isValid (get_blk ref c1)) AssertFail) (\<lambda>_. Inr (ref, wbs1, c1))))))
        | Some i \<Rightarrow>
            bindR (guardR (btag (blks (tags c) ! i) = extractTag (tags c) (pk_addr p)) AssertFail) (\<lambda>_.
            bindR (guardR (hasData p \<or> isValid (blks (tags c) ! i)) AssertFail) (\<lambda>_. Inr (Way i, wbs, c)))) (\<lambda>(ref, wbs1, c1).
     bindR (fill_block edge p ref c1) (\<lambda>c2. Inr (ref, wbs1, c2))))"

section \<open>Atomic accesses\<close>

definition promoteWholeLineWrites :: "packet \<Rightarrow> cache \<Rightarrow> packet res" where
  "promoteWholeLineWrites p c =
     (if doFastWrites c \<and> pk_cmd p = WriteReq \<and> pk_size p = blkSize (tags c) \<and> getOffset (blkSize (tags c)) p = 0 then
        bindR (guardR (isTopLevel c) AssertFail) (\<lambda>_. Inr (p\<lparr>pk_cmd := WriteInvalidateReq\<rparr>))
      else Inr p)"

text \<open>\<open>send\<close> is \<open>sendAtomic\<close> of the port on the memory side.\<close>

fun send_writebacks :: "(packet \<Rightarrow> 'm \<Rightarrow> (packet \<times> tick \<times> 'm) res) \<Rightarrow> packet list \<Rightarrow> 'm \<Rightarrow> 'm res" where
  "send_writebacks send [] m = Inr m"
| "send_writebacks send (w # ws) m = bindR (send w m) (\<lambda>(_, _, m1). send_writebacks send ws m1)"

definition cache_cycles :: "cache \<Rightarrow> tick \<Rightarrow> tick res" where
  "cache_cycles c t = divCeil t (tag_period (tags c))"

text \<open>What the cache does with the response to a packet of its own.  The request is shared between
  the two packets.\<close>

definition bus_response :: "(maddr \<Rightarrow> bool \<Rightarrow> bool option) \<Rightarrow> tick \<Rightarrow> tick \<Rightarrow> packet \<Rightarrow> packet \<Rightarrow> nat option \<Rightarrow> cache \<Rightarrow> (packet \<times> packet list \<times> cache) res" where
  "bus_response mshr now edge bus p blk c =
     (if needsResponse p then
        bindR (guardR (isResponse bus) AssertFail) (\<lambda>_.
        if isError bus then bindR (makeResponse p) (\<lambda>p1. bindR (copyError bus p1) (\<lambda>p2. Inr (p2, [], c)))
        else if isWriteInvalidate p then
          if isTopLevel c then
            bindR (handleFill mshr now edge p blk [] c) (\<lambda>(ref, wbs, c1).
            bindR (satisfyCpuSideRequest now p ref False False c1) (\<lambda>(p1, c2). Inr (p1, wbs, c2)))
          else
            (case blk of
               None \<Rightarrow> Inr (p, [], c)
             | Some i \<Rightarrow> bindR (satisfyCpuSideRequest now p (Way i) False False c) (\<lambda>(p1, c1). Inr (p1, [], c1)))
        else if isRead bus \<or> pk_cmd bus = UpgradeResp then
          bindR (handleFill mshr now edge bus blk [] c) (\<lambda>(ref, wbs, c1).
          bindR (satisfyCpuSideRequest now p ref False False c1) (\<lambda>(p1, c2). Inr (p1, wbs, c2)))
        else bindR (makeResponse p) (\<lambda>p1. Inr (p1, [], c)))
      else Inr (p, [], c))"

definition atomic_miss :: "(maddr \<Rightarrow> bool \<Rightarrow> bool option) \<Rightarrow> tick \<Rightarrow> tick \<Rightarrow> (packet \<Rightarrow> 'm \<Rightarrow> (packet \<times> tick \<times> 'm) res) \<Rightarrow>
    packet \<Rightarrow> nat option \<Rightarrow> tick \<Rightarrow> cache \<Rightarrow> 'm \<Rightarrow> (packet \<times> tick \<times> packet list \<times> cache \<times> 'm) res" where
  "atomic_miss mshr now edge send p blk lat c m =
     bindR (getBusPacket p blk (needsExclusive p) c) (\<lambda>bus0.
     case bus0 of
       None \<Rightarrow> bindR (send p m) (\<lambda>(p1, t, m1). bindR (cache_cycles c t) (\<lambda>cy. Inr (p1, lat + cy, [], c, m1)))
     | Some bus \<Rightarrow>
         bindR (send bus m) (\<lambda>(bus1, t, m1).
         bindR (cache_cycles c t) (\<lambda>cy.
         bindR (bus_response mshr now edge bus1 (p\<lparr>pk_req := pk_req bus1\<rparr>) blk c) (\<lambda>(p1, wbs, c1). Inr (p1, lat + cy, wbs, c1, m1)))))"

definition inhibited_request :: "tick \<Rightarrow> (packet \<Rightarrow> 'm \<Rightarrow> (packet \<times> tick \<times> 'm) res) \<Rightarrow> packet \<Rightarrow> cache \<Rightarrow> 'm \<Rightarrow> (packet \<times> tick \<times> cache \<times> 'm) res" where
  "inhibited_request now send p c m =
     (if isInvalidate p then
        bindR (case findBlock (tags c) (pk_addr p) (pk_secure p) of
                 None \<Rightarrow> Inr c
               | Some i \<Rightarrow> if isValid (blks (tags c) ! i) then tags_invalidate now i c else Inr c) (\<lambda>c1.
        bindR (send p m) (\<lambda>(p1, t, m1). bindR (cache_cycles c1 t) (\<lambda>cy.
        Inr (p1, (lookupLatency c1 + cy) * tag_period (tags c1), c1, m1))))
      else Inr (p, lookupLatency c * tag_period (tags c), c, m))"

text \<open>A request that is not inhibited: lookup, miss and write backs, in the code's order.\<close>

definition atomic_access :: "(maddr \<Rightarrow> bool \<Rightarrow> bool option) \<Rightarrow> tick \<Rightarrow> tick \<Rightarrow> (packet \<Rightarrow> 'm \<Rightarrow> (packet \<times> tick \<times> 'm) res) \<Rightarrow>
    packet \<Rightarrow> cache \<Rightarrow> 'm \<Rightarrow> (packet \<times> tick \<times> cache \<times> 'm) res" where
  "atomic_access mshr now edge send p c m =
     bindR (cache_access mshr now p c) (\<lambda>(satisfied, blk, lat, wbs, p1, c1).
     bindR (send_writebacks send wbs m) (\<lambda>m1.
     bindR (if satisfied then Inr (p1, lat, [], c1, m1) else atomic_miss mshr now edge send p1 blk lat c1 m1) (\<lambda>(p2, lat2, wbs2, c2, m2).
     bindR (send_writebacks send wbs2 m2) (\<lambda>m3.
     bindR (if needsResponse p2 then makeResponse p2 else Inr p2) (\<lambda>p3.
     Inr (p3, lat2 * tag_period (tags c2), c2, m3))))))"

definition cache_recvAtomic :: "(maddr \<Rightarrow> bool \<Rightarrow> bool option) \<Rightarrow> tick \<Rightarrow> tick \<Rightarrow> (packet \<Rightarrow> 'm \<Rightarrow> (packet \<times> tick \<times> 'm) res) \<Rightarrow>
    packet \<Rightarrow> cache \<Rightarrow> 'm \<Rightarrow> (packet \<times> tick \<times> cache \<times> 'm) res" where
  "cache_recvAtomic mshr now edge send p0 c m =
     (if bypassCaches c then bindR (send p0 m) (\<lambda>(p1, t, m1). bindR (cache_cycles c t) (\<lambda>cy. Inr (p1, cy, c, m1)))
      else
        bindR (promoteWholeLineWrites p0 c) (\<lambda>p.
        if pk_inhibit p then inhibited_request now send p c m else atomic_access mshr now edge send p c m))"

section \<open>Visitors\<close>

text \<open>A visitor changes a block's status and sends a functional packet to the memory side.\<close>

definition writebackVisitor :: "(packet \<Rightarrow> 'm \<Rightarrow> (packet \<times> 'm) res) \<Rightarrow> nat \<Rightarrow> cache \<times> 'm \<Rightarrow> (cache \<times> 'm) res" where
  "writebackVisitor send_functional i = (\<lambda>(c, m).
     let t = tags c; b = blks t ! i in
     if isDirty b then
       bindR (guardR (isValid b) AssertFail) (\<lambda>_.
       let r = (Request_new (regenerateBlkAddr t (btag b) (bset b)) (blkSize t) funcMasterId)\<lparr>rq_task := task_id b\<rparr>;
           p = (Packet_new r WriteReq)\<lparr>pk_data := Some (bdata b)\<rparr> in
       bindR (send_functional p m) (\<lambda>(_, m1). Inr (put_blk (Way i) (b\<lparr>status := status b AND NOT BlkDirty\<rparr>) c, m1)))
     else Inr (c, m))"

definition memWriteback :: "(packet \<Rightarrow> 'm \<Rightarrow> (packet \<times> 'm) res) \<Rightarrow> cache \<Rightarrow> 'm \<Rightarrow> (cache \<times> 'm) res" where
  "memWriteback send_functional c m = forR (writebackVisitor send_functional) [0..<numSets (tags c) * assoc (tags c)] (c, m)"

definition invalidateVisitor :: "tick \<Rightarrow> nat \<Rightarrow> cache \<Rightarrow> cache res" where
  "invalidateVisitor now i c =
     (let b = blks (tags c) ! i in
      if isValid b then bindR (guardR (\<not> isDirty b) AssertFail) (\<lambda>_. tags_invalidate now i c) else Inr c)"

definition memInvalidate :: "tick \<Rightarrow> cache \<Rightarrow> cache res" where
  "memInvalidate now c = forR (invalidateVisitor now) [0..<numSets (tags c) * assoc (tags c)] c"

definition cache_isDirty :: "cache \<Rightarrow> bool" where
  "cache_isDirty c = list_ex isDirty (take (numSets (tags c) * assoc (tags c)) (blks (tags c)))"

end
