(* ===== verification/Cache_LRU.thy ===== *)
theory Cache_LRU imports Cache_Tags begin

text \<open>
  The tag store with least recently used replacement implements, in every set, the list of the
  last distinct lines used: reads and invalidations are operations on that list, and a cache with
  more ways hits whenever one with fewer ways does.
\<close>

section \<open>The lists of ways\<close>

lemma head_loop_ok:
  "b \<in> set rest \<Longrightarrow> head_loop (pre @ rest) b (length pre) nxt = Inr (pre @ nxt # remove1 b rest)"
proof (induction rest arbitrary: pre nxt)
  case (Cons x rest)
  show ?case
  proof (cases "x = b")
    case True
    then show ?thesis by (subst head_loop.simps) (simp add: Let_def)
  next
    case False
    then have "head_loop (pre @ x # rest) b (length pre) nxt = head_loop ((pre @ [nxt]) @ rest) b (length (pre @ [nxt])) x"
      by (subst head_loop.simps) (simp add: Let_def)
    also have "\<dots> = Inr ((pre @ [nxt]) @ x # remove1 b rest)" by (rule Cons.IH) (use Cons.prems False in simp)
    finally show ?thesis using False by simp
  qed
qed simp

lemma moveToHead_ok:
  assumes "b \<in> set xs"
  shows "moveToHead b xs = Inr (b # remove1 b xs)"
  using assms head_loop_ok [of b xs "[]" b] by (cases xs) (auto simp: moveToHead_def)

lemma tail_loop_ok:
  "b \<in> set pre \<Longrightarrow> distinct pre \<Longrightarrow> tail_loop (pre @ x # post) b (Suc (length pre)) nxt =
     (if x = b then Inr (pre @ nxt # post) else Inr (remove1 b pre @ x # nxt # post))"
proof (induction pre arbitrary: x post nxt rule: rev_induct)
  case (snoc y pre)
  show ?case
  proof (cases "x = b")
    case True
    then show ?thesis by (simp add: Let_def nth_append list_update_append)
  next
    case False
    have "tail_loop ((pre @ [y]) @ x # post) b (Suc (length (pre @ [y]))) nxt = tail_loop (pre @ y # nxt # post) b (Suc (length pre)) x"
      using False by (simp add: Let_def nth_append list_update_append)
    also have "\<dots> = Inr (remove1 b (pre @ [y]) @ x # nxt # post)"
    proof (cases "y = b")
      case True
      then have "b \<notin> set pre" using snoc.prems by simp
      then show ?thesis using True by (simp add: Let_def nth_append list_update_append remove1_append)
    next
      case y: False
      then have "b \<in> set pre" "distinct pre" using snoc.prems by simp_all
      then show ?thesis using snoc.IH [of y "nxt # post" x] y by (simp add: remove1_append)
    qed
    finally show ?thesis using False by simp
  qed
qed simp

lemma moveToTail_ok:
  assumes "b \<in> set xs" "distinct xs"
  shows "moveToTail b xs = Inr (remove1 b xs @ [b])"
proof -
  obtain pre x where xs: "xs = pre @ [x]" using assms(1) by (cases xs rule: rev_cases) auto
  show ?thesis
  proof (cases "x = b")
    case True
    then have "b \<notin> set pre" using assms(2) xs by simp
    then show ?thesis using xs True by (simp add: moveToTail_def nth_append remove1_append)
  next
    case False
    then have b: "b \<in> set pre" using assms(1) xs by simp
    then show ?thesis using tail_loop_ok [of b pre x "[]" b] assms(2) xs False
      by (simp add: moveToTail_def nth_append remove1_append)
  qed
qed

section \<open>The invariant\<close>

definition key :: "cblk \<Rightarrow> maddr \<times> bool" where
  "key b = (btag b, isSecure b)"

text \<open>A set: valid blocks with distinct keys, then the others.\<close>

definition set_ok :: "cblk list \<Rightarrow> nat list \<Rightarrow> bool" where
  "set_ok bl xs \<longleftrightarrow> (\<exists>vs is. xs = vs @ is \<and> (\<forall>i\<in>set vs. isValid (bl ! i)) \<and> (\<forall>i\<in>set is. \<not> isValid (bl ! i)) \<and>
     distinct (List.map (\<lambda>i. key (bl ! i)) vs))"

text \<open>A block: its data is one line, and a valid one holds a line of its set.\<close>

definition blk_ok :: "tagstore \<Rightarrow> cblk \<Rightarrow> bool" where
  "blk_ok t b \<longleftrightarrow> length (bdata b) = unat (blkSize t) \<and>
     (if isValid b then srcMasterId b < maxMasters t \<and> (\<exists>a. btag b = extractTag t a \<and> bset b = extractSet t a) else status b = 0)"

definition tags_ok :: "tagstore \<Rightarrow> bool" where
  "tags_ok t \<longleftrightarrow> 0 < assoc t \<and> length (sets t) = numSets t \<and> length (blks t) = numSets t * assoc t \<and>
     (\<forall>s < numSets t. distinct (sets t ! s) \<and> length (sets t ! s) = assoc t \<and>
        set (sets t ! s) = {i. i < length (blks t) \<and> bset (blks t ! i) = s} \<and> set_ok (blks t) (sets t ! s)) \<and>
     (\<exists>k. numSets t = 2 ^ k \<and> k < 32) \<and> setMask t = of_nat (numSets t) - 1 \<and>
     (\<forall>b\<in>set (blks t). blk_ok t b) \<and> tag_period t \<noteq> 0"

text \<open>What a set holds, the most recently used line first.\<close>

definition held :: "cblk list \<Rightarrow> nat list \<Rightarrow> (maddr \<times> bool) list" where
  "held bl xs = List.map (\<lambda>i. key (bl ! i)) (filter (\<lambda>i. isValid (bl ! i)) xs)"

definition contents :: "tagstore \<Rightarrow> nat \<Rightarrow> (maddr \<times> bool) list" where
  "contents t s = held (blks t) (sets t ! s)"

text \<open>Reading a line of a list of lines with \<open>n\<close> places.\<close>

definition lru_use :: "nat \<Rightarrow> 'k \<Rightarrow> 'k list \<Rightarrow> 'k list" where
  "lru_use n k xs = take n (k # remove1 k xs)"

lemma extractSet_less:
  assumes "tags_ok t"
  shows "extractSet t a < numSets t"
proof -
  obtain k where k: "numSets t = 2 ^ k" "k < 32" "setMask t = of_nat (numSets t) - 1" using assms by (auto simp: tags_ok_def)
  have "setMask t = mask k" unfolding k(3) k(1) by (simp add: mask_eq_exp_minus_1)
  then have "ucast (setMask t) = (mask k :: maddr)" using k(2) by (simp add: ucast_mask_eq min_def)
  then have "extractSet t a = unat (take_bit k (drop_bit (setShift t) a))" by (simp add: extractSet_def take_bit_eq_mask)
  also have "\<dots> = take_bit k (unat (drop_bit (setShift t) a))" by (rule unsigned_take_bit_eq)
  also have "\<dots> < 2 ^ k" by (rule take_bit_nat_less_exp)
  finally show ?thesis using k(1) by simp
qed

lemma held_append: "held bl (xs @ ys) = held bl xs @ held bl ys"
  by (simp add: held_def)

lemma held_valid: "\<forall>i\<in>set xs. isValid (bl ! i) \<Longrightarrow> held bl xs = List.map (\<lambda>i. key (bl ! i)) xs"
  by (simp add: held_def)

lemma held_invalid: "\<forall>i\<in>set xs. \<not> isValid (bl ! i) \<Longrightarrow> held bl xs = []"
  by (simp add: held_def)

lemma held_distinct: "set_ok bl xs \<Longrightarrow> distinct (held bl xs)"
  by (auto simp: set_ok_def held_append held_valid held_invalid)

lemma find_way_None: "find_way bl tg sec xs = None \<longleftrightarrow> (tg, sec) \<notin> set (held bl xs)"
  by (induction xs) (auto simp: held_def key_def)

lemma find_way_Some: "find_way bl tg sec xs = Some i \<Longrightarrow> i \<in> set xs \<and> isValid (bl ! i) \<and> key (bl ! i) = (tg, sec)"
  by (induction xs) (auto simp: key_def split: if_splits)

lemma map_remove1_inj: "inj_on f (insert x (set xs)) \<Longrightarrow> List.map f (remove1 x xs) = remove1 (f x) (List.map f xs)"
  by (induction xs) (auto simp: inj_on_def)

section \<open>Changing one block and one set\<close>

definition same_shape :: "tagstore \<Rightarrow> tagstore \<Rightarrow> bool" where
  "same_shape t t' \<longleftrightarrow> assoc t' = assoc t \<and> numSets t' = numSets t \<and> tagShift t' = tagShift t \<and> setShift t' = setShift t \<and>
     setMask t' = setMask t \<and> maxMasters t' = maxMasters t \<and> tag_period t' = tag_period t \<and> blkSize t' = blkSize t"

lemma same_shape_extract: "same_shape t t' \<Longrightarrow> extractTag t' a = extractTag t a \<and> extractSet t' a = extractSet t a"
  by (simp add: same_shape_def extractTag_def extractSet_def)

lemma same_shape_blk: "same_shape t t' \<Longrightarrow> blk_ok t' b = blk_ok t b"
  using same_shape_extract [of t t'] by (simp add: blk_ok_def same_shape_def)

lemma same_shape_trans: "same_shape t t' \<Longrightarrow> same_shape t' t'' \<Longrightarrow> same_shape t t''"
  by (simp add: same_shape_def)

lemma held_cong:
  assumes "\<And>j. j \<in> set xs \<Longrightarrow> isValid (bl' ! j) = isValid (bl ! j) \<and> key (bl' ! j) = key (bl ! j)"
  shows "held bl' xs = held bl xs" "set_ok bl' xs = set_ok bl xs"
proof -
  show "held bl' xs = held bl xs" using assms by (auto simp: held_def cong: filter_cong)
  have "distinct (List.map (\<lambda>i. key (bl' ! i)) vs) = distinct (List.map (\<lambda>i. key (bl ! i)) vs)" if "set vs \<subseteq> set xs" for vs
  proof -
    have "List.map (\<lambda>i. key (bl' ! i)) vs = List.map (\<lambda>i. key (bl ! i)) vs" using that assms by auto
    then show ?thesis by (rule arg_cong [where f = distinct])
  qed
  then have "(xs = vs @ is \<and> (\<forall>i\<in>set vs. isValid (bl' ! i)) \<and> (\<forall>i\<in>set is. \<not> isValid (bl' ! i)) \<and> distinct (List.map (\<lambda>i. key (bl' ! i)) vs)) =
     (xs = vs @ is \<and> (\<forall>i\<in>set vs. isValid (bl ! i)) \<and> (\<forall>i\<in>set is. \<not> isValid (bl ! i)) \<and> distinct (List.map (\<lambda>i. key (bl ! i)) vs))"
    for vs "is" using assms by auto
  then show "set_ok bl' xs = set_ok bl xs" by (simp add: set_ok_def)
qed

lemma tags_ok_set: "tags_ok t \<Longrightarrow> s < numSets t \<Longrightarrow> distinct (sets t ! s) \<and> length (sets t ! s) = assoc t \<and> set_ok (blks t) (sets t ! s)"
  by (simp add: tags_ok_def)

lemma tags_ok_mem: "tags_ok t \<Longrightarrow> s < numSets t \<Longrightarrow> i \<in> set (sets t ! s) \<longleftrightarrow> i < length (blks t) \<and> bset (blks t ! i) = s"
  by (simp add: tags_ok_def)

lemma tags_ok_blk: "tags_ok t \<Longrightarrow> i < length (blks t) \<Longrightarrow> blk_ok t (blks t ! i)"
  by (simp add: tags_ok_def)

lemma tags_ok_change:
  assumes ok: "tags_ok t" and s: "s < numSets t" and i: "i \<in> set (sets t ! s)"
    and shape: "same_shape t t'" and bl: "blks t' = (blks t)[i := b']" and st: "sets t' = (sets t)[s := xs']"
    and b': "bset b' = s" "blk_ok t b'"
    and xs': "set xs' = set (sets t ! s)" "distinct xs'" "set_ok (blks t') xs'"
  shows "tags_ok t'" and "r < numSets t \<Longrightarrow> r \<noteq> s \<Longrightarrow> contents t' r = contents t r"
    and "contents t' s = held (blks t') xs'"
proof -
  have il: "i < length (blks t)" "bset (blks t ! i) = s" using tags_ok_mem [OF ok s] i by auto
  have len: "length (sets t) = numSets t" using ok by (simp add: tags_ok_def)
  have bs: "bset (blks t' ! j) = bset (blks t ! j)" for j using bl b'(1) il by (cases "j = i") simp_all
  have other: "set_ok (blks t') (sets t ! r) \<and> held (blks t') (sets t ! r) = held (blks t) (sets t ! r)" if r: "r < numSets t" "r \<noteq> s" for r
  proof -
    have "i \<notin> set (sets t ! r)" using tags_ok_mem [OF ok r(1)] il r(2) by auto
    then have "isValid (blks t' ! j) = isValid (blks t ! j) \<and> key (blks t' ! j) = key (blks t ! j)" if "j \<in> set (sets t ! r)" for j
      using that bl by (cases "j = i") simp_all
    from held_cong [OF this] show ?thesis using tags_ok_set [OF ok r(1)] by simp
  qed
  have lx: "length xs' = assoc t" using xs'(1,2) tags_ok_set [OF ok s] by (metis distinct_card)
  have sets': "distinct (sets t' ! r) \<and> length (sets t' ! r) = assoc t \<and> set (sets t' ! r) = {j. j < length (blks t) \<and> bset (blks t ! j) = r} \<and>
      set_ok (blks t') (sets t' ! r)" if r: "r < numSets t" for r
  proof (cases "r = s")
    case True
    then show ?thesis using st s len xs' lx tags_ok_mem [OF ok s] by auto
  next
    case False
    then show ?thesis using st s len other [OF r False] tags_ok_set [OF ok r] tags_ok_mem [OF ok r] by auto
  qed
  have "\<forall>b\<in>set (blks t'). blk_ok t' b"
    using ok bl b'(2) set_update_subset_insert [of "blks t" i b'] unfolding same_shape_blk [OF shape] by (fastforce simp: tags_ok_def)
  then show "tags_ok t'" using ok sets' shape bl st bs by (auto simp: tags_ok_def same_shape_def)
  show "contents t' r = contents t r" if "r < numSets t" "r \<noteq> s" using that other st by (simp add: contents_def)
  show "contents t' s = held (blks t') xs'" using st s len by (simp add: contents_def)
qed

section \<open>Reading a line that is there\<close>

lemma tags_ok_cong: "same_shape t t' \<Longrightarrow> blks t' = blks t \<Longrightarrow> sets t' = sets t \<Longrightarrow> tags_ok t' = tags_ok t"
  using same_shape_blk [of t t'] by (simp add: tags_ok_def same_shape_def)

text \<open>Changing a block in place.\<close>

lemma tags_ok_upd:
  assumes ok: "tags_ok t" and i: "i < length (blks t)" and b': "bset b' = bset (blks t ! i)" "isValid b' = isValid (blks t ! i)" "key b' = key (blks t ! i)" "blk_ok t b'"
    and t': "same_shape t t'" "blks t' = (blks t)[i := b']" "sets t' = sets t"
  shows "tags_ok t'" "contents t' r = contents t r"
proof -
  have same: "isValid (blks t' ! j) = isValid (blks t ! j) \<and> key (blks t' ! j) = key (blks t ! j) \<and> bset (blks t' ! j) = bset (blks t ! j)" for j
    using t'(2) b' i by (cases "j = i") simp_all
  have h: "held (blks t') xs = held (blks t) xs" "set_ok (blks t') xs = set_ok (blks t) xs" for xs
    using held_cong [of xs "blks t'" "blks t"] same by blast+
  have "\<forall>b\<in>set (blks t'). blk_ok t b" using ok t'(2) b'(4) set_update_subset_insert [of "blks t" i b'] by (fastforce simp: tags_ok_def)
  then show "tags_ok t'" using ok t' same h(2) same_shape_blk [OF t'(1)] by (simp add: tags_ok_def same_shape_def)
  show "contents t' r = contents t r" using h(1) t'(3) by (simp add: contents_def)
qed

lemma front_ok:
  assumes "set_ok bl xs" "i \<in> set xs" "isValid (bl ! i)" "distinct xs"
  shows "set_ok bl (i # remove1 i xs)" "held bl (i # remove1 i xs) = key (bl ! i) # remove1 (key (bl ! i)) (held bl xs)"
proof -
  let ?f = "\<lambda>i. key (bl ! i)"
  obtain vs "is" where v: "xs = vs @ is" "\<forall>j\<in>set vs. isValid (bl ! j)" "\<forall>j\<in>set is. \<not> isValid (bl ! j)" "distinct (List.map ?f vs)"
    using assms(1) by (auto simp: set_ok_def)
  have i: "i \<in> set vs" using assms(2,3) v(1,3) by auto
  then have r: "remove1 i xs = remove1 i vs @ is" using v(1) by (simp add: remove1_append)
  have inj: "inj_on ?f (set vs)" and d: "distinct vs" using v(4) by (auto simp: distinct_map)
  have se: "set (i # remove1 i vs) = set vs" and d': "distinct (i # remove1 i vs)" using i d by auto
  have "distinct (List.map ?f (i # remove1 i vs))" unfolding distinct_map se using inj d' by blast
  then show "set_ok bl (i # remove1 i xs)" unfolding set_ok_def r using v(2,3) i
    by (intro exI [of _ "i # remove1 i vs"] exI [of _ "is"]) (auto dest: notin_set_remove1 set_remove1_subset [THEN subsetD])
  have m: "List.map ?f (remove1 i vs) = remove1 (?f i) (List.map ?f vs)"
    using inj i by (intro map_remove1_inj) (simp add: insert_absorb)
  have "held bl (i # remove1 i xs) = held bl (i # remove1 i vs) @ held bl is" unfolding r held_append [symmetric] by simp
  also have "\<dots> = ?f i # remove1 (?f i) (List.map ?f vs)"
    using held_valid [of "i # remove1 i vs" bl] held_invalid [OF v(3)] v(2) i m by (auto dest: set_remove1_subset [THEN subsetD])
  also have "List.map ?f vs = held bl xs" unfolding v(1) held_append using held_valid [OF v(2)] held_invalid [OF v(3)] by simp
  finally show "held bl (i # remove1 i xs) = ?f i # remove1 (?f i) (held bl xs)" .
qed

lemma LRU_access_miss:
  assumes "tags_ok t" "(extractTag t a, sec) \<notin> set (contents t (extractSet t a))"
  shows "\<exists>lat t'. LRU_accessBlock now a sec t = Inr (None, lat, t') \<and> same_shape t t' \<and> blks t' = blks t \<and> sets t' = sets t"
proof -
  have "find_way (blks t) (extractTag t a) sec (sets t ! extractSet t a) = None"
    using assms(2) by (simp add: find_way_None contents_def)
  then show ?thesis by (simp add: LRU_accessBlock_def base_accessBlock_def Let_def same_shape_def)
qed

lemma LRU_access_hit:
  assumes ok: "tags_ok t" and hit: "(extractTag t a, sec) \<in> set (contents t (extractSet t a))"
  shows "\<exists>i lat t'. LRU_accessBlock now a sec t = Inr (Some i, lat, t') \<and> same_shape t t' \<and> tags_ok t' \<and>
     contents t' (extractSet t a) = (extractTag t a, sec) # remove1 (extractTag t a, sec) (contents t (extractSet t a)) \<and>
     (\<forall>r < numSets t. r \<noteq> extractSet t a \<longrightarrow> contents t' r = contents t r) \<and>
     i < length (blks t) \<and> isValid (blks t ! i) \<and> key (blks t ! i) = (extractTag t a, sec) \<and> bset (blks t ! i) = extractSet t a \<and>
     blks t' = (blks t)[i := (blks t ! i)\<lparr>refCount := refCount (blks t ! i) + 1\<rparr>]"
proof -
  let ?s = "extractSet t a" and ?k = "(extractTag t a, sec)"
  let ?xs = "sets t ! ?s"
  have s: "?s < numSets t" by (rule extractSet_less [OF ok])
  obtain i where f: "find_way (blks t) (extractTag t a) sec ?xs = Some i"
    using hit find_way_None [of "blks t" "extractTag t a" sec ?xs] by (auto simp: contents_def)
  then have i: "i \<in> set ?xs" "isValid (blks t ! i)" "key (blks t ! i) = ?k" using find_way_Some by blast+
  have il: "i < length (blks t)" "bset (blks t ! i) = ?s" using tags_ok_mem [OF ok s] i(1) by auto
  have per: "tag_period t \<noteq> 0" using ok by (simp add: tags_ok_def)
  let ?b = "(blks t ! i)\<lparr>refCount := refCount (blks t ! i) + 1\<rparr>"
  have acc: "\<exists>lat t1. base_accessBlock now a sec t = Inr (Some i, lat, t1) \<and> same_shape t t1 \<and> blks t1 = (blks t)[i := ?b] \<and> sets t1 = sets t"
    using f per by (auto simp: base_accessBlock_def Let_def upd_blk_def same_shape_def divCeil_def)
  then obtain lat t1 where t1: "base_accessBlock now a sec t = Inr (Some i, lat, t1)" "same_shape t t1" "blks t1 = (blks t)[i := ?b]" "sets t1 = sets t"
    by blast
  let ?xs' = "i # remove1 i ?xs"
  let ?t = "put_set ?s ?xs' t1"
  have bs: "bset (blks t1 ! i) = ?s" using t1(3) il by simp
  have run: "LRU_accessBlock now a sec t = Inr (Some i, lat, ?t)"
    using t1(1,4) moveToHead_ok [OF i(1)] bs by (simp add: LRU_accessBlock_def Let_def)
  have d: "distinct ?xs" "set_ok (blks t) ?xs" using tags_ok_set [OF ok s] by auto
  have same: "isValid (blks ?t ! j) = isValid (blks t ! j) \<and> key (blks ?t ! j) = key (blks t ! j)" for j
    using t1(3) il(1) by (cases "j = i") (simp_all add: put_set_def isValid_def key_def isSecure_def)
  have so: "set_ok (blks ?t) ?xs'" using front_ok(1) [OF d(2) i(1,2) d(1)] held_cong(2) [of ?xs', OF same] by simp
  have shape: "same_shape t ?t" using t1(2) by (simp add: same_shape_def put_set_def)
  have src: "blk_ok t ?b" using tags_ok_blk [OF ok il(1)] by (simp add: blk_ok_def isValid_def)
  have "bset ?b = ?s" using il by simp
  note C = tags_ok_change [OF ok s i(1) shape _ _ this src _ _ so]
  have c: "blks ?t = (blks t)[i := ?b]" "sets ?t = (sets t)[?s := ?xs']" "set ?xs' = set ?xs" "distinct ?xs'"
    using t1(3,4) i(1) d(1) by (auto simp: put_set_def)
  have "contents ?t ?s = ?k # remove1 ?k (contents t ?s)"
    using C(3) [OF c] front_ok(2) [OF d(2) i(1,2) d(1)] held_cong(1) [of ?xs', OF same] i(3) by (simp add: contents_def)
  then show ?thesis using run shape C(1,2) [OF c] il i(2,3) c(1) by blast
qed

section \<open>Filling a line that is not there\<close>

lemma invalid_blk [simp]: "status (invalidate_blk b) = 0" "bset (invalidate_blk b) = bset b" "\<not> isValid (invalidate_blk b)"
  by (simp_all add: invalidate_blk_def clearLoadLocks_def isValid_def)

lemma invalid_data [simp]: "bdata (invalidate_blk b) = bdata b"
  by (simp add: invalidate_blk_def clearLoadLocks_def)

lemma isValid_status: "status b = 0 \<Longrightarrow> \<not> isValid b"
  by (simp add: isValid_def)

lemma base_insert_ok:
  assumes il: "i < length (blks t)" and m: "master < maxMasters t"
    and b: "if isValid (blks t ! i) then srcMasterId (blks t ! i) < maxMasters t else status (blks t ! i) = 0"
  shows "\<exists>t' b'. base_insertBlock now a master task i t = Inr t' \<and> same_shape t t' \<and> sets t' = sets t \<and> blks t' = (blks t)[i := b'] \<and>
     status b' = 0 \<and> btag b' = extractTag t a \<and> bset b' = bset (blks t ! i) \<and> srcMasterId b' = master \<and> bdata b' = bdata (blks t ! i)"
proof -
  define t1 where "t1 = touch_blk i t"
  have t1: "same_shape t t1 \<and> sets t1 = sets t \<and> blks t1 = (blks t)[i := (blks t ! i)\<lparr>isTouched := True\<rparr>]"
  proof (cases "isTouched (blks t ! i)")
    case True
    then have "(blks t ! i)\<lparr>isTouched := True\<rparr> = blks t ! i" by simp
    then have "(blks t)[i := (blks t ! i)\<lparr>isTouched := True\<rparr>] = blks t" by (simp only: list_update_id)
    then show ?thesis using True by (simp add: t1_def touch_blk_def same_shape_def)
  next
    case False
    then show ?thesis by (simp add: t1_def touch_blk_def same_shape_def upd_blk_def Let_def)
  qed
  let ?b1 = "(blks t ! i)\<lparr>isTouched := True\<rparr>"
  have b1: "blks t1 ! i = ?b1" "maxMasters t1 = maxMasters t" using t1 il by (simp_all add: same_shape_def)
  have v1: "isValid (blks t1 ! i) = isValid (blks t ! i)" "srcMasterId (blks t1 ! i) = srcMasterId (blks t ! i)"
    unfolding b1 by (simp_all add: isValid_def)
  show ?thesis
  proof (cases "isValid (blks t ! i)")
    case True
    then show ?thesis using v1 b b1 t1 m il
      by (auto simp: base_insertBlock_def Let_def t1_def [symmetric] upd_blk_def same_shape_def)
  next
    case False
    then show ?thesis using v1 b b1 t1 m il
      by (auto simp: base_insertBlock_def Let_def t1_def [symmetric] upd_blk_def same_shape_def)
  qed
qed

definition wb_packet :: "packet \<Rightarrow> tagstore \<Rightarrow> cblk \<Rightarrow> bool" where
  "wb_packet w t b \<longleftrightarrow> pk_cmd w = Writeback \<and> pk_addr w = regenerateBlkAddr t (btag b) (bset b) \<and> pk_secure w = isSecure b \<and>
     pk_size w = blkSize t \<and> pk_data w = Some (bdata b) \<and> \<not> pk_inhibit w \<and> \<not> rq_inst_fetch (pk_req w)"

lemma clean_bits [simp]:
  "isValid (b\<lparr>status := status b AND NOT BlkDirty\<rparr>) = isValid b" "isSecure (b\<lparr>status := status b AND NOT BlkDirty\<rparr>) = isSecure b"
  "isWritable (b\<lparr>status := status b AND NOT BlkDirty\<rparr>) = isWritable b" "isReadable (b\<lparr>status := status b AND NOT BlkDirty\<rparr>) = isReadable b"
  "\<not> isDirty (b\<lparr>status := status b AND NOT BlkDirty\<rparr>)"
  by (simp_all add: isValid_def isSecure_def isWritable_def isReadable_def isDirty_def blk_bits and.assoc)

lemma writeback_ok:
  assumes "isValid (blks t ! i)" "isDirty (blks t ! i)" "i < length (blks t)" "length (bdata (blks t ! i)) = unat (blkSize t)"
  shows "\<exists>w t' b'. writebackBlk now i t = Inr (w, t') \<and> same_shape t t' \<and> sets t' = sets t \<and> blks t' = (blks t)[i := b'] \<and>
     wb_packet w t (blks t ! i) \<and> isValid b' \<and> bset b' = bset (blks t ! i) \<and> srcMasterId b' = srcMasterId (blks t ! i) \<and>
     btag b' = btag (blks t ! i) \<and> isSecure b' = isSecure (blks t ! i) \<and> bdata b' = bdata (blks t ! i) \<and> \<not> isDirty b'"
proof -
  let ?b = "blks t ! i"
  define b' where "b' = ?b\<lparr>task_id := unknown_task, tickInserted := now, status := status ?b AND NOT BlkDirty\<rparr>"
  have e: "b' = (?b\<lparr>status := status ?b AND NOT BlkDirty\<rparr>)\<lparr>task_id := unknown_task, tickInserted := now\<rparr>" by (simp add: b'_def)
  have bits: "isValid b' = isValid ?b" "isSecure b' = isSecure ?b" "\<not> isDirty b'"
    using clean_bits [of ?b] unfolding e isValid_def isSecure_def isDirty_def by simp_all
  have "uint (blkSize t) = int (unat (blkSize t))" by simp
  then have c: "memcpy (replicate (unat (blkSize t)) 0) 0 (bdata ?b) 0 (uint (blkSize t)) = Inr (bdata ?b)"
    using assms(4) by (simp add: memcpy_def)
  then show ?thesis using assms(1-3) bits unfolding writebackBlk_def
    by (auto simp: Let_def upd_blk_def same_shape_def b'_def [symmetric] allocate_def getPtr_def Packet_new_def Request_new_def wb_packet_def
      intro!: exI [of _ b']) (simp_all add: b'_def)
qed

text \<open>The victim, and what its set holds without it.\<close>

lemma victim_ok:
  assumes "tags_ok t" "s = extractSet t a"
  shows "LRU_findVictim t a = last (sets t ! s)" "last (sets t ! s) \<in> set (sets t ! s)" "sets t ! s \<noteq> []"
proof -
  have "s < numSets t" using extractSet_less [OF assms(1)] assms(2) by simp
  then have "length (sets t ! s) = assoc t" "0 < assoc t" using assms(1) by (auto simp: tags_ok_def)
  moreover from this show "sets t ! s \<noteq> []" by auto
  ultimately show "LRU_findVictim t a = last (sets t ! s)" "last (sets t ! s) \<in> set (sets t ! s)"
    using assms(2) by (simp_all add: LRU_findVictim_def last_conv_nth)
qed

text \<open>Replacing the last of a set by a new line in front.\<close>

lemma replace_ok:
  assumes ok: "set_ok bl xs" and d: "distinct xs" and ne: "xs \<noteq> []" and il: "last xs < length bl"
    and new: "isValid b'" "key b' \<notin> set (held bl xs)"
  shows "set_ok (bl[last xs := b']) (last xs # butlast xs)"
    and "held (bl[last xs := b']) (last xs # butlast xs) = take (length xs) (key b' # held bl xs)"
proof -
  let ?i = "last xs" and ?bl = "bl[last xs := b']"
  let ?f = "\<lambda>i. key (bl ! i)"
  obtain vs "is" where v: "xs = vs @ is" "\<forall>j\<in>set vs. isValid (bl ! j)" "\<forall>j\<in>set is. \<not> isValid (bl ! j)" "distinct (List.map ?f vs)"
    using ok by (auto simp: set_ok_def)
  have h: "held bl xs = List.map ?f vs" unfolding v(1) held_append using held_valid [OF v(2)] held_invalid [OF v(3)] by simp
  define us where "us = (if is = [] then butlast vs else vs)"
  define js where "js = (if is = [] then [] else butlast is)"
  have bl: "butlast xs = us @ js" using v(1) by (simp add: us_def js_def butlast_append)
  have sub: "set us \<subseteq> set vs" "set js \<subseteq> set is" by (auto simp: us_def js_def dest: in_set_butlastD)
  have ni: "?i \<notin> set (butlast xs)"
    using d ne by (metis append_butlast_last_id distinct_append disjoint_insert(1) list.set(2) inf_commute)
  have same: "?bl ! j = bl ! j" if "j \<in> set us \<union> set js" for j using that ni bl by (cases "j = last xs") auto
  have du: "distinct (List.map ?f us)" using v(4) by (auto simp: us_def map_butlast distinct_butlast)
  have mu: "List.map (\<lambda>j. key (?bl ! j)) us = List.map ?f us" using same by simp
  have new_bl: "?bl ! ?i = b'" using il by simp
  have "key b' \<notin> set (List.map ?f us)" using new(2) h sub(1) by auto
  then have "distinct (key b' # List.map ?f us)" using du by simp
  moreover have mi: "List.map (\<lambda>j. key (?bl ! j)) (?i # us) = key b' # List.map ?f us" by (simp only: list.map mu new_bl)
  ultimately have "distinct (List.map (\<lambda>j. key (?bl ! j)) (?i # us))" by (simp only: mi)
  moreover have "\<forall>j\<in>set (?i # us). isValid (?bl ! j)" using new(1) new_bl same v(2) sub(1) by auto
  moreover have j: "\<forall>j\<in>set js. \<not> isValid (?bl ! j)" using same v(3) sub(2) by auto
  ultimately show "set_ok ?bl (?i # butlast xs)" unfolding set_ok_def bl by (intro exI [of _ "?i # us"] exI [of _ js]) simp
  have "held ?bl (?i # butlast xs) = held ?bl (?i # us) @ held ?bl js" unfolding bl held_append [symmetric] by simp
  also have "\<dots> = key b' # List.map ?f us"
    using held_valid [of "?i # us" ?bl] held_invalid [OF j] \<open>\<forall>j\<in>set (?i # us). isValid (?bl ! j)\<close> mi by (simp only: append_Nil2)
  also have "\<dots> = take (length xs) (key b' # held bl xs)"
  proof (cases "is = []")
    case True
    then have "List.map ?f us = take (length xs - 1) (List.map ?f vs)" using v(1) by (simp add: us_def butlast_conv_take take_map)
    then show ?thesis using h ne by (cases xs) auto
  next
    case False
    then show ?thesis using h v(1) by (cases xs) (auto simp: us_def, cases "is", auto)
  qed
  finally show "held ?bl (?i # butlast xs) = take (length xs) (key b' # held bl xs)" .
qed

text \<open>Allocation when no MSHR is outstanding: the victim, and its write-back if it is dirty.\<close>

definition victim_wbs :: "tagstore \<Rightarrow> cblk \<Rightarrow> packet list \<Rightarrow> bool" where
  "victim_wbs t b ws \<longleftrightarrow> (if isValid b \<and> isDirty b then \<exists>w. ws = [w] \<and> wb_packet w t b else ws = [])"

lemma allocate_ok:
  assumes ok: "tags_ok t"
  shows "\<exists>ws t' b'. allocateBlock (\<lambda>_ _. None) now a sec wbs t = Inr (Some (last (sets t ! extractSet t a)), wbs @ ws, t') \<and>
     same_shape t t' \<and> sets t' = sets t \<and> blks t' = (blks t)[last (sets t ! extractSet t a) := b'] \<and>
     bset b' = extractSet t a \<and> blk_ok t b' \<and> victim_wbs t (blks t ! last (sets t ! extractSet t a)) ws"
proof -
  let ?s = "extractSet t a"
  let ?i = "last (sets t ! ?s)" and ?b = "blks t ! last (sets t ! ?s)"
  note V = victim_ok [OF ok refl, of a]
  have il: "?i < length (blks t)" "bset ?b = ?s" using tags_ok_mem [OF ok extractSet_less [OF ok]] V(2) by auto
  have b: "blk_ok t ?b" by (rule tags_ok_blk [OF ok il(1)])
  then have lb: "length (bdata ?b) = unat (blkSize t)" by (simp add: blk_ok_def)
  show ?thesis
  proof (cases "isValid ?b \<and> isDirty ?b")
    case True
    then obtain w t' b' where w: "writebackBlk now ?i t = Inr (w, t')" "same_shape t t'" "sets t' = sets t" "blks t' = (blks t)[?i := b']"
       "wb_packet w t ?b" "isValid b'" "bset b' = bset ?b" "srcMasterId b' = srcMasterId ?b" "btag b' = btag ?b" "bdata b' = bdata ?b"
      using writeback_ok [OF _ _ il(1) lb, of now] by blast
    then have "allocateBlock (\<lambda>_ _. None) now a sec wbs t = Inr (Some ?i, wbs @ [w], t')"
      using True V(1) by (simp add: allocateBlock_def Let_def)
    moreover have "blk_ok t b'" using b w(6-10) True by (auto simp: blk_ok_def)
    moreover have "victim_wbs t ?b [w]" using True w(5) by (simp add: victim_wbs_def)
    ultimately show ?thesis using w(2-4,7) il(2) by auto
  next
    case False
    then have "allocateBlock (\<lambda>_ _. None) now a sec wbs t = Inr (Some ?i, wbs @ [], t)"
      using V(1) by (auto simp: allocateBlock_def Let_def)
    moreover have "(blks t)[?i := ?b] = blks t" by (rule list_update_id)
    moreover have "victim_wbs t ?b []" using False by (auto simp: victim_wbs_def)
    ultimately show ?thesis using il(2) b by (auto simp: same_shape_def intro!: exI [of _ ?b] exI [of _ "[]"])
  qed
qed

text \<open>Allocating a line and inserting it; any valid block of that line may then be put there.\<close>

lemma insert_slot:
  assumes ok: "tags_ok t" and k: "(extractTag t a, sec) \<notin> set (contents t (extractSet t a))" and m: "master < maxMasters t"
  shows "\<exists>i ws t1 t3 b3. allocateBlock (\<lambda>_ _. None) now a sec wbs t = Inr (Some i, wbs @ ws, t1) \<and> LRU_insertBlock now a master task i t1 = Inr t3 \<and>
     i < length (blks t) \<and> victim_wbs t (blks t ! i) ws \<and> bset (blks t ! i) = extractSet t a \<and>
     same_shape t t3 \<and> blks t3 = (blks t)[i := b3] \<and> status b3 = 0 \<and> btag b3 = extractTag t a \<and> bset b3 = extractSet t a \<and> srcMasterId b3 = master \<and>
     length (bdata b3) = unat (blkSize t) \<and>
     (\<forall>b'. isValid b' \<and> key b' = (extractTag t a, sec) \<and> bset b' = extractSet t a \<and> blk_ok t b' \<longrightarrow>
        (let t4 = t3\<lparr>blks := (blks t)[i := b']\<rparr> in
         tags_ok t4 \<and> contents t4 (extractSet t a) = take (assoc t) ((extractTag t a, sec) # contents t (extractSet t a)) \<and>
         (\<forall>r < numSets t. r \<noteq> extractSet t a \<longrightarrow> contents t4 r = contents t r)))"
proof -
  let ?s = "extractSet t a"
  let ?xs = "sets t ! ?s"
  let ?i = "last ?xs"
  have s: "?s < numSets t" by (rule extractSet_less [OF ok])
  note V = victim_ok [OF ok refl, of a]
  have S: "distinct ?xs" "length ?xs = assoc t" "set_ok (blks t) ?xs" using tags_ok_set [OF ok s] by auto
  have il: "?i < length (blks t)" "bset (blks t ! ?i) = ?s" using tags_ok_mem [OF ok s] V(2) by auto
  obtain ws t1 b1 where t1: "allocateBlock (\<lambda>_ _. None) now a sec wbs t = Inr (Some ?i, wbs @ ws, t1)" "same_shape t t1"
      "sets t1 = sets t" "blks t1 = (blks t)[?i := b1]" "bset b1 = ?s" "blk_ok t b1" "victim_wbs t (blks t ! ?i) ws"
    using allocate_ok [OF ok, of now a sec wbs] by blast
  have il1: "?i < length (blks t1)" "blks t1 ! ?i = b1" "maxMasters t1 = maxMasters t" using t1(2,4) il by (simp_all add: same_shape_def)
  have b1: "if isValid (blks t1 ! ?i) then srcMasterId (blks t1 ! ?i) < maxMasters t1 else status (blks t1 ! ?i) = 0"
    using t1(6) il1(2,3) by (simp add: blk_ok_def split: if_splits)
  have m1: "master < maxMasters t1" using m il1(3) by simp
  obtain t2 b2 where t2: "base_insertBlock now a master task ?i t1 = Inr t2" "same_shape t1 t2" "sets t2 = sets t1"
      "blks t2 = (blks t1)[?i := b2]" "status b2 = 0" "btag b2 = extractTag t1 a" "bset b2 = bset (blks t1 ! ?i)" "srcMasterId b2 = master"
      "bdata b2 = bdata (blks t1 ! ?i)"
    using base_insert_ok [OF il1(1) m1 b1, of now a task] by blast
  have sh2: "same_shape t t2" using same_shape_trans t1(2) t2(2) by blast
  have ex: "extractSet t2 a = ?s" "extractTag t1 a = extractTag t a" using same_shape_extract sh2 t1(2) by blast+
  have e: "?xs = butlast ?xs @ [?i]" using V(3) by simp
  have "?i \<notin> set (butlast ?xs)" using S(1) e by (metis distinct_append disjoint_insert(1) list.set(2) inf_commute)
  then have rm: "remove1 ?i ?xs = butlast ?xs" using e by (metis remove1_append remove1.simps(2) self_append_conv)
  let ?xs' = "?i # butlast ?xs"
  let ?t3 = "put_set ?s ?xs' t2"
  have ins: "LRU_insertBlock now a master task ?i t1 = Inr ?t3"
    using t2(1,3) t1(3) ex(1) moveToHead_ok [OF V(2)] rm by (simp add: LRU_insertBlock_def Let_def)
  have bl3: "blks ?t3 = (blks t)[?i := b2]" using t2(4) t1(4) by (simp add: put_set_def)
  have b3: "status b2 = 0 \<and> btag b2 = extractTag t a \<and> bset b2 = ?s \<and> srcMasterId b2 = master \<and> length (bdata b2) = unat (blkSize t)"
    using t2(5-9) ex(2) il1(2) t1(5,6) by (simp add: blk_ok_def)
  have shape: "same_shape t ?t3" using sh2 by (simp add: same_shape_def put_set_def)
  have mem: "set ?xs' = set ?xs" using e by (metis list.set(2) rotate1.simps(2) set_rotate1 append_butlast_last_id V(3))
  have dist: "distinct ?xs'" using S(1) e by (metis distinct1_rotate rotate1.simps(2))
  have put: "let t4 = ?t3\<lparr>blks := (blks t)[?i := b']\<rparr> in
       tags_ok t4 \<and> contents t4 ?s = take (assoc t) ((extractTag t a, sec) # contents t ?s) \<and> (\<forall>r < numSets t. r \<noteq> ?s \<longrightarrow> contents t4 r = contents t r)"
    if b': "isValid b'" "key b' = (extractTag t a, sec)" "bset b' = ?s" "blk_ok t b'" for b'
  proof -
    let ?t4 = "?t3\<lparr>blks := (blks t)[?i := b']\<rparr>"
    have kn: "key b' \<notin> set (held (blks t) ?xs)" using k b'(2) by (simp add: contents_def)
    note R = replace_ok [OF S(3,1) V(3) il(1) b'(1) kn]
    have sh4: "same_shape t ?t4" using shape by (simp add: same_shape_def)
    have bl4: "blks ?t4 = (blks t)[?i := b']" and st4: "sets ?t4 = (sets t)[?s := ?xs']" using t1(3) t2(3) by (simp_all add: put_set_def)
    have so: "set_ok (blks ?t4) ?xs'" unfolding bl4 by (rule R(1))
    note C = tags_ok_change [OF ok s V(2) sh4 bl4 st4 b'(3,4) mem dist so]
    have "contents ?t4 ?s = take (assoc t) ((extractTag t a, sec) # contents t ?s)"
      unfolding C(3) bl4 R(2) S(2) b'(2) by (simp add: contents_def)
    then show ?thesis using C(1,2) by (simp add: Let_def)
  qed
  show ?thesis
    by (intro exI [of _ ?i] exI [of _ ws] exI [of _ t1] exI [of _ ?t3] exI [of _ b2] conjI t1(1,7) ins il shape bl3)
      (use b3 put in \<open>simp_all del: list.map\<close>)
qed

end
