(* ===== verification/Cache_Lines.thy ===== *)
theory Cache_Lines imports Cache Cache_LRU begin

text \<open>
  Lines of a cache: tag and set determine the aligned address of a line and the other way round,
  lines do not overlap, and a valid block is the only one with its line.
\<close>

section \<open>Geometry\<close>

definition geom :: "tagstore \<Rightarrow> bool" where
  "geom t \<longleftrightarrow> unat (blkSize t) = 2 ^ setShift t \<and> numSets t = 2 ^ (tagShift t - setShift t) \<and> setShift t \<le> tagShift t"

lemma geom_shape: "same_shape t t' \<Longrightarrow> geom t' = geom t"
  by (simp add: geom_def same_shape_def)

lemma blockAlign_shape: "same_shape t t' \<Longrightarrow> blockAlign t' a = blockAlign t a"
  by (simp add: blockAlign_def same_shape_def)

lemma geom_masks:
  assumes "geom t" "tags_ok t"
  shows "setShift t < 32" "tagShift t - setShift t < 32" "ucast (blkSize t - 1) = (mask (setShift t) :: maddr)"
    "scast (blkSize t - 1) = (mask (setShift t) :: maddr)" "ucast (setMask t) = (mask (tagShift t - setShift t) :: maddr)"
proof -
  show s: "setShift t < 32" using pow2_width [of "blkSize t" "setShift t"] assms(1) by (simp add: geom_def)
  obtain k where "numSets t = 2 ^ k" "k < 32" "setMask t = of_nat (numSets t) - 1" using assms(2) by (auto simp: tags_ok_def)
  then have lg: "tagShift t - setShift t < 32" "setMask t = mask (tagShift t - setShift t)"
    using assms(1) by (auto simp: geom_def mask_eq_exp_minus_1)
  then show "tagShift t - setShift t < 32" "ucast (setMask t) = (mask (tagShift t - setShift t) :: maddr)" by (simp_all add: ucast_mask_eq min_def)
  have m: "blkSize t - 1 = mask (setShift t)" using assms(1) by (intro pow2_minus_1) (simp add: geom_def)
  show "ucast (blkSize t - 1) = (mask (setShift t) :: maddr)" unfolding m using s by (simp add: ucast_mask_eq min_def)
  show "scast (blkSize t - 1) = (mask (setShift t) :: maddr)" unfolding m
    by (rule bit_word_eqI) (use s in \<open>auto simp: bit_simps\<close>)
qed

lemma regenerate_block:
  assumes "geom t" "tags_ok t"
  shows "regenerateBlkAddr t (extractTag t a) (extractSet t a) = blockAlign t a"
proof -
  note G = geom_masks [OF assms]
  obtain lg where lg: "tagShift t = setShift t + lg" using assms(1) by (metis geom_def le_add_diff_inverse)
  then have w: "setShift t < 32" "lg < 32" using G(1,2) by simp_all
  have m: "ucast (setMask t) = (mask lg :: maddr)" using G(5) lg by simp
  show ?thesis
    unfolding regenerateBlkAddr_def extractTag_def extractSet_def blockAlign_def m G(3) lg
  proof (rule bit_word_eqI)
    fix n assume "n < LENGTH(64)"
    then show "bit (push_bit (setShift t + lg) (drop_bit (setShift t + lg) a) OR push_bit (setShift t) (of_nat (unat (drop_bit (setShift t) a AND mask lg)))) n =
        bit (a AND NOT (mask (setShift t))) n"
      using w by (cases "setShift t + lg \<le> n"; cases "setShift t \<le> n") (auto simp: bit_simps)
  qed
qed

lemma extract_block:
  assumes "geom t" "tags_ok t"
  shows "extractTag t (blockAlign t a) = extractTag t a" "extractSet t (blockAlign t a) = extractSet t a"
proof -
  note G = geom_masks [OF assms]
  have le: "setShift t \<le> tagShift t" using assms(1) by (simp add: geom_def)
  have "drop_bit k (a AND NOT (mask (setShift t))) = drop_bit k a" if "setShift t \<le> k" for k
    by (rule bit_word_eqI) (use that in \<open>auto simp: bit_simps dest: bit_imp_le_length\<close>)
  then show "extractTag t (blockAlign t a) = extractTag t a" "extractSet t (blockAlign t a) = extractSet t a"
    using le by (simp_all add: extractTag_def extractSet_def blockAlign_def G(3))
qed

lemma block_offset:
  assumes "geom t" "tags_ok t"
  shows "unat (blockAlign t a) = unat a div unat (blkSize t) * unat (blkSize t)" "unat (getOffset (blkSize t) p) = unat (pk_addr p) mod unat (blkSize t)"
    "unat (blockAlign t (pk_addr p)) + unat (getOffset (blkSize t) p) = unat (pk_addr p)"
proof -
  note G = geom_masks [OF assms]
  have b: "unat (blkSize t) = 2 ^ setShift t" using assms(1) by (simp add: geom_def)
  show A: "unat (blockAlign t a) = unat a div unat (blkSize t) * unat (blkSize t)" for a
    unfolding blockAlign_def G(3) unat_and_not_mask b ..
  have "unat (getOffset (blkSize t) p) = take_bit (setShift t) (unat (pk_addr p))"
    unfolding getOffset_def G(4) by (simp only: take_bit_eq_mask [symmetric] unsigned_take_bit_eq)
  then show B: "unat (getOffset (blkSize t) p) = unat (pk_addr p) mod unat (blkSize t)" unfolding b take_bit_eq_mod .
  show "unat (blockAlign t (pk_addr p)) + unat (getOffset (blkSize t) p) = unat (pk_addr p)" unfolding A B by simp
qed

lemma block_align_align: "geom t \<Longrightarrow> tags_ok t \<Longrightarrow> blockAlign t (blockAlign t a) = blockAlign t a"
  by (simp add: blockAlign_def and.assoc)

text \<open>Different lines are disjoint.\<close>

lemma lines_disjoint:
  assumes "geom t" "tags_ok t" "blockAlign t a \<noteq> blockAlign t b" "in_mem m (blockAlign t a) (unat (blkSize t))" "in_mem m (blockAlign t b) (unat (blkSize t))"
  shows "mem_off m (blockAlign t a) + unat (blkSize t) \<le> mem_off m (blockAlign t b) \<or> mem_off m (blockAlign t b) + unat (blkSize t) \<le> mem_off m (blockAlign t a)"
proof -
  let ?B = "unat (blkSize t)"
  have B: "0 < ?B" using assms(1) by (simp add: geom_def)
  have "unat (blockAlign t a) \<noteq> unat (blockAlign t b)" using assms(3) by (metis unsigned_word_eqI)
  then have "unat a div ?B < unat b div ?B \<or> unat b div ?B < unat a div ?B" unfolding block_offset(1) [OF assms(1,2)] by auto
  moreover have "x * ?B + ?B \<le> y * ?B" if "x < y" for x y :: nat using mult_le_mono1 [of "Suc x" y ?B] that by simp
  ultimately have "unat (blockAlign t a) + ?B \<le> unat (blockAlign t b) \<or> unat (blockAlign t b) + ?B \<le> unat (blockAlign t a)"
    unfolding block_offset(1) [OF assms(1,2)] by blast
  then show ?thesis using assms(4,5) by (auto simp: mem_off_def in_mem_def)
qed

section \<open>Blocks and their lines\<close>

definition line_of :: "tagstore \<Rightarrow> cblk \<Rightarrow> maddr" where
  "line_of t b = regenerateBlkAddr t (btag b) (bset b)"

lemma line_of_shape: "same_shape t t' \<Longrightarrow> line_of t' b = line_of t b"
  by (simp add: line_of_def regenerateBlkAddr_def same_shape_def)

lemma line_of_key:
  assumes "geom t" "tags_ok t" "btag b = extractTag t a" "bset b = extractSet t a"
  shows "line_of t b = blockAlign t a"
  using regenerate_block [OF assms(1,2)] assms(3,4) by (simp add: line_of_def)

lemma line_of_valid:
  assumes "geom t" "tags_ok t" "isValid b" "blk_ok t b"
  shows "\<exists>a. line_of t b = blockAlign t a \<and> btag b = extractTag t a \<and> bset b = extractSet t a"
  using assms line_of_key [OF assms(1,2)] by (auto simp: blk_ok_def)

lemma line_of_eq:
  assumes "geom t" "tags_ok t" "isValid b" "blk_ok t b" "line_of t b = blockAlign t a"
  shows "btag b = extractTag t a" "bset b = extractSet t a"
proof -
  obtain c where c: "line_of t b = blockAlign t c" "btag b = extractTag t c" "bset b = extractSet t c" using line_of_valid [OF assms(1-4)] by blast
  then have "extractTag t (blockAlign t c) = extractTag t (blockAlign t a)" "extractSet t (blockAlign t c) = extractSet t (blockAlign t a)" using assms(5) by simp_all
  then show "btag b = extractTag t a" "bset b = extractSet t a" unfolding extract_block [OF assms(1,2)] using c(2,3) by simp_all
qed

lemma valid_unique:
  assumes ok: "tags_ok t" and i: "i < length (blks t)" "isValid (blks t ! i)" and j: "j < length (blks t)" "isValid (blks t ! j)"
    and e: "bset (blks t ! i) = bset (blks t ! j)" "key (blks t ! i) = key (blks t ! j)"
    and s: "bset (blks t ! i) < numSets t"
  shows "i = j"
proof -
  let ?xs = "sets t ! bset (blks t ! i)"
  obtain vs "is" where v: "?xs = vs @ is" "\<forall>k\<in>set is. \<not> isValid (blks t ! k)" "distinct (List.map (\<lambda>k. key (blks t ! k)) vs)"
    using tags_ok_set [OF ok s] by (auto simp: set_ok_def)
  have "i \<in> set ?xs" "j \<in> set ?xs" using tags_ok_mem [OF ok s] i(1) j(1) e(1) by simp_all
  then have "i \<in> set vs" "j \<in> set vs" using v(1,2) i(2) j(2) by auto
  then show "i = j" using v(3) e(2) by (auto simp: distinct_map inj_on_def)
qed

lemma found_line:
  assumes G: "geom t" "tags_ok t" and i: "i < length (blks t)" "isValid (blks t ! i)" "\<not> isSecure (blks t ! i)"
    and that: "line_of t (blks t ! i) = blockAlign t a"
  shows "(extractTag t a, False) \<in> set (contents t (extractSet t a))"
proof -
  have b: "btag (blks t ! i) = extractTag t a" "bset (blks t ! i) = extractSet t a"
    using line_of_eq [OF G i(2) tags_ok_blk [OF G(2) i(1)] that] by auto
  have "i \<in> set (sets t ! extractSet t a)" using tags_ok_mem [OF G(2) extractSet_less [OF G(2)]] i(1) b(2) by simp
  then show ?thesis using i(2,3) b(1) by (force simp: contents_def held_def key_def)
qed

end
