(* ===== verification/Cache_Coh.thy ===== *)
theory Cache_Coh imports Cache_Lines begin

text \<open>
  A cache over a memory stands for one array of bytes: every valid block has the bytes of its line,
  and the memory has them wherever no dirty block holds the line.  What reads, writes, fills, write
  backs and flushes do to this relation.
\<close>

section \<open>The relation\<close>

definition line_bytes :: "tagstore \<Rightarrow> absmem \<Rightarrow> maddr \<Rightarrow> byte list \<Rightarrow> byte list" where
  "line_bytes t m L M = bytes_at (mem_off m L) (unat (blkSize t)) M"

definition in_line :: "tagstore \<Rightarrow> absmem \<Rightarrow> maddr \<Rightarrow> bool" where
  "in_line t m L \<longleftrightarrow> in_mem m L (unat (blkSize t)) \<and> (\<exists>a. L = blockAlign t a)"

definition good_blk :: "tagstore \<Rightarrow> absmem \<Rightarrow> byte list \<Rightarrow> cblk \<Rightarrow> bool" where
  "good_blk t m M b \<longleftrightarrow> isWritable b \<and> isReadable b \<and> \<not> isSecure b \<and> in_line t m (line_of t b) \<and> bdata b = line_bytes t m (line_of t b) M"

definition clean_line :: "tagstore \<Rightarrow> maddr \<Rightarrow> bool" where
  "clean_line t L \<longleftrightarrow> (\<forall>i < length (blks t). isValid (blks t ! i) \<and> isDirty (blks t ! i) \<longrightarrow> line_of t (blks t ! i) \<noteq> L)"

definition coh :: "tagstore \<Rightarrow> absmem \<Rightarrow> byte list \<Rightarrow> bool" where
  "coh t m M \<longleftrightarrow> tags_ok t \<and> geom t \<and> locked m = [] \<and>
     (\<forall>i < length (blks t). isValid (blks t ! i) \<longrightarrow> good_blk t m M (blks t ! i)) \<and>
     (\<exists>N. mem_ok m N \<and> length N = length M \<and> (\<forall>L. in_line t m L \<and> clean_line t L \<longrightarrow> line_bytes t m L N = line_bytes t m L M))"

text \<open>Two arrays that differ on one line only.\<close>

definition agree :: "tagstore \<Rightarrow> absmem \<Rightarrow> maddr \<Rightarrow> byte list \<Rightarrow> byte list \<Rightarrow> bool" where
  "agree t m L M M' \<longleftrightarrow> length M' = length M \<and> (\<forall>K. in_line t m K \<and> K \<noteq> L \<longrightarrow> line_bytes t m K M' = line_bytes t m K M)"

lemma agree_refl: "agree t m L M M"
  by (simp add: agree_def)

lemma coh_shape:
  assumes "same_shape t t'" "am_range m' = am_range m"
  shows "line_bytes t' m' L M = line_bytes t m L M" "in_line t' m' L = in_line t m L" "good_blk t' m' M b = good_blk t m M b"
    "clean_line (t'\<lparr>blks := bl\<rparr>) L = clean_line (t\<lparr>blks := bl\<rparr>) L"
proof -
  have z: "blkSize t' = blkSize t" "mem_off m' L = mem_off m L" "in_mem m' L n = in_mem m L n" for L n
    using assms by (simp_all add: same_shape_def mem_off_def in_mem_def)
  show 1: "line_bytes t' m' L M = line_bytes t m L M" for L by (simp add: line_bytes_def z)
  show 2: "in_line t' m' L = in_line t m L" for L using blockAlign_shape [OF assms(1)] by (simp add: in_line_def z)
  show "good_blk t' m' M b = good_blk t m M b" using line_of_shape [OF assms(1)] by (simp add: good_blk_def 1 2)
  have "line_of (t'\<lparr>blks := bl\<rparr>) b = line_of (t\<lparr>blks := bl\<rparr>) b" for b using assms(1) by (simp add: line_of_def regenerateBlkAddr_def same_shape_def)
  then show "clean_line (t'\<lparr>blks := bl\<rparr>) L = clean_line (t\<lparr>blks := bl\<rparr>) L" by (simp add: clean_line_def)
qed

lemma mem_ok_range: "mem_ok m N \<Longrightarrow> am_range m' = am_range m \<Longrightarrow> pmem m' = Some N' \<Longrightarrow> length N' = length N \<Longrightarrow> mem_ok m' N'"
  by (simp add: mem_ok_def)

lemma in_line_bounds:
  assumes "in_line t m L" "mem_ok m N" "geom t"
  shows "mem_off m L + unat (blkSize t) \<le> length N"
  using assms mem_bounds(3) [of m L "unat (blkSize t)" N] by (auto simp: in_line_def geom_def)

text \<open>A write inside one line.\<close>

lemma put_line:
  assumes G: "geom t" "tags_ok t" and L: "in_line t m L" and m: "mem_ok m N" "length M = length N" and d: "d + length ys \<le> unat (blkSize t)"
  shows "agree t m L M (put_at (mem_off m L + d) ys M)" "line_bytes t m L (put_at (mem_off m L + d) ys M) = put_at d ys (line_bytes t m L M)"
proof -
  note b = in_line_bounds [OF L m(1) G(1)]
  have e: "mem_off m L + d + length ys \<le> length M" using b d m(2) by simp
  have "line_bytes t m K (put_at (mem_off m L + d) ys M) = line_bytes t m K M" if K: "in_line t m K" "K \<noteq> L" for K
  proof -
    have k: "mem_off m K + unat (blkSize t) \<le> length M" using in_line_bounds [OF K(1) m(1) G(1)] m(2) by simp
    obtain a a' where aa: "K = blockAlign t a" "L = blockAlign t a'" using K(1) L by (auto simp: in_line_def)
    have "mem_off m K + unat (blkSize t) \<le> mem_off m L \<or> mem_off m L + unat (blkSize t) \<le> mem_off m K"
      using lines_disjoint [OF G, of a a' m] K L unfolding aa by (simp add: in_line_def)
    then show ?thesis unfolding line_bytes_def using d by (intro bytes_at_put_other e k) auto
  qed
  then show "agree t m L M (put_at (mem_off m L + d) ys M)" using e by (simp add: agree_def put_at_length)
  show "line_bytes t m L (put_at (mem_off m L + d) ys M) = put_at d ys (line_bytes t m L M)"
    unfolding line_bytes_def by (rule bytes_at_put_inside) (use b d m(2) in simp_all)
qed

section \<open>Changes\<close>

text \<open>The line of a valid block is on no other valid block.\<close>

lemma coh_unique:
  assumes c: "coh t m M" and i: "i < length (blks t)" "isValid (blks t ! i)" and j: "j < length (blks t)" "isValid (blks t ! j)"
    and e: "line_of t (blks t ! i) = line_of t (blks t ! j)"
  shows "i = j"
proof -
  have ok: "tags_ok t" "geom t" "\<not> isSecure (blks t ! i)" "\<not> isSecure (blks t ! j)" using c i j by (auto simp: coh_def good_blk_def)
  obtain a where a: "line_of t (blks t ! i) = blockAlign t a" "btag (blks t ! i) = extractTag t a" "bset (blks t ! i) = extractSet t a"
    using line_of_valid [OF ok(2,1) i(2) tags_ok_blk [OF ok(1) i(1)]] by blast
  have "line_of t (blks t ! j) = blockAlign t a" using a(1) e by simp
  note b = line_of_eq [OF ok(2,1) j(2) tags_ok_blk [OF ok(1) j(1)] this]
  show ?thesis using valid_unique [OF ok(1) i j] a(2,3) b ok(3,4) extractSet_less [OF ok(1), of a] by (simp add: key_def)
qed

text \<open>One block changes, and perhaps the array on the line \<open>L\<close> of the new block.\<close>

lemma coh_change:
  assumes c: "coh t m M" and i: "i < length (blks t)" and t': "tags_ok t'" "same_shape t t'" "blks t' = (blks t)[i := b']"
    and new: "isValid b' \<longrightarrow> good_blk t m M' b'" and others: "\<And>j. j < length (blks t) \<Longrightarrow> j \<noteq> i \<Longrightarrow> isValid (blks t ! j) \<Longrightarrow> line_of t (blks t ! j) \<noteq> L"
    and M': "agree t m L M M'" and m': "am_range m' = am_range m" "locked m' = []"
    and N': "\<And>N. mem_ok m N \<Longrightarrow> length N = length M \<Longrightarrow> \<forall>K. in_line t m K \<and> clean_line t K \<longrightarrow> line_bytes t m K N = line_bytes t m K M \<Longrightarrow>
      \<exists>N'. mem_ok m' N' \<and> length N' = length M \<and> (\<forall>K. in_line t m K \<and> clean_line t' K \<longrightarrow> line_bytes t m K N' = line_bytes t m K M')"
  shows "coh t' m' M'"
proof -
  note S = coh_shape [OF t'(2) m'(1)]
  have "good_blk t m M' (blks t' ! j)" if j: "j < length (blks t)" "isValid (blks t' ! j)" for j
  proof (cases "j = i")
    case True
    then show ?thesis using new j i t'(3) by simp
  next
    case False
    then have b: "blks t' ! j = blks t ! j" using t'(3) by simp
    then have g: "good_blk t m M (blks t ! j)" using c j by (auto simp: coh_def)
    moreover have "line_of t (blks t ! j) \<noteq> L" using others [OF j(1) False] j(2) b by simp
    ultimately have "line_bytes t m (line_of t (blks t ! j)) M' = line_bytes t m (line_of t (blks t ! j)) M"
      using M' by (simp add: agree_def good_blk_def)
    then show ?thesis using g b by (simp add: good_blk_def)
  qed
  moreover obtain N where "mem_ok m N" "length N = length M" "\<forall>K. in_line t m K \<and> clean_line t K \<longrightarrow> line_bytes t m K N = line_bytes t m K M"
    using c by (auto simp: coh_def)
  moreover note N' [OF this]
  moreover have "length M' = length M" using M' by (simp add: agree_def)
  ultimately show ?thesis using t' m'(2) c geom_shape [OF t'(2)] unfolding coh_def by (auto simp: S)
qed

text \<open>The clean lines when a block changes.\<close>

lemma clean_change:
  assumes "same_shape t t'" "blks t' = (blks t)[i := b']" "clean_line t' K" "i < length (blks t)"
    and "isValid (blks t ! i) \<and> isDirty (blks t ! i) \<longrightarrow> line_of t (blks t ! i) \<noteq> K"
  shows "clean_line t K"
  unfolding clean_line_def
proof (intro allI impI)
  fix j assume j: "j < length (blks t)" "isValid (blks t ! j) \<and> isDirty (blks t ! j)"
  show "line_of t (blks t ! j) \<noteq> K"
  proof (cases "j = i")
    case False
    then show ?thesis using assms(2,3) j line_of_shape [OF assms(1)] by (auto simp: clean_line_def)
  qed (use assms(5) j in auto)
qed

text \<open>Reading and writing a block that is there.\<close>

lemma coh_read_hit:
  assumes c: "coh t m M" and i: "i < length (blks t)" "isValid (blks t ! i)" and t': "tags_ok t'" "same_shape t t'" "blks t' = (blks t)[i := b']"
    and b': "btag b' = btag (blks t ! i)" "bset b' = bset (blks t ! i)" "status b' = status (blks t ! i)" "bdata b' = bdata (blks t ! i)"
  shows "coh t' m M"
proof (rule coh_change [OF c i(1) t' _ _ agree_refl [of t m "line_of t (blks t ! i)"]])
  have l: "line_of t b' = line_of t (blks t ! i)" using b' by (simp add: line_of_def)
  show "isValid b' \<longrightarrow> good_blk t m M b'" using c i b' l
    by (auto simp: coh_def good_blk_def isWritable_def isReadable_def isSecure_def)
  show "line_of t (blks t ! j) \<noteq> line_of t (blks t ! i)" if "j < length (blks t)" "j \<noteq> i" "isValid (blks t ! j)" for j
    using coh_unique [OF c that(1,3) i] that(2) by auto
  show "locked m = []" using c by (simp add: coh_def)
  have "clean_line t' K = clean_line t K" for K
  proof -
    have e: "(isValid (blks t' ! j) \<and> isDirty (blks t' ! j) \<longrightarrow> line_of t' (blks t' ! j) \<noteq> K) = (isValid (blks t ! j) \<and> isDirty (blks t ! j) \<longrightarrow> line_of t (blks t ! j) \<noteq> K)" for j
      using t'(3) b' l i(1) line_of_shape [OF t'(2)] by (cases "j = i") (simp_all add: isValid_def isDirty_def)
    show ?thesis unfolding clean_line_def using e t'(3) by simp
  qed
  then show "\<exists>N'. mem_ok m N' \<and> length N' = length M \<and> (\<forall>K. in_line t m K \<and> clean_line t' K \<longrightarrow> line_bytes t m K N' = line_bytes t m K M)"
    if "mem_ok m N" "length N = length M" "\<forall>K. in_line t m K \<and> clean_line t K \<longrightarrow> line_bytes t m K N = line_bytes t m K M" for N
    using that by auto
qed simp

lemma coh_write_hit:
  assumes c: "coh t m M" and i: "i < length (blks t)" "isValid (blks t ! i)" and t': "tags_ok t'" "same_shape t t'" "blks t' = (blks t)[i := b']"
    and b': "btag b' = btag (blks t ! i)" "bset b' = bset (blks t ! i)" "status b' = status (blks t ! i) OR BlkDirty"
      "bdata b' = put_at d ys (bdata (blks t ! i))" and d: "d + length ys \<le> unat (blkSize t)"
  shows "coh t' m (put_at (mem_off m (line_of t (blks t ! i)) + d) ys M)"
proof -
  let ?L = "line_of t (blks t ! i)"
  have G: "geom t" "tags_ok t" and g: "good_blk t m M (blks t ! i)" using c i by (auto simp: coh_def)
  obtain N0 where N0: "mem_ok m N0" "length M = length N0" using c by (auto simp: coh_def)
  have L: "in_line t m ?L" "bdata (blks t ! i) = line_bytes t m ?L M" using g by (simp_all add: good_blk_def)
  note P = put_line [OF G L(1) N0 d]
  have l: "line_of t b' = ?L" using b' by (simp add: line_of_def)
  have bits: "isWritable b' = isWritable (blks t ! i)" "isReadable b' = isReadable (blks t ! i)" "isSecure b' = isSecure (blks t ! i)" "isDirty b'" "isValid b'"
    using b'(3) i(2) unfolding isWritable_def isReadable_def isSecure_def isDirty_def isValid_def
    by (simp_all add: blk_bits bit_simps and.assoc bit.conj_disj_distrib2)
  show ?thesis
  proof (rule coh_change [OF c i(1) t' _ _ P(1)])
    show "isValid b' \<longrightarrow> good_blk t m (put_at (mem_off m ?L + d) ys M) b'" using g bits l L b'(4) P(2) by (simp add: good_blk_def)
    show "line_of t (blks t ! j) \<noteq> ?L" if "j < length (blks t)" "j \<noteq> i" "isValid (blks t ! j)" for j
      using coh_unique [OF c that(1,3) i] that(2) by auto
    show "locked m = []" using c by (simp add: coh_def)
    show "\<exists>N'. mem_ok m N' \<and> length N' = length M \<and> (\<forall>K. in_line t m K \<and> clean_line t' K \<longrightarrow> line_bytes t m K N' = line_bytes t m K (put_at (mem_off m ?L + d) ys M))"
      if N: "mem_ok m N" "length N = length M" "\<forall>K. in_line t m K \<and> clean_line t K \<longrightarrow> line_bytes t m K N = line_bytes t m K M" for N
    proof (intro exI [of _ N] conjI N allI impI)
      fix K assume K: "in_line t m K \<and> clean_line t' K"
      have "K \<noteq> ?L" using K i(1) t'(3) bits(4,5) l line_of_shape [OF t'(2)] by (fastforce simp: clean_line_def)
      moreover from this have "clean_line t K" using clean_change [OF t'(2,3)] K i(1) by auto
      ultimately show "line_bytes t m K N = line_bytes t m K (put_at (mem_off m ?L + d) ys M)" using N(3) K P(1) by (simp add: agree_def)
    qed
  qed simp
qed

section \<open>Write backs\<close>

text \<open>The memory after the write back of a block, if it is valid and dirty.\<close>

definition wb_bytes :: "tagstore \<Rightarrow> absmem \<Rightarrow> cblk \<Rightarrow> byte list \<Rightarrow> byte list" where
  "wb_bytes t m b N = (if isValid b \<and> isDirty b then put_at (mem_off m (line_of t b)) (bdata b) N else N)"

lemma wb_mem:
  assumes c: "coh t m M" and i: "i < length (blks t)"
    and N: "mem_ok m N" "length N = length M" "\<forall>K. in_line t m K \<and> clean_line t K \<longrightarrow> line_bytes t m K N = line_bytes t m K M"
    and t': "same_shape t t'" "blks t' = (blks t)[i := b']"
  shows "length (wb_bytes t m (blks t ! i) N) = length M"
    and "in_line t m K \<Longrightarrow> clean_line t' K \<Longrightarrow> line_bytes t m K (wb_bytes t m (blks t ! i) N) = line_bytes t m K M"
proof -
  let ?b = "blks t ! i"
  have G: "geom t" "tags_ok t" using c by (simp_all add: coh_def)
  have K: "clean_line t K" if "clean_line t' K" "isValid ?b \<and> isDirty ?b \<longrightarrow> line_of t ?b \<noteq> K" for K
    by (rule clean_change [OF t' that(1) i that(2)])
  have "length (wb_bytes t m ?b N) = length M \<and> (\<forall>K. in_line t m K \<longrightarrow> clean_line t' K \<longrightarrow> line_bytes t m K (wb_bytes t m ?b N) = line_bytes t m K M)"
  proof (cases "isValid ?b \<and> isDirty ?b")
    case False
    then show "length (wb_bytes t m ?b N) = length M \<and> (\<forall>K. in_line t m K \<longrightarrow> clean_line t' K \<longrightarrow> line_bytes t m K (wb_bytes t m ?b N) = line_bytes t m K M)"
      using N K by (auto simp: wb_bytes_def)
  next
    case True
    let ?L = "line_of t ?b"
    have L: "in_line t m ?L" "bdata ?b = line_bytes t m ?L M" using c i True by (auto simp: coh_def good_blk_def)
    have "mem_off m ?L + unat (blkSize t) \<le> length M" using in_line_bounds [OF L(1) N(1) G(1)] N(2) by simp
    then have len: "length (bdata ?b) = unat (blkSize t)" unfolding L(2) line_bytes_def by (rule bytes_at_length)
    then have d: "0 + length (bdata ?b) \<le> unat (blkSize t)" by simp
    note P = put_line [OF G L(1) N(1) refl d]
    have w: "wb_bytes t m ?b N = put_at (mem_off m ?L + 0) (bdata ?b) N" using True by (simp add: wb_bytes_def)
    have ln: "length (line_bytes t m ?L N) = unat (blkSize t)"
      unfolding line_bytes_def by (rule bytes_at_length) (use in_line_bounds [OF L(1) N(1) G(1)] in simp)
    have "put_at 0 (bdata ?b) (line_bytes t m ?L N) = bdata ?b" using len ln by (simp add: put_at_def)
    then have "line_bytes t m ?L (wb_bytes t m ?b N) = line_bytes t m ?L M" using P(2) w L(2) by simp
    moreover have "line_bytes t m K (wb_bytes t m ?b N) = line_bytes t m K M" if "in_line t m K" "clean_line t' K" "K \<noteq> ?L" for K
      using P(1) w that N(3) K [OF that(2)] by (auto simp: agree_def)
    ultimately have "line_bytes t m K (wb_bytes t m ?b N) = line_bytes t m K M" if "in_line t m K" "clean_line t' K" for K
      using that by (cases "K = ?L") auto
    moreover have "length (wb_bytes t m ?b N) = length M" using P(1) w N(2) by (simp add: agree_def)
    ultimately show "length (wb_bytes t m ?b N) = length M \<and> (\<forall>K. in_line t m K \<longrightarrow> clean_line t' K \<longrightarrow> line_bytes t m K (wb_bytes t m ?b N) = line_bytes t m K M)" by blast
  qed
  then show "length (wb_bytes t m ?b N) = length M" "in_line t m K \<Longrightarrow> clean_line t' K \<Longrightarrow> line_bytes t m K (wb_bytes t m ?b N) = line_bytes t m K M"
    by blast+
qed

text \<open>A new line takes the place of a block; the block is written back.\<close>

lemma coh_insert:
  assumes c: "coh t m M" and i: "i < length (blks t)" and t': "tags_ok t'" "same_shape t t'" "blks t' = (blks t)[i := b']"
    and b': "isValid b'" "good_blk t m M' b'" and fresh: "\<And>j. j < length (blks t) \<Longrightarrow> isValid (blks t ! j) \<Longrightarrow> line_of t (blks t ! j) \<noteq> line_of t b'"
    and M': "agree t m (line_of t b') M M'" "\<not> isDirty b' \<longrightarrow> M' = M"
    and m': "am_range m' = am_range m" "locked m' = []" "\<And>N. mem_ok m N \<Longrightarrow> length N = length M \<Longrightarrow> mem_ok m' (wb_bytes t m (blks t ! i) N)"
  shows "coh t' m' M'"
proof (rule coh_change [OF c i t' _ _ M'(1) m'(1,2)])
  show "isValid b' \<longrightarrow> good_blk t m M' b'" using b' by simp
  show "line_of t (blks t ! j) \<noteq> line_of t b'" if "j < length (blks t)" "isValid (blks t ! j)" for j using fresh that by blast
  show "\<exists>N'. mem_ok m' N' \<and> length N' = length M \<and> (\<forall>K. in_line t m K \<and> clean_line t' K \<longrightarrow> line_bytes t m K N' = line_bytes t m K M')"
    if N: "mem_ok m N" "length N = length M" "\<forall>K. in_line t m K \<and> clean_line t K \<longrightarrow> line_bytes t m K N = line_bytes t m K M" for N
  proof (intro exI [of _ "wb_bytes t m (blks t ! i) N"] conjI allI impI)
    note W = wb_mem [OF c i N t'(2,3)]
    show "mem_ok m' (wb_bytes t m (blks t ! i) N)" by (rule m'(3) [OF N(1,2)])
    show "length (wb_bytes t m (blks t ! i) N) = length M" by (rule W(1))
    fix K assume K: "in_line t m K \<and> clean_line t' K"
    show "line_bytes t m K (wb_bytes t m (blks t ! i) N) = line_bytes t m K M'"
    proof (cases "K = line_of t b'")
      case True
      then have "\<not> isDirty b'" using K b'(1) i t'(3) line_of_shape [OF t'(2)] by (fastforce simp: clean_line_def)
      then show ?thesis using W(2) K M'(2) by simp
    next
      case False
      then show ?thesis using W(2) K M'(1) by (simp add: agree_def)
    qed
  qed
qed

text \<open>A block is written back and invalidated.\<close>

lemma coh_flush:
  assumes c: "coh t m M" and i: "i < length (blks t)" "isValid (blks t ! i)" and t': "tags_ok t'" "same_shape t t'" "blks t' = (blks t)[i := b']"
    and b': "\<not> isValid b'"
    and m': "am_range m' = am_range m" "locked m' = []" "\<And>N. mem_ok m N \<Longrightarrow> length N = length M \<Longrightarrow> mem_ok m' (wb_bytes t m (blks t ! i) N)"
  shows "coh t' m' M" and "j < length (blks t') \<Longrightarrow> isValid (blks t' ! j) \<Longrightarrow> line_of t' (blks t' ! j) \<noteq> line_of t (blks t ! i)"
proof -
  have u: "line_of t (blks t ! j) \<noteq> line_of t (blks t ! i)" if "j < length (blks t)" "j \<noteq> i" "isValid (blks t ! j)" for j
    using coh_unique [OF c that(1,3) i] that(2) by auto
  show "coh t' m' M"
  proof (rule coh_change [OF c i(1) t' _ u agree_refl m'(1,2)])
    show "isValid b' \<longrightarrow> good_blk t m M b'" using b' by simp
    show "\<exists>N'. mem_ok m' N' \<and> length N' = length M \<and> (\<forall>K. in_line t m K \<and> clean_line t' K \<longrightarrow> line_bytes t m K N' = line_bytes t m K M)"
      if N: "mem_ok m N" "length N = length M" "\<forall>K. in_line t m K \<and> clean_line t K \<longrightarrow> line_bytes t m K N = line_bytes t m K M" for N
      using wb_mem [OF c i(1) N t'(2,3)] m'(3) [OF N(1,2)] by (intro exI [of _ "wb_bytes t m (blks t ! i) N"]) simp
  qed
  show "line_of t' (blks t' ! j) \<noteq> line_of t (blks t ! i)" if "j < length (blks t')" "isValid (blks t' ! j)"
  proof (cases "j = i")
    case True
    then show ?thesis using that b' i(1) t'(3) by simp
  next
    case False
    then show ?thesis using u [of j] that t'(3) line_of_shape [OF t'(2)] by simp
  qed
qed

text \<open>The memory changes below a line that no block holds.\<close>

lemma coh_memory:
  assumes c: "coh t m M" and L: "in_line t m L" and none: "\<And>j. j < length (blks t) \<Longrightarrow> isValid (blks t ! j) \<Longrightarrow> line_of t (blks t ! j) \<noteq> L"
    and d: "d + length ys \<le> unat (blkSize t)" and m': "am_range m' = am_range m" "locked m' = []"
    and w: "\<And>N. mem_ok m N \<Longrightarrow> length N = length M \<Longrightarrow> mem_ok m' (put_at (mem_off m L + d) ys N)"
  shows "coh t m' (put_at (mem_off m L + d) ys M)"
proof -
  have G: "geom t" "tags_ok t" using c by (simp_all add: coh_def)
  have sh: "same_shape t t" by (simp add: same_shape_def)
  note S = coh_shape [OF sh m'(1)]
  obtain N where N: "mem_ok m N" "length N = length M" "\<forall>K. in_line t m K \<and> clean_line t K \<longrightarrow> line_bytes t m K N = line_bytes t m K M"
    using c by (auto simp: coh_def)
  note P = put_line [OF G L N(1) N(2) [symmetric] d] and Q = put_line [OF G L N(1) refl d]
  have cl: "clean_line t L" using none by (auto simp: clean_line_def)
  have "good_blk t m (put_at (mem_off m L + d) ys M) (blks t ! j)" if j: "j < length (blks t)" "isValid (blks t ! j)" for j
    using c j none [OF j] P(1) by (auto simp: coh_def good_blk_def agree_def)
  moreover have "line_bytes t m K (put_at (mem_off m L + d) ys N) = line_bytes t m K (put_at (mem_off m L + d) ys M)" if "in_line t m K" "clean_line t K" for K
    using that P Q N(3) cl L by (cases "K = L") (auto simp: agree_def)
  moreover have "length (put_at (mem_off m L + d) ys N) = length (put_at (mem_off m L + d) ys M)" using P(1) Q(1) N(2) by (simp add: agree_def)
  ultimately show ?thesis using c m'(2) w [OF N(1,2)] unfolding coh_def S by auto
qed

end
