(* ===== verification/Cache_Spec.thy ===== *)
theory Cache_Spec imports Cache_LRU "HOL-Library.Sublist" begin

text \<open>
  What a cache with least recently used replacement promises: accesses, cacheable or not, act on the
  list of the lines a set holds.  The interface \<open>line_cache\<close> states it per access; sequences, and
  the comparison of caches with different associativity, follow.
\<close>

section \<open>Lists of lines\<close>

lemma lru_use_present:
  assumes "k \<in> set xs" "length xs \<le> n"
  shows "lru_use n k xs = k # remove1 k xs"
proof -
  have "length (k # remove1 k xs) = length xs" using assms(1) length_pos_if_in_set [OF assms(1)] by (simp add: length_remove1)
  then show ?thesis using assms(2) by (simp only: lru_use_def take_all)
qed

lemma lru_use_absent: "k \<notin> set xs \<Longrightarrow> lru_use n k xs = take n (k # xs)"
  by (simp add: lru_use_def remove1_idem)

text \<open>A cache with fewer ways holds a prefix of what one with more ways holds.\<close>

lemma prefix_remove1: "prefix xs ys \<Longrightarrow> prefix (remove1 k xs) (remove1 k ys)"
  by (cases "k \<in> set xs") (auto simp: prefix_def remove1_append remove1_idem)

lemma prefix_take:
  assumes "prefix xs ys" "n \<le> m"
  shows "prefix (take n xs) (take m ys)"
proof -
  obtain zs where "ys = xs @ zs" using assms(1) by (auto simp: prefix_def)
  then have "take m ys = take m xs @ take (m - length xs) zs" by simp
  moreover have "prefix (take n xs) (take m xs)" using assms(2) by (metis min.absorb1 take_take take_is_prefix)
  ultimately show ?thesis by (metis prefix_prefix)
qed

lemma lru_use_prefix: "n \<le> m \<Longrightarrow> prefix xs ys \<Longrightarrow> prefix (lru_use n k xs) (lru_use m k ys)"
  unfolding lru_use_def by (intro prefix_take) (simp_all add: prefix_remove1)

section \<open>The interface\<close>

text \<open>Running a list of accesses; the result tells which ones hit.\<close>

fun run_ops :: "('r \<Rightarrow> 'c \<Rightarrow> ('h \<times> 'c) res) \<Rightarrow> 'r list \<Rightarrow> 'c \<Rightarrow> ('h list \<times> 'c) res" where
  "run_ops acc [] c = Inr ([], c)"
| "run_ops acc (r # rs) c = bindR (acc r c) (\<lambda>(h, c1). bindR (run_ops acc rs c1) (\<lambda>(hs, c2). Inr (h # hs, c2)))"

text \<open>One access on the lists: it uses its line, or, if it is of the kind that \<open>drops\<close> tells, takes
  it out.\<close>

definition line_step :: "bool \<Rightarrow> nat \<Rightarrow> 'k \<Rightarrow> 'k list \<Rightarrow> 'k list" where
  "line_step drops n k xs = (if drops then remove1 k xs else lru_use n k xs)"

locale line_cache =
  fixes acc :: "'r \<Rightarrow> 'c \<Rightarrow> (bool \<times> 'c) res" and drops :: "'r \<Rightarrow> bool"
    and line :: "'r \<Rightarrow> 'k" and slot :: "'r \<Rightarrow> nat" and ways :: nat
    and ok :: "'r \<Rightarrow> bool" and inv_c :: "'c \<Rightarrow> bool" and lines :: "'c \<Rightarrow> nat \<Rightarrow> 'k list"
  assumes access_law: "inv_c c \<Longrightarrow> ok r \<Longrightarrow>
      \<exists>c'. acc r c = Inr (\<not> drops r \<and> line r \<in> set (lines c (slot r)), c') \<and> inv_c c' \<and>
        lines c' = (lines c)(slot r := line_step (drops r) ways (line r) (lines c (slot r)))"

text \<open>The reference: the same accesses on the lists alone.\<close>

fun spec_ops :: "('r \<Rightarrow> bool) \<Rightarrow> ('r \<Rightarrow> 'k) \<Rightarrow> ('r \<Rightarrow> nat) \<Rightarrow> nat \<Rightarrow> 'r list \<Rightarrow> (nat \<Rightarrow> 'k list) \<Rightarrow> bool list \<times> (nat \<Rightarrow> 'k list)" where
  "spec_ops drops line slot n [] L = ([], L)"
| "spec_ops drops line slot n (r # rs) L =
     (let (hs, L') = spec_ops drops line slot n rs (L(slot r := line_step (drops r) n (line r) (L (slot r)))) in
      ((\<not> drops r \<and> line r \<in> set (L (slot r))) # hs, L'))"

context line_cache begin

lemma run_refines:
  assumes "inv_c c" "\<forall>r\<in>set rs. ok r"
  shows "\<exists>c'. run_ops acc rs c = Inr (fst (spec_ops drops line slot ways rs (lines c)), c') \<and> inv_c c' \<and>
     lines c' = snd (spec_ops drops line slot ways rs (lines c))"
  using assms
proof (induction rs arbitrary: c)
  case (Cons r rs)
  obtain c1 where c1: "acc r c = Inr (\<not> drops r \<and> line r \<in> set (lines c (slot r)), c1)" "inv_c c1"
      "lines c1 = (lines c)(slot r := line_step (drops r) ways (line r) (lines c (slot r)))"
    using access_law [OF Cons.prems(1), of r] Cons.prems(2) by auto
  obtain c2 where "run_ops acc rs c1 = Inr (fst (spec_ops drops line slot ways rs (lines c1)), c2)" "inv_c c2"
      "lines c2 = snd (spec_ops drops line slot ways rs (lines c1))"
    using Cons.IH [OF c1(2)] Cons.prems(2) by auto
  then show ?case using c1 by (simp add: case_prod_beta Let_def)
qed simp

end

text \<open>More ways, more hits, starting from prefixes.\<close>

lemma spec_inclusion:
  assumes "n \<le> m" "\<forall>s. prefix (L s) (M s)"
  shows "list_all2 (\<longrightarrow>) (fst (spec_ops drops line slot n rs L)) (fst (spec_ops drops line slot m rs M))"
  using assms(2)
proof (induction rs arbitrary: L M)
  case (Cons r rs)
  let ?L = "L(slot r := line_step (drops r) n (line r) (L (slot r)))" and ?M = "M(slot r := line_step (drops r) m (line r) (M (slot r)))"
  have "\<forall>s. prefix (?L s) (?M s)" using Cons.prems assms(1) by (simp add: line_step_def lru_use_prefix prefix_remove1)
  from Cons.IH [OF this]
  have "list_all2 (\<longrightarrow>) (fst (spec_ops drops line slot n rs ?L)) (fst (spec_ops drops line slot m rs ?M))" .
  moreover have "line r \<in> set (L (slot r)) \<longrightarrow> line r \<in> set (M (slot r))" using Cons.prems set_mono_prefix by blast
  ultimately show ?case by (simp add: case_prod_beta Let_def)
qed simp

section \<open>An array of bytes\<close>

text \<open>Something that answers requests as one array of bytes would.\<close>

locale array_port =
  fixes serve :: "'q \<Rightarrow> 's \<Rightarrow> ('a \<times> 's) res" and okq :: "'q \<Rightarrow> bool" and rep :: "'s \<Rightarrow> 'm \<Rightarrow> bool"
    and answer :: "'q \<Rightarrow> 'm \<Rightarrow> 'a" and update :: "'q \<Rightarrow> 'm \<Rightarrow> 'm"
  assumes serve_law: "rep s M \<Longrightarrow> okq q \<Longrightarrow> \<exists>s'. serve q s = Inr (answer q M, s') \<and> rep s' (update q M)"

fun array_run :: "('q \<Rightarrow> 'm \<Rightarrow> 'a) \<Rightarrow> ('q \<Rightarrow> 'm \<Rightarrow> 'm) \<Rightarrow> 'q list \<Rightarrow> 'm \<Rightarrow> 'a list \<times> 'm" where
  "array_run ans upd [] M = ([], M)"
| "array_run ans upd (q # qs) M = (let (as, M') = array_run ans upd qs (upd q M) in (ans q M # as, M'))"

context array_port begin

lemma run_array:
  assumes "rep s M" "\<forall>q\<in>set qs. okq q"
  shows "\<exists>s'. run_ops serve qs s = Inr (fst (array_run answer update qs M), s') \<and> rep s' (snd (array_run answer update qs M))"
  using assms
proof (induction qs arbitrary: s M)
  case (Cons q qs)
  obtain s1 where s1: "serve q s = Inr (answer q M, s1)" "rep s1 (update q M)" using serve_law [OF Cons.prems(1)] Cons.prems(2) by auto
  obtain s2 where "run_ops serve qs s1 = Inr (fst (array_run answer update qs (update q M)), s2)" "rep s2 (snd (array_run answer update qs (update q M)))"
    using Cons.IH [OF s1(2)] Cons.prems(2) by auto
  then show ?case using s1 by (simp add: case_prod_beta Let_def)
qed simp

end

end
