(* ===== verification/Cache_Atomic.thy ===== *)
theory Cache_Atomic imports Cache_Coh Cache_Spec begin

text \<open>
  Atomic accesses to a top-level cache over a memory: every read and write of a CPU, cacheable or
  not, does what it would do to one array of bytes, and to the lines of the cache what least
  recently used replacement prescribes.
\<close>

section \<open>Packets of a CPU\<close>

text \<open>Reads and writes within one line of the memory.\<close>

definition line_pkt :: "tagstore \<Rightarrow> absmem \<Rightarrow> packet \<Rightarrow> bool" where
  "line_pkt t m p \<longleftrightarrow> (pk_cmd p = ReadReq \<or> pk_cmd p = WriteReq \<or> pk_cmd p = WriteInvalidateReq \<and> pk_size p = blkSize t \<and> getOffset (blkSize t) p = 0) \<and>
     rq_paddr (pk_req p) = pk_addr p \<and> \<not> pk_secure p \<and> \<not> rq_secure (pk_req p) \<and> \<not> pk_inhibit p \<and> \<not> pk_shared p \<and> 0 < unat (pk_size p) \<and>
     unat (getOffset (blkSize t) p) + unat (pk_size p) \<le> unat (blkSize t) \<and> in_mem m (blockAlign t (pk_addr p)) (unat (blkSize t)) \<and>
     (case pk_data p of None \<Rightarrow> False | Some d \<Rightarrow> length d = unat (pk_size p)) \<and> rq_master (pk_req p) < maxMasters t \<and>
     (pk_cmd p \<noteq> ReadReq \<longrightarrow> \<not> rq_inst_fetch (pk_req p)) \<and> \<not> rq_clear_ll (pk_req p)"

text \<open>What a CPU sends; uncacheable writes of whole lines are the case the code gets wrong.\<close>

definition cpu_pkt :: "tagstore \<Rightarrow> absmem \<Rightarrow> packet \<Rightarrow> bool" where
  "cpu_pkt t m p \<longleftrightarrow> line_pkt t m p \<and> pk_cmd p \<noteq> WriteInvalidateReq \<and>
     \<not> (rq_uncacheable (pk_req p) \<and> pk_cmd p = WriteReq \<and> pk_size p = blkSize t \<and> getOffset (blkSize t) p = 0)"

text \<open>What the packet does to the array.\<close>

definition array_after :: "absmem \<Rightarrow> packet \<Rightarrow> byte list \<Rightarrow> byte list" where
  "array_after m p M = (if pk_cmd p = ReadReq then M else put_at (mem_off m (pk_addr p)) (the (pk_data p)) M)"

definition array_bytes :: "absmem \<Rightarrow> packet \<Rightarrow> byte list \<Rightarrow> byte list" where
  "array_bytes m p M = bytes_at (mem_off m (pk_addr p)) (unat (pk_size p)) M"

lemma line_pkt_shape: "same_shape t t' \<Longrightarrow> am_range m' = am_range m \<Longrightarrow> line_pkt t' m' p = line_pkt t m p"
  using blockAlign_shape [of t t'] by (simp add: line_pkt_def same_shape_def in_mem_def)

lemma array_range: "am_range m' = am_range m \<Longrightarrow> array_after m' p M = array_after m p M" "am_range m' = am_range m \<Longrightarrow> array_bytes m' p M = array_bytes m p M"
  by (simp_all add: array_after_def array_bytes_def mem_off_def)

lemma line_pkt_line:
  assumes p: "line_pkt t m p" and G: "geom t" "tags_ok t"
  shows "in_line t m (blockAlign t (pk_addr p))" "mem_off m (pk_addr p) = mem_off m (blockAlign t (pk_addr p)) + unat (getOffset (blkSize t) p)"
    "in_mem m (pk_addr p) (unat (pk_size p))"
proof -
  have L: "in_mem m (blockAlign t (pk_addr p)) (unat (blkSize t))" using p by (simp add: line_pkt_def)
  then show "in_line t m (blockAlign t (pk_addr p))" by (auto simp: in_line_def)
  note O = block_offset(3) [OF G, of p]
  show "mem_off m (pk_addr p) = mem_off m (blockAlign t (pk_addr p)) + unat (getOffset (blkSize t) p)"
    using O L by (simp add: mem_off_def in_mem_def)
  show "in_mem m (pk_addr p) (unat (pk_size p))" using O L p by (auto simp: in_mem_def line_pkt_def)
qed

lemma line_pkt_data: "line_pkt t m p \<Longrightarrow> \<exists>d. pk_data p = Some d \<and> length d = unat (pk_size p)"
  by (cases "pk_data p") (auto simp: line_pkt_def)

text \<open>The bytes of the packet, and what it writes, in terms of its line.\<close>

lemma array_line:
  assumes p: "line_pkt t m p" and G: "geom t" "tags_ok t" and N: "mem_ok m N" "length M = length N"
  shows "array_bytes m p M = bytes_at (unat (getOffset (blkSize t) p)) (unat (pk_size p)) (line_bytes t m (blockAlign t (pk_addr p)) M)"
    "agree t m (blockAlign t (pk_addr p)) M (array_after m p M)"
    "line_bytes t m (blockAlign t (pk_addr p)) (array_after m p M) =
       (if pk_cmd p = ReadReq then line_bytes t m (blockAlign t (pk_addr p)) M
        else put_at (unat (getOffset (blkSize t) p)) (the (pk_data p)) (line_bytes t m (blockAlign t (pk_addr p)) M))"
    "pk_cmd p = WriteInvalidateReq \<Longrightarrow> line_bytes t m (blockAlign t (pk_addr p)) (array_after m p M) = the (pk_data p)"
proof -
  note L = line_pkt_line [OF p G]
  obtain d where d: "pk_data p = Some d" "length d = unat (pk_size p)" using line_pkt_data [OF p] by blast
  have le: "unat (getOffset (blkSize t) p) + length d \<le> unat (blkSize t)" using p d(2) by (simp add: line_pkt_def)
  note P = put_line [OF G L(1) N le]
  show "array_bytes m p M = bytes_at (unat (getOffset (blkSize t) p)) (unat (pk_size p)) (line_bytes t m (blockAlign t (pk_addr p)) M)"
    using le d(2) by (simp add: array_bytes_def line_bytes_def bytes_at_bytes_at L(2))
  show "agree t m (blockAlign t (pk_addr p)) M (array_after m p M)"
    using P(1) d(1) agree_refl by (simp add: array_after_def L(2))
  show B: "line_bytes t m (blockAlign t (pk_addr p)) (array_after m p M) =
       (if pk_cmd p = ReadReq then line_bytes t m (blockAlign t (pk_addr p)) M
        else put_at (unat (getOffset (blkSize t) p)) (the (pk_data p)) (line_bytes t m (blockAlign t (pk_addr p)) M))"
    using P(2) d(1) by (simp add: array_after_def L(2))
  show "line_bytes t m (blockAlign t (pk_addr p)) (array_after m p M) = the (pk_data p)" if c: "pk_cmd p = WriteInvalidateReq"
  proof -
    have "length (line_bytes t m (blockAlign t (pk_addr p)) M) = unat (blkSize t)"
      unfolding line_bytes_def by (rule bytes_at_length) (use in_line_bounds [OF L(1) N(1) G(1)] N(2) in simp)
    then show ?thesis using p c d by (simp add: B line_pkt_def put_at_def)
  qed
qed

section \<open>Satisfying\<close>

text \<open>Reads, writes and whole-line writes on a block that is writable.\<close>

lemma satisfy_ok:
  assumes i: "isValid (blks (tags c) ! i)" "isWritable (blks (tags c) ! i)" "length (bdata (blks (tags c) ! i)) = unat (blkSize (tags c))" and top: "isTopLevel c"
    and p: "pk_cmd p = ReadReq \<or> pk_cmd p = WriteReq \<or> pk_cmd p = WriteInvalidateReq" "pk_data p = Some d" "length d = unat (pk_size p)"
      "unat (getOffset (blkSize (tags c)) p) + unat (pk_size p) \<le> unat (blkSize (tags c))"
  shows "\<exists>p' b'. satisfyCpuSideRequest now p (Way i) False False c = Inr (p', put_blk (Way i) b' c) \<and> pk_cmd p' = pk_cmd p \<and>
     btag b' = btag (blks (tags c) ! i) \<and> bset b' = bset (blks (tags c) ! i) \<and> srcMasterId b' = srcMasterId (blks (tags c) ! i) \<and>
     (if pk_cmd p = ReadReq then status b' = status (blks (tags c) ! i) \<and> bdata b' = bdata (blks (tags c) ! i) \<and>
        pk_data p' = Some (bytes_at (unat (getOffset (blkSize (tags c)) p)) (unat (pk_size p)) (bdata (blks (tags c) ! i)))
      else status b' = status (blks (tags c) ! i) OR BlkDirty \<and> bdata b' = put_at (unat (getOffset (blkSize (tags c)) p)) d (bdata (blks (tags c) ! i)))"
proof -
  let ?b = "blks (tags c) ! i" and ?n = "blkSize (tags c)"
  let ?o = "getOffset ?n p"
  have u: "uint (pk_size p) = int (unat (pk_size p))" "uint ?o = int (unat ?o)" by simp_all
  have nn: "unat (ucast ?n :: maddr) = unat ?n" "unat (ucast (pk_size p) :: maddr) = unat (pk_size p)" by (simp_all add: unsigned_ucast_eq unsigned_take_bit_eq take_bit_nat_eq_self less_trans [OF unsigned_less])
  have "unat (?o + ucast (pk_size p)) = unat ?o + unat (pk_size p)"
  proof -
    have "unat ?n < 2 ^ 32" using unsigned_less [where ?'a = nat, of ?n] by simp
    then have "unat ?o + unat (ucast (pk_size p) :: maddr) < 2 ^ LENGTH(64)" unfolding nn using p(4) by simp
    then show ?thesis using nn by (simp add: unat_add_lem [THEN iffD1])
  qed
  then have g: "?o + ucast (pk_size p) \<le> ucast ?n" unfolding word_le_nat_alt nn using p(4) by simp
  consider (rd) "pk_cmd p = ReadReq" | (wr) "pk_cmd p = WriteReq \<or> pk_cmd p = WriteInvalidateReq" using p(1) by blast
  then show ?thesis
  proof cases
    case rd
    let ?q = "p\<lparr>pk_data := Some (bytes_at (unat ?o) (unat (pk_size p)) (bdata ?b))\<rparr>"
    have "setDataFromBlock (bdata ?b) ?n p = Inr (p\<lparr>pk_data := Some (bytes_at (unat ?o) (unat (pk_size p)) (bdata ?b))\<rparr>)"
      using memcpy_all [OF p(3), of "unat ?o" "bdata ?b"] p(2,4) i(3) unfolding setDataFromBlock_def setData_def getPtr_def u by simp
    then have "satisfyCpuSideRequest now p (Way i) False False c = Inr (?q, c) \<or> satisfyCpuSideRequest now p (Way i) False False c = Inr (?q\<lparr>pk_shared := True\<rparr>, c)"
      using rd i top g by (simp add: satisfyCpuSideRequest_def Let_def packet_tests)
    then obtain p' where "satisfyCpuSideRequest now p (Way i) False False c = Inr (p', c)" "p' = ?q \<or> p' = ?q\<lparr>pk_shared := True\<rparr>" by blast
    then show ?thesis using rd by (intro exI [of _ p'] exI [of _ ?b]) auto
  next
    case wr
    have "memcpy (bdata ?b) (int (unat ?o)) d 0 (int (unat (pk_size p))) = Inr (put_at (unat ?o) d (bdata ?b))"
      by (rule memcpy_put [OF p(3)]) (use p(4) i(3) in simp)
    then have w: "writeDataToBlock (bdata ?b) ?n p = Inr (put_at (unat ?o) d (bdata ?b))"
      using p(2) unfolding writeDataToBlock_def writeData_def getPtr_def u by simp
    let ?b' = "(clearLoadLocks (Some (pk_req p)) ?b)\<lparr>bdata := put_at (unat ?o) d (bdata ?b), status := status ?b OR BlkDirty\<rparr>"
    have cl: "clearLoadLocks (Some r) b = b\<lparr>lockList := erase_locks r (lockList b)\<rparr>" for r b by (simp add: clearLoadLocks_def)
    have cw: "checkWrite p ?b = (True, p, clearLoadLocks (Some (pk_req p)) ?b)" using wr by (auto simp: checkWrite_def packet_tests)
    have ts: "isRequest p" "pk_cmd p \<noteq> SwapReq" "isWrite p" using wr by (auto simp: packet_tests)
    have "satisfyCpuSideRequest now p (Way i) False False c = Inr (p, put_blk (Way i) ?b' c)"
      using w i g top ts by (simp add: satisfyCpuSideRequest_def Let_def cw cl)
    then show ?thesis using wr by (intro exI [of _ p] exI [of _ ?b']) (auto simp: cl)
  qed
qed

lemma satisfy_coh:
  assumes c: "coh (tags c) m M" and i: "i < length (blks (tags c))" "isValid (blks (tags c) ! i)" "line_of (tags c) (blks (tags c) ! i) = blockAlign (tags c) (pk_addr p)"
    and top: "isTopLevel c" and p: "line_pkt (tags c) m p"
  shows "\<exists>p' t'. satisfyCpuSideRequest now p (Way i) False False c = Inr (p', c\<lparr>tags := t'\<rparr>) \<and> pk_cmd p' = pk_cmd p \<and>
     same_shape (tags c) t' \<and> coh t' m (array_after m p M) \<and> (\<forall>r. contents t' r = contents (tags c) r) \<and>
     (pk_cmd p = ReadReq \<longrightarrow> pk_data p' = Some (array_bytes m p M))"
proof -
  let ?t = "tags c" and ?b = "blks (tags c) ! i" and ?L = "blockAlign (tags c) (pk_addr p)"
  let ?o = "unat (getOffset (blkSize ?t) p)"
  have G: "geom ?t" "tags_ok ?t" and g: "good_blk ?t m M ?b" using c i(1,2) by (auto simp: coh_def)
  obtain N where N: "mem_ok m N" "length M = length N" using c by (auto simp: coh_def)
  note A = array_line [OF p G N]
  obtain d where d: "pk_data p = Some d" "length d = unat (pk_size p)" using line_pkt_data [OF p] by blast
  have ok: "blk_ok ?t ?b" by (rule tags_ok_blk [OF G(2) i(1)])
  have pre: "isWritable ?b" "length (bdata ?b) = unat (blkSize ?t)" "bdata ?b = line_bytes ?t m ?L M" using g ok i(3) by (simp_all add: good_blk_def blk_ok_def)
  have cmd: "pk_cmd p = ReadReq \<or> pk_cmd p = WriteReq \<or> pk_cmd p = WriteInvalidateReq" and le: "?o + unat (pk_size p) \<le> unat (blkSize ?t)"
    using p by (auto simp: line_pkt_def)
  obtain p' b' where s: "satisfyCpuSideRequest now p (Way i) False False c = Inr (p', put_blk (Way i) b' c)" "pk_cmd p' = pk_cmd p"
      "btag b' = btag ?b" "bset b' = bset ?b" "srcMasterId b' = srcMasterId ?b"
    and b': "if pk_cmd p = ReadReq then status b' = status ?b \<and> bdata b' = bdata ?b \<and> pk_data p' = Some (bytes_at ?o (unat (pk_size p)) (bdata ?b))
      else status b' = status ?b OR BlkDirty \<and> bdata b' = put_at ?o d (bdata ?b)"
    using satisfy_ok [OF i(2) pre(1,2) top cmd d le] by blast
  let ?t' = "?t\<lparr>blks := (blks ?t)[i := b']\<rparr>"
  have st: "status b' = status ?b \<or> status b' = status ?b OR BlkDirty" using b' by (auto split: if_splits)
  have bits: "isValid b' = isValid ?b" "isSecure b' = isSecure ?b"
    using st i(2) by (auto simp: isValid_def isSecure_def blk_bits bit_simps and.assoc bit.conj_disj_distrib2)
  have lb: "length (bdata b') = unat (blkSize ?t)" using b' pre(2) le d(2) put_at_length [of ?o d "bdata ?b"] by (auto split: if_splits)
  have bok: "blk_ok ?t b'" using ok bits i(2) s(3-5) lb by (simp add: blk_ok_def)
  have sh: "same_shape ?t ?t'" by (simp add: same_shape_def)
  have key: "key b' = key ?b" using bits s(3) by (simp add: key_def)
  note U = tags_ok_upd [OF G(2) i(1) s(4) bits(1) key bok sh, simplified]
  have "coh ?t' m (array_after m p M)"
  proof (cases "pk_cmd p = ReadReq")
    case True
    then show ?thesis using coh_read_hit [OF c i(1,2) U(1) sh _ s(3,4)] b' by (simp add: array_after_def)
  next
    case False
    then have "status b' = status ?b OR BlkDirty" "bdata b' = put_at ?o d (bdata ?b)" using b' by simp_all
    from coh_write_hit [OF c i(1,2) U(1) sh _ s(3,4) this] have "coh ?t' m (put_at (mem_off m ?L + ?o) d M)" using le d(2) i(3) by simp
    then show ?thesis using False d(1) line_pkt_line(2) [OF p G] by (simp add: array_after_def)
  qed
  moreover have "pk_cmd p = ReadReq \<longrightarrow> pk_data p' = Some (array_bytes m p M)" using b' A(1) pre(3) by simp
  ultimately show ?thesis using s(1,2) sh U(2) by (intro exI [of _ p'] exI [of _ ?t']) simp
qed

text \<open>The counters and latencies do not matter to the relation.\<close>

lemma coh_same:
  assumes c: "coh t m M" and t': "same_shape t t'" "blks t' = blks t" "sets t' = sets t" and m': "am_range m' = am_range m" "locked m' = []" "\<And>N. mem_ok m N \<Longrightarrow> mem_ok m' N"
  shows "coh t' m' M"
proof -
  note S = coh_shape [OF t'(1) m'(1)]
  have "clean_line t' L = clean_line t L" for L using t'(2) line_of_shape [OF t'(1)] by (simp add: clean_line_def)
  then show ?thesis using c m'(2,3) tags_ok_cong [OF t'] geom_shape [OF t'(1)] t'(2) unfolding coh_def S by auto
qed

text \<open>A line that is not among the contents is on no valid block.\<close>

lemma not_held:
  assumes c: "coh t m M" and k: "(extractTag t a, False) \<notin> set (contents t (extractSet t a))" and j: "j < length (blks t)" "isValid (blks t ! j)"
  shows "line_of t (blks t ! j) \<noteq> blockAlign t a"
  using found_line [of t j a] c k j by (auto simp: coh_def good_blk_def)

text \<open>Sending the write back of a block to the memory.\<close>

lemma send_victim:
  assumes c: "coh t m M" and i: "i < length (blks t)" and ws: "victim_wbs t (blks t ! i) ws"
  shows "\<exists>m'. send_writebacks simple_recvAtomic ws m = Inr m' \<and> am_range m' = am_range m \<and> locked m' = [] \<and>
     (\<forall>N. mem_ok m N \<and> length N = length M \<longrightarrow> mem_ok m' (wb_bytes t m (blks t ! i) N))"
proof (cases "isValid (blks t ! i) \<and> isDirty (blks t ! i)")
  case False
  then show ?thesis using ws c by (auto simp: victim_wbs_def wb_bytes_def coh_def)
next
  case True
  let ?b = "blks t ! i"
  obtain w where w: "ws = [w]" "wb_packet w t ?b" using ws True by (auto simp: victim_wbs_def)
  obtain N where N: "mem_ok m N" using c by (auto simp: coh_def)
  have G: "geom t" "tags_ok t" "locked m = []" and g: "good_blk t m M ?b" using c i True by (auto simp: coh_def)
  have lb: "length (bdata ?b) = unat (blkSize t)" using tags_ok_blk [OF G(2) i] by (simp add: blk_ok_def)
  have a: "pk_addr w = line_of t ?b" "pk_size w = blkSize t" "pk_data w = Some (bdata ?b)" "pk_cmd w = Writeback" "\<not> pk_inhibit w" "\<not> rq_inst_fetch (pk_req w)"
    using w(2) by (simp_all add: wb_packet_def line_of_def)
  have "in_mem m (pk_addr w) (unat (pk_size w))" "0 < unat (pk_size w)" using g G(1) a by (auto simp: good_blk_def in_line_def geom_def)
  from mem_write [OF N this G(3) _ _ _ _ _ a(5,3) _ a(6)] a lb
  obtain m' w' where m': "mem_access w m = Inr (w', m')" "mem_ok m' (put_at (mem_off m (line_of t ?b)) (bdata ?b) N)" "am_range m' = am_range m" "locked m' = []"
    by (auto simp: packet_tests)
  have u: "N' = N" if "mem_ok m N'" for N' using that N by (simp add: mem_ok_def)
  have "send_writebacks simple_recvAtomic ws m = Inr m'" using w(1) m'(1) by (simp add: simple_recvAtomic_def)
  then show ?thesis using m'(2-4) u True by (auto simp: wb_bytes_def)
qed

section \<open>What an access promises\<close>

definition cache_lines :: "tagstore \<Rightarrow> nat \<Rightarrow> (maddr \<times> bool) list" where
  "cache_lines t s = (if s < numSets t then contents t s else [])"

lemma contents_length: "tags_ok t \<Longrightarrow> s < numSets t \<Longrightarrow> length (contents t s) \<le> assoc t"
  using tags_ok_set [of t s] length_filter_le [of "\<lambda>i. isValid (blks t ! i)" "sets t ! s"] by (simp add: contents_def held_def)

lemma cache_lines_upd:
  assumes "tags_ok t" "same_shape t t'" "contents t' (extractSet t a) = xs" "\<forall>r < numSets t. r \<noteq> extractSet t a \<longrightarrow> contents t' r = contents t r"
  shows "cache_lines t' = (cache_lines t)(extractSet t a := xs)"
  using assms extractSet_less [OF assms(1), of a] by (auto simp: cache_lines_def same_shape_def fun_eq_iff)

lemma cache_lines_same:
  assumes "same_shape t t'" "\<forall>r. contents t' r = contents t r"
  shows "cache_lines t' = cache_lines t"
  using assms by (simp add: cache_lines_def same_shape_def fun_eq_iff)

text \<open>The hits of the commands a CPU's accesses become.\<close>

definition line_hits :: "cache \<Rightarrow> int \<Rightarrow> nat" where
  "line_hits c i = hits c ReadReq i + hits c WriteReq i + hits c WriteInvalidateReq i"

definition cache_frame :: "cache \<Rightarrow> cache \<Rightarrow> bool" where
  "cache_frame c c' \<longleftrightarrow> isTopLevel c' = isTopLevel c \<and> bypassCaches c' = bypassCaches c \<and> doFastWrites c' = doFastWrites c \<and> same_shape (tags c) (tags c')"

text \<open>The packet is answered with the bytes of the array, the array changes as the packet says, and the
  line's set as the replacement policy says.\<close>

definition access_result :: "packet \<Rightarrow> cache \<Rightarrow> absmem \<Rightarrow> byte list \<Rightarrow> packet \<Rightarrow> cache \<Rightarrow> absmem \<Rightarrow> bool" where
  "access_result p c m M p' c' m' \<longleftrightarrow>
     isResponse p' \<and> (pk_cmd p = ReadReq \<longrightarrow> pk_data p' = Some (array_bytes m p M)) \<and>
     coh (tags c') m' (array_after m p M) \<and> am_range m' = am_range m \<and> cache_frame c c' \<and>
     (let s = extractSet (tags c) (pk_addr p); k = (extractTag (tags c) (pk_addr p), False); xs = cache_lines (tags c) s in
      cache_lines (tags c') = (cache_lines (tags c))(s := if rq_uncacheable (pk_req p) then remove1 k xs else lru_use (assoc (tags c)) k xs) \<and>
      line_hits c' (rq_master (pk_req p)) = line_hits c (rq_master (pk_req p)) + (if \<not> rq_uncacheable (pk_req p) \<and> k \<in> set xs then 1 else 0))"

lemma respond:
  assumes "pk_cmd p = ReadReq \<or> pk_cmd p = WriteReq \<or> pk_cmd p = WriteInvalidateReq"
  shows "\<exists>p'. (if needsResponse p then makeResponse p else Inr p) = Inr p' \<and> isResponse p' \<and> pk_data p' = pk_data p"
  using assms by (auto simp: makeResponse_def packet_tests responseCommand_def)

lemma hits_bump:
  assumes "rq_master (pk_req p) < maxMasters (tags c)" "pk_cmd p = ReadReq \<or> pk_cmd p = WriteReq \<or> pk_cmd p = WriteInvalidateReq"
  shows "\<exists>h. incHitCount p c = Inr (c\<lparr>hits := h\<rparr>) \<and> line_hits (c\<lparr>hits := h\<rparr>) (rq_master (pk_req p)) = line_hits c (rq_master (pk_req p)) + 1"
  using assms by (intro exI [of _ "(hits c)(pk_cmd p := (hits c (pk_cmd p))(rq_master (pk_req p) := hits c (pk_cmd p) (rq_master (pk_req p)) + 1))"])
    (auto simp: incHitCount_def line_hits_def Let_def)

lemma misses_bump:
  assumes "rq_master (pk_req p) < maxMasters (tags c)"
  shows "\<exists>c'. incMissCount p c = Inr c' \<and> tags c' = tags c \<and> hits c' = hits c \<and> isTopLevel c' = isTopLevel c \<and>
     bypassCaches c' = bypassCaches c \<and> doFastWrites c' = doFastWrites c \<and> tempBlock c' = tempBlock c"
  using assms by (simp add: incMissCount_def Let_def)

section \<open>Hits\<close>

lemma access_hit:
  assumes c: "coh (tags c) m M" and top: "isTopLevel c" and p: "line_pkt (tags c) m p" "\<not> rq_uncacheable (pk_req p)"
    and hit: "(extractTag (tags c) (pk_addr p), False) \<in> set (contents (tags c) (extractSet (tags c) (pk_addr p)))"
  shows "\<exists>p' lat c'. atomic_access (\<lambda>_ _. None) now edge simple_recvAtomic p c m = Inr (p', lat, c', m) \<and> access_result p c m M p' c' m"
proof -
  let ?t = "tags c"
  let ?a = "pk_addr p"
  let ?k = "(extractTag ?t ?a, False)" and ?s = "extractSet ?t ?a" and ?L = "blockAlign ?t ?a"
  have G: "geom ?t" "tags_ok ?t" using c by (simp_all add: coh_def)
  have sec: "\<not> pk_secure p" and cmd: "pk_cmd p = ReadReq \<or> pk_cmd p = WriteReq \<or> pk_cmd p = WriteInvalidateReq"
    and ms: "rq_master (pk_req p) < maxMasters ?t" using p by (auto simp: line_pkt_def)
  obtain i lat t1 where t1: "LRU_accessBlock now ?a False ?t = Inr (Some i, lat, t1)" "same_shape ?t t1" "tags_ok t1" "contents t1 ?s = ?k # remove1 ?k (contents ?t ?s)"
      "\<forall>r < numSets ?t. r \<noteq> ?s \<longrightarrow> contents t1 r = contents ?t r"
    and i: "i < length (blks ?t)" "isValid (blks ?t ! i)" "key (blks ?t ! i) = ?k" "bset (blks ?t ! i) = ?s"
      "blks t1 = (blks ?t)[i := (blks ?t ! i)\<lparr>refCount := refCount (blks ?t ! i) + 1\<rparr>]"
    using LRU_access_hit [OF G(2) hit, of now] by blast
  let ?c1 = "c\<lparr>tags := t1\<rparr>"
  have c1: "coh t1 m M" by (rule coh_read_hit [OF c i(1,2) t1(3,2) i(5)]) simp_all
  obtain h where h: "incHitCount p ?c1 = Inr (?c1\<lparr>hits := h\<rparr>)" "line_hits (?c1\<lparr>hits := h\<rparr>) (rq_master (pk_req p)) = line_hits ?c1 (rq_master (pk_req p)) + 1"
    using hits_bump [of p ?c1] ms cmd t1(2) by (auto simp: same_shape_def)
  let ?c2 = "?c1\<lparr>hits := h\<rparr>"
  have b: "isValid (blks t1 ! i)" "i < length (blks t1)" "line_of t1 (blks t1 ! i) = blockAlign t1 ?a"
  proof -
    show "isValid (blks t1 ! i)" "i < length (blks t1)" using i(1,2,5) by (simp_all add: isValid_def)
    have "line_of ?t (blks ?t ! i) = ?L" using i(3,4) by (intro line_of_key [OF G]) (simp_all add: key_def)
    moreover have "line_of ?t (blks t1 ! i) = line_of ?t (blks ?t ! i)" using i(1,5) by (simp add: line_of_def)
    ultimately show "line_of t1 (blks t1 ! i) = blockAlign t1 ?a" using line_of_shape [OF t1(2)] blockAlign_shape [OF t1(2)] by simp
  qed
  have wr: "isWritable (blks t1 ! i) \<and> isReadable (blks t1 ! i)" using c1 b(1,2) by (simp add: coh_def good_blk_def)
  have p1: "line_pkt t1 m p" using p(1) line_pkt_shape [OF t1(2) refl] by simp
  obtain q t2 where q: "satisfyCpuSideRequest now p (Way i) False False ?c2 = Inr (q, ?c2\<lparr>tags := t2\<rparr>)" "pk_cmd q = pk_cmd p"
      "same_shape t1 t2" "coh t2 m (array_after m p M)" "\<forall>r. contents t2 r = contents t1 r" "pk_cmd p = ReadReq \<longrightarrow> pk_data q = Some (array_bytes m p M)"
    using satisfy_coh [of ?c2 m M i p now] c1 b p1 top by auto
  let ?c3 = "?c2\<lparr>tags := t2\<rparr>"
  obtain p' where p': "(if needsResponse q then makeResponse q else Inr q) = Inr p'" "isResponse p'" "pk_data p' = pk_data q"
    using respond [of q] cmd q(2) by auto
  have "cache_access (\<lambda>_ _. None) now p c = Inr (True, Some i, lat, [], q, ?c3)"
    using t1(1) sec p(2) cmd h(1) q(1) wr by (auto simp: cache_access_def Let_def packet_tests)
  then have run: "atomic_access (\<lambda>_ _. None) now edge simple_recvAtomic p c m = Inr (p', lat * tag_period t2, ?c3, m)"
    using p'(1) by (simp add: atomic_access_def)
  have sh: "same_shape ?t t2" using same_shape_trans t1(2) q(3) by blast
  have s: "?s < numSets ?t" by (rule extractSet_less [OF G(2)])
  then have cl: "cache_lines ?t ?s = contents ?t ?s" by (simp add: cache_lines_def)
  have "contents t2 ?s = lru_use (assoc ?t) ?k (contents ?t ?s)"
    using q(5) t1(4) lru_use_present [OF hit contents_length [OF G(2) s]] by simp
  then have "cache_lines t2 = (cache_lines ?t)(?s := lru_use (assoc ?t) ?k (contents ?t ?s))"
    using q(5) t1(5) by (intro cache_lines_upd [OF G(2) sh]) simp_all
  then have "access_result p c m M p' ?c3 m"
    using p'(2,3) q(4,6) sh h(2) hit p(2) cl by (simp add: access_result_def cache_frame_def Let_def line_hits_def)
  then show ?thesis using run by blast
qed

section \<open>Misses\<close>

text \<open>The packet the cache sends, and its response.\<close>

lemma bus_packet:
  assumes G: "geom (tags c)" "tags_ok (tags c)" and p: "line_pkt (tags c) m p" "\<not> rq_uncacheable (pk_req p)"
  shows "\<exists>b. getBusPacket p None (needsExclusive p) c = Inr (Some b) \<and>
     pk_cmd b = (if pk_cmd p = WriteReq then ReadExReq else pk_cmd p) \<and> pk_addr b = blockAlign (tags c) (pk_addr p) \<and> pk_size b = blkSize (tags c) \<and>
     pk_req b = pk_req p \<and> pk_data b = Some (replicate (unat (blkSize (tags c))) 0) \<and> \<not> pk_inhibit b \<and> \<not> pk_shared b \<and> \<not> pk_secure b"
proof -
  have a: "pk_addr p AND NOT (scast (blkSize (tags c) - 1)) = blockAlign (tags c) (pk_addr p)"
    unfolding blockAlign_def geom_masks(3,4) [OF G] ..
  have f: "rq_paddr (pk_req p) = pk_addr p" "\<not> rq_secure (pk_req p)" "\<not> pk_shared p" "pk_cmd p = ReadReq \<or> pk_cmd p = WriteReq \<or> pk_cmd p = WriteInvalidateReq"
    using p(1) by (auto simp: line_pkt_def)
  have al: "blockAlign (tags c) (blockAlign (tags c) (pk_addr p)) = blockAlign (tags c) (pk_addr p)" by (rule block_align_align [OF G])
  show ?thesis using f p(2) al
    by (auto simp: getBusPacket_def Let_def bus_cmd_def Packet_block_def Packet_new_def allocate_def a packet_tests)
qed

lemma bus_send:
  assumes c: "coh t m M" and L: "in_line t m L" "clean_line t L"
    and b: "pk_cmd b = ReadReq \<or> pk_cmd b = ReadExReq \<or> pk_cmd b = WriteInvalidateReq" "pk_addr b = L" "pk_size b = blkSize t"
      "pk_data b = Some (replicate (unat (blkSize t)) 0)" "\<not> pk_inhibit b"
  shows "\<exists>d lat m'. simple_recvAtomic b m = Inr (b\<lparr>pk_data := Some d, pk_cmd := responseCommand (pk_cmd b), pk_express := False\<rparr>, lat, m') \<and>
     (pk_cmd b \<noteq> WriteInvalidateReq \<longrightarrow> d = line_bytes t m L M) \<and> coh t m' M \<and> am_range m' = am_range m \<and> length d = unat (blkSize t)"
proof -
  have G: "geom t" "tags_ok t" "locked m = []" using c by (simp_all add: coh_def)
  obtain N where N: "mem_ok m N" "length N = length M" "line_bytes t m L N = line_bytes t m L M" using c L by (auto simp: coh_def)
  have n: "in_mem m (pk_addr b) (unat (pk_size b))" "0 < unat (pk_size b)" using L(1) G(1) b(2,3) by (auto simp: in_line_def geom_def)
  have u: "N' = N" if "mem_ok m N'" for N' using that N(1) by (simp add: mem_ok_def)
  have sh: "same_shape t t" by (simp add: same_shape_def)
  have len: "length (line_bytes t m L M) = unat (blkSize t)"
    unfolding line_bytes_def by (rule bytes_at_length) (use in_line_bounds [OF L(1) N(1) G(1)] N(2) in simp)
  show ?thesis
  proof (cases "pk_cmd b = WriteInvalidateReq")
    case True
    have w: "word_of_nat (unat (pk_size b)) = (ucast (pk_size b) :: maddr)" by simp
    note B = mem_bounds [OF n N(1), unfolded w]
    have "mem_access b m = Inr (b\<lparr>pk_cmd := responseCommand (pk_cmd b), pk_express := False\<rparr>, m)"
      using True b(5) B(1) by (simp add: mem_access_def Let_def makeResponse_def packet_tests)
    moreover have "b\<lparr>pk_data := pk_data b\<rparr> = b" by simp
    ultimately have "simple_recvAtomic b m = Inr (b\<lparr>pk_data := Some (replicate (unat (blkSize t)) 0), pk_cmd := responseCommand (pk_cmd b), pk_express := False\<rparr>, am_latency m, m)"
      using b(4,5) by (simp add: simple_recvAtomic_def)
    then show ?thesis using True c by auto
  next
    case False
    then have r: "isRead b" "\<not> isWrite b" "\<not> isLLSC b" "needsResponse b" "isRequest b" using b(1) by (auto simp: packet_tests)
    have "length (replicate (unat (blkSize t)) (0 :: byte)) = unat (pk_size b)" using b(3) by simp
    from mem_read [OF N(1) n r b(5,4) this]
    obtain m' where m': "mem_access b m = Inr (b\<lparr>pk_data := Some (bytes_at (mem_off m L) (unat (blkSize t)) N), pk_cmd := responseCommand (pk_cmd b), pk_express := False\<rparr>, m')"
        "mem_ok m' N" "am_range m' = am_range m" "locked m' = locked m" using b(2,3) by auto
    have "coh t m' M" by (rule coh_same [OF c sh]) (use m' u G(3) in auto)
    moreover have "bytes_at (mem_off m L) (unat (blkSize t)) N = line_bytes t m L M" using N(3) by (simp add: line_bytes_def)
    ultimately show ?thesis using m' b(5) len by (auto simp: simple_recvAtomic_def)
  qed
qed

text \<open>Filling.\<close>

lemma handleFill_ok:
  assumes ok: "tags_ok (tags c)" and k: "(extractTag (tags c) a, False) \<notin> set (contents (tags c) (extractSet (tags c) a))"
    and f: "extractTag (tags c) (pk_addr f) = extractTag (tags c) a" "extractSet (tags c) (pk_addr f) = extractSet (tags c) a" "\<not> pk_secure f" "\<not> pk_shared f" "\<not> pk_inhibit f"
      "rq_master (pk_req f) < maxMasters (tags c)" "pk_data f = Some d" "length d = unat (blkSize (tags c))" "pk_size f = blkSize (tags c)"
      "pk_cmd f = ReadResp \<or> pk_cmd f = ReadExResp \<or> pk_cmd f = WriteInvalidateReq"
  shows "\<exists>i ws t3 b. handleFill (\<lambda>_ _. None) now edge f None [] c = Inr (Way i, ws, c\<lparr>tags := t3\<lparr>blks := (blks (tags c))[i := b]\<rparr>\<rparr>) \<and>
     i < length (blks (tags c)) \<and> victim_wbs (tags c) (blks (tags c) ! i) ws \<and> same_shape (tags c) t3 \<and>
     isValid b \<and> isWritable b \<and> isReadable b \<and> \<not> isDirty b \<and> \<not> isSecure b \<and> btag b = extractTag (tags c) a \<and> bset b = extractSet (tags c) a \<and>
     srcMasterId b < maxMasters (tags c) \<and> length (bdata b) = unat (blkSize (tags c)) \<and> (pk_cmd f \<noteq> WriteInvalidateReq \<longrightarrow> bdata b = d) \<and>
     (\<forall>b'. isValid b' \<and> key b' = (extractTag (tags c) a, False) \<and> bset b' = extractSet (tags c) a \<and> blk_ok (tags c) b' \<longrightarrow>
        (let t4 = t3\<lparr>blks := (blks (tags c))[i := b']\<rparr> in
         tags_ok t4 \<and> contents t4 (extractSet (tags c) a) = take (assoc (tags c)) ((extractTag (tags c) a, False) # contents (tags c) (extractSet (tags c) a)) \<and>
         (\<forall>r < numSets (tags c). r \<noteq> extractSet (tags c) a \<longrightarrow> contents t4 r = contents (tags c) r)))"
proof -
  let ?t = "tags c"
  have k': "(extractTag ?t (pk_addr f), False) \<notin> set (contents ?t (extractSet ?t (pk_addr f)))" using k f(1,2) by simp
  obtain i ws t1 t3 b3 where s: "allocateBlock (\<lambda>_ _. None) now (pk_addr f) False [] ?t = Inr (Some i, [] @ ws, t1)"
      "LRU_insertBlock now (pk_addr f) (rq_master (pk_req f)) (rq_task (pk_req f)) i t1 = Inr t3" "i < length (blks ?t)" "victim_wbs ?t (blks ?t ! i) ws"
      "same_shape ?t t3" "blks t3 = (blks ?t)[i := b3]" "status b3 = 0" "btag b3 = extractTag ?t (pk_addr f)" "bset b3 = extractSet ?t (pk_addr f)"
      "srcMasterId b3 = rq_master (pk_req f)" "length (bdata b3) = unat (blkSize ?t)"
    and put: "\<forall>b'. isValid b' \<and> key b' = (extractTag ?t (pk_addr f), False) \<and> bset b' = extractSet ?t (pk_addr f) \<and> blk_ok ?t b' \<longrightarrow>
        (let t4 = t3\<lparr>blks := (blks ?t)[i := b']\<rparr> in
         tags_ok t4 \<and> contents t4 (extractSet ?t (pk_addr f)) = take (assoc ?t) ((extractTag ?t (pk_addr f), False) # contents ?t (extractSet ?t (pk_addr f))) \<and>
         (\<forall>r < numSets ?t. r \<noteq> extractSet ?t (pk_addr f) \<longrightarrow> contents t4 r = contents ?t r))"
    using insert_slot [OF ok k' f(6), of now "[]" "rq_task (pk_req f)"] by blast
  have b3: "blks t3 ! i = b3" "\<not> isValid b3" "blkSize t3 = blkSize ?t" using s(3,5-7) by (simp_all add: isValid_status same_shape_def)
  define st where "st = fill_status f (status b3)"
  have st: "st = BlkValid OR BlkReadable OR BlkWritable" unfolding st_def s(7) using f(3-5) by (simp add: fill_status_def or.assoc)
  have nn: "uint (blkSize ?t) = int (unat (blkSize ?t))" by simp
  have cp: "memcpy (bdata b3) 0 d 0 (uint (blkSize ?t)) = Inr d" unfolding nn using f(8) s(11) by (simp add: memcpy_def)
  have p: "isResponse f \<or> isWriteInvalidate f" "hasData f" "isRead f \<or> isWriteInvalidate f" "isRead f = (pk_cmd f \<noteq> WriteInvalidateReq)"
    using f(10) by (auto simp: packet_tests)
  define b where "b = b3\<lparr>status := st, bdata := if isRead f then d else bdata b3,
     whenReady := edge + fillLatency c * tag_period t3 + ucast (payloadDelay f)\<rparr>"
  have fb: "fill_block edge f (Way i) (c\<lparr>tags := t3\<rparr>) = Inr (c\<lparr>tags := t3\<lparr>blks := (blks ?t)[i := b]\<rparr>\<rparr>)"
    using p(2) f(7,9) cp b3 s(6) by (simp add: fill_block_def Let_def getPtr_def b_def st_def)
  have run: "handleFill (\<lambda>_ _. None) now edge f None [] c = Inr (Way i, ws, c\<lparr>tags := t3\<lparr>blks := (blks ?t)[i := b]\<rparr>\<rparr>)"
    using p(1-3) s(1,2) f(3) b3(1,2) fb by (simp add: handleFill_def)
  have bits: "isValid b" "isWritable b" "isReadable b" "\<not> isDirty b" "\<not> isSecure b"
    by (simp_all add: b_def st isValid_def isWritable_def isReadable_def isDirty_def isSecure_def blk_bits)
  have "bdata b = (if pk_cmd f = WriteInvalidateReq then bdata b3 else d)" using p(4) by (simp add: b_def)
  then have "length (bdata b) = unat (blkSize ?t)" "pk_cmd f \<noteq> WriteInvalidateReq \<longrightarrow> bdata b = d" using f(8) s(11) by simp_all
  moreover have "btag b = extractTag ?t a" "bset b = extractSet ?t a" "srcMasterId b < maxMasters ?t" using s(8-10) f(1,2,6) by (simp_all add: b_def)
  ultimately show ?thesis
    using run s(3-5) bits put unfolding f(1,2) by blast
qed

lemma miss_fill:
  assumes c: "coh (tags c) m M" and top: "isTopLevel c" and p: "line_pkt (tags c) m p"
    and k: "(extractTag (tags c) (pk_addr p), False) \<notin> set (contents (tags c) (extractSet (tags c) (pk_addr p)))"
    and f: "extractTag (tags c) (pk_addr f) = extractTag (tags c) (pk_addr p)" "extractSet (tags c) (pk_addr f) = extractSet (tags c) (pk_addr p)" "\<not> pk_secure f" "\<not> pk_shared f" "\<not> pk_inhibit f"
      "rq_master (pk_req f) < maxMasters (tags c)" "pk_data f = Some d" "length d = unat (blkSize (tags c))" "pk_size f = blkSize (tags c)"
      "pk_cmd f = ReadResp \<or> pk_cmd f = ReadExResp \<or> pk_cmd f = WriteInvalidateReq"
    and d: "pk_cmd f \<noteq> WriteInvalidateReq \<Longrightarrow> d = line_bytes (tags c) m (blockAlign (tags c) (pk_addr p)) M" "pk_cmd f = WriteInvalidateReq \<longleftrightarrow> pk_cmd p = WriteInvalidateReq"
  shows "\<exists>q ws t' m'. bindR (handleFill (\<lambda>_ _. None) now edge f None [] c) (\<lambda>(ref, wbs, c1).
      bindR (satisfyCpuSideRequest now p ref False False c1) (\<lambda>(p1, c2). Inr (p1, wbs, c2))) = Inr (q, ws, c\<lparr>tags := t'\<rparr>) \<and>
     send_writebacks simple_recvAtomic ws m = Inr m' \<and> am_range m' = am_range m \<and> same_shape (tags c) t' \<and> coh t' m' (array_after m p M) \<and>
     pk_cmd q = pk_cmd p \<and> (pk_cmd p = ReadReq \<longrightarrow> pk_data q = Some (array_bytes m p M)) \<and>
     cache_lines t' = (cache_lines (tags c))(extractSet (tags c) (pk_addr p) :=
       lru_use (assoc (tags c)) (extractTag (tags c) (pk_addr p), False) (cache_lines (tags c) (extractSet (tags c) (pk_addr p))))"
proof -
  let ?t = "tags c"
  let ?a = "pk_addr p"
  let ?k = "(extractTag ?t ?a, False)" and ?s = "extractSet ?t ?a" and ?L = "blockAlign ?t ?a" and ?o = "unat (getOffset (blkSize ?t) p)"
  have G: "geom ?t" "tags_ok ?t" using c by (simp_all add: coh_def)
  obtain N where N: "mem_ok m N" "length M = length N" using c by (auto simp: coh_def)
  note A = array_line [OF p G N]
  obtain e where e: "pk_data p = Some e" "length e = unat (pk_size p)" using line_pkt_data [OF p] by blast
  have cmd: "pk_cmd p = ReadReq \<or> pk_cmd p = WriteReq \<or> pk_cmd p = WriteInvalidateReq" and le: "?o + unat (pk_size p) \<le> unat (blkSize ?t)"
    using p by (auto simp: line_pkt_def)
  obtain i ws t3 b where h: "handleFill (\<lambda>_ _. None) now edge f None [] c = Inr (Way i, ws, c\<lparr>tags := t3\<lparr>blks := (blks ?t)[i := b]\<rparr>\<rparr>)"
      "i < length (blks ?t)" "victim_wbs ?t (blks ?t ! i) ws" "same_shape ?t t3"
    and b: "isValid b" "isWritable b" "isReadable b" "\<not> isDirty b" "\<not> isSecure b" "btag b = extractTag ?t ?a" "bset b = ?s" "srcMasterId b < maxMasters ?t"
      "length (bdata b) = unat (blkSize ?t)" "pk_cmd f \<noteq> WriteInvalidateReq \<longrightarrow> bdata b = d"
    and put: "\<forall>b'. isValid b' \<and> key b' = ?k \<and> bset b' = ?s \<and> blk_ok ?t b' \<longrightarrow>
        (let t4 = t3\<lparr>blks := (blks ?t)[i := b']\<rparr> in
         tags_ok t4 \<and> contents t4 ?s = take (assoc ?t) (?k # contents ?t ?s) \<and> (\<forall>r < numSets ?t. r \<noteq> ?s \<longrightarrow> contents t4 r = contents ?t r))"
    using handleFill_ok [OF G(2) k f, of now edge] by blast
  let ?c4 = "c\<lparr>tags := t3\<lparr>blks := (blks ?t)[i := b]\<rparr>\<rparr>"
  have B: "blks (tags ?c4) ! i = b" "blkSize (tags ?c4) = blkSize ?t" "isTopLevel ?c4" using h(2,4) top by (simp_all add: same_shape_def)
  obtain q b' where q: "satisfyCpuSideRequest now p (Way i) False False ?c4 = Inr (q, put_blk (Way i) b' ?c4)" "pk_cmd q = pk_cmd p"
      "btag b' = btag b" "bset b' = bset b" "srcMasterId b' = srcMasterId b"
    and b': "if pk_cmd p = ReadReq then status b' = status b \<and> bdata b' = bdata b \<and> pk_data q = Some (bytes_at ?o (unat (pk_size p)) (bdata b))
      else status b' = status b OR BlkDirty \<and> bdata b' = put_at ?o e (bdata b)"
    using satisfy_ok [of ?c4 i p e now, unfolded B] b(1,2,9) B(3) cmd e le by blast
  let ?t' = "t3\<lparr>blks := (blks ?t)[i := b']\<rparr>"
  have st: "status b' = (if pk_cmd p = ReadReq then status b else status b OR BlkDirty)" using b' by simp
  have bits: "isValid b'" "isWritable b'" "isReadable b'" "isDirty b' = (pk_cmd p \<noteq> ReadReq)" "\<not> isSecure b'"
    using b(1-5) unfolding isWritable_def isReadable_def isSecure_def isDirty_def isValid_def Let_def st
    by (simp_all add: blk_bits bit_simps and.assoc bit.conj_disj_distrib2)
  have lb: "length (bdata b') = unat (blkSize ?t)" using b' b(9) le e(2) put_at_length [of ?o e "bdata b"] by (auto split: if_splits)
  have bok: "blk_ok ?t b'" "key b' = ?k" "bset b' = ?s" using bits(1,5) q(3-5) b(6-8) lb by (auto simp: blk_ok_def key_def)
  have T: "tags_ok ?t'" "contents ?t' ?s = take (assoc ?t) (?k # contents ?t ?s)" "\<forall>r < numSets ?t. r \<noteq> ?s \<longrightarrow> contents ?t' r = contents ?t r"
    using put bits(1) bok by (simp_all add: Let_def)
  have sh: "same_shape ?t ?t'" using h(4) by (simp add: same_shape_def)
  have lo: "line_of ?t b' = ?L" using bok(2,3) by (intro line_of_key [OF G]) (simp_all add: key_def)
  have data: "bdata b' = line_bytes ?t m ?L (array_after m p M)"
  proof (cases "pk_cmd p = WriteInvalidateReq")
    case True
    then have "put_at ?o e (bdata b) = e" using p e b(9) by (simp add: line_pkt_def put_at_def)
    then show ?thesis using b' True A(4) e(1) by simp
  next
    case False
    then have "bdata b = line_bytes ?t m ?L M" using b(10) d by simp
    then show ?thesis using b' A(3) e(1) by simp
  qed
  obtain m' where m': "send_writebacks simple_recvAtomic ws m = Inr m'" "am_range m' = am_range m" "locked m' = []"
      "\<forall>N. mem_ok m N \<and> length N = length M \<longrightarrow> mem_ok m' (wb_bytes ?t m (blks ?t ! i) N)"
    using send_victim [OF c h(2,3)] by blast
  have good: "good_blk ?t m (array_after m p M) b'" using bits data lo line_pkt_line(1) [OF p G] by (simp add: good_blk_def)
  have bl: "blks ?t' = (blks ?t)[i := b']" by simp
  have ag: "agree ?t m (line_of ?t b') M (array_after m p M)" unfolding lo by (rule A(2))
  have coh': "coh ?t' m' (array_after m p M)"
    by (rule coh_insert [OF c h(2) T(1) sh bl bits(1) good _ ag _ m'(2,3)])
      (use not_held [OF c k] lo bits(4) m'(4) in \<open>auto simp: array_after_def\<close>)
  have "put_blk (Way i) b' ?c4 = c\<lparr>tags := ?t'\<rparr>" by simp
  then have run: "bindR (handleFill (\<lambda>_ _. None) now edge f None [] c) (\<lambda>(ref, wbs, c1).
      bindR (satisfyCpuSideRequest now p ref False False c1) (\<lambda>(p1, c2). Inr (p1, wbs, c2))) = Inr (q, ws, c\<lparr>tags := ?t'\<rparr>)"
    using h(1) q(1) by simp
  have rd: "pk_data q = Some (array_bytes m p M)" if r: "pk_cmd p = ReadReq"
  proof -
    have "bdata b = line_bytes ?t m ?L M" using b(10) d r by simp
    then show ?thesis using b' A(1) r by simp
  qed
  have "cache_lines ?t ?s = contents ?t ?s" using extractSet_less [OF G(2)] by (simp add: cache_lines_def)
  then have "cache_lines ?t' = (cache_lines ?t)(?s := lru_use (assoc ?t) ?k (cache_lines ?t ?s))"
    using T(2,3) lru_use_absent [OF k] by (intro cache_lines_upd [OF G(2) sh]) simp_all
  then show ?thesis using run m'(1,2) sh coh' q(2) rd by blast
qed

end
