(* ===== verification/Cache_Access.thy ===== *)
theory Cache_Access imports Cache_Atomic begin

text \<open>
  Atomic accesses as a whole: misses, uncacheable accesses, which flush the line first, and the
  promotion of whole-line writes.
\<close>

section \<open>A cacheable access\<close>

lemma access_miss:
  assumes c: "coh (tags c) m M" and top: "isTopLevel c" and p: "line_pkt (tags c) m p" "\<not> rq_uncacheable (pk_req p)"
    and k: "(extractTag (tags c) (pk_addr p), False) \<notin> set (contents (tags c) (extractSet (tags c) (pk_addr p)))"
  shows "\<exists>p' lat c' m'. atomic_access (\<lambda>_ _. None) now edge simple_recvAtomic p c m = Inr (p', lat, c', m') \<and> access_result p c m M p' c' m'"
proof -
  let ?t = "tags c"
  let ?a = "pk_addr p"
  let ?k = "(extractTag ?t ?a, False)" and ?s = "extractSet ?t ?a"
  have G: "geom ?t" "tags_ok ?t" "locked m = []" using c by (simp_all add: coh_def)
  have sec: "\<not> pk_secure p" and cmd: "pk_cmd p = ReadReq \<or> pk_cmd p = WriteReq \<or> pk_cmd p = WriteInvalidateReq"
    and ms: "rq_master (pk_req p) < maxMasters ?t" using p by (auto simp: line_pkt_def)
  obtain lat t1 where t1: "LRU_accessBlock now ?a False ?t = Inr (None, lat, t1)" "same_shape ?t t1" "blks t1 = blks ?t" "sets t1 = sets ?t"
    using LRU_access_miss [OF G(2) k] by blast
  obtain c2 where c2: "incMissCount p (c\<lparr>tags := t1\<rparr>) = Inr c2" "tags c2 = t1" "hits c2 = hits c" "isTopLevel c2" "bypassCaches c2 = bypassCaches c" "doFastWrites c2 = doFastWrites c"
    using misses_bump [of p "c\<lparr>tags := t1\<rparr>"] ms t1(2) top by (auto simp: same_shape_def)
  have acc: "cache_access (\<lambda>_ _. None) now p c = Inr (False, None, lat, [], p, c2)"
    using t1(1) sec p(2) cmd c2(1) by (auto simp: cache_access_def packet_tests)
  have co: "coh (tags c2) m M" unfolding c2(2) by (rule coh_same [OF c t1(2-4)]) (simp_all add: G)
  have G2: "geom (tags c2)" "tags_ok (tags c2)" using co by (simp_all add: coh_def)
  have ex: "extractTag (tags c2) x = extractTag ?t x" "extractSet (tags c2) x = extractSet ?t x" for x
    using same_shape_extract [OF t1(2)] c2(2) by simp_all
  have k2: "(extractTag (tags c2) ?a, False) \<notin> set (contents (tags c2) (extractSet (tags c2) ?a))"
    using k t1(3,4) unfolding ex by (simp add: contents_def c2(2))
  have p2: "line_pkt (tags c2) m p" using p(1) line_pkt_shape [OF t1(2) refl] c2(2) by simp
  let ?L = "blockAlign (tags c2) ?a"
  have L: "in_line (tags c2) m ?L" by (rule line_pkt_line(1) [OF p2 G2])
  have cl: "clean_line (tags c2) ?L" using not_held [OF co k2] by (auto simp: clean_line_def)
  obtain b where b: "getBusPacket p None (needsExclusive p) c2 = Inr (Some b)" "pk_cmd b = (if pk_cmd p = WriteReq then ReadExReq else pk_cmd p)" "pk_addr b = ?L"
      "pk_size b = blkSize (tags c2)" "pk_req b = pk_req p" "pk_data b = Some (replicate (unat (blkSize (tags c2))) 0)" "\<not> pk_inhibit b" "\<not> pk_shared b" "\<not> pk_secure b"
    using bus_packet [OF G2 p2 p(2)] by blast
  have bc: "pk_cmd b = ReadReq \<or> pk_cmd b = ReadExReq \<or> pk_cmd b = WriteInvalidateReq" using b(2) cmd by auto
  obtain d t m1 where s: "simple_recvAtomic b m = Inr (b\<lparr>pk_data := Some d, pk_cmd := responseCommand (pk_cmd b), pk_express := False\<rparr>, t, m1)"
      "pk_cmd b \<noteq> WriteInvalidateReq \<longrightarrow> d = line_bytes (tags c2) m ?L M" "coh (tags c2) m1 M" "am_range m1 = am_range m" "length d = unat (blkSize (tags c2))"
    using bus_send [OF co L cl bc b(3,4,6,7)] by blast
  let ?b = "b\<lparr>pk_data := Some d, pk_cmd := responseCommand (pk_cmd b), pk_express := False\<rparr>"
  obtain cy where cy: "cache_cycles c2 t = Inr cy" using G2(2) by (auto simp: cache_cycles_def divCeil_def tags_ok_def)
  define f where "f = (if pk_cmd p = WriteInvalidateReq then p else ?b)"
  obtain e where e: "pk_data p = Some e" "length e = unat (pk_size p)" using line_pkt_data [OF p(1)] by blast
  define fd where "fd = (if pk_cmd p = WriteInvalidateReq then e else d)"
  have p3: "line_pkt (tags c2) m1 p" using p2 line_pkt_shape [of "tags c2" "tags c2" m1 m p] s(4) by (simp add: same_shape_def)
  have lb: "line_bytes (tags c2) m1 ?L M = line_bytes (tags c2) m ?L M" using s(4) by (simp add: line_bytes_def mem_off_def)
  have "extractTag (tags c2) (pk_addr f) = extractTag (tags c2) ?a" "extractSet (tags c2) (pk_addr f) = extractSet (tags c2) ?a" "\<not> pk_secure f" "\<not> pk_shared f" "\<not> pk_inhibit f"
      "rq_master (pk_req f) < maxMasters (tags c2)" "pk_data f = Some fd" "length fd = unat (blkSize (tags c2))" "pk_size f = blkSize (tags c2)"
      "pk_cmd f = ReadResp \<or> pk_cmd f = ReadExResp \<or> pk_cmd f = WriteInvalidateReq"
      "pk_cmd f \<noteq> WriteInvalidateReq \<Longrightarrow> fd = line_bytes (tags c2) m1 ?L M" "pk_cmd f = WriteInvalidateReq \<longleftrightarrow> pk_cmd p = WriteInvalidateReq"
    using p2 e b s(2,5) cmd extract_block [OF G2] unfolding lb by (auto simp: f_def fd_def line_pkt_def responseCommand_def)
  from miss_fill [OF s(3) c2(4) p3 k2 this]
  obtain q ws t' m' where q: "bindR (handleFill (\<lambda>_ _. None) now edge f None [] c2) (\<lambda>(ref, wbs, c1).
      bindR (satisfyCpuSideRequest now p ref False False c1) (\<lambda>(p1, c2). Inr (p1, wbs, c2))) = Inr (q, ws, c2\<lparr>tags := t'\<rparr>)"
     "send_writebacks simple_recvAtomic ws m1 = Inr m'" "am_range m' = am_range m1" "same_shape (tags c2) t'" "coh t' m' (array_after m1 p M)"
     "pk_cmd q = pk_cmd p" "pk_cmd p = ReadReq \<longrightarrow> pk_data q = Some (array_bytes m1 p M)"
     "cache_lines t' = (cache_lines (tags c2))(extractSet (tags c2) ?a := lru_use (assoc (tags c2)) (extractTag (tags c2) ?a, False) (cache_lines (tags c2) (extractSet (tags c2) ?a)))"
    by blast
  have pq: "p\<lparr>pk_req := pk_req ?b\<rparr> = p" using b(5) by simp
  have resp: "bus_response (\<lambda>_ _. None) now edge ?b p None c2 = Inr (q, ws, c2\<lparr>tags := t'\<rparr>)"
  proof (cases "pk_cmd p = WriteInvalidateReq")
    case True
    then show ?thesis using q(1) c2(4) b(2) by (simp add: bus_response_def f_def packet_tests responseCommand_def)
  next
    case False
    then show ?thesis using q(1) cmd b(2) by (auto simp: bus_response_def f_def packet_tests responseCommand_def)
  qed
  obtain p' where p': "(if needsResponse q then makeResponse q else Inr q) = Inr p'" "isResponse p'" "pk_data p' = pk_data q"
    using respond [of q] cmd q(6) by auto
  have "atomic_miss (\<lambda>_ _. None) now edge simple_recvAtomic p None lat c2 m = Inr (q, lat + cy, ws, c2\<lparr>tags := t'\<rparr>, m1)"
    unfolding atomic_miss_def using b(1) s(1) cy resp pq by simp
  then have run: "atomic_access (\<lambda>_ _. None) now edge simple_recvAtomic p c m = Inr (p', (lat + cy) * tag_period t', c2\<lparr>tags := t'\<rparr>, m')"
    using acc q(2) p'(1) by (simp add: atomic_access_def)
  have sh: "same_shape ?t t'" using same_shape_trans t1(2) q(4) c2(2) by blast
  have cl1: "cache_lines (tags c2) = cache_lines ?t" unfolding c2(2) by (rule cache_lines_same [OF t1(2)]) (simp add: contents_def t1(3,4))
  have "cache_lines ?t ?s = contents ?t ?s" using extractSet_less [OF G(2)] by (simp add: cache_lines_def)
  moreover have "assoc (tags c2) = assoc ?t" using t1(2) c2(2) by (simp add: same_shape_def)
  moreover have "array_after m1 p M = array_after m p M" "array_bytes m1 p M = array_bytes m p M" using array_range s(4) by blast+
  ultimately have "access_result p c m M p' (c2\<lparr>tags := t'\<rparr>) m'"
    using p'(2,3) q(3,5,7,8) s(4) sh c2(3-6) top k p(2) cl1 unfolding ex by (simp add: access_result_def cache_frame_def Let_def line_hits_def)
  then show ?thesis using run by blast
qed

section \<open>Invalidation\<close>

lemma back_ok:
  assumes ok: "set_ok bl xs" and i: "i \<in> set xs" "isValid (bl ! i)" and d: "distinct xs" and il: "i < length bl" and b': "\<not> isValid b'"
  shows "set_ok (bl[i := b']) (remove1 i xs @ [i])" "held (bl[i := b']) (remove1 i xs @ [i]) = remove1 (key (bl ! i)) (held bl xs)"
proof -
  let ?f = "\<lambda>i. key (bl ! i)" and ?bl = "bl[i := b']"
  obtain vs "is" where v: "xs = vs @ is" "\<forall>j\<in>set vs. isValid (bl ! j)" "\<forall>j\<in>set is. \<not> isValid (bl ! j)" "distinct (List.map ?f vs)"
    using ok by (auto simp: set_ok_def)
  have iv: "i \<in> set vs" using i v(1,3) by auto
  have dv: "distinct vs" and inj: "inj_on ?f (set vs)" using v(4) by (auto simp: distinct_map)
  have r: "remove1 i xs @ [i] = remove1 i vs @ (is @ [i])" using v(1) iv by (simp add: remove1_append)
  have same: "?bl ! j = bl ! j" if "j \<noteq> i" for j using that by simp
  have ni: "i \<notin> set (remove1 i vs)" "i \<notin> set is" using dv d v(1) iv by auto
  have m: "List.map (\<lambda>j. key (?bl ! j)) (remove1 i vs) = List.map ?f (remove1 i vs)" using ni(1) by (auto intro!: same [THEN arg_cong])
  have rm: "List.map ?f (remove1 i vs) = remove1 (?f i) (List.map ?f vs)" using inj iv by (intro map_remove1_inj) (simp add: insert_absorb)
  have val: "\<forall>j\<in>set (remove1 i vs). isValid (?bl ! j)" using v(2) ni(1) dv by auto
  have "?bl ! j = bl ! j" if "j \<in> set is" for j using same [of j] that ni(2) by (cases "j = i") auto
  then have inv: "\<forall>j\<in>set (is @ [i]). \<not> isValid (?bl ! j)" using v(3) b' il by auto
  have "distinct (List.map (\<lambda>j. key (?bl ! j)) (remove1 i vs))" unfolding m rm using v(4) by (rule distinct_remove1)
  then show "set_ok ?bl (remove1 i xs @ [i])" unfolding r set_ok_def using val inv by blast
  have "held ?bl (remove1 i xs @ [i]) = held ?bl (remove1 i vs) @ held ?bl (is @ [i])" unfolding r held_append ..
  also have "\<dots> = remove1 (?f i) (List.map ?f vs)" unfolding held_valid [OF val] held_invalid [OF inv] m rm by simp
  also have "List.map ?f vs = held bl xs" unfolding v(1) held_append held_valid [OF v(2)] held_invalid [OF v(3)] by simp
  finally show "held ?bl (remove1 i xs @ [i]) = remove1 (?f i) (held bl xs)" .
qed

lemma LRU_invalidate_ok:
  assumes s: "i < length (blks t)" "isValid (blks t ! i)" "srcMasterId (blks t ! i) < maxMasters t"
    and x: "i \<in> set (sets t ! bset (blks t ! i))" "distinct (sets t ! bset (blks t ! i))"
  shows "\<exists>t' b'. LRU_invalidate now i t = Inr t' \<and> same_shape t t' \<and> blks (upd_blk i invalidate_blk t') = (blks t)[i := b'] \<and>
     bset b' = bset (blks t ! i) \<and> status b' = 0 \<and> bdata b' = bdata (blks t ! i) \<and>
     sets t' = (sets t)[bset (blks t ! i) := remove1 i (sets t ! bset (blks t ! i)) @ [i]]"
  using s moveToTail_ok [OF x]
  by (simp add: LRU_invalidate_def base_invalidate_def Let_def upd_blk_def put_set_def same_shape_def)
    (intro exI conjI, rule refl, simp_all)

text \<open>A dirty block is written back before it is invalidated.\<close>

lemma flush_writeback:
  assumes i: "i < length (blks t)" "isValid (blks t ! i)" "length (bdata (blks t ! i)) = unat (blkSize t)" and c: "tags c = t"
  shows "\<exists>ws t1 b1. (if isDirty (blks t ! i) then bindR (writebackBlk now i t) (\<lambda>(w, t). Inr ([w], c\<lparr>tags := t\<rparr>)) else Inr ([], c)) = Inr (ws, c\<lparr>tags := t1\<rparr>) \<and>
     victim_wbs t (blks t ! i) ws \<and> same_shape t t1 \<and> sets t1 = sets t \<and> blks t1 = (blks t)[i := b1] \<and> isValid b1 \<and>
     bset b1 = bset (blks t ! i) \<and> srcMasterId b1 = srcMasterId (blks t ! i) \<and> bdata b1 = bdata (blks t ! i)"
proof (cases "isDirty (blks t ! i)")
  case True
  from writeback_ok [OF i(2) True i(1,3), of now] obtain w t' b' where "writebackBlk now i t = Inr (w, t')" "same_shape t t'" "sets t' = sets t"
      "blks t' = (blks t)[i := b']" "wb_packet w t (blks t ! i)" "isValid b'" "bset b' = bset (blks t ! i)" "srcMasterId b' = srcMasterId (blks t ! i)"
      "bdata b' = bdata (blks t ! i)" by blast
  then show ?thesis using True i(2) by (intro exI [of _ "[w]"] exI [of _ t'] exI [of _ b']) (simp add: victim_wbs_def)
next
  case False
  have "blks t = (blks t)[i := blks t ! i]" "c\<lparr>tags := t\<rparr> = c" using c by (simp_all add: list_update_id)
  then show ?thesis using False i(2) by (intro exI [of _ "[]"] exI [of _ t] exI [of _ "blks t ! i"]) (simp add: victim_wbs_def same_shape_def)
qed

lemma flush_ok:
  assumes c: "coh (tags c) m M" and p: "\<not> pk_secure p"
  shows "\<exists>ws t' m'. flush_blk now p c = Inr (ws, c\<lparr>tags := t'\<rparr>) \<and> send_writebacks simple_recvAtomic ws m = Inr m' \<and> am_range m' = am_range m \<and>
     same_shape (tags c) t' \<and> coh t' m' M \<and>
     cache_lines t' = (cache_lines (tags c))(extractSet (tags c) (pk_addr p) := remove1 (extractTag (tags c) (pk_addr p), False) (cache_lines (tags c) (extractSet (tags c) (pk_addr p)))) \<and>
     (\<forall>j < length (blks t'). isValid (blks t' ! j) \<longrightarrow> line_of t' (blks t' ! j) \<noteq> blockAlign t' (pk_addr p))"
proof -
  let ?t = "tags c"
  let ?a = "pk_addr p"
  let ?s = "extractSet ?t ?a" and ?k = "(extractTag ?t ?a, False)"
  let ?xs = "sets ?t ! ?s"
  have G: "geom ?t" "tags_ok ?t" "locked m = []" using c by (simp_all add: coh_def)
  have s: "?s < numSets ?t" by (rule extractSet_less [OF G(2)])
  have cl: "cache_lines ?t ?s = contents ?t ?s" using s by (simp add: cache_lines_def)
  have sh0: "same_shape ?t ?t" by (simp add: same_shape_def)
  show ?thesis
  proof (cases "findBlock ?t ?a False")
    case None
    then have k: "?k \<notin> set (contents ?t ?s)" by (simp add: findBlock_def find_way_None contents_def)
    have "flush_blk now p c = Inr ([], c\<lparr>tags := ?t\<rparr>)" using None p by (simp add: flush_blk_def)
    moreover
    have e: "remove1 ?k (cache_lines ?t ?s) = cache_lines ?t ?s" using k cl by (simp add: remove1_idem)
    have "cache_lines ?t = (cache_lines ?t)(?s := remove1 ?k (cache_lines ?t ?s))" unfolding e by simp
    ultimately show ?thesis using not_held [OF c k] c sh0 by (intro exI [of _ "[]"] exI [of _ ?t] exI [of _ m]) simp
  next
    case (Some i)
    have i: "i \<in> set ?xs" "isValid (blks ?t ! i)" "key (blks ?t ! i) = ?k" using Some find_way_Some by (auto simp: findBlock_def)
    have il: "i < length (blks ?t)" "bset (blks ?t ! i) = ?s" using tags_ok_mem [OF G(2) s] i(1) by auto
    have S: "distinct ?xs" "set_ok (blks ?t) ?xs" using tags_ok_set [OF G(2) s] by auto
    have ok: "blk_ok ?t (blks ?t ! i)" by (rule tags_ok_blk [OF G(2) il(1)])
    then have src: "srcMasterId (blks ?t ! i) < maxMasters ?t" "length (bdata (blks ?t ! i)) = unat (blkSize ?t)" using i(2) by (simp_all add: blk_ok_def)
    obtain ws t1 b1 where t1: "(if isDirty (blks ?t ! i) then bindR (writebackBlk now i ?t) (\<lambda>(w, t). Inr ([w], c\<lparr>tags := t\<rparr>)) else Inr ([], c)) = Inr (ws, c\<lparr>tags := t1\<rparr>)"
       "victim_wbs ?t (blks ?t ! i) ws" "same_shape ?t t1" "sets t1 = sets ?t" "blks t1 = (blks ?t)[i := b1]" "isValid b1" "bset b1 = ?s"
       "srcMasterId b1 < maxMasters ?t" "bdata b1 = bdata (blks ?t ! i)"
      using flush_writeback [OF il(1) i(2) src(2) refl, of now] il(2) src(1) by auto
    have b1: "i < length (blks t1)" "blks t1 ! i = b1" "maxMasters t1 = maxMasters ?t" using t1(3,5) il(1) by (simp_all add: same_shape_def)
    have pre: "isValid (blks t1 ! i)" "srcMasterId (blks t1 ! i) < maxMasters t1" "i \<in> set (sets t1 ! bset (blks t1 ! i))" "distinct (sets t1 ! bset (blks t1 ! i))"
      using b1 t1(4,6-8) i(1) S(1) by simp_all
    obtain t2 b' where t2: "LRU_invalidate now i t1 = Inr t2" "same_shape t1 t2" "blks (upd_blk i invalidate_blk t2) = (blks t1)[i := b']"
       "bset b' = bset (blks t1 ! i)" "status b' = 0" "bdata b' = bdata (blks t1 ! i)"
       "sets t2 = (sets t1)[bset (blks t1 ! i) := remove1 i (sets t1 ! bset (blks t1 ! i)) @ [i]]"
      using LRU_invalidate_ok [OF b1(1) pre, of now] by blast
    let ?t' = "upd_blk i invalidate_blk t2" and ?xs' = "remove1 i ?xs @ [i]"
    have run: "flush_blk now p c = Inr (ws, c\<lparr>tags := ?t'\<rparr>)" using Some p i(2) t1(1) t2(1) by (simp add: flush_blk_def tags_invalidate_def)
    have sh: "same_shape ?t ?t'" using same_shape_trans [OF t1(3) t2(2)] by (simp add: same_shape_def upd_blk_def)
    have bl: "blks ?t' = (blks ?t)[i := b']" using t2(3) unfolding t1(5) by simp
    have st: "sets ?t' = (sets ?t)[?s := ?xs']" using t2(7) t1(4,7) b1(2) by (simp add: upd_blk_def)
    have b': "bset b' = ?s" "\<not> isValid b'" "blk_ok ?t b'" using t2(4-6) b1(2) t1(7,9) src(2) by (simp_all add: isValid_status blk_ok_def)
    note B = back_ok [OF S(2) i(1,2) S(1) il(1) b'(2)]
    have x: "set ?xs' = set ?xs" "distinct ?xs'" using S(1) i(1) by auto
    have so: "set_ok (blks ?t') ?xs'" unfolding bl by (rule B(1))
    note C = tags_ok_change [OF G(2) s i(1) sh bl st b'(1,3) x so]
    have "contents ?t' ?s = remove1 ?k (contents ?t ?s)" unfolding C(3) bl B(2) i(3) by (simp add: contents_def)
    then have lines: "cache_lines ?t' = (cache_lines ?t)(?s := remove1 ?k (cache_lines ?t ?s))"
      using C(2) unfolding cl by (intro cache_lines_upd [OF G(2) sh]) simp_all
    obtain m' where m': "send_writebacks simple_recvAtomic ws m = Inr m'" "am_range m' = am_range m" "locked m' = []"
        "\<forall>N. mem_ok m N \<and> length N = length M \<longrightarrow> mem_ok m' (wb_bytes ?t m (blks ?t ! i) N)"
      using send_victim [OF c il(1) t1(2)] by blast
    have lo: "line_of ?t (blks ?t ! i) = blockAlign ?t ?a" using i(3) il(2) by (intro line_of_key [OF G(1,2)]) (simp_all add: key_def)
    have F: "coh ?t' m' M" "\<And>j. j < length (blks ?t') \<Longrightarrow> isValid (blks ?t' ! j) \<Longrightarrow> line_of ?t' (blks ?t' ! j) \<noteq> line_of ?t (blks ?t ! i)"
      using coh_flush [OF c il(1) i(2) C(1) sh bl b'(2) m'(2,3)] m'(4) by blast+
    show ?thesis using run m'(1,2) sh F lines blockAlign_shape [OF sh] unfolding lo by (intro exI [of _ ws] exI [of _ ?t'] exI [of _ m']) simp
  qed
qed

section \<open>An uncacheable access\<close>

text \<open>The memory alone, on a line that no block holds.\<close>

lemma memory_serves:
  assumes c: "coh t m M" and p: "line_pkt t m p" "pk_cmd p \<noteq> WriteInvalidateReq"
    and none: "\<And>j. j < length (blks t) \<Longrightarrow> isValid (blks t ! j) \<Longrightarrow> line_of t (blks t ! j) \<noteq> blockAlign t (pk_addr p)"
  shows "\<exists>q lat m'. simple_recvAtomic p m = Inr (q, lat, m') \<and> coh t m' (array_after m p M) \<and> am_range m' = am_range m \<and>
     (q = p \<or> isResponse q \<and> \<not> needsResponse q) \<and> (pk_cmd p = ReadReq \<longrightarrow> isResponse q \<and> pk_data q = Some (array_bytes m p M))"
proof -
  have G: "geom t" "tags_ok t" "locked m = []" using c by (simp_all add: coh_def)
  have sh: "same_shape t t" by (simp add: same_shape_def)
  let ?L = "blockAlign t (pk_addr p)"
  note L = line_pkt_line [OF p(1) G(1,2)]
  have cl: "clean_line t ?L" using none by (auto simp: clean_line_def)
  obtain N where N: "mem_ok m N" "length N = length M" "line_bytes t m ?L N = line_bytes t m ?L M" using c L(1) cl by (auto simp: coh_def)
  have u: "N' = N" if "mem_ok m N'" for N' using that N(1) by (simp add: mem_ok_def)
  obtain d where d: "pk_data p = Some d" "length d = unat (pk_size p)" using line_pkt_data [OF p(1)] by blast
  have f: "\<not> pk_inhibit p" "0 < unat (pk_size p)" "unat (getOffset (blkSize t) p) + length d \<le> unat (blkSize t)" using p(1) d(2) by (simp_all add: line_pkt_def)
  consider (rd) "pk_cmd p = ReadReq" | (wr) "pk_cmd p = WriteReq" using p by (auto simp: line_pkt_def)
  then show ?thesis
  proof cases
    case rd
    then have r: "isRead p" "\<not> isWrite p" "\<not> isLLSC p" "needsResponse p" "isRequest p" by (simp_all add: packet_tests)
    from mem_read [OF N(1) L(3) f(2) r f(1) d]
    obtain m' where m': "mem_access p m = Inr (p\<lparr>pk_data := Some (array_bytes m p N), pk_cmd := responseCommand (pk_cmd p), pk_express := False\<rparr>, m')"
        "mem_ok m' N" "am_range m' = am_range m" "locked m' = locked m" by (auto simp: array_bytes_def)
    have "coh t m' M" by (rule coh_same [OF c sh]) (use m' u G(3) in auto)
    moreover have "array_bytes m p N = array_bytes m p M"
      using array_line(1) [OF p(1) G(1,2) N(1) refl] array_line(1) [OF p(1) G(1,2) N(1) N(2) [symmetric]] N(3) by simp
    ultimately show ?thesis using m' f(1) rd by (auto simp: simple_recvAtomic_def array_after_def responseCommand_def packet_tests)
  next
    case wr
    then have r: "isWrite p" "\<not> isRead p" "\<not> isLLSC p" "\<not> isInvalidate p" "isRequest p" by (simp_all add: packet_tests)
    have nf: "\<not> rq_inst_fetch (pk_req p)" using p(1) wr by (simp add: line_pkt_def)
    from mem_write [OF N(1) L(3) f(2) G(3) r f(1) d nf]
    obtain m' q where m': "mem_access p m = Inr (q, m')" "q = p \<or> q = p\<lparr>pk_cmd := responseCommand (pk_cmd p), pk_express := False\<rparr>"
        "mem_ok m' (put_at (mem_off m (pk_addr p)) d N)" "am_range m' = am_range m" "locked m' = []" by blast
    have "coh t m' (put_at (mem_off m ?L + unat (getOffset (blkSize t) p)) d M)"
      by (rule coh_memory [OF c L(1) none f(3) m'(4,5)]) (use m'(3) u L(2) in auto)
    then have "coh t m' (array_after m p M)" using wr d(1) L(2) by (simp add: array_after_def)
    then show ?thesis using m' f(1) wr by (auto simp: simple_recvAtomic_def responseCommand_def packet_tests)
  qed
qed

lemma access_uncacheable:
  assumes c: "coh (tags c) m M" and p: "line_pkt (tags c) m p" "rq_uncacheable (pk_req p)" "pk_cmd p \<noteq> WriteInvalidateReq"
  shows "\<exists>p' lat c' m'. atomic_access (\<lambda>_ _. None) now edge simple_recvAtomic p c m = Inr (p', lat, c', m') \<and> access_result p c m M p' c' m'"
proof -
  let ?t = "tags c"
  have f: "\<not> pk_secure p" "\<not> rq_clear_ll (pk_req p)" "pk_cmd p = ReadReq \<or> pk_cmd p = WriteReq" using p by (auto simp: line_pkt_def)
  obtain ws t' m1 where F: "flush_blk now p c = Inr (ws, c\<lparr>tags := t'\<rparr>)" "send_writebacks simple_recvAtomic ws m = Inr m1" "am_range m1 = am_range m"
     "same_shape ?t t'" "coh t' m1 M"
     "cache_lines t' = (cache_lines ?t)(extractSet ?t (pk_addr p) := remove1 (extractTag ?t (pk_addr p), False) (cache_lines ?t (extractSet ?t (pk_addr p))))"
     "\<forall>j < length (blks t'). isValid (blks t' ! j) \<longrightarrow> line_of t' (blks t' ! j) \<noteq> blockAlign t' (pk_addr p)"
    using flush_ok [OF c f(1), of now] by blast
  let ?c1 = "c\<lparr>tags := t'\<rparr>"
  have p1: "line_pkt t' m1 p" using p(1) line_pkt_shape [OF F(4,3)] by simp
  obtain q t m2 where q: "simple_recvAtomic p m1 = Inr (q, t, m2)" "coh t' m2 (array_after m1 p M)" "am_range m2 = am_range m1"
     "q = p \<or> isResponse q \<and> \<not> needsResponse q" "pk_cmd p = ReadReq \<longrightarrow> isResponse q \<and> pk_data q = Some (array_bytes m1 p M)"
    using memory_serves [OF F(5) p1 p(3)] F(7) by blast
  obtain cy where cy: "cache_cycles ?c1 t = Inr cy" using F(5) by (auto simp: cache_cycles_def divCeil_def coh_def tags_ok_def)
  have acc: "cache_access (\<lambda>_ _. None) now p c = Inr (False, None, lookupLatency ?c1, ws, p, ?c1)"
    using p(2) f F(1) by (auto simp: cache_access_def Let_def packet_tests)
  have miss: "atomic_miss (\<lambda>_ _. None) now edge simple_recvAtomic p None (lookupLatency ?c1) ?c1 m1 = Inr (q, lookupLatency ?c1 + cy, [], ?c1, m2)"
    using p(2) q(1) cy by (simp add: atomic_miss_def getBusPacket_def)
  obtain p' where p': "(if needsResponse q then makeResponse q else Inr q) = Inr p'" "isResponse p'" "pk_cmd p = ReadReq \<longrightarrow> pk_data p' = pk_data q"
    using q(4) respond [of q] f(3) by fastforce
  have run: "atomic_access (\<lambda>_ _. None) now edge simple_recvAtomic p c m = Inr (p', (lookupLatency ?c1 + cy) * tag_period t', ?c1, m2)"
    using acc F(2) miss p'(1) by (simp add: atomic_access_def)
  have "array_after m1 p M = array_after m p M" "array_bytes m1 p M = array_bytes m p M" using array_range F(3) by blast+
  then have "access_result p c m M p' ?c1 m2"
    using p'(2,3) q(2,3,5) F(3,4,6) p(2) by (simp add: access_result_def cache_frame_def Let_def line_hits_def)
  then show ?thesis using run by blast
qed

end
