(* ===== verification/Cache_New.thy ===== *)
theory Cache_New imports Cache_Access begin

text \<open>
  A new cache: the constructor's blocks and sets satisfy the invariant, and the cache stands for
  the array of its memory.
\<close>

section \<open>Construction\<close>

lemma concat_nth:
  assumes "\<And>i. length (f i) = a" "k < n * a"
  shows "concat (List.map f [0..<n]) ! k = f (k div a) ! (k mod a)"
  using assms(2)
proof (induction n)
  case (Suc n)
  have len: "length (concat (List.map f [0..<n])) = n * a" using assms(1) by (induction n) simp_all
  show ?case
  proof (cases "k < n * a")
    case True
    then show ?thesis using Suc len by (simp add: nth_append)
  next
    case False
    then have "a * n \<le> k" "k < a * Suc n" using Suc.prems by (simp_all add: mult.commute)
    then have "k div a = n" by (rule div_nat_eqI)
    then have "k mod a = k - n * a" by (metis minus_div_mult_eq_mod)
    note \<open>k div a = n\<close> this
    then show ?thesis using False len by (simp add: nth_append)
  qed
qed simp

lemma set_blocks_simps [simp]:
  "length (set_blocks sz n i) = n" "j < n \<Longrightarrow> bset (set_blocks sz n i ! j) = i" "j < n \<Longrightarrow> status (set_blocks sz n i ! j) = 0"
  "j < n \<Longrightarrow> length (bdata (set_blocks sz n i ! j)) = sz"
  by (simp_all add: set_blocks_def)

lemma new_tags_ok:
  assumes new: "BaseSetAssoc_new sz bs asc sequential lat period masters = Inr t" and p: "period \<noteq> 0"
  shows "tags_ok t" "contents t s = [] \<or> numSets t \<le> s" "assoc t = unat (word_of_int asc :: 32 word)" "blkSize t = word_of_int bs"
    "maxMasters t = masters" "unat (blkSize t) = 2 ^ setShift t" "numSets t = 2 ^ (tagShift t - setShift t)" "setShift t \<le> tagShift t"
    "blkMask t = blkSize t - 1"
proof -
  obtain product num shift lg where n: "int_mul bs asc = Inr product" "num = (ucast (sz div word_of_int product) :: 32 word)"
      "isPowerOf2 (word_of_int bs :: 32 word)" "0 < num" "isPowerOf2 num" "word_of_int asc \<noteq> (0 :: 32 word)"
      "floorLog2_32 (word_of_int bs) = Inr shift" "floorLog2_32 num = Inr lg"
    and t: "t = \<lparr>blkSize = word_of_int bs, accessLatency = lat, tag_period = period, maxMasters = masters,
          warmupBound = sint (num * word_of_int asc), warmedUp = False, tagsInUse = 0, replacements = 0,
          occupancies = (\<lambda>_. 0), tagAccesses = 0, dataAccesses = 0, assoc = unat (word_of_int asc :: 32 word), numSets = unat num,
          sequentialAccess = sequential, sets = List.map (\<lambda>i. [i * unat (word_of_int asc :: 32 word)..<i * unat (word_of_int asc :: 32 word) + unat (word_of_int asc :: 32 word)]) [0..<unat num],
          blks = concat (List.map (set_blocks (unat (word_of_int bs :: 32 word)) (unat (word_of_int asc :: 32 word))) [0..<unat num]),
          setShift = shift, tagShift = shift + lg, setMask = num - 1, blkMask = word_of_int bs - 1\<rparr>"
    using new by (auto simp: BaseSetAssoc_new_def bindR_eq_Inr Let_def)
  let ?a = "unat (word_of_int asc :: 32 word)" and ?n = "unat num" and ?z = "unat (word_of_int bs :: 32 word)"
  have a: "0 < ?a" using n(6) by (simp add: unat_gt_0)
  have log: "unat x = 2 ^ y" if pow: "isPowerOf2 x" and lgx: "floorLog2_32 x = Inr y" for x :: "32 word" and y
  proof -
    obtain k where k: "unat x = 2 ^ k" using pow isPowerOf2_pow [of x] by auto
    have "x \<noteq> 0" using k by auto
    then have "2 ^ y \<le> unat x" "unat x < 2 ^ (y + 1)" using floorLog2_32_ok [of x] lgx by auto
    then have "y \<le> k" "k < y + 1" unfolding k using power_le_imp_le_exp [of "2 :: nat" y k] power_less_imp_less_exp [of "2 :: nat" k "y + 1"] by simp_all
    then show ?thesis using k by simp
  qed
  have l: "?n = 2 ^ lg" "unat (word_of_int bs :: 32 word) = 2 ^ shift" using log n(3,5,7,8) by blast+
  have lg: "lg < 32" using pow2_width [OF l(1)] by simp
  have len: "length (blks t) = ?n * ?a" unfolding t by (simp add: length_concat comp_def sum_list_triv)
  have b: "blks t ! k = set_blocks ?z ?a (k div ?a) ! (k mod ?a)" if "k < ?n * ?a" for k
    using concat_nth [of "set_blocks ?z ?a" ?a k ?n] that unfolding t by simp
  have bs: "bset (blks t ! k) = k div ?a" "status (blks t ! k) = 0" "length (bdata (blks t ! k)) = ?z" if "k < ?n * ?a" for k using b [OF that] a by simp_all
  have st: "sets t ! i = [i * ?a..<i * ?a + ?a]" if "i < ?n" for i using that unfolding t by simp
  have inv: "\<not> isValid x" if "x \<in> set (blks t)" for x using that bs(2) len by (auto simp: in_set_conv_nth isValid_status)
  have invs: "\<forall>j\<in>set (sets t ! i). \<not> isValid (blks t ! j)" if "i < ?n" for i
  proof
    fix j assume j: "j \<in> set (sets t ! i)"
    then have "j < (i + 1) * ?a" using st [OF that] by simp
    also have "\<dots> \<le> ?n * ?a" using that by (intro mult_le_mono1) simp
    finally show "\<not> isValid (blks t ! j)" using inv len by simp
  qed
  have mem: "set (sets t ! i) = {k. k < ?n * ?a \<and> k div ?a = i}" if "i < ?n" for i
  proof -
    have lt: "k < ?n * ?a" if "k < i * ?a + ?a" for k
    proof -
      have "i * ?a + ?a = (i + 1) * ?a" by simp
      also have "\<dots> \<le> ?n * ?a" using \<open>i < ?n\<close> by (intro mult_le_mono1) simp
      finally show ?thesis using that by simp
    qed
    have dv: "(i * ?a \<le> k \<and> k < i * ?a + ?a) = (k div ?a = i)" for k
      using a by (metis add.commute div_nat_eqI dividend_less_times_div mult.commute mult_Suc_right times_div_less_eq_dividend)
    show ?thesis
    proof (rule set_eqI)
      fix k
      have "k \<in> set (sets t ! i) \<longleftrightarrow> i * ?a \<le> k \<and> k < i * ?a + ?a" using st [OF that] by simp
      then show "k \<in> set (sets t ! i) \<longleftrightarrow> k \<in> {k. k < ?n * ?a \<and> k div ?a = i}" using lt [of k] dv [of k] by blast
    qed
  qed
  have "distinct (sets t ! i) \<and> length (sets t ! i) = ?a \<and> set (sets t ! i) = {k. k < length (blks t) \<and> bset (blks t ! k) = i} \<and>
      set_ok (blks t) (sets t ! i)" if "i < ?n" for i
  proof (intro conjI)
    show "distinct (sets t ! i)" "length (sets t ! i) = ?a" using st [OF that] by simp_all
    show "set (sets t ! i) = {k. k < length (blks t) \<and> bset (blks t ! k) = i}" using mem [OF that] bs(1) len by auto
    show "set_ok (blks t) (sets t ! i)" unfolding set_ok_def using invs [OF that] by (intro exI [of _ "[]"] exI [of _ "sets t ! i"]) simp
  qed
  moreover have "setMask t = of_nat ?n - 1" "numSets t = ?n" "assoc t = ?a" "length (sets t) = ?n" "tag_period t \<noteq> 0" unfolding t using p by simp_all
  moreover have "\<forall>x\<in>set (blks t). blk_ok t x"
    using bs(2,3) len by (auto simp: in_set_conv_nth isValid_status blk_ok_def) (simp add: t)
  ultimately show "tags_ok t" unfolding tags_ok_def using a len l(1) lg by auto
  show "contents t s = [] \<or> numSets t \<le> s"
  proof (cases "s < ?n")
    case True
    then show ?thesis using invs by (simp add: contents_def held_invalid)
  qed (simp add: t)
  show "assoc t = ?a" "blkSize t = word_of_int bs" "maxMasters t = masters" "unat (blkSize t) = 2 ^ setShift t" "numSets t = 2 ^ (tagShift t - setShift t)"
      "setShift t \<le> tagShift t" "blkMask t = blkSize t - 1"
    using l by (simp_all add: t)
qed

lemma new_coh:
  assumes new: "BaseSetAssoc_new sz bs asc sequential lat period masters = Inr t" "period \<noteq> 0" and m: "mem_ok m M" "locked m = []"
  shows "coh t m M" "cache_lines t = (\<lambda>_. [])"
proof -
  note N = new_tags_ok [OF new]
  show "cache_lines t = (\<lambda>_. [])" using N(2) by (force simp: cache_lines_def fun_eq_iff dest: leD)
  have "\<not> isValid (blks t ! i)" if l: "i < length (blks t)" for i
  proof
    assume v: "isValid (blks t ! i)"
    obtain a where a: "bset (blks t ! i) = extractSet t a" using v tags_ok_blk [OF N(1) l] by (auto simp: blk_ok_def)
    then have s: "bset (blks t ! i) < numSets t" using extractSet_less [OF N(1)] by simp
    then have "contents t (bset (blks t ! i)) = []" using N(2) [of "bset (blks t ! i)"] by simp
    moreover have "i \<in> set (sets t ! bset (blks t ! i))" using tags_ok_mem [OF N(1) s] l by simp
    ultimately show False using v by (force simp: contents_def held_def filter_empty_conv)
  qed
  then show "coh t m M" using m N(1,6-8) by (auto simp: coh_def geom_def intro!: exI [of _ M])
qed

end
