(* ===== verification/Cache_Props.thy ===== *)
theory Cache_Props imports Cache_New begin

text \<open>
  What a top-level cache promises for every sequence of accesses, from its construction on: its sets
  are lists of lines with least recently used replacement, and more ways give more hits.  The
  interfaces of \<open>Cache_Spec\<close> are discharged here, for the cache over a memory and for the memory alone.
\<close>

section \<open>One access\<close>

lemma promote_ok:
  assumes "cpu_pkt (tags c) m p" "isTopLevel c"
  shows "\<exists>q. promoteWholeLineWrites p c = Inr q \<and> line_pkt (tags c) m q \<and> pk_req q = pk_req p \<and> (pk_cmd q = ReadReq \<longleftrightarrow> pk_cmd p = ReadReq) \<and>
     (pk_cmd q = WriteInvalidateReq \<longrightarrow> \<not> rq_uncacheable (pk_req p)) \<and> pk_addr q = pk_addr p \<and> pk_size q = pk_size p \<and> pk_data q = pk_data p"
  using assms by (cases "pk_data p") (auto simp: promoteWholeLineWrites_def cpu_pkt_def line_pkt_def getOffset_def)

lemma recvAtomic_ok:
  assumes c: "coh (tags c) m M" "isTopLevel c" "\<not> bypassCaches c" and p: "cpu_pkt (tags c) m p"
  shows "\<exists>p' lat c' m'. cache_recvAtomic (\<lambda>_ _. None) now edge simple_recvAtomic p c m = Inr (p', lat, c', m') \<and> access_result p c m M p' c' m'"
proof -
  obtain q where q: "promoteWholeLineWrites p c = Inr q" "line_pkt (tags c) m q" "pk_req q = pk_req p" "pk_cmd q = ReadReq \<longleftrightarrow> pk_cmd p = ReadReq"
      "pk_cmd q = WriteInvalidateReq \<longrightarrow> \<not> rq_uncacheable (pk_req p)" "pk_addr q = pk_addr p" "pk_size q = pk_size p" "pk_data q = pk_data p"
    using promote_ok [OF p c(2)] by blast
  have "\<exists>p' lat c' m'. atomic_access (\<lambda>_ _. None) now edge simple_recvAtomic q c m = Inr (p', lat, c', m') \<and> access_result q c m M p' c' m'"
  proof (cases "rq_uncacheable (pk_req q)")
    case True
    then show ?thesis using access_uncacheable [OF c(1) q(2)] q(3,5) by simp
  next
    case False
    then show ?thesis using access_hit [OF c(1,2) q(2) False] access_miss [OF c(1,2) q(2) False] by blast
  qed
  moreover have "access_result q c m M p' c' m' = access_result p c m M p' c' m'" for p' c' m'
    using q(3,4,6-8) by (simp add: access_result_def array_after_def array_bytes_def)
  moreover have "\<not> pk_inhibit q" using q(2) by (simp add: line_pkt_def)
  ultimately show ?thesis using q(1) c(3) by (simp add: cache_recvAtomic_def)
qed

section \<open>The interfaces\<close>

text \<open>An access at a tick and a clock edge, on a cache and the memory below it.\<close>

type_synonym access = "tick \<times> tick \<times> packet"

definition answer_of :: "packet \<Rightarrow> packet \<Rightarrow> byte list option" where
  "answer_of p p' = (if pk_cmd p = ReadReq then pk_data p' else None)"

definition mem_serve :: "access \<Rightarrow> absmem \<Rightarrow> (byte list option \<times> absmem) res" where
  "mem_serve x m = bindR (simple_recvAtomic (snd (snd x)) m) (\<lambda>(p', _, m'). Inr (answer_of (snd (snd x)) p', m'))"

definition cache_serve :: "access \<Rightarrow> cache \<times> absmem \<Rightarrow> (byte list option \<times> cache \<times> absmem) res" where
  "cache_serve x s = (case x of (now, edge, p) \<Rightarrow>
     bindR (cache_recvAtomic (\<lambda>_ _. None) now edge simple_recvAtomic p (fst s) (snd s)) (\<lambda>(p', _, c', m'). Inr (answer_of p p', c', m')))"

text \<open>Whether an access hits is read off the counters.\<close>

definition cache_hit :: "access \<Rightarrow> cache \<times> absmem \<Rightarrow> (bool \<times> cache \<times> absmem) res" where
  "cache_hit x s = (case x of (now, edge, p) \<Rightarrow> let i = rq_master (pk_req p) in
     bindR (cache_recvAtomic (\<lambda>_ _. None) now edge simple_recvAtomic p (fst s) (snd s)) (\<lambda>(p', _, c', m').
     Inr (line_hits (fst s) i < line_hits c' i, c', m')))"

definition acc_pkt :: "access \<Rightarrow> packet" where "acc_pkt x = snd (snd x)"
definition acc_drops :: "access \<Rightarrow> bool" where "acc_drops x = rq_uncacheable (pk_req (acc_pkt x))"
definition acc_line :: "tagstore \<Rightarrow> access \<Rightarrow> maddr \<times> bool" where "acc_line t x = (extractTag t (pk_addr (acc_pkt x)), False)"
definition acc_slot :: "tagstore \<Rightarrow> access \<Rightarrow> nat" where "acc_slot t x = extractSet t (pk_addr (acc_pkt x))"

definition acc_ok :: "tagstore \<Rightarrow> absmem \<Rightarrow> access \<Rightarrow> bool" where
  "acc_ok t m x \<longleftrightarrow> cpu_pkt t m (acc_pkt x)"

definition acc_answer :: "absmem \<Rightarrow> access \<Rightarrow> byte list \<Rightarrow> byte list option" where
  "acc_answer m x M = (if pk_cmd (acc_pkt x) = ReadReq then Some (array_bytes m (acc_pkt x) M) else None)"

definition acc_update :: "absmem \<Rightarrow> access \<Rightarrow> byte list \<Rightarrow> byte list" where
  "acc_update m x M = array_after m (acc_pkt x) M"

text \<open>A cache and a memory that stand for the array \<open>M\<close>, of the shape of \<open>t0\<close> and \<open>m0\<close>.\<close>

definition cache_rep :: "tagstore \<Rightarrow> absmem \<Rightarrow> cache \<times> absmem \<Rightarrow> byte list \<Rightarrow> bool" where
  "cache_rep t0 m0 s M \<longleftrightarrow> coh (tags (fst s)) (snd s) M \<and> isTopLevel (fst s) \<and> \<not> bypassCaches (fst s) \<and>
     same_shape t0 (tags (fst s)) \<and> am_range (snd s) = am_range m0"

definition mem_rep :: "tagstore \<Rightarrow> absmem \<Rightarrow> absmem \<Rightarrow> byte list \<Rightarrow> bool" where
  "mem_rep t0 m0 m M \<longleftrightarrow> geom t0 \<and> tags_ok t0 \<and> mem_ok m M \<and> locked m = [] \<and> am_range m = am_range m0"

lemma cpu_pkt_shape:
  assumes "same_shape t t'" "am_range m' = am_range m"
  shows "cpu_pkt t' m' p = cpu_pkt t m p"
proof -
  have "blkSize t' = blkSize t" using assms(1) by (simp add: same_shape_def)
  then show ?thesis using line_pkt_shape [OF assms] by (simp add: cpu_pkt_def)
qed

text \<open>One access, on the interfaces' terms.\<close>

lemma serve_ok:
  assumes s: "cache_rep t0 m0 (c, m) M" and x: "acc_ok t0 m0 (now, edge, p)"
  shows "\<exists>p' lat c' m'. cache_recvAtomic (\<lambda>_ _. None) now edge simple_recvAtomic p c m = Inr (p', lat, c', m') \<and>
     answer_of p p' = acc_answer m0 (now, edge, p) M \<and> cache_rep t0 m0 (c', m') (acc_update m0 (now, edge, p) M) \<and>
     cache_lines (tags c') = (cache_lines (tags c))(acc_slot t0 (now, edge, p) :=
       line_step (rq_uncacheable (pk_req p)) (assoc t0) (acc_line t0 (now, edge, p)) (cache_lines (tags c) (acc_slot t0 (now, edge, p)))) \<and>
     (line_hits c (rq_master (pk_req p)) < line_hits c' (rq_master (pk_req p)) \<longleftrightarrow>
       \<not> rq_uncacheable (pk_req p) \<and> acc_line t0 (now, edge, p) \<in> set (cache_lines (tags c) (acc_slot t0 (now, edge, p))))"
proof -
  have c: "coh (tags c) m M" "isTopLevel c" "\<not> bypassCaches c" "same_shape t0 (tags c)" "am_range m = am_range m0" using s by (simp_all add: cache_rep_def)
  have "cpu_pkt (tags c) m p" using x cpu_pkt_shape [OF c(4,5)] by (simp add: acc_ok_def acc_pkt_def)
  from recvAtomic_ok [OF c(1-3) this, of now edge]
  obtain p' lat c' m' where r: "cache_recvAtomic (\<lambda>_ _. None) now edge simple_recvAtomic p c m = Inr (p', lat, c', m')" "access_result p c m M p' c' m'" by blast
  have e: "extractTag (tags c) a = extractTag t0 a" "extractSet (tags c) a = extractSet t0 a" "assoc (tags c) = assoc t0" for a
    using same_shape_extract [OF c(4)] c(4) by (simp_all add: same_shape_def)
  have "answer_of p p' = acc_answer m0 (now, edge, p) M"
    using r(2) array_range(2) [OF c(5)] by (simp add: access_result_def answer_of_def acc_answer_def acc_pkt_def)
  moreover have "cache_rep t0 m0 (c', m') (acc_update m0 (now, edge, p) M)"
    using r(2) c array_range(1) [OF c(5)] same_shape_trans by (auto simp: access_result_def cache_rep_def acc_update_def acc_pkt_def cache_frame_def)
  ultimately show ?thesis using r
    by (intro exI [of _ p'] exI [of _ lat] exI [of _ c'] exI [of _ m']) (simp add: access_result_def Let_def e acc_slot_def acc_line_def acc_pkt_def line_step_def)
qed

interpretation lru: line_cache cache_hit acc_drops "acc_line t0" "acc_slot t0" "assoc t0" "acc_ok t0 m0" "\<lambda>s. \<exists>M. cache_rep t0 m0 s M" "\<lambda>s. cache_lines (tags (fst s))"
  for t0 :: tagstore and m0 :: absmem
proof
  fix s x assume "\<exists>M. cache_rep t0 m0 s M" and x: "acc_ok t0 m0 x"
  then obtain M where M: "cache_rep t0 m0 s M" by blast
  obtain c m now edge p where e: "s = (c, m)" "x = (now, edge, p)" by (metis prod_cases3 surj_pair)
  from serve_ok [OF M [unfolded e] x [unfolded e]]
  show "\<exists>s'. cache_hit x s = Inr (\<not> acc_drops x \<and> acc_line t0 x \<in> set (cache_lines (tags (fst s)) (acc_slot t0 x)), s') \<and> (\<exists>M. cache_rep t0 m0 s' M) \<and>
     cache_lines (tags (fst s')) = (cache_lines (tags (fst s)))(acc_slot t0 x := line_step (acc_drops x) (assoc t0) (acc_line t0 x) (cache_lines (tags (fst s)) (acc_slot t0 x)))"
    unfolding e by (auto simp: cache_hit_def acc_drops_def acc_pkt_def)
qed

interpretation through: array_port cache_serve "acc_ok t0 m0" "cache_rep t0 m0" "acc_answer m0" "acc_update m0"
  for t0 :: tagstore and m0 :: absmem
proof
  fix s M x assume M: "cache_rep t0 m0 s M" and x: "acc_ok t0 m0 x"
  obtain c m now edge p where e: "s = (c, m)" "x = (now, edge, p)" by (metis prod_cases3 surj_pair)
  from serve_ok [OF M [unfolded e] x [unfolded e]]
  show "\<exists>s'. cache_serve x s = Inr (acc_answer m0 x M, s') \<and> cache_rep t0 m0 s' (acc_update m0 x M)"
    unfolding e by (auto simp: cache_serve_def)
qed

interpretation direct: array_port mem_serve "acc_ok t0 m0" "mem_rep t0 m0" "acc_answer m0" "acc_update m0"
  for t0 :: tagstore and m0 :: absmem
proof
  fix m M x assume s: "mem_rep t0 m0 m M" and x: "acc_ok t0 m0 x"
  let ?p = "acc_pkt x"
  have m: "mem_ok m M" "locked m = []" "am_range m = am_range m0" "geom t0" "tags_ok t0" using s by (simp_all add: mem_rep_def)
  have sh: "same_shape t0 t0" by (simp add: same_shape_def)
  have p: "line_pkt t0 m ?p" "pk_cmd ?p \<noteq> WriteInvalidateReq" using x line_pkt_shape [OF sh m(3)] by (simp_all add: acc_ok_def cpu_pkt_def)
  obtain d where d: "pk_data ?p = Some d" "length d = unat (pk_size ?p)" using line_pkt_data [OF p(1)] by blast
  note L = line_pkt_line(3) [OF p(1) m(4,5)]
  have f: "\<not> pk_inhibit ?p" "0 < unat (pk_size ?p)" using p(1) by (simp_all add: line_pkt_def)
  have ans: "acc_answer m0 x M = (if pk_cmd ?p = ReadReq then Some (array_bytes m ?p M) else None)" "acc_update m0 x M = array_after m ?p M"
    using array_range [OF m(3)] by (simp_all add: acc_answer_def acc_update_def)
  consider (rd) "pk_cmd ?p = ReadReq" | (wr) "pk_cmd ?p = WriteReq" using p by (auto simp: line_pkt_def)
  then show "\<exists>m'. mem_serve x m = Inr (acc_answer m0 x M, m') \<and> mem_rep t0 m0 m' (acc_update m0 x M)"
  proof cases
    case rd
    then have r: "isRead ?p" "\<not> isWrite ?p" "\<not> isLLSC ?p" "needsResponse ?p" "isRequest ?p" by (simp_all add: packet_tests)
    from mem_read [OF m(1) L f(2) r f(1) d] show ?thesis using rd m f(1) unfolding ans
      by (auto simp: mem_serve_def simple_recvAtomic_def acc_pkt_def answer_of_def array_bytes_def array_after_def mem_rep_def)
  next
    case wr
    then have r: "isWrite ?p" "\<not> isRead ?p" "\<not> isLLSC ?p" "\<not> isInvalidate ?p" "isRequest ?p" by (simp_all add: packet_tests)
    have nf: "\<not> rq_inst_fetch (pk_req ?p)" using p(1) wr by (simp add: line_pkt_def)
    from mem_write [OF m(1) L f(2) m(2) r f(1) d nf] show ?thesis using wr m f(1) d(1) unfolding ans
      by (auto simp: mem_serve_def simple_recvAtomic_def acc_pkt_def answer_of_def array_after_def mem_rep_def)
  qed
qed

section \<open>Caches from their construction on\<close>

lemma new_rep:
  assumes "BaseSetAssoc_new sz bs asc sequential lat period masters = Inr t" "period \<noteq> 0" "mem_ok m M" "locked m = []"
  shows "cache_rep t m (Cache_new t True False hit_lat resp_lat max_misses, m) M" "mem_rep t m m M"
  using new_coh [OF assms] new_tags_ok [OF assms(1,2)] assms(3,4)
  by (simp_all add: cache_rep_def mem_rep_def Cache_new_def same_shape_def geom_def)

text \<open>C18: A cache with \<open>LRU\<close> replacement implements, for every sequence of accesses of a CPU, a list of
  lines per set: a cacheable access moves its line to the front of the list and cuts the list at the
  associativity, an uncacheable one takes its line out, and an access hits exactly when it is
  cacheable and its line is in the list.\<close>

theorem lru_refines:
  assumes new: "BaseSetAssoc_new sz bs asc sequential lat period masters = Inr t" "period \<noteq> 0" and m: "mem_ok m M" "locked m = []"
    and ok: "\<forall>x\<in>set xs. acc_ok t m x"
  shows "\<exists>s'. run_ops cache_hit xs (Cache_new t True False hit_lat resp_lat max_misses, m) =
       Inr (fst (spec_ops acc_drops (acc_line t) (acc_slot t) (assoc t) xs (\<lambda>_. [])), s') \<and>
     cache_lines (tags (fst s')) = snd (spec_ops acc_drops (acc_line t) (acc_slot t) (assoc t) xs (\<lambda>_. []))"
proof -
  let ?s = "(Cache_new t True False hit_lat resp_lat max_misses, m)"
  have "cache_lines (tags (fst ?s)) = (\<lambda>_. [])" using new_coh(2) [OF new m] by (simp add: Cache_new_def)
  moreover have "\<exists>M. cache_rep t m ?s M" using new_rep(1) [OF new m] by blast
  ultimately show ?thesis using lru.run_refines [of t m ?s xs] ok by auto
qed

lemma new_same_index:
  assumes t1: "BaseSetAssoc_new sz1 bs asc1 sequential1 lat1 period1 masters1 = Inr t1" "period1 \<noteq> 0"
    and t2: "BaseSetAssoc_new sz2 bs asc2 sequential2 lat2 period2 masters2 = Inr t2" "period2 \<noteq> 0" and n: "numSets t1 = numSets t2"
  shows "acc_line t1 = acc_line t2" "acc_slot t1 = acc_slot t2"
proof -
  note A = new_tags_ok [OF t1] and B = new_tags_ok [OF t2]
  have "(2 :: nat) ^ setShift t1 = 2 ^ setShift t2" using A(4,6) B(4,6) by simp
  then have s: "setShift t1 = setShift t2" by simp
  have "(2 :: nat) ^ (tagShift t1 - setShift t1) = 2 ^ (tagShift t2 - setShift t2)" using A(7) B(7) n by simp
  then have g: "tagShift t1 = tagShift t2" using A(8) B(8) s by simp
  have m: "setMask t1 = setMask t2" using A(1) B(1) n by (simp add: tags_ok_def)
  show "acc_line t1 = acc_line t2" "acc_slot t1 = acc_slot t2"
    by (simp_all add: fun_eq_iff acc_line_def acc_slot_def extractTag_def extractSet_def s g m)
qed

text \<open>C19: More associativity never turns a hit into a miss: of two new caches with \<open>LRU\<close> replacement,
  of the same block size and number of sets, the one with more ways hits on every access of a
  sequence the other one hits on.\<close>

theorem lru_inclusion:
  assumes t1: "BaseSetAssoc_new sz1 bs asc1 sequential1 lat1 period1 masters1 = Inr t1" "period1 \<noteq> 0"
    and t2: "BaseSetAssoc_new sz2 bs asc2 sequential2 lat2 period2 masters2 = Inr t2" "period2 \<noteq> 0"
    and n: "numSets t1 = numSets t2" and a: "assoc t1 \<le> assoc t2" and m: "mem_ok m M" "locked m = []"
    and ok: "\<forall>x\<in>set xs. acc_ok t1 m x \<and> acc_ok t2 m x"
  shows "\<exists>hits1 hits2 s1 s2. run_ops cache_hit xs (Cache_new t1 True False hl1 rl1 mm1, m) = Inr (hits1, s1) \<and>
     run_ops cache_hit xs (Cache_new t2 True False hl2 rl2 mm2, m) = Inr (hits2, s2) \<and> list_all2 (\<longrightarrow>) hits1 hits2"
proof -
  let ?s1 = "(Cache_new t1 True False hl1 rl1 mm1, m)" and ?s2 = "(Cache_new t2 True False hl2 rl2 mm2, m)"
  have l: "cache_lines (tags (fst ?s1)) = (\<lambda>_. [])" "cache_lines (tags (fst ?s2)) = (\<lambda>_. [])"
    using new_coh(2) [OF t1 m] new_coh(2) [OF t2 m] by (simp_all add: Cache_new_def)
  have r: "\<exists>M. cache_rep t1 m ?s1 M" "\<exists>M. cache_rep t2 m ?s2 M" using new_rep(1) [OF t1 m] new_rep(1) [OF t2 m] by blast+
  have o: "\<forall>x\<in>set xs. acc_ok t1 m x" "\<forall>x\<in>set xs. acc_ok t2 m x" using ok by simp_all
  have "list_all2 (\<longrightarrow>) (fst (spec_ops acc_drops (acc_line t1) (acc_slot t1) (assoc t1) xs (\<lambda>_. [])))
      (fst (spec_ops acc_drops (acc_line t1) (acc_slot t1) (assoc t2) xs (\<lambda>_. [])))"
    by (rule spec_inclusion [OF a]) simp
  then show ?thesis
    using lru.run_refines [OF r(1) o(1)] lru.run_refines [OF r(2) o(2)] unfolding l new_same_index [OF t1 t2 n] by blast
qed

section \<open>A small cache\<close>

definition small_mem :: absmem where
  "small_mem = AbstractMemory_new (AddrRange 0 31) (Some [0, 1, 2, 3, 4, 5, 6, 7, 8, 9, 10, 11, 12, 13, 14, 15, 16, 17, 18, 19, 20, 21, 22, 23, 24, 25, 26, 27, 28, 29, 30, 31]) 30"

definition small_acc :: "mem_cmd \<Rightarrow> bool \<Rightarrow> maddr \<Rightarrow> byte list \<Rightarrow> access" where
  "small_acc cmd unc a d = (0, 0, (Packet_new ((Request_new a (of_nat (length d)) 2)\<lparr>rq_uncacheable := unc\<rparr>) cmd)\<lparr>pk_data := Some d\<rparr>)"

lemma small_mem_ok:
  "mem_ok small_mem [0, 1, 2, 3, 4, 5, 6, 7, 8, 9, 10, 11, 12, 13, 14, 15, 16, 17, 18, 19, 20, 21, 22, 23, 24, 25, 26, 27, 28, 29, 30, 31]" "locked small_mem = []"
  by (simp_all add: small_mem_def AbstractMemory_new_def mem_ok_def AddrRange_def)

lemma small_cache:
  "\<exists>t. BaseSetAssoc_new 8 4 1 False 2 1000 4 = Inr t \<and> assoc t = 1 \<and> numSets t = 2 \<and> blkSize t = 4 \<and> maxMasters t = 4 \<and> tagShift t = 3 \<and> setShift t = 2 \<and> setMask t = 1"
  "\<exists>t. BaseSetAssoc_new 16 4 2 False 2 1000 4 = Inr t \<and> assoc t = 2 \<and> numSets t = 2 \<and> blkSize t = 4 \<and> maxMasters t = 4 \<and> tagShift t = 3 \<and> setShift t = 2 \<and> setMask t = 1"
proof -
  let ?p = "\<lambda>n r. case r of Inl _ \<Rightarrow> False | Inr t \<Rightarrow> assoc t = n \<and> numSets t = 2 \<and> blkSize t = 4 \<and> maxMasters t = 4 \<and> tagShift t = 3 \<and> setShift t = 2 \<and> setMask t = 1"
  have "?p 1 (BaseSetAssoc_new 8 4 1 False 2 1000 4)" "?p 2 (BaseSetAssoc_new 16 4 2 False 2 1000 4)" by code_simp+
  then show "\<exists>t. BaseSetAssoc_new 8 4 1 False 2 1000 4 = Inr t \<and> assoc t = 1 \<and> numSets t = 2 \<and> blkSize t = 4 \<and> maxMasters t = 4 \<and> tagShift t = 3 \<and> setShift t = 2 \<and> setMask t = 1"
    "\<exists>t. BaseSetAssoc_new 16 4 2 False 2 1000 4 = Inr t \<and> assoc t = 2 \<and> numSets t = 2 \<and> blkSize t = 4 \<and> maxMasters t = 4 \<and> tagShift t = 3 \<and> setShift t = 2 \<and> setMask t = 1"
    by (simp_all split: sum.splits)
qed

definition small_run :: "access list" where
  "small_run = [small_acc ReadReq False 0 [0, 0], small_acc WriteReq False 9 [70, 71], small_acc ReadReq False 1 [0], small_acc WriteReq False 16 [80, 81, 82, 83],
     small_acc ReadReq False 8 [0, 0, 0, 0], small_acc ReadReq True 16 [0, 0], small_acc ReadReq False 16 [0, 0, 0]]"

lemma small_run_ok:
  assumes "blkSize t = 4" "maxMasters t = 4"
  shows "\<forall>x\<in>set small_run. acc_ok t small_mem x"
  using assms by (simp add: small_run_def small_acc_def acc_ok_def acc_pkt_def cpu_pkt_def line_pkt_def Packet_new_def Request_new_def getOffset_def
    blockAlign_def in_mem_def small_mem_def AbstractMemory_new_def AddrRange_def)

lemma lru_refines_witness:
  "\<exists>t s'. BaseSetAssoc_new 16 4 2 False 2 1000 4 = Inr t \<and>
     run_ops cache_hit small_run (Cache_new t True False 2 2 0, small_mem) = Inr ([False, False, True, False, False, False, False], s') \<and>
     cache_lines (tags (fst s')) 0 = [(2, False), (1, False)]"
proof -
  obtain t where t: "BaseSetAssoc_new 16 4 2 False 2 1000 4 = Inr t" "assoc t = 2" "blkSize t = 4" "maxMasters t = 4" "tagShift t = 3" "setShift t = 2" "setMask t = 1"
    using small_cache(2) by blast
  let ?r = "spec_ops acc_drops (acc_line t) (acc_slot t) (assoc t) small_run (\<lambda>_. [])"
  have "fst ?r = [False, False, True, False, False, False, False]" "snd ?r 0 = [(2, False), (1, False)]"
    using t(2-) by (simp_all add: small_run_def small_acc_def acc_drops_def acc_line_def acc_slot_def acc_pkt_def Packet_new_def Request_new_def
      extractTag_def extractSet_def line_step_def lru_use_def)
  then show ?thesis using t(1) lru_refines [OF t(1) _ small_mem_ok small_run_ok [OF t(3,4)], of 2 2 0] by auto
qed

lemma lru_inclusion_witness:
  "\<exists>t1 t2 hits1 hits2 s1 s2. BaseSetAssoc_new 8 4 1 False 2 1000 4 = Inr t1 \<and> BaseSetAssoc_new 16 4 2 False 2 1000 4 = Inr t2 \<and>
     run_ops cache_hit small_run (Cache_new t1 True False 2 2 0, small_mem) = Inr (hits1, s1) \<and>
     run_ops cache_hit small_run (Cache_new t2 True False 2 2 0, small_mem) = Inr (hits2, s2) \<and> list_all2 (\<longrightarrow>) hits1 hits2"
proof -
  obtain t1 where t1: "BaseSetAssoc_new 8 4 1 False 2 1000 4 = Inr t1" "assoc t1 = 1" "numSets t1 = 2" "blkSize t1 = 4" "maxMasters t1 = 4" using small_cache(1) by blast
  obtain t2 where t2: "BaseSetAssoc_new 16 4 2 False 2 1000 4 = Inr t2" "assoc t2 = 2" "numSets t2 = 2" "blkSize t2 = 4" "maxMasters t2 = 4" using small_cache(2) by blast
  have "\<forall>x\<in>set small_run. acc_ok t1 small_mem x \<and> acc_ok t2 small_mem x" using small_run_ok t1(4,5) t2(4,5) by blast
  from lru_inclusion [OF t1(1) _ t2(1) _ _ _ small_mem_ok this] t1 t2 show ?thesis by simp
qed

end
