(* ===== verification/Cache_Visit.thy ===== *)
theory Cache_Visit imports Cache_Props begin

text \<open>
  Writing a cache back, and the write it loses: \<open>memWriteback\<close> brings the memory up to date, while an
  uncacheable write of a whole line never reaches it.
\<close>

section \<open>Writing back\<close>

text \<open>A functional write to the memory.\<close>

lemma functional_write:
  assumes m: "mem_ok m M" "in_mem m (pk_addr p) (unat (pk_size p))" "0 < unat (pk_size p)"
    and p: "pk_cmd p = WriteReq" "pk_data p = Some d" "length d = unat (pk_size p)"
  shows "\<exists>p' m'. functionalAccess p m = Inr (p', m') \<and> mem_ok m' (put_at (mem_off m (pk_addr p)) d M) \<and> am_range m' = am_range m \<and> locked m' = locked m"
proof -
  have u: "word_of_nat (unat (pk_size p)) = (ucast (pk_size p) :: maddr)" by simp
  note B = mem_bounds [OF m(2,3,1), unfolded u]
  have "uint (pk_size p) = int (unat (pk_size p))" by simp
  then have w: "writeData M (uint (pk_addr p - r_start (am_range m))) p = Inr (put_at (mem_off m (pk_addr p)) d M)"
    using memcpy_put [OF p(3) B(3)] p(2) B(2) by (simp add: writeData_def getPtr_def)
  have l: "length (put_at (mem_off m (pk_addr p)) d M) = length M" using B(3) p(3) by (simp add: put_at_length)
  show ?thesis using m(1) p(1) B(1) w l
    by (simp add: functionalAccess_def Let_def mem_ok_def makeResponse_def packet_tests)
qed

text \<open>One block.\<close>

lemma visit_ok:
  assumes c: "coh (tags c) m M" and i: "i < length (blks (tags c))"
  shows "\<exists>c' m' b'. writebackVisitor functionalAccess i (c, m) = Inr (c', m') \<and> coh (tags c') m' M \<and> am_range m' = am_range m \<and> same_shape (tags c) (tags c') \<and>
     blks (tags c') = (blks (tags c))[i := b'] \<and> \<not> isDirty b'"
proof (cases "isDirty (blks (tags c) ! i)")
  case False
  then have "writebackVisitor functionalAccess i (c, m) = Inr (c, m)" by (simp add: writebackVisitor_def)
  then show ?thesis using c False by (intro exI [of _ c] exI [of _ m] exI [of _ "blks (tags c) ! i"]) (simp add: same_shape_def)
next
  case True
  let ?t = "tags c" and ?b = "blks (tags c) ! i"
  let ?b' = "?b\<lparr>status := status ?b AND NOT BlkDirty\<rparr>"
  let ?t' = "?t\<lparr>blks := (blks ?t)[i := ?b']\<rparr>"
  have G: "geom ?t" "tags_ok ?t" "locked m = []" using c by (simp_all add: coh_def)
  have ok: "blk_ok ?t ?b" by (rule tags_ok_blk [OF G(2) i])
  then have v: "isValid ?b" "length (bdata ?b) = unat (blkSize ?t)" using True by (auto simp: blk_ok_def isDirty_def split: if_splits)
  have g: "good_blk ?t m M ?b" using c i v(1) by (simp add: coh_def)
  obtain N where N: "mem_ok m N" using c by (auto simp: coh_def)
  have u: "N' = N" if "mem_ok m N'" for N' using that N by (simp add: mem_ok_def)
  define p where "p = (Packet_new ((Request_new (line_of ?t ?b) (blkSize ?t) funcMasterId)\<lparr>rq_task := task_id ?b\<rparr>) WriteReq)\<lparr>pk_data := Some (bdata ?b)\<rparr>"
  have p: "pk_cmd p = WriteReq" "pk_data p = Some (bdata ?b)" "pk_addr p = line_of ?t ?b" "pk_size p = blkSize ?t"
    by (simp_all add: p_def Packet_new_def Request_new_def)
  have a: "in_mem m (pk_addr p) (unat (pk_size p))" "0 < unat (pk_size p)" "length (bdata ?b) = unat (pk_size p)"
    using g G(1) v(2) p(3,4) by (auto simp: good_blk_def in_line_def geom_def)
  obtain p' m' where m': "functionalAccess p m = Inr (p', m')" "mem_ok m' (put_at (mem_off m (line_of ?t ?b)) (bdata ?b) N)" "am_range m' = am_range m" "locked m' = locked m"
    using functional_write [OF N a(1,2) p(1,2) a(3)] p(3) by auto
  have run: "writebackVisitor functionalAccess i (c, m) = Inr (put_blk (Way i) ?b' c, m')"
    using True v(1) m'(1) by (simp add: writebackVisitor_def Let_def p_def line_of_def)
  have sh: "same_shape ?t ?t'" by (simp add: same_shape_def)
  have bok: "blk_ok ?t ?b'" using ok v(1) by (simp add: blk_ok_def)
  have T: "tags_ok ?t'" by (rule tags_ok_upd(1) [OF G(2) i _ _ _ bok sh]) (simp_all add: key_def)
  have l: "line_of ?t ?b' = line_of ?t ?b" by (simp add: line_of_def)
  have "coh ?t' m' M"
  proof (rule coh_change [OF c i T sh _ _ _ agree_refl [of ?t m "line_of ?t ?b"] m'(3)])
    show "isValid ?b' \<longrightarrow> good_blk ?t m M ?b'" using g l by (simp add: good_blk_def)
    show "line_of ?t (blks ?t ! j) \<noteq> line_of ?t ?b" if "j < length (blks ?t)" "j \<noteq> i" "isValid (blks ?t ! j)" for j
      using coh_unique [OF c that(1,3) i v(1)] that(2) by auto
    show "locked m' = []" using m'(4) G(3) by simp
    show "\<exists>N'. mem_ok m' N' \<and> length N' = length M \<and> (\<forall>K. in_line ?t m K \<and> clean_line ?t' K \<longrightarrow> line_bytes ?t m K N' = line_bytes ?t m K M)"
      if "mem_ok m N0" "length N0 = length M" "\<forall>K. in_line ?t m K \<and> clean_line ?t K \<longrightarrow> line_bytes ?t m K N0 = line_bytes ?t m K M" for N0
    proof -
      have "wb_bytes ?t m ?b N0 = put_at (mem_off m (line_of ?t ?b)) (bdata ?b) N" using True v(1) u [OF that(1)] by (simp add: wb_bytes_def)
      then show ?thesis using wb_mem [OF c i that sh, of ?b'] m'(2) by (intro exI [of _ "wb_bytes ?t m ?b N0"]) simp
    qed
  qed simp
  then show ?thesis using run m'(3) sh
    by (intro exI [of _ "put_blk (Way i) ?b' c"] exI [of _ m'] exI [of _ ?b']) simp
qed

text \<open>All of them, one after the other.\<close>

lemma visit_all:
  assumes "coh (tags c) m M" "n \<le> length (blks (tags c))"
  shows "\<exists>c' m'. forR (writebackVisitor functionalAccess) [0..<n] (c, m) = Inr (c', m') \<and> coh (tags c') m' M \<and> am_range m' = am_range m \<and>
     same_shape (tags c) (tags c') \<and> length (blks (tags c')) = length (blks (tags c)) \<and> (\<forall>i < n. \<not> isDirty (blks (tags c') ! i))"
  using assms(2)
proof (induction n)
  case 0
  then show ?case using assms(1) by (simp add: same_shape_def)
next
  case (Suc n)
  then obtain c1 m1 where 1: "forR (writebackVisitor functionalAccess) [0..<n] (c, m) = Inr (c1, m1)" "coh (tags c1) m1 M" "am_range m1 = am_range m"
      "same_shape (tags c) (tags c1)" "length (blks (tags c1)) = length (blks (tags c))" "\<forall>i < n. \<not> isDirty (blks (tags c1) ! i)" by auto
  have n: "n < length (blks (tags c1))" using Suc.prems 1(5) by simp
  obtain c2 m2 b where 2: "writebackVisitor functionalAccess n (c1, m1) = Inr (c2, m2)" "coh (tags c2) m2 M" "am_range m2 = am_range m1" "same_shape (tags c1) (tags c2)"
      "blks (tags c2) = (blks (tags c1))[n := b]" "\<not> isDirty b" using visit_ok [OF 1(2) n] by blast
  have "forR (writebackVisitor functionalAccess) [0..<Suc n] (c, m) = Inr (c2, m2)" using 1(1) 2(1) by (simp add: forR_append)
  moreover have "\<forall>i < Suc n. \<not> isDirty (blks (tags c2) ! i)" using 1(6) 2(5,6) n by (auto simp: nth_list_update less_Suc_eq)
  ultimately show ?case using 1 2 same_shape_trans [OF 1(4) 2(4)] by simp
qed

lemma writeback_all:
  assumes c: "coh (tags c) m M"
  shows "\<exists>c' m' N. memWriteback functionalAccess c m = Inr (c', m') \<and> coh (tags c') m' M \<and> \<not> cache_isDirty c' \<and> am_range m' = am_range m \<and> same_shape (tags c) (tags c') \<and>
     pmem m' = Some N \<and> (\<forall>L. in_line (tags c) m L \<longrightarrow> line_bytes (tags c) m L N = line_bytes (tags c) m L M)"
proof -
  have n: "numSets (tags c) * assoc (tags c) = length (blks (tags c))" using c by (simp add: coh_def tags_ok_def)
  obtain c' m' where r: "memWriteback functionalAccess c m = Inr (c', m')" "coh (tags c') m' M" "am_range m' = am_range m" "same_shape (tags c) (tags c')"
      "length (blks (tags c')) = length (blks (tags c))" "\<forall>i < length (blks (tags c)). \<not> isDirty (blks (tags c') ! i)"
    using visit_all [OF c order_refl] unfolding memWriteback_def n by blast
  note S = coh_shape [OF r(4,3)]
  have "\<not> cache_isDirty c'" using r(5,6) by (auto simp: cache_isDirty_def list_ex_iff in_set_conv_nth)
  moreover have cl: "clean_line (tags c') L" for L using r(5,6) by (simp add: clean_line_def)
  obtain N where "mem_ok m' N" "\<forall>L. in_line (tags c') m' L \<and> clean_line (tags c') L \<longrightarrow> line_bytes (tags c') m' L N = line_bytes (tags c') m' L M"
    using r(2) by (auto simp: coh_def)
  ultimately show ?thesis using r(1-4) cl unfolding S by (intro exI [of _ c'] exI [of _ m'] exI [of _ N]) (simp add: mem_ok_def)
qed

section \<open>Transparency\<close>



section \<open>The write that is lost\<close>

text \<open>C17: An uncacheable write of a whole line is lost: the cache promotes it to a write-invalidate,
  the memory ignores write-invalidates, and no block takes the data.  The packet is answered without
  an error, the line is in no block afterwards, and the memory holds the bytes from before the write.\<close>

theorem uncacheable_line_write_lost:
  assumes c: "coh (tags c) m M" "isTopLevel c" "\<not> bypassCaches c" "doFastWrites c"
    and p: "line_pkt (tags c) m p" "rq_uncacheable (pk_req p)" "pk_cmd p = WriteReq" "pk_size p = blkSize (tags c)" "getOffset (blkSize (tags c)) p = 0"
  shows "\<exists>p' lat c' m' N. cache_recvAtomic (\<lambda>_ _. None) now edge simple_recvAtomic p c m = Inr (p', lat, c', m') \<and> isResponse p' \<and> \<not> isError p' \<and>
     coh (tags c') m' M \<and> findBlock (tags c') (pk_addr p) False = None \<and> pmem m' = Some N \<and> array_bytes m p N = array_bytes m p M"
proof -
  let ?t = "tags c" and ?q = "p\<lparr>pk_cmd := WriteInvalidateReq\<rparr>"
  have f: "\<not> pk_secure p" "\<not> pk_inhibit p" "\<not> rq_clear_ll (pk_req p)" "0 < unat (pk_size p)" using p(1) by (simp_all add: line_pkt_def)
  have pr: "promoteWholeLineWrites p c = Inr ?q" using c(2,4) p(3-5) by (simp add: promoteWholeLineWrites_def)
  have sq: "\<not> pk_secure ?q" using f(1) by simp
  obtain ws t' m1 where F: "flush_blk now ?q c = Inr (ws, c\<lparr>tags := t'\<rparr>)" "send_writebacks simple_recvAtomic ws m = Inr m1" "am_range m1 = am_range m"
     "same_shape ?t t'" "coh t' m1 M" "\<forall>j < length (blks t'). isValid (blks t' ! j) \<longrightarrow> line_of t' (blks t' ! j) \<noteq> blockAlign t' (pk_addr p)"
    using flush_ok [OF c(1) sq, of now] by auto
  have G: "geom t'" "tags_ok t'" using F(5) by (simp_all add: coh_def)
  have p1: "line_pkt t' m1 p" using p(1) line_pkt_shape [OF F(4,3)] by simp
  note L = line_pkt_line [OF p1 G]
  have cl: "clean_line t' (blockAlign t' (pk_addr p))" using F(6) by (auto simp: clean_line_def)
  obtain N where N: "mem_ok m1 N" "length N = length M" "line_bytes t' m1 (blockAlign t' (pk_addr p)) N = line_bytes t' m1 (blockAlign t' (pk_addr p)) M"
    using F(5) L(1) cl by (auto simp: coh_def)
  have "array_bytes m1 p N = array_bytes m1 p M"
    using array_line(1) [OF p1 G N(1) refl] array_line(1) [OF p1 G N(1) N(2) [symmetric]] N(3) by simp
  then have same: "array_bytes m p N = array_bytes m p M" using array_range(2) [OF F(3)] by simp
  have w: "word_of_nat (unat (pk_size p)) = (ucast (pk_size p) :: maddr)" by simp
  note B = mem_bounds(1) [OF L(3) f(4) N(1), unfolded w]
  let ?p' = "?q\<lparr>pk_cmd := WriteInvalidateResp, pk_express := False\<rparr>"
  have ma: "simple_recvAtomic ?q m1 = Inr (?p', am_latency m1, m1)"
    using B f(2) by (simp add: simple_recvAtomic_def mem_access_def Let_def makeResponse_def packet_tests responseCommand_def)
  let ?c1 = "c\<lparr>tags := t'\<rparr>"
  obtain cy where cy: "cache_cycles ?c1 (am_latency m1) = Inr cy" using G(2) by (auto simp: cache_cycles_def divCeil_def tags_ok_def)
  have acc: "cache_access (\<lambda>_ _. None) now ?q c = Inr (False, None, lookupLatency ?c1, ws, ?q, ?c1)"
    using p(2) f(3) F(1) by (simp add: cache_access_def Let_def packet_tests)
  have miss: "atomic_miss (\<lambda>_ _. None) now edge simple_recvAtomic ?q None (lookupLatency ?c1) ?c1 m1 = Inr (?p', lookupLatency ?c1 + cy, [], ?c1, m1)"
    using p(2) ma cy by (simp add: atomic_miss_def getBusPacket_def)
  have run: "cache_recvAtomic (\<lambda>_ _. None) now edge simple_recvAtomic p c m = Inr (?p', (lookupLatency ?c1 + cy) * tag_period t', ?c1, m1)"
    unfolding cache_recvAtomic_def using c(3) pr f(2) acc F(2) miss by (simp add: atomic_access_def packet_tests)
  have "findBlock t' (pk_addr p) False = None"
  proof (rule ccontr)
    assume "findBlock t' (pk_addr p) False \<noteq> None"
    then obtain i where i: "i \<in> set (sets t' ! extractSet t' (pk_addr p))" "isValid (blks t' ! i)" "key (blks t' ! i) = (extractTag t' (pk_addr p), False)"
      using find_way_Some by (fastforce simp: findBlock_def)
    then have il: "i < length (blks t')" "bset (blks t' ! i) = extractSet t' (pk_addr p)" using tags_ok_mem [OF G(2) extractSet_less [OF G(2)]] by auto
    have "line_of t' (blks t' ! i) = blockAlign t' (pk_addr p)" using i(3) il(2) by (intro line_of_key [OF G]) (simp_all add: key_def)
    then show False using F(6) il(1) i(2) by simp
  qed
  then show ?thesis using run F(5) N(1) same
    by (intro exI [of _ ?p'] exI [of _ "(lookupLatency ?c1 + cy) * tag_period t'"] exI [of _ ?c1] exI [of _ m1] exI [of _ N]) (simp add: packet_tests mem_ok_def)
qed

lemma uncacheable_line_write_lost_witness:
  "\<exists>t p' lat c' m' N. BaseSetAssoc_new 8 4 1 False 2 1000 4 = Inr t \<and>
     cache_recvAtomic (\<lambda>_ _. None) 0 0 simple_recvAtomic (acc_pkt (small_acc WriteReq True 8 [70, 71, 72, 73])) (Cache_new t True False 2 2 0) small_mem = Inr (p', lat, c', m') \<and>
     isResponse p' \<and> \<not> isError p' \<and> pmem m' = Some N \<and> bytes_at 8 4 N = [8, 9, 10, 11]"
proof -
  obtain t where t: "BaseSetAssoc_new 8 4 1 False 2 1000 4 = Inr t" "blkSize t = 4" "maxMasters t = 4" using small_cache(1) by blast
  let ?c = "Cache_new t True False 2 2 0" and ?p = "acc_pkt (small_acc WriteReq True 8 [70, 71, 72, 73])"
  have p: "line_pkt t small_mem ?p" "rq_uncacheable (pk_req ?p)" "pk_cmd ?p = WriteReq" "pk_size ?p = blkSize t" "getOffset (blkSize t) ?p = 0" "array_bytes small_mem ?p N = bytes_at 8 4 N" for N
    using t(2,3) by (simp_all add: small_acc_def acc_pkt_def line_pkt_def Packet_new_def Request_new_def getOffset_def blockAlign_def in_mem_def small_mem_def
      AbstractMemory_new_def AddrRange_def array_bytes_def mem_off_def)
  have c: "tags ?c = t" "isTopLevel ?c" "\<not> bypassCaches ?c" "doFastWrites ?c" by (simp_all add: Cache_new_def)
  note new_coh(1) [OF t(1) _ small_mem_ok]
  from uncacheable_line_write_lost [of ?c small_mem, unfolded c(1), OF this c(2-4) p(1-5)] show ?thesis
    unfolding p(6) using t(1) by (fastforce simp: bytes_at_def)
qed

end
