(* ===== verification/Queens.thy ===== *)
theory Queens imports Prelude "HOL-Library.Char_ord" begin

text \<open>
  The benchmark of the first homework (hw1/queens.c): it finds the placements of \<open>n\<close> queens on an
  \<open>n\<close> by \<open>n\<close> board by backtracking, with arrays that tell which queen owns a file or a diagonal.
  The global variables that \<open>main\<close> sets once are a record, those the search changes another; the
  text written to standard output is part of the state.
\<close>

section \<open>Data\<close>

definition MAXQUEENS :: nat where "MAXQUEENS = 100"
definition MAXDIAGS :: nat where "MAXDIAGS = MAXQUEENS + MAXQUEENS - 1"
definition EMPTY :: nat where "EMPTY = MAXQUEENS + 1"

record options =
  queens :: nat
  printing :: bool
  findall :: bool

record board =
  queen :: "nat list"
  files_own :: "nat list"
  fordiag :: "nat list"
  bakdiag :: "nat list"
  solutions :: "64 word"
  stdout :: string

text \<open>\<open>exit\<close> ends the program from within the recursion.\<close>

datatype 's outcome = Fault fault | Exit int 's | Go 's

fun andthen :: "'s outcome \<Rightarrow> ('s \<Rightarrow> 's outcome) \<Rightarrow> 's outcome" where
  "andthen (Fault e) f = Fault e"
| "andthen (Exit c s) f = Exit c s"
| "andthen (Go s) f = f s"

section \<open>Output\<close>

definition newline :: string where "newline = [CHR 0x0A]"

text \<open>The conversions \<open>%d\<close>, \<open>%ld\<close> and \<open>%lu\<close> of numbers that are not negative.\<close>

fun dec :: "nat \<Rightarrow> string" where
  "dec n = (if n < 10 then [char_of (48 + n)] else dec (n div 10) @ [char_of (48 + n mod 10)])"

declare dec.simps [simp del]

definition board_row :: "nat \<Rightarrow> nat \<Rightarrow> string" where
  "board_row n q = concat (List.map (\<lambda>j. '' '' @ (if j = q then ''Q'' else ''-'')) [0..<n]) @ newline"

definition pboard :: "options \<Rightarrow> board \<Rightarrow> board" where
  "pboard C s =
     (let s1 = (if findall C then s\<lparr>stdout := stdout s @ newline @ ''Solution #'' @ dec (unat (solutions s)) @ '':'' @ newline\<rparr> else s) in
      s1\<lparr>stdout := stdout s1 @ concat (List.map (\<lambda>i. board_row (queens C) (queen s1 ! i)) [0..<queens C])\<rparr>)"

section \<open>The search\<close>

text \<open>Owners of a file and its two diagonals are written together.\<close>

definition own :: "options \<Rightarrow> nat \<Rightarrow> nat \<Rightarrow> nat \<Rightarrow> board \<Rightarrow> board" where
  "own C level f x s =
     s\<lparr>files_own := (files_own s)[f := x], fordiag := (fordiag s)[level + f := x], bakdiag := (bakdiag s)[level + queens C - 1 - f := x]\<rparr>"

function find_rec and find_files where
  "find_rec C level s =
     (if level = queens C then
        let s1 = s\<lparr>solutions := solutions s + 1\<rparr>; s2 = (if printing C then pboard C s1 else s1) in
        if \<not> findall C then Exit 0 s2 else Go s2
      else find_files C level 0 s)"
| "find_files C level f s =
     (if \<not> f < queens C then Go s
      else if \<not> (level < MAXQUEENS \<and> f < MAXQUEENS \<and> level + f < MAXDIAGS \<and> level + queens C - 1 - f < MAXDIAGS) then Fault OutOfBounds
      else if level \<le> files_own s ! f \<and> level \<le> fordiag s ! (level + f) \<and> level \<le> bakdiag s ! (level + queens C - 1 - f) then
        andthen (find_rec C (level + 1) (own C level f level (s\<lparr>queen := (queen s)[level := f]\<rparr>)))
          (\<lambda>s'. find_files C level (f + 1) (own C level f EMPTY s'))
      else find_files C level (f + 1) s)"
  by pat_completeness auto
termination
  by (relation "inv_image (less_than <*lex*> less_than)
     (\<lambda>x. case x of Inl (C, level, s) \<Rightarrow> (2 * (101 - level) + 1, 0) | Inr (C, level, f, s) \<Rightarrow> (2 * (101 - level), queens C - f))")
    (auto simp: MAXQUEENS_def)

declare find_rec.simps [simp del] find_files.simps [simp del]

section \<open>The program\<close>

definition usage :: "string \<Rightarrow> string" where
  "usage prog = ''Usage:  '' @ prog @ '' [-ac] n'' @ newline @
     [CHR 0x09] @ ''n'' @ [CHR 0x09] @ ''Number of queens (rows and columns). An integer from 1 to 100.'' @ newline @
     [CHR 0x09] @ ''-a'' @ [CHR 0x09] @ ''Find and print all solutions.'' @ newline @
     [CHR 0x09] @ ''-c'' @ [CHR 0x09] @ ''Count all solutions, but do not print them.'' @ newline"

text \<open>\<open>sscanf\<close> with \<open>%d\<close>: white space, a sign, and at least one digit; what follows is not read.\<close>

definition space_char :: "char \<Rightarrow> bool" where
  "space_char c = (let n = of_char c :: nat in n = 32 \<or> 9 \<le> n \<and> n \<le> 13)"

definition digit_char :: "char \<Rightarrow> bool" where
  "digit_char c = (let n = of_char c :: nat in 48 \<le> n \<and> n \<le> 57)"

definition digits_value :: "string \<Rightarrow> int" where
  "digits_value ds = foldl (\<lambda>acc c. 10 * acc + (of_char c - 48)) 0 ds"

definition scan_int :: "string \<Rightarrow> int option" where
  "scan_int p =
     (let q = dropWhile space_char p;
          neg = (q \<noteq> [] \<and> hd q = CHR ''-'');
          r = (if q \<noteq> [] \<and> (hd q = CHR ''-'' \<or> hd q = CHR ''+'') then tl q else q);
          ds = takeWhile digit_char r in
      if ds = [] then None else Some (if neg then - digits_value ds else digits_value ds))"

fun option_chars :: "string \<Rightarrow> options \<Rightarrow> options option" where
  "option_chars [] C = Some C"
| "option_chars (c # cs) C =
     (if c = CHR ''c'' then option_chars cs (C\<lparr>printing := False, findall := True\<rparr>)
      else if c = CHR ''a'' then option_chars cs (C\<lparr>findall := True\<rparr>)
      else None)"

text \<open>The loop over the arguments: an error is the text written to standard error.\<close>

fun parse_args :: "string \<Rightarrow> string list \<Rightarrow> options \<Rightarrow> (string + options) res" where
  "parse_args prog [] C = Inr (Inr C)"
| "parse_args prog (p # ps) C =
     (if p \<noteq> [] \<and> hd p = CHR ''-'' then
        (case option_chars (tl p) C of
           None \<Rightarrow> Inr (Inl (prog @ '': Illegal option '' @ [CHR 0x27] @ p @ [CHR 0x27] @ newline @ usage prog))
         | Some C' \<Rightarrow> parse_args prog ps C')
      else
        (case scan_int p of
           None \<Rightarrow> Inr (Inl (prog @ '': Non-integer argument '' @ [CHR 0x27] @ p @ [CHR 0x27] @ newline))
         | Some k \<Rightarrow>
             bindR (guardR (- (2 ^ 31) \<le> k \<and> k < 2 ^ 31) Undefined) (\<lambda>_.
             if k \<le> 0 then Inr (Inl (prog @ '': n must be positive integer'' @ newline))
             else if 100 < k then Inr (Inl (prog @ '': Can'' @ [CHR 0x27] @ ''t have more than 100 queens'' @ newline))
             else parse_args prog ps (C\<lparr>queens := nat k\<rparr>))))"

definition start_board :: "string \<Rightarrow> board" where
  "start_board text =
     \<lparr>queen = replicate MAXQUEENS 0, files_own = replicate MAXQUEENS EMPTY, fordiag = replicate MAXDIAGS EMPTY, bakdiag = replicate MAXDIAGS EMPTY,
      solutions = 0, stdout = text\<rparr>"

text \<open>The first and the last line, and the values of the globals before the arguments are read.\<close>

definition heading :: "options \<Rightarrow> string" where
  "heading C = (let n = dec (queens C) in
     n @ '' queen'' @ (if 1 < queens C then ''s'' else '''') @ '' on a '' @ n @ ''x'' @ n @ '' board...'' @ newline)"

definition closing :: "64 word \<Rightarrow> string" where
  "closing k = (if k = 1 then ''...there is 1 solution'' else ''...there are '' @ dec (unat k) @ '' solutions'') @ newline"

definition default_options :: options where
  "default_options = \<lparr>queens = 8, printing = True, findall = False\<rparr>"

text \<open>The exit code, standard output and standard error.\<close>

definition queens_main :: "string list \<Rightarrow> (int \<times> string \<times> string) res" where
  "queens_main argv =
     (case argv of
        [] \<Rightarrow> Inl Undefined
      | prog # args \<Rightarrow>
          bindR (parse_args prog args default_options) (\<lambda>r.
          case r of
            Inl err \<Rightarrow> Inr (- 1, '''', err)
          | Inr C \<Rightarrow>
              if queens C = 0 then Inr (- 1, '''', prog @ '': Missing n argument'' @ newline @ usage prog)
              else
                (case find_rec C 0 (start_board (heading C)) of
                   Fault e \<Rightarrow> Inl e
                 | Exit c s \<Rightarrow> Inr (c, stdout s, '''')
                 | Go s \<Rightarrow>
                     let out = (if printing C \<and> solutions s \<noteq> 0 then stdout s @ newline else stdout s) in
                     Inr (0, out @ closing (solutions s), ''''))))"

end
