(* ===== verification/Queens_Spec.thy ===== *)
theory Queens_Spec imports Queens "HOL-Library.List_Lexorder" begin

text \<open>
  What the queens program prints: the placements in which no queen attacks another, each once, in
  lexicographic order.
\<close>

section \<open>Placements\<close>

text \<open>A placement lists the file of the queen on each rank.\<close>

definition no_attack :: "nat \<Rightarrow> nat list \<Rightarrow> bool" where
  "no_attack n qs \<longleftrightarrow> length qs = n \<and> (\<forall>q\<in>set qs. q < n) \<and>
     (\<forall>j<n. \<forall>i<j. qs ! i \<noteq> qs ! j \<and> \<bar>int (qs ! j) - int (qs ! i)\<bar> \<noteq> int (j - i))"

definition free_file :: "nat list \<Rightarrow> nat \<Rightarrow> bool" where
  "free_file qs f \<longleftrightarrow> (\<forall>i<length qs. qs ! i \<noteq> f \<and> i + qs ! i \<noteq> length qs + f \<and> i + f \<noteq> length qs + qs ! i)"

primrec extend :: "nat \<Rightarrow> nat \<Rightarrow> nat list \<Rightarrow> nat list list" where
  "extend n 0 qs = [qs]"
| "extend n (Suc k) qs = concat (List.map (\<lambda>f. if free_file qs f then extend n k (qs @ [f]) else []) [0..<n])"

definition all_placements :: "nat \<Rightarrow> nat list list" where
  "all_placements n = extend n n []"

lemma extend_set:
  "xs \<in> set (extend n k qs) \<longleftrightarrow> length xs = length qs + k \<and> take (length qs) xs = qs \<and>
     (\<forall>j. length qs \<le> j \<and> j < length xs \<longrightarrow> xs ! j < n \<and> free_file (take j xs) (xs ! j))"
proof (induction k arbitrary: qs)
  case (Suc k)
  let ?P = "\<lambda>xs j. xs ! j < n \<and> free_file (take j xs) (xs ! j)" and ?l = "length qs"
  have split: "(\<forall>j. ?l \<le> j \<and> j < length xs \<longrightarrow> ?P xs j) \<longleftrightarrow> ?P xs ?l \<and> (\<forall>j. Suc ?l \<le> j \<and> j < length xs \<longrightarrow> ?P xs j)" if "length xs = ?l + Suc k"
  proof -
    have "?l \<le> j \<longleftrightarrow> j = ?l \<or> Suc ?l \<le> j" for j by auto
    then show ?thesis using that by auto
  qed
  have tk: "take (Suc ?l) xs = qs @ [f] \<longleftrightarrow> take ?l xs = qs \<and> xs ! ?l = f" if "length xs = ?l + Suc k" for f
    using that by (simp add: take_Suc_conv_app_nth)
  have "xs \<in> set (extend n (Suc k) qs) \<longleftrightarrow> (\<exists>f<n. free_file qs f \<and> xs \<in> set (extend n k (qs @ [f])))" by auto
  also have "\<dots> \<longleftrightarrow> (\<exists>f<n. free_file qs f \<and> length xs = ?l + Suc k \<and> take ?l xs = qs \<and> xs ! ?l = f \<and> (\<forall>j. Suc ?l \<le> j \<and> j < length xs \<longrightarrow> ?P xs j))"
  proof -
    have "xs \<in> set (extend n k (qs @ [f])) \<longleftrightarrow> length xs = ?l + Suc k \<and> take ?l xs = qs \<and> xs ! ?l = f \<and> (\<forall>j. Suc ?l \<le> j \<and> j < length xs \<longrightarrow> ?P xs j)" for f
      unfolding Suc.IH by (cases "length xs = ?l + Suc k") (simp_all add: tk)
    then show ?thesis by simp
  qed
  also have "\<dots> \<longleftrightarrow> length xs = ?l + Suc k \<and> take ?l xs = qs \<and> ?P xs ?l \<and> (\<forall>j. Suc ?l \<le> j \<and> j < length xs \<longrightarrow> ?P xs j)" by auto
  finally show ?case using split by blast
qed auto

lemma free_file_take:
  assumes "j < length xs"
  shows "free_file (take j xs) (xs ! j) \<longleftrightarrow> (\<forall>i<j. xs ! i \<noteq> xs ! j \<and> \<bar>int (xs ! j) - int (xs ! i)\<bar> \<noteq> int (j - i))"
proof -
  have "(xs ! i \<noteq> xs ! j \<and> i + xs ! i \<noteq> j + xs ! j \<and> i + xs ! j \<noteq> j + xs ! i) = (xs ! i \<noteq> xs ! j \<and> \<bar>int (xs ! j) - int (xs ! i)\<bar> \<noteq> int (j - i))" if "i < j" for i
    using that by auto
  then show ?thesis using assms by (auto simp: free_file_def)
qed

lemma all_placements_set: "set (all_placements n) = {qs. no_attack n qs}"
proof (rule set_eqI)
  fix xs
  have "xs \<in> set (all_placements n) \<longleftrightarrow> length xs = n \<and> (\<forall>j<n. xs ! j < n \<and> free_file (take j xs) (xs ! j))"
    unfolding all_placements_def extend_set by auto
  also have "\<dots> \<longleftrightarrow> no_attack n xs" unfolding no_attack_def using free_file_take [of _ xs] by (auto simp: all_set_conv_all_nth)
  finally show "xs \<in> set (all_placements n) \<longleftrightarrow> xs \<in> {qs. no_attack n qs}" by simp
qed

lemma append_less: "x < y \<Longrightarrow> (qs @ x # xs :: nat list) < qs @ y # ys"
  by (induction qs) (simp_all add: list_less_def)

lemma extend_sorted: "sorted_wrt (<) (extend n k qs)"
proof (induction k arbitrary: qs)
  case (Suc k)
  let ?E = "\<lambda>f. if free_file qs f then extend n k (qs @ [f]) else []"
  have less: "xs < ys" if "f < g" "xs \<in> set (?E f)" "ys \<in> set (?E g)" for f g xs ys
  proof -
    have "take (Suc (length qs)) xs = qs @ [f]" "take (Suc (length qs)) ys = qs @ [g]" using that(2,3) by (auto simp: extend_set split: if_splits)
    then have "xs = qs @ f # drop (Suc (length qs)) xs" "ys = qs @ g # drop (Suc (length qs)) ys"
      by (metis append.assoc append_Cons append_Nil append_take_drop_id)+
    then show ?thesis using append_less [OF that(1)] by metis
  qed
  have "sorted_wrt (<) (concat (List.map ?E [0..<m]))" for m
    by (induction m) (use Suc less in \<open>auto simp: sorted_wrt_append\<close>)
  then show ?case by simp
qed simp

lemma all_placements_sorted: "sorted_wrt (<) (all_placements n)" "distinct (all_placements n)"
proof -
  show s: "sorted_wrt (<) (all_placements n)" by (simp add: all_placements_def extend_sorted)
  then show "distinct (all_placements n)" by (simp add: strict_sorted_iff)
qed


section \<open>The search\<close>

definition board_text :: "options \<Rightarrow> nat \<Rightarrow> nat list \<Rightarrow> string" where
  "board_text C k qs = (if findall C then newline @ ''Solution #'' @ dec k @ '':'' @ newline else []) @ concat (List.map (board_row (queens C)) qs)"

definition report :: "options \<Rightarrow> nat list \<Rightarrow> board \<Rightarrow> board" where
  "report C qs s =
     s\<lparr>solutions := solutions s + 1, stdout := stdout s @ (if printing C then board_text C (unat (solutions s + 1)) qs else [])\<rparr>"

lemma report_fold [simp]:
  "queen (fold (report C) E s) = queen s" "files_own (fold (report C) E s) = files_own s"
  "fordiag (fold (report C) E s) = fordiag s" "bakdiag (fold (report C) E s) = bakdiag s"
  by (induction E arbitrary: s) (simp_all add: report_def)

lemma report_fold_upd:
  "fold (report C) E (s\<lparr>queen := q\<rparr>) = (fold (report C) E s)\<lparr>queen := q\<rparr>"
  "fold (report C) E (own C l f x s) = own C l f x (fold (report C) E s)"
proof -
  have r: "report C qs (s\<lparr>queen := q\<rparr>) = (report C qs s)\<lparr>queen := q\<rparr>" "report C qs (own C l f x s) = own C l f x (report C qs s)" for qs s
    by (cases s; simp add: report_def own_def)+
  show "fold (report C) E (s\<lparr>queen := q\<rparr>) = (fold (report C) E s)\<lparr>queen := q\<rparr>" "fold (report C) E (own C l f x s) = own C l f x (fold (report C) E s)"
    by (induction E arbitrary: s) (simp_all add: r)
qed

text \<open>The arrays of a state that has placed \<open>qs\<close>.\<close>

definition owns :: "nat \<Rightarrow> nat list \<Rightarrow> (nat \<Rightarrow> bool) \<Rightarrow> nat \<Rightarrow> bool" where
  "owns level xs taken m \<longleftrightarrow> (\<forall>d<m. if taken d then xs ! d < level else xs ! d = EMPTY)"

definition placed :: "nat \<Rightarrow> nat list \<Rightarrow> board \<Rightarrow> bool" where
  "placed n qs s \<longleftrightarrow> length (queen s) = MAXQUEENS \<and> length (files_own s) = MAXQUEENS \<and> length (fordiag s) = MAXDIAGS \<and> length (bakdiag s) = MAXDIAGS \<and>
     take (length qs) (queen s) = qs \<and> (\<forall>q\<in>set qs. q < n) \<and>
     owns (length qs) (files_own s) (\<lambda>f. f \<in> set qs) n \<and>
     owns (length qs) (fordiag s) (\<lambda>d. \<exists>i<length qs. i + qs ! i = d) MAXDIAGS \<and>
     owns (length qs) (bakdiag s) (\<lambda>d. \<exists>i<length qs. i + n - 1 - qs ! i = d) MAXDIAGS"

lemma owns_test: "owns l xs taken m \<Longrightarrow> d < m \<Longrightarrow> l < MAXQUEENS \<Longrightarrow> l \<le> xs ! d \<longleftrightarrow> \<not> taken d"
  by (auto simp: owns_def EMPTY_def split: if_splits)

lemma owns_free: "owns l xs taken m \<Longrightarrow> d < m \<Longrightarrow> \<not> taken d \<Longrightarrow> xs ! d = EMPTY"
  by (auto simp: owns_def split: if_splits)

lemma owns_update:
  assumes "owns l xs taken m" "m \<le> length xs" "d < m"
  shows "owns (Suc l) (xs[d := l]) (\<lambda>e. taken e \<or> e = d) m"
  using assms by (auto simp: owns_def nth_list_update less_Suc_eq)

lemma owns_cong: "owns l xs taken m \<Longrightarrow> (\<And>d. d < m \<Longrightarrow> taken d = taken' d) \<Longrightarrow> owns l xs taken' m"
  by (simp add: owns_def)

text \<open>The test of the loop, and what placing one more queen does to the arrays.\<close>

lemma placed_test:
  assumes p: "placed n qs s" and n: "length qs < n" "n \<le> MAXQUEENS" "queens C = n" and f: "f < n"
  shows "length qs + f < MAXDIAGS" "length qs + n - 1 - f < MAXDIAGS"
    "(length qs \<le> files_own s ! f \<and> length qs \<le> fordiag s ! (length qs + f) \<and> length qs \<le> bakdiag s ! (length qs + n - 1 - f)) = free_file qs f"
proof -
  show d: "length qs + f < MAXDIAGS" "length qs + n - 1 - f < MAXDIAGS" using n f by (simp_all add: MAXDIAGS_def)
  have l: "length qs < MAXQUEENS" using n by simp
  have "(i + n - 1 - qs ! i = length qs + n - 1 - f) = (i + f = length qs + qs ! i)" if "i < length qs" for i
    using p that f nth_mem [OF that] by (fastforce simp: placed_def)
  moreover have "f \<in> set qs \<longleftrightarrow> (\<exists>i<length qs. qs ! i = f)" by (auto simp: in_set_conv_nth)
  moreover have o: "owns (length qs) (files_own s) (\<lambda>f. f \<in> set qs) n" "owns (length qs) (fordiag s) (\<lambda>d. \<exists>i<length qs. i + qs ! i = d) MAXDIAGS"
      "owns (length qs) (bakdiag s) (\<lambda>d. \<exists>i<length qs. i + n - 1 - qs ! i = d) MAXDIAGS" using p by (simp_all add: placed_def)
  have "length qs \<le> files_own s ! f \<longleftrightarrow> f \<notin> set qs" "length qs \<le> fordiag s ! (length qs + f) \<longleftrightarrow> \<not> (\<exists>i<length qs. i + qs ! i = length qs + f)"
      "length qs \<le> bakdiag s ! (length qs + n - 1 - f) \<longleftrightarrow> \<not> (\<exists>i<length qs. i + n - 1 - qs ! i = length qs + n - 1 - f)"
    by (rule owns_test [OF o(1) f l], rule owns_test [OF o(2) d(1) l], rule owns_test [OF o(3) d(2) l])
  ultimately show "(length qs \<le> files_own s ! f \<and> length qs \<le> fordiag s ! (length qs + f) \<and> length qs \<le> bakdiag s ! (length qs + n - 1 - f)) = free_file qs f"
    unfolding free_file_def by auto
qed

lemma placed_more:
  assumes p: "placed n qs s" and n: "length qs < n" "n \<le> MAXQUEENS" "queens C = n" and f: "f < n"
  shows "placed n (qs @ [f]) (own C (length qs) f (length qs) (s\<lparr>queen := (queen s)[length qs := f]\<rparr>))"
proof -
  let ?l = "length qs"
  have d: "?l + f < MAXDIAGS" "?l + n - 1 - f < MAXDIAGS" by (rule placed_test [OF p n f])+
  have len: "length (queen s) = MAXQUEENS" "length (files_own s) = MAXQUEENS" "length (fordiag s) = MAXDIAGS" "length (bakdiag s) = MAXDIAGS"
    and o: "owns ?l (files_own s) (\<lambda>f. f \<in> set qs) n" "owns ?l (fordiag s) (\<lambda>d. \<exists>i<?l. i + qs ! i = d) MAXDIAGS"
      "owns ?l (bakdiag s) (\<lambda>d. \<exists>i<?l. i + n - 1 - qs ! i = d) MAXDIAGS" using p by (simp_all add: placed_def)
  have ex: "(\<exists>i<Suc ?l. g i ((qs @ [f]) ! i)) = ((\<exists>i<?l. g i (qs ! i)) \<or> g ?l f)" for g :: "nat \<Rightarrow> nat \<Rightarrow> bool"
    unfolding Ex_less_Suc by (simp add: nth_append disj_commute cong: conj_cong)
  have o1: "owns (Suc ?l) ((files_own s)[f := ?l]) (\<lambda>e. e \<in> set (qs @ [f])) n"
    by (rule owns_cong [OF owns_update [OF o(1) _ f]]) (use len(2) n(2) in auto)
  have o2: "owns (Suc ?l) ((fordiag s)[?l + f := ?l]) (\<lambda>d. \<exists>i<Suc ?l. i + (qs @ [f]) ! i = d) MAXDIAGS"
    using owns_update [OF o(2) _ d(1)] len(3) unfolding ex [of "\<lambda>i q. i + q = _"] by (auto intro: owns_cong)
  have o3: "owns (Suc ?l) ((bakdiag s)[?l + n - 1 - f := ?l]) (\<lambda>d. \<exists>i<Suc ?l. i + n - 1 - (qs @ [f]) ! i = d) MAXDIAGS"
    using owns_update [OF o(3) _ d(2)] len(4) unfolding ex [of "\<lambda>i q. i + n - 1 - q = _"] by (auto intro: owns_cong)
  have q: "take (Suc ?l) ((queen s)[?l := f]) = qs @ [f]" "\<forall>q\<in>set (qs @ [f]). q < n"
    using p n f by (simp_all add: placed_def take_Suc_conv_app_nth)
  show ?thesis unfolding placed_def own_def using q o1 o2 o3 len n(3) by simp
qed

lemma own_restore:
  assumes p: "placed n qs s" and n: "length qs < n" "n \<le> MAXQUEENS" "queens C = n" and f: "f < n" and free: "free_file qs f"
  shows "own C (length qs) f EMPTY (own C (length qs) f x s) = s"
proof -
  have d: "length qs + f < MAXDIAGS" "length qs + n - 1 - f < MAXDIAGS" by (rule placed_test [OF p n f])+
  have "f \<notin> set qs" "\<not> (\<exists>i<length qs. i + qs ! i = length qs + f)" using free by (auto simp: free_file_def in_set_conv_nth)
  moreover have "\<not> (\<exists>i<length qs. i + n - 1 - qs ! i = length qs + n - 1 - f)"
    using free f p nth_mem [of _ qs] by (fastforce simp: free_file_def placed_def)
  moreover have "owns (length qs) (files_own s) (\<lambda>f. f \<in> set qs) n" "owns (length qs) (fordiag s) (\<lambda>d. \<exists>i<length qs. i + qs ! i = d) MAXDIAGS"
      "owns (length qs) (bakdiag s) (\<lambda>d. \<exists>i<length qs. i + n - 1 - qs ! i = d) MAXDIAGS" using p by (simp_all add: placed_def)
  ultimately have e: "files_own s ! f = EMPTY" "fordiag s ! (length qs + f) = EMPTY" "bakdiag s ! (length qs + n - 1 - f) = EMPTY"
    using owns_free f d by blast+
  have "xs[i := EMPTY] = xs" if "xs ! i = EMPTY" for xs :: "nat list" and i using that by (metis list_update_id)
  from this [OF e(1)] this [OF e(2)] this [OF e(3)] show ?thesis using n(3) by (simp add: own_def)
qed


lemma placed_cong:
  "placed n qs (s\<lparr>queen := q\<rparr>) \<Longrightarrow> placed n qs ((fold (report C) E s)\<lparr>queen := q\<rparr>)"
  by (simp add: placed_def)

lemma placed_queen: "placed n qs s \<Longrightarrow> length q = MAXQUEENS \<Longrightarrow> take (length qs) q = qs \<Longrightarrow> placed n qs (s\<lparr>queen := q\<rparr>)"
  by (simp add: placed_def)

text \<open>What a search that must report \<open>E\<close> may return.\<close>

definition reports :: "options \<Rightarrow> nat list \<Rightarrow> nat list list \<Rightarrow> board \<Rightarrow> board outcome \<Rightarrow> bool" where
  "reports C qs E s r \<longleftrightarrow>
     (if findall C \<or> E = [] then
        \<exists>q. r = Go ((fold (report C) E s)\<lparr>queen := q\<rparr>) \<and> length q = MAXQUEENS \<and> take (length qs) q = qs
      else \<exists>s'. r = Exit 0 s' \<and> stdout s' = stdout (report C (hd E) s))"

lemma pboard_report:
  assumes "placed n qs s" "length qs = n" "queens C = n"
  shows "(if printing C then pboard C (s\<lparr>solutions := solutions s + 1\<rparr>) else s\<lparr>solutions := solutions s + 1\<rparr>) = report C qs s"
proof -
  have t: "take n (queen s) = qs" using assms(1,2) by (auto simp: placed_def)
  then have "length (take n (queen s)) = n" using assms(2) by (simp only:)
  then have "n \<le> length (queen s)" by simp
  then have "List.map (\<lambda>i. board_row n (queen s ! i)) [0..<n] = List.map (board_row n) (take n (queen s))"
    by (simp add: list_eq_iff_nth_eq)
  also note t
  finally have "List.map (\<lambda>i. board_row n (queen s ! i)) [0..<n] = List.map (board_row n) qs" .
  then show ?thesis using assms(3) by (simp add: pboard_def report_def board_text_def)
qed

lemma andthen_reports:
  assumes p: "placed n qs s" and r1: "reports C (qs @ [f]) E1 s1 r1" and s1: "s1 = own C (length qs) f (length qs) (s\<lparr>queen := (queen s)[length qs := f]\<rparr>)"
    and n: "length qs < n" "n \<le> MAXQUEENS" "queens C = n" "f < n" "free_file qs f"
    and r2: "\<And>s2. placed n qs s2 \<Longrightarrow> reports C qs E2 s2 (g s2)"
  shows "reports C qs (E1 @ E2) s (andthen r1 (\<lambda>s'. g (own C (length qs) f EMPTY s')))"
proof -
  let ?own = "own C (length qs) f"
  show ?thesis
  proof (cases "findall C \<or> E1 = []")
    case False
    then show ?thesis using r1 s1 by (auto simp: reports_def report_def own_def)
  next
    case True
    obtain q where q: "r1 = Go ((fold (report C) E1 s1)\<lparr>queen := q\<rparr>)" "length q = MAXQUEENS" "take (Suc (length qs)) q = qs @ [f]"
      using r1 True by (auto simp: reports_def)
    let ?s2 = "(fold (report C) E1 s)\<lparr>queen := q\<rparr>"
    have tq: "take (length qs) q = qs" using arg_cong [OF q(3), of "take (length qs)"] by (simp add: min_def)
    have q_own: "own C l f x (s\<lparr>queen := q\<rparr>) = (own C l f x s)\<lparr>queen := q\<rparr>" for l x s q by (simp add: own_def)
    have "?own EMPTY ((fold (report C) E1 s1)\<lparr>queen := q\<rparr>) = (fold (report C) E1 (?own EMPTY (?own (length qs) s)))\<lparr>queen := q\<rparr>"
      unfolding s1 q_own [symmetric] report_fold_upd by (simp add: own_def)
    then have e: "?own EMPTY ((fold (report C) E1 s1)\<lparr>queen := q\<rparr>) = ?s2" unfolding own_restore [OF p n] .
    have p2: "placed n qs ?s2" by (rule placed_cong, rule placed_queen [OF p q(2) tq])
    have "reports C qs E2 ?s2 (g ?s2)" by (rule r2 [OF p2])
    then show ?thesis using q(1) e True by (auto simp: reports_def report_fold_upd report_def)
  qed
qed

lemma reports_nil: "placed n qs s \<Longrightarrow> reports C qs [] s (Go s)"
  by (simp add: reports_def placed_def exI [of _ "queen s"])

lemma find_ok:
  assumes "placed n qs s" "length qs + k = n" "n \<le> MAXQUEENS" "queens C = n"
  shows "reports C qs (extend n k qs) s (find_rec C (length qs) s)"
  using assms
proof (induction k arbitrary: qs s)
  case 0
  have "length qs = n" using 0(2) by simp
  note r = pboard_report [OF 0(1) this 0(4)]
  have "report C qs s = (report C qs s)\<lparr>queen := queen s\<rparr>" by (simp add: report_def)
  then show ?case using 0 r by (auto simp: find_rec.simps reports_def Let_def placed_def)
next
  case (Suc k)
  let ?l = "length qs" and ?E = "\<lambda>f. if free_file qs f then extend n k (qs @ [f]) else []"
  note P = Suc.prems and IH = Suc.IH
  have l: "?l < n" using P(2) by simp
  have "reports C qs (concat (List.map ?E [f..<n])) s (find_files C ?l f s)" if "placed n qs s" "f \<le> n" for f s
    using that
  proof (induction "n - f" arbitrary: f s)
    case 0
    then have e: "find_files C ?l f s = Go s" "[f..<n] = []" using P(4) by (simp_all add: find_files.simps)
    show ?case unfolding e using reports_nil [OF 0(2)] by simp
  next
    case (Suc d)
    have f: "f < n" using Suc(2) by simp
    note T = placed_test [OF Suc(3) l P(3,4) f]
    have b: "?l < MAXQUEENS" "f < MAXQUEENS" using l f P(3) by simp_all
    have c: "concat (List.map ?E [f..<n]) = ?E f @ concat (List.map ?E [Suc f..<n])" using f by (simp add: upt_conv_Cons)
    have rest: "reports C qs (concat (List.map ?E [Suc f..<n])) s2 (find_files C ?l (f + 1) s2)" if "placed n qs s2" for s2
      using Suc(1) [of "Suc f"] Suc(2) that f by simp
    show ?case
    proof (cases "free_file qs f")
      case True
      let ?s1 = "own C ?l f ?l (s\<lparr>queen := (queen s)[?l := f]\<rparr>)"
      have "placed n (qs @ [f]) ?s1" by (rule placed_more [OF Suc(3) l P(3,4) f])
      from IH [OF this] have r: "reports C (qs @ [f]) (extend n k (qs @ [f])) ?s1 (find_rec C (?l + 1) ?s1)"
        using P(2) P(3,4) by simp
      have "find_files C ?l f s = andthen (find_rec C (?l + 1) ?s1) (\<lambda>s'. find_files C ?l (f + 1) (own C ?l f EMPTY s'))"
        using T True f b P(4) by (subst find_files.simps) simp
      then show ?thesis
        using andthen_reports [OF Suc(3) r refl l P(3,4) f True rest] True unfolding c by simp
    next
      case False
      then have "find_files C ?l f s = find_files C ?l (f + 1) s" using T f b P(4) by (subst find_files.simps) auto
      then show ?thesis using rest [OF Suc(3)] False unfolding c by simp
    qed
  qed
  from this [OF P(1), of 0] show ?case using l P(4) by (simp add: find_rec.simps)
qed

section \<open>The program\<close>

fun boards :: "options \<Rightarrow> 64 word \<Rightarrow> nat list list \<Rightarrow> string" where
  "boards C k [] = []"
| "boards C k (qs # E) = board_text C (unat (k + 1)) qs @ boards C (k + 1) E"

lemma fold_report:
  "stdout (fold (report C) E s) = stdout s @ (if printing C then boards C (solutions s) E else [])"
  "solutions (fold (report C) E s) = solutions s + of_nat (length E)"
  by (induction E arbitrary: s) (simp_all add: report_def add.assoc [symmetric])

lemma option_chars_queens: "option_chars cs C = Some C' \<Longrightarrow> queens C' = queens C"
  by (induction cs arbitrary: C) (auto split: if_splits)

lemma parse_args_range: "parse_args prog args C0 = Inr (Inr C) \<Longrightarrow> 0 < queens C0 \<and> queens C0 \<le> 100 \<Longrightarrow> 0 < queens C \<and> queens C \<le> 100"
  by (induction prog args C0 rule: parse_args.induct)
    (auto simp: bindR_eq_Inr dest: option_chars_queens split: if_splits option.splits)

lemma start_placed: "n \<le> MAXQUEENS \<Longrightarrow> placed n [] (start_board text)"
  by (auto simp: placed_def start_board_def owns_def)

text \<open>C20: For all arguments the program accepts, with \<open>n\<close> queens, its output is the heading
  followed, if all solutions are asked for, by every placement of \<open>n\<close> queens on the board in which no
  queen attacks another, each once, in lexicographic order, numbered, if boards are printed, and by
  their number (modulo \<open>2 ^ 64\<close>); otherwise by the first of these placements, or by the count of 0
  when there is none.\<close>

theorem queens_prints_placements:
  assumes "parse_args prog args default_options = Inr (Inr C)"
  shows "queens_main (prog # args) = Inr (0, heading C @
      (let E = all_placements (queens C); k = of_nat (length E) :: 64 word in
       if findall C then (if printing C then boards C 0 E @ (if k \<noteq> 0 then newline else '''') else '''') @ closing k
       else if E = [] then closing 0
       else (if printing C then board_text C 1 (hd E) else '''')), '''') \<and>
    (\<forall>qs. qs \<in> set (all_placements (queens C)) \<longleftrightarrow> no_attack (queens C) qs) \<and> sorted_wrt (<) (all_placements (queens C))"
proof (intro conjI)
  have n: "0 < queens C" "queens C \<le> MAXQUEENS" using parse_args_range [OF assms] by (simp_all add: default_options_def MAXQUEENS_def)
  let ?s = "start_board (heading C)" and ?E = "all_placements (queens C)"
  have s: "solutions ?s = 0" "stdout ?s = heading C" by (simp_all add: start_board_def)
  have r: "reports C [] ?E ?s (find_rec C 0 ?s)"
    using find_ok [OF start_placed [OF n(2)] _ n(2), of "queens C" C] by (simp add: all_placements_def)
  have m: "queens_main (prog # args) = (case find_rec C 0 ?s of Fault e \<Rightarrow> Inl e | Exit c s \<Rightarrow> Inr (c, stdout s, '''')
      | Go s \<Rightarrow> Inr (0, (if printing C \<and> solutions s \<noteq> 0 then stdout s @ newline else stdout s) @ closing (solutions s), ''''))"
    using assms n(1) unfolding queens_main_def by (simp add: Let_def cong: outcome.case_cong)
  show "queens_main (prog # args) = Inr (0, heading C @
      (let E = all_placements (queens C); k = of_nat (length E) :: 64 word in
       if findall C then (if printing C then boards C 0 E @ (if k \<noteq> 0 then newline else '''') else '''') @ closing k
       else if E = [] then closing 0
       else (if printing C then board_text C 1 (hd E) else '''')), '''')"
  proof (cases "findall C \<or> ?E = []")
    case True
    then obtain q where "find_rec C 0 ?s = Go ((fold (report C) ?E ?s)\<lparr>queen := q\<rparr>)" using r by (auto simp: reports_def)
    then show ?thesis using True unfolding m by (auto simp: fold_report s Let_def)
  next
    case False
    then obtain s' where "find_rec C 0 ?s = Exit 0 s'" "stdout s' = stdout (report C (hd ?E) ?s)" using r by (auto simp: reports_def)
    then show ?thesis using False unfolding m by (simp add: report_def s Let_def)
  qed
  show "\<forall>qs. qs \<in> set ?E \<longleftrightarrow> no_attack (queens C) qs" by (simp add: all_placements_set)
  show "sorted_wrt (<) ?E" by (rule all_placements_sorted(1))
qed

lemma queens_prints_placements_witness:
  "queens_main [''queens'', ''-c'', ''6''] = Inr (0, ''6 queens on a 6x6 board...'' @ newline @ ''...there are 4 solutions'' @ newline, '''')"
proof -
  let ?C = "\<lparr>queens = 6, printing = False, findall = True\<rparr>"
  have "parse_args ''queens'' [''-c'', ''6''] default_options = Inr (Inr ?C)" by code_simp
  moreover have "length (all_placements 6) = 4" "heading ?C = ''6 queens on a 6x6 board...'' @ newline" "closing 4 = ''...there are 4 solutions'' @ newline"
    by code_simp+
  ultimately show ?thesis using queens_prints_placements [of "''queens''" "[''-c'', ''6'']" ?C] by simp
qed

end
