(* ===== verification/Spec2Isabelle.thy ===== *)
theory Spec2Isabelle imports Host_Props Intmath Bpred_Props Addr_Map Energy_Props Cache_Visit Queens_Spec begin

text \<open>
  A verification development for the homework of a course on computer architecture: two
  accelerators for neural networks, the simulator they run in (gem5, C++), which the homework
  extends, and the host program that drives one of them.  Paths are under \<open>src/hw3\<close>; those
  without a directory of the homework are under \<open>Gem5_Homework/gem5/src\<close>.

  THE PROGRAM.  A virtual device (vdev/vdev.cc) sits on the simulated memory bus and gives the CPU
  one status byte, a counter and a window on the memories of an accelerator.  Setting the INIT
  flag makes the device run the accelerator on the request the counter selects; the device takes
  as long as the accelerator reports, then an event of the simulator's queue (sim/eventq.cc)
  interrupts the CPU, which for the time of the interrupt reschedules its own tick event
  (cpu/simple/atomic.cc).  The accelerators are a convolutional network with a four-wide
  floating-point unit (vdev/SimpleCNN, changed by simplecnn_modified/core.cpp so that it skips zero
  weights) and a binary network on an array of resistive memory (binnet_modified/vdev/binnet).
  The host program (binnet_modified/binnet) loads the weights of the second through a driver and
  classifies images, in one of two modes of loading weights.  An energy manager (engy) powers the
  CPU down and up by messages.  Beside this core the development models parts of the simulator
  with behaviour of their own: the branch predictors, address ranges and the address decoder,
  packets, memories and caches in atomic mode, and the integer helpers they share.  The first
  homework is the n-queens benchmark of \<open>src/hw1\<close>.

  THE MODEL.  C++ operations are functions; an operation that can fail returns \<open>'a res\<close>, with the
  fault (an assertion, an access out of bounds, a fatal error, an undefined operation) on the left
  and the value and new state on the right (\<open>Prelude\<close>).  Structs are records, machine integers
  words, floats bit patterns with an exact softfloat (\<open>Softfloat\<close>).  Loops are recursive
  functions, counted loops \<open>forR\<close>.

  Theories, by component, with what their lemmas show:
  \<^item> \<open>Memory_Hub\<close>, \<open>Views\<close>: the accelerators' memories as a heap with aliased views (memory.cpp,
    memhub.cpp); constructors and lookups of both chips.
  \<^item> \<open>Simd\<close>, \<open>Cnn_Core\<close>, \<open>Cnn_Chip\<close>: simd.h, core.cpp (original and modified), ai_chip.cpp.
    \<open>Copy_Loops\<close>, \<open>Cnn_Layers\<close>: what padding, input conversion, pooling and output compute.
    \<open>Cnn_Skip\<close>: skipping zero weights changes neither results nor faults and costs no cycles.
    \<open>Cnn_Total\<close>, \<open>Cnn_Safe\<close>: no request of an initialised chip faults, cycles are bounded.
  \<^item> \<open>Rram\<close>: array, core and chip of the second accelerator. \<open>Rram_Spec\<close>, \<open>Rram_Net\<close>: what its operations
    and requests compute. \<open>Rram_Safe\<close>: no sequence of requests faults. \<open>Rram_Once\<close>: loading one
    merged matrix once is equivalent to loading three matrices per image.
  \<^item> \<open>EventQ\<close>, \<open>Clocked\<close>: the event queue as bins of stacks refines a list of scheduled events in the
    order of service; time never decreases; clock edges.
  \<^item> \<open>Vdev\<close>: the device, the CPU's hooks and one step of the simulation loop. \<open>Vdev_Inv\<close>: the
    contract \<open>accelerator\<close> of device and chip and the invariant of CPU, queue and devices, kept by
    every run (\<open>Vdev_Live\<close>, which also bounds the wait for an interrupt). \<open>Vdev_Chips\<close>: both chips
    keep the contract. \<open>Vdev_Props\<close>: the resulting guarantees and two faults.
  \<^item> \<open>Periph\<close>, \<open>Host\<close>: driver and host program. \<open>Host_Sys\<close>: the accesses of the host as instructions of
    the simulated CPU. \<open>Host_Run\<close>, \<open>Host_Boot\<close>, \<open>Host_Weights\<close>, \<open>Host_Twin\<close>, \<open>Host_Props\<close>:
    requests return, and the whole program prints the same in both modes.
  \<^item> \<open>Energy_SM\<close>, \<open>Energy\<close>: the state machines, ports, manager and handlers. \<open>Energy_Safe\<close>,
    \<open>Energy_Props\<close>: messages arrive in order and gate the CPU's tick; the order of start-up.
  \<^item> \<open>Sat_Counter\<close>, \<open>Bpred_Local\<close>, \<open>Bpred_Bimode\<close>, \<open>Bpred_Tournament\<close>, \<open>Btb_Ras\<close>, \<open>Bpred_Unit\<close>: the
    predictors of cpu/pred; \<open>direction_predictor\<close> is the interface the unit relies on, and each
    predictor interprets it. \<open>Bpred_Inv\<close>, \<open>Bpred_Props\<close>: the unit never faults; what commit and
    squash leave.
  \<^item> \<open>Addr_Range\<close>, \<open>Addr_Map\<close>: base/addr_range.hh and addr_range_map.hh: merged ranges partition,
    the decoder finds the range of every address.
  \<^item> \<open>Packet\<close>, \<open>Abstract_Mem\<close>: mem/packet, request.hh, abstract_mem, simple_mem: commands and their
    attributes, copies between packets and memory, functional accesses, load locks; a memory
    reads and writes one array of bytes.
  \<^item> \<open>Cache_Tags\<close>, \<open>Cache\<close>: blocks, sets and replacement of mem/cache/tags, and the cache in atomic mode
    (mem/cache/cache_impl.hh).  \<open>Cache_LRU\<close>: the invariant of the tag store.  \<open>Cache_Lines\<close>,
    \<open>Cache_Coh\<close>: the relation between a cache over a memory and the array of bytes both stand for.
    \<open>Cache_Atomic\<close>, \<open>Cache_Access\<close>: every access keeps it.  \<open>Cache_Spec\<close> has the interfaces
    \<open>line_cache\<close> and \<open>array_port\<close>; \<open>Cache_New\<close> and \<open>Cache_Props\<close> discharge them from the construction of
    the cache on: lists of lines with LRU replacement, and more ways give more hits.
    \<open>Cache_Visit\<close>: a cache in front of a memory is transparent, but for one kind of write it loses.
  \<^item> \<open>Queens\<close>, \<open>Queens_Spec\<close>: hw1/queens.c and what it prints.
  \<^item> \<open>Intmath\<close>: base/intmath and bitfield.hh against their mathematical meaning.

  BOUNDS.  Functions that wait take fuel, and theorems state how much is enough: the polling loop of
  the driver (\<open>max_polls\<close>) and the simulation loop (\<open>step_room\<close>, \<open>main_rounds\<close>) follow from the
  longest run of a chip (\<open>max_period\<close>, \<open>max_rperiod\<close>, counted in \<open>Cnn_Safe\<close> and \<open>Rram_Net\<close>) and from
  bounds on one delay or step (\<open>max_delay\<close>, \<open>max_step\<close>, both \<open>2 ^ 32\<close>); times are 64-bit words and
  the theorems about them assume room below the wrap-around.

  NOT MODELLED, because the code is not the homework's or has no behaviour of its own: instruction
  sets and the execution of instructions (an instruction is an argument of a tick), the other CPU
  models, the timing path of the memory system with its queues, MSHRs and snoops, Ruby, devices, statistics,
  checkpoints, configuration, generated code and the vendored libraries.  Functions of the
  environment are arguments: file contents, random samples, latencies, mmap.
\<close>

end
